(* ===== verification/Prelude.thy ===== *)
theory Prelude
  imports Main "HOL-Library.Sublist" "HOL-Library.Multiset" "HOL-Library.List_Lexorder"
begin

text \<open>
  Shared vocabulary of the development: Go strings as byte lists with the functions of the
  \<open>strings\<close> package that the sources call, the containers they use, and the generic lemmas
  about them. A Go \<open>string\<close> is a sequence of bytes, which is what \<open>char list\<close> is.
  \<open>strings.ToLower\<close>, \<open>strings.EqualFold\<close> and \<open>strings.TrimSpace\<close> are modelled on the
  ASCII range: bytes from 128 upwards are left alone (the identifiers, actions, ARNs and
  status words compared in the sources are ASCII).
\<close>

named_theorems go_defs "definitions that unfold to the body of a Go function"

section \<open>Strings\<close>

type_synonym go_error = string

definition lower_char :: "char \<Rightarrow> char" where
  "lower_char c =
     (let n = (of_char c :: nat) in if 65 \<le> n \<and> n \<le> 90 then char_of (n + 32) else c)"

definition to_lower :: "string \<Rightarrow> string" where
  "to_lower s = map lower_char s"

definition equal_fold :: "string \<Rightarrow> string \<Rightarrow> bool" where
  "equal_fold a b \<longleftrightarrow> to_lower a = to_lower b"

abbreviation has_prefix :: "string \<Rightarrow> string \<Rightarrow> bool" where
  "has_prefix s p \<equiv> prefix p s"

abbreviation has_suffix :: "string \<Rightarrow> string \<Rightarrow> bool" where
  "has_suffix s p \<equiv> suffix p s"

definition contains_str :: "string \<Rightarrow> string \<Rightarrow> bool" where
  "contains_str s sub \<longleftrightarrow> (\<exists>t \<in> set (suffixes s). prefix sub t)"

definition trim_prefix :: "string \<Rightarrow> string \<Rightarrow> string" where
  "trim_prefix s p = (if prefix p s then drop (length p) s else s)"

definition trim_suffix :: "string \<Rightarrow> string \<Rightarrow> string" where
  "trim_suffix s p = (if suffix p s then take (length s - length p) s else s)"

definition is_space :: "char \<Rightarrow> bool" where
  "is_space c \<longleftrightarrow> c = CHR '' '' \<or> (let n = (of_char c :: nat) in 9 \<le> n \<and> n \<le> 13)"

definition trim_space :: "string \<Rightarrow> string" where
  "trim_space s = rev (dropWhile is_space (rev (dropWhile is_space s)))"

text \<open>\<open>strings.Split\<close> on a one-byte separator: always at least one field.\<close>

fun split_on :: "char \<Rightarrow> string \<Rightarrow> string list" where
  "split_on c [] = [[]]"
| "split_on c (x # xs) =
     (if x = c then [] # split_on c xs
      else (case split_on c xs of [] \<Rightarrow> [[x]] | f # fs \<Rightarrow> (x # f) # fs))"

text \<open>\<open>strings.SplitN\<close> for a positive number of fields: the last field keeps the rest.\<close>

fun split_n :: "char \<Rightarrow> nat \<Rightarrow> string \<Rightarrow> string list" where
  "split_n c n [] = [[]]"
| "split_n c n (x # xs) =
     (if n \<le> 1 then [x # xs]
      else if x = c then [] # split_n c (n - 1) xs
      else (case split_n c n xs of [] \<Rightarrow> [[x]] | f # fs \<Rightarrow> (x # f) # fs))"

fun join_with :: "string \<Rightarrow> string list \<Rightarrow> string" where
  "join_with sep [] = []"
| "join_with sep [x] = x"
| "join_with sep (x # y # ys) = x @ sep @ join_with sep (y # ys)"

text \<open>\<open>strings.ReplaceAll\<close> with a one-byte pattern.\<close>

definition replace_char :: "char \<Rightarrow> string \<Rightarrow> string \<Rightarrow> string" where
  "replace_char c w s = concat (map (\<lambda>x. if x = c then w else [x]) s)"

text \<open>\<open>strings.IndexByte\<close> and \<open>strings.LastIndexByte\<close>; \<open>None\<close> is the result -1.\<close>

fun index_byte :: "string \<Rightarrow> char \<Rightarrow> nat option" where
  "index_byte [] c = None"
| "index_byte (x # xs) c = (if x = c then Some 0 else map_option Suc (index_byte xs c))"

definition last_index_byte :: "string \<Rightarrow> char \<Rightarrow> nat option" where
  "last_index_byte s c =
     (case index_byte (rev s) c of None \<Rightarrow> None | Some i \<Rightarrow> Some (length s - Suc i))"

section \<open>Lemmas on strings\<close>

lemma to_lower_simps [simp]:
  "to_lower [] = []"
  "to_lower (x # xs) = lower_char x # to_lower xs"
  "length (to_lower s) = length s"
  by (simp_all add: to_lower_def)

lemma equal_fold_refl [simp]: "equal_fold a a"
  by (simp add: equal_fold_def)

lemma equal_fold_trans: "equal_fold a b \<Longrightarrow> equal_fold a c \<Longrightarrow> equal_fold b c"
  by (simp add: equal_fold_def)

lemma split_on_nonempty [simp]: "split_on c s \<noteq> []"
  by (induction s) (auto split: list.splits)

lemma split_n_nonempty [simp]: "split_n c n s \<noteq> []"
  by (induction c n s rule: split_n.induct) (auto split: list.splits)

lemma join_with_Cons: "xs \<noteq> [] \<Longrightarrow> join_with sep (x # xs) = x @ sep @ join_with sep xs"
  by (cases xs) auto

lemma join_with_push: "fs \<noteq> [] \<Longrightarrow> join_with sep ((x # hd fs) # tl fs) = x # join_with sep fs"
  by (cases fs rule: list.exhaust [case_names Nil Cons]; cases "tl fs") auto

text \<open>Splitting and joining on the same byte gives the string back.\<close>

lemma join_split_n: "join_with [c] (split_n c n s) = s"
proof (induction c n s rule: split_n.induct)
  case (2 c n x xs)
  show ?case
  proof (cases "n \<le> 1 \<or> x = c")
    case True
    with 2 show ?thesis by (auto simp: join_with_Cons)
  next
    case False
    obtain f fs where f: "split_n c n xs = f # fs"
      using split_n_nonempty [of c n xs] by (cases "split_n c n xs") auto
    with False 2 have "join_with [c] (f # fs) = xs" by simp
    with False f join_with_push [of "f # fs" "[c]" x] show ?thesis by simp
  qed
qed simp

lemma replace_char_simps [simp]:
  "replace_char c w [] = []"
  "replace_char c w (x # xs) = (if x = c then w @ replace_char c w xs else x # replace_char c w xs)"
  by (simp_all add: replace_char_def)

lemma index_byte_Some: "index_byte s c = Some i \<Longrightarrow> i < length s \<and> s ! i = c \<and> c \<notin> set (take i s)"
  by (induction s arbitrary: i) (auto split: if_splits)

lemma index_byte_None: "index_byte s c = None \<longleftrightarrow> c \<notin> set s"
  by (induction s) auto

section \<open>Lists and options\<close>

text \<open>Go slices that act as sets: append when absent, in first-seen order.\<close>

definition add_once :: "'a \<Rightarrow> 'a list \<Rightarrow> 'a list" where
  "add_once x xs = (if x \<in> set xs then xs else xs @ [x])"

lemma set_add_once [simp]: "set (add_once x xs) = insert x (set xs)"
  by (auto simp: add_once_def)

lemma distinct_add_once [simp]: "distinct (add_once x xs) = distinct xs"
  by (auto simp: add_once_def)

text \<open>A nil-able pointer in a slice: the loops skip the nil entries.\<close>

definition somes :: "'a option list \<Rightarrow> 'a list" where
  "somes xs = List.map_filter (\<lambda>x. x) xs"

lemma somes_simps [simp]:
  "somes [] = []" "somes (None # xs) = somes xs" "somes (Some x # xs) = x # somes xs"
  by (simp_all add: somes_def List.map_filter_def)

lemma somes_append [simp]: "somes (xs @ ys) = somes xs @ somes ys"
  by (induction xs) (auto simp: somes_def List.map_filter_def)

lemma set_somes: "set (somes xs) = {x. Some x \<in> set xs}"
  by (induction xs) (auto simp: somes_def List.map_filter_def split: option.splits)

section \<open>Maps with an order\<close>

text \<open>A Go map whose iteration matters: an association list, in the order a \<open>range\<close> visits it;
  \<open>map_of\<close> reads it and \<open>put\<close> assigns to a key.\<close>

fun put :: "'k \<Rightarrow> 'v \<Rightarrow> ('k \<times> 'v) list \<Rightarrow> ('k \<times> 'v) list" where
  "put k v [] = [(k, v)]"
| "put k v ((k', v') # m) = (if k' = k then (k, v) # m else (k', v') # put k v m)"

lemma map_of_put [simp]: "map_of (put k v m) j = (if j = k then Some v else map_of m j)"
  by (induction k v m rule: put.induct) auto

lemma keys_put: "map fst (put k v m) = (if k \<in> fst ` set m then map fst m else map fst m @ [k])"
  by (induction k v m rule: put.induct) auto

lemma distinct_put [simp]: "distinct (map fst m) \<Longrightarrow> distinct (map fst (put k v m))"
  by (auto simp: keys_put)

lemma set_put: "kv \<in> set (put k v m) \<Longrightarrow> kv = (k, v) \<or> kv \<in> set m"
  by (induction k v m rule: put.induct) (auto split: if_splits)

section \<open>Values and numerals\<close>

text \<open>What \<open>encoding/json\<close> decodes into an \<open>any\<close>; a number is an integer here.\<close>

datatype json =
    JNull
  | JBool bool
  | JNum int
  | JStr string
  | JArr "json list"
  | JObj "(string \<times> json) list"

text \<open>\<open>%d\<close>: the decimal numeral of an integer.\<close>

definition digit_char :: "nat \<Rightarrow> char" where
  "digit_char d = char_of (48 + d)"

fun dec_nat :: "nat \<Rightarrow> string" where
  "dec_nat n = (if n < 10 then [digit_char n] else dec_nat (n div 10) @ [digit_char (n mod 10)])"

definition dec_int :: "int \<Rightarrow> string" where
  "dec_int i = (if i < 0 then CHR ''-'' # dec_nat (nat (- i)) else dec_nat (nat i))"

declare dec_nat.simps [simp del]

text \<open>A string literal of the sources that is not ASCII, by its UTF-8 bytes.\<close>

definition utf8 :: "nat list \<Rightarrow> string" where
  "utf8 bs = map char_of bs"

section \<open>Sorting\<close>

text \<open>\<open>sort.Slice\<close> with a less-than test: modelled by a stable insertion sort (Go's sort may order
  elements of equal rank either way).\<close>

fun insert_by :: "('a \<Rightarrow> 'a \<Rightarrow> bool) \<Rightarrow> 'a \<Rightarrow> 'a list \<Rightarrow> 'a list" where
  "insert_by lt x [] = [x]"
| "insert_by lt x (y # ys) = (if lt y x then y # insert_by lt x ys else x # y # ys)"

definition sort_by :: "('a \<Rightarrow> 'a \<Rightarrow> bool) \<Rightarrow> 'a list \<Rightarrow> 'a list" where
  "sort_by lt xs = foldr (insert_by lt) xs []"

lemma mset_insert_by [simp]: "mset (insert_by lt x xs) = add_mset x (mset xs)"
  by (induction xs) auto

lemma mset_sort_by [simp]: "mset (sort_by lt xs) = mset xs"
  by (induction xs) (auto simp: sort_by_def)

lemma set_sort_by [simp]: "set (sort_by lt xs) = set xs"
  using mset_sort_by [of lt xs] by (rule mset_eq_setD)

lemma sort_by_Nil_iff [simp]: "sort_by lt xs = [] \<longleftrightarrow> xs = []"
  using mset_sort_by [of lt xs] by (metis mset_zero_iff)

text \<open>For a strict weak order the result is in order: nothing stands after what it is less than.\<close>

definition weak_order :: "('a \<Rightarrow> 'a \<Rightarrow> bool) \<Rightarrow> bool" where
  "weak_order lt \<longleftrightarrow>
     (\<forall>x y. lt x y \<longrightarrow> \<not> lt y x) \<and> (\<forall>x y z. \<not> lt y x \<longrightarrow> \<not> lt z y \<longrightarrow> \<not> lt z x)"

lemma weak_orderD:
  assumes "weak_order lt"
  shows "lt a b \<Longrightarrow> \<not> lt b a" and "\<not> lt b a \<Longrightarrow> \<not> lt c b \<Longrightarrow> \<not> lt c a"
proof -
  note w = assms [unfolded weak_order_def]
  show "lt a b \<Longrightarrow> \<not> lt b a" by (rule w [THEN conjunct1, rule_format])
  show "\<not> lt b a \<Longrightarrow> \<not> lt c b \<Longrightarrow> \<not> lt c a" by (rule w [THEN conjunct2, rule_format])
qed

lemma sorted_insert_by:
  "weak_order lt \<Longrightarrow> sorted_wrt (\<lambda>x y. \<not> lt y x) xs \<Longrightarrow>
    sorted_wrt (\<lambda>x y. \<not> lt y x) (insert_by lt x xs)"
proof (induction xs)
  case (Cons y ys)
  have asym: "lt a b \<Longrightarrow> \<not> lt b a" and trans: "\<not> lt b a \<Longrightarrow> \<not> lt c b \<Longrightarrow> \<not> lt c a" for a b c
    using weak_orderD [OF Cons.prems(1)] by iprover+
  have st: "set (insert_by lt x ys) = insert x (set ys)"
    using mset_insert_by [of lt x ys] by (metis set_mset_add_mset_insert set_mset_mset)
  have y: "\<not> lt z y" if "z \<in> set ys" for z
    using Cons.prems(2) that by simp
  show ?case
  proof (cases "lt y x")
    case True
    with Cons asym [OF True] y show ?thesis by (simp add: st)
  next
    case False
    with Cons.prems(2) trans [OF False y] show ?thesis by simp
  qed
qed simp

lemma sorted_sort_by: "weak_order lt \<Longrightarrow> sorted_wrt (\<lambda>x y. \<not> lt y x) (sort_by lt xs)"
  by (induction xs) (simp_all add: sort_by_def sorted_insert_by)

text \<open>Selecting and sorting commute, the sort being stable.\<close>

lemma filter_insert_by:
  assumes "weak_order lt" "sorted_wrt (\<lambda>x y. \<not> lt y x) ys"
  shows "filter P (insert_by lt x ys) = (if P x then insert_by lt x (filter P ys) else filter P ys)"
  using assms(2)
proof (induction ys)
  case (Cons y ys)
  show ?case
  proof (cases "lt y x")
    case False
    have "\<not> lt z x" if "z \<in> set ys" for z
      using weak_orderD(2) [OF assms(1) False] Cons.prems that by simp
    then have "insert_by lt x (filter P ys) = x # filter P ys"
      by (cases "filter P ys") (auto dest: filter_eq_ConsD)
    with False show ?thesis by simp
  qed (use Cons in simp)
qed simp

lemma filter_sort_by: "weak_order lt \<Longrightarrow> filter P (sort_by lt xs) = sort_by lt (filter P xs)"
proof (induction xs)
  case (Cons x xs)
  have "sort_by lt (x # xs) = insert_by lt x (sort_by lt xs)" by (simp add: sort_by_def)
  then show ?case
    using Cons filter_insert_by [OF Cons.prems sorted_sort_by [OF Cons.prems], of P x]
    by (simp add: sort_by_def)
qed (simp add: sort_by_def)

text \<open>Go compares strings byte by byte.\<close>

fun str_less :: "string \<Rightarrow> string \<Rightarrow> bool" where
  "str_less xs [] = False"
| "str_less [] (y # ys) = True"
| "str_less (x # xs) (y # ys) =
     ((of_char x :: nat) < of_char y \<or> x = y \<and> str_less xs ys)"

text \<open>It is the lexicographic order of the byte values, a strict linear order.\<close>

abbreviation codes :: "string \<Rightarrow> nat list" where
  "codes s \<equiv> map of_char s"

lemma str_less_codes: "str_less xs ys \<longleftrightarrow> codes xs < codes ys"
  by (induction xs ys rule: str_less.induct) (auto dest: injD [OF inj_of_char])

lemma weak_order_str: "weak_order (\<lambda>a b. str_less (f a) (f b))"
  by (auto simp: weak_order_def str_less_codes)

section \<open>Machines\<close>

text \<open>
  Several components are a state with operations that each keep one invariant: the contract
  is stated once, with what it gives for a run of operations in any order.
\<close>

locale machine =
  fixes step :: "'s \<Rightarrow> 'e \<Rightarrow> 's"
    and inv :: "'s \<Rightarrow> bool"
  assumes step_inv: "inv s \<Longrightarrow> inv (step s e)"
begin

lemma run_inv: "inv s \<Longrightarrow> inv (foldl step s es)"
  by (induction es arbitrary: s) (auto intro: step_inv)

text \<open>A relation that every step keeps is kept by every run.\<close>

lemma run_rel:
  assumes "\<And>s e. inv s \<Longrightarrow> R s (step s e)"
    and "\<And>s. R s s" and "\<And>s t u. R s t \<Longrightarrow> R t u \<Longrightarrow> R s u"
    and "inv s"
  shows "R s (foldl step s es)"
  using \<open>inv s\<close> by (induction es arbitrary: s) (auto intro: assms step_inv)

end

section \<open>Access evaluators\<close>

text \<open>
  The three cloud evaluators (internal/cloudiam, internal/azureiam, internal/gcpiam) answer with
  a decision and a flag "the allow is conditional", and a client that prunes the attack graph
  keeps an edge when \<open>allowed || cond\<close>. The contract: only an allow is ever conditional.
\<close>

locale access_evaluator =
  fixes authorize :: "'req \<Rightarrow> 'ps \<Rightarrow> 'dec \<times> bool"
    and allow :: "'dec"
    and permits :: "'req \<Rightarrow> 'ps \<Rightarrow> bool \<times> bool"
  assumes permits_eq: "permits r p = (fst (authorize r p) = allow, snd (authorize r p))"
    and cond_allow: "snd (authorize r p) \<Longrightarrow> fst (authorize r p) = allow"
begin

lemma keeps_iff_allow: "fst (permits r p) \<or> snd (permits r p) \<longleftrightarrow> fst (authorize r p) = allow"
  using cond_allow by (auto simp: permits_eq)

lemma refuses_iff: "\<not> (fst (permits r p) \<or> snd (permits r p)) \<longleftrightarrow> fst (authorize r p) \<noteq> allow"
  by (simp add: keeps_iff_allow)

lemma ex_keeps_iff:
  "list_ex (\<lambda>r. fst (permits r p) \<or> snd (permits r p)) rs \<longleftrightarrow>
     (\<exists>r \<in> set rs. fst (authorize r p) = allow)"
  by (simp add: list_ex_iff keeps_iff_allow)

end

end
