(* ===== verification/Glob.thy ===== *)
theory Glob
  imports Prelude
begin

text \<open>
  The IAM glob matcher of internal/cloudiam/policy.go: \<open>globMatch\<close> is a loop over two
  indexes with one remembered backtracking point. The loop is modelled index by index; the
  reference semantics \<open>glob\<close> is the usual recursive one.
\<close>

section \<open>The loop of the source\<close>

text \<open>The trailing loop \<open>for pi < len(pattern) && pattern[pi] == '*' { pi++ }\<close> and its test.\<close>

definition glob_tail :: "string \<Rightarrow> nat \<Rightarrow> bool" where
  "glob_tail p i = (dropWhile (\<lambda>c. c = CHR ''*'') (drop i p) = [])"

text \<open>
  The main loop: \<open>si\<close>, \<open>pi\<close>, \<open>star\<close> (\<open>None\<close> is -1) and \<open>ss\<close> are the variables of the
  source. The literal test comes before the test for a star, as in the source.
\<close>

function glob_loop :: "string \<Rightarrow> string \<Rightarrow> nat \<Rightarrow> nat \<Rightarrow> nat option \<Rightarrow> nat \<Rightarrow> bool" where
  "glob_loop p s si pi star ss =
     (if si < length s then
        if pi < length p \<and> (p ! pi = CHR ''?'' \<or> p ! pi = s ! si)
        then glob_loop p s (Suc si) (Suc pi) star ss
        else if pi < length p \<and> p ! pi = CHR ''*''
        then glob_loop p s si (Suc pi) (Some pi) si
        else (case star of
                Some st \<Rightarrow> glob_loop p s (Suc ss) (Suc st) star (Suc ss)
              | None \<Rightarrow> False)
      else glob_tail p pi)"
  by pat_completeness auto
termination
  by (relation "measures
      [\<lambda>(p, s, si, pi, star, ss). (case star of None \<Rightarrow> 0 | Some st \<Rightarrow> if st < pi \<and> ss \<le> si then 0 else 1),
       \<lambda>(p, s, si, pi, star, ss). (case star of None \<Rightarrow> Suc (length p) | Some st \<Rightarrow> length p - st),
       \<lambda>(p, s, si, pi, star, ss). length s - ss,
       \<lambda>(p, s, si, pi, star, ss). (length s - si) + (length p - pi)]")
    (auto split: option.splits if_splits)

declare glob_loop.simps [simp del]

definition globMatch :: "string \<Rightarrow> string \<Rightarrow> bool" where
  "globMatch p s = glob_loop p s 0 0 None 0"

definition globMatchFold :: "string \<Rightarrow> string \<Rightarrow> bool" where
  "globMatchFold p s = globMatch (to_lower p) (to_lower s)"

section \<open>The reference semantics\<close>

fun glob :: "string \<Rightarrow> string \<Rightarrow> bool" where
  "glob [] s = (s = [])"
| "glob (x # p) [] = (x = CHR ''*'' \<and> glob p [])"
| "glob (x # p) (c # s) =
     (if x = CHR ''*'' then glob p (c # s) \<or> glob (x # p) s
      else (x = CHR ''?'' \<or> x = c) \<and> glob p s)"

lemma glob_star_Nil: "glob p [] = (dropWhile (\<lambda>c. c = CHR ''*'') p = [])"
  by (induction p) auto

lemma glob_star: "glob (CHR ''*'' # p) s = (\<exists>t. suffix t s \<and> glob p t)"
proof (induction s)
  case Nil
  then show ?case by simp
next
  case (Cons c s)
  then show ?case by (auto simp: suffix_Cons)
qed

lemma glob_star_drop: "glob (CHR ''*'' # p) (drop i s) = (\<exists>k\<ge>i. glob p (drop k s))"
proof -
  have "suffix t (drop i s) \<Longrightarrow> \<exists>k\<ge>i. t = drop k s" for t
    by (metis drop_drop le_add2 suffix_drop suffix_def append_eq_conv_conj)
  moreover have "i \<le> k \<Longrightarrow> suffix (drop k s) (drop i s)" for k
    by (metis drop_drop le_add_diff_inverse2 suffix_drop)
  ultimately show ?thesis unfolding glob_star by blast
qed

lemma glob_append: "glob p s \<Longrightarrow> glob q t \<Longrightarrow> glob (p @ q) (s @ t)"
proof (induction p s rule: glob.induct)
  case (1 s)
  then show ?case by simp
next
  case (2 x p)
  then show ?case by (auto simp: glob_star)
next
  case (3 x p c s)
  then show ?case by (auto split: if_splits)
qed

text \<open>Every string is in its own pattern, and a star is in the language of everything.\<close>

lemma glob_self: "glob p p"
proof (induction p)
  case Nil
  then show ?case by simp
next
  case (Cons x p)
  have "glob [x] [x]" by simp
  from glob_append [OF this Cons] show ?case by simp
qed

lemma glob_star_any: "glob ''*'' s"
  by (simp add: glob_star suffix_bot.extremum exI [of _ "[]"])

text \<open>A part of a pattern without stars consumes exactly its own length.\<close>

lemma glob_no_star_prefix:
  assumes "CHR ''*'' \<notin> set p" and "glob (p @ q) s"
  shows "length p \<le> length s \<and> glob q (drop (length p) s)"
  using assms
proof (induction p arbitrary: s)
  case Nil
  then show ?case by simp
next
  case (Cons x p)
  then show ?case by (cases s) (auto split: if_splits)
qed

section \<open>The loop computes the reference semantics\<close>

text \<open>
  What the loop state stands for: a match from the current position, or one obtained by
  letting the remembered star absorb more of the subject.
\<close>

definition retry :: "string \<Rightarrow> string \<Rightarrow> nat option \<Rightarrow> nat \<Rightarrow> bool" where
  "retry p s star ss =
     (case star of None \<Rightarrow> False | Some st \<Rightarrow> \<exists>k>ss. glob (drop (Suc st) p) (drop k s))"

text \<open>Soundness needs no hypothesis: what the loop accepts is in the language.\<close>

lemma glob_step_match:
  assumes "pi < length p" "si < length s" "p ! pi = CHR ''?'' \<or> p ! pi = s ! si"
    and "glob (drop (Suc pi) p) (drop (Suc si) s)"
  shows "glob (drop pi p) (drop si s)"
proof -
  have "drop pi p = p ! pi # drop (Suc pi) p" "drop si s = s ! si # drop (Suc si) s"
    using assms(1,2) by (simp_all add: Cons_nth_drop_Suc)
  then show ?thesis using assms(3,4) by (auto simp: glob_star suffix_Cons)
qed

text \<open>One iteration of the loop, by the three guards.\<close>

lemma glob_loop_end: "\<not> si < length s \<Longrightarrow> glob_loop p s si pi star ss = glob_tail p pi"
  by (subst glob_loop.simps) simp

lemma glob_loop_lit:
  "si < length s \<Longrightarrow> pi < length p \<and> (p ! pi = CHR ''?'' \<or> p ! pi = s ! si) \<Longrightarrow>
    glob_loop p s si pi star ss = glob_loop p s (Suc si) (Suc pi) star ss"
  by (subst glob_loop.simps) simp

lemma glob_loop_star:
  "si < length s \<Longrightarrow> \<not> (pi < length p \<and> (p ! pi = CHR ''?'' \<or> p ! pi = s ! si)) \<Longrightarrow>
    pi < length p \<and> p ! pi = CHR ''*'' \<Longrightarrow>
    glob_loop p s si pi star ss = glob_loop p s si (Suc pi) (Some pi) si"
  by (subst glob_loop.simps) auto

lemma glob_loop_back:
  "si < length s \<Longrightarrow> \<not> (pi < length p \<and> (p ! pi = CHR ''?'' \<or> p ! pi = s ! si)) \<Longrightarrow>
    \<not> (pi < length p \<and> p ! pi = CHR ''*'') \<Longrightarrow>
    glob_loop p s si pi star ss =
      (case star of Some st \<Rightarrow> glob_loop p s (Suc ss) (Suc st) star (Suc ss) | None \<Rightarrow> False)"
  by (subst glob_loop.simps) (auto split: option.splits)

lemma glob_loop_sound:
  "glob_loop p s si pi star ss \<Longrightarrow>
    si \<le> length s \<Longrightarrow> glob (drop pi p) (drop si s) \<or> retry p s star ss"
proof (induction p s si pi star ss rule: glob_loop.induct)
  case (1 p s si pi star ss)
  note run = "1.prems"(1)
  let ?lit = "pi < length p \<and> (p ! pi = CHR ''?'' \<or> p ! pi = s ! si)"
  let ?star = "pi < length p \<and> p ! pi = CHR ''*''"
  consider (fin) "\<not> si < length s" | (lit) "si < length s" "?lit"
    | (star) "si < length s" "\<not> ?lit" "?star" | (bt) "si < length s" "\<not> ?lit" "\<not> ?star"
    by blast
  then show ?case
  proof cases
    case fin
    with run have "glob_tail p pi" by (simp add: glob_loop_end)
    with fin show ?thesis by (simp add: glob_tail_def glob_star_Nil)
  next
    case lit
    with run "1.IH"(1) [OF lit] glob_loop_lit [OF lit] have "glob (drop (Suc pi) p) (drop (Suc si) s) \<or> retry p s star ss"
      by simp
    with lit show ?thesis using glob_step_match by blast
  next
    case star
    with run "1.IH"(2) [OF star] glob_loop_star [OF star] have
      "glob (drop (Suc pi) p) (drop si s) \<or> retry p s (Some pi) si" by auto
    then have "\<exists>k\<ge>si. glob (drop (Suc pi) p) (drop k s)"
      by (auto simp: retry_def intro: less_imp_le)
    with star show ?thesis by (simp add: Cons_nth_drop_Suc [symmetric] glob_star_drop [symmetric])
  next
    case bt
    with run glob_loop_back [OF bt] obtain st where st: "star = Some st"
      and loop: "glob_loop p s (Suc ss) (Suc st) star (Suc ss)"
      by (auto split: option.splits)
    show ?thesis
    proof (cases "Suc ss \<le> length s")
      case True
      with "1.IH"(3) [OF bt st] loop st
      have "glob (drop (Suc st) p) (drop (Suc ss) s) \<or> retry p s (Some st) (Suc ss)"
        by simp
      with st show ?thesis unfolding retry_def by (auto intro: Suc_lessD)
    next
      case False
      with loop have "glob_tail p (Suc st)" by (simp add: glob_loop.simps [of p s "Suc ss"])
      with False have "glob (drop (Suc st) p) (drop (Suc ss) s)"
        by (simp add: glob_tail_def glob_star_Nil)
      with st show ?thesis unfolding retry_def by auto
    qed
  qed
qed

text \<open>
  Completeness needs a subject without stars: the source tests for an equal byte before it
  tests for a star, so a star of the pattern that meets a star of the subject consumes one
  byte and is never a wildcard. Then the part of the pattern between the remembered star
  and the current position has no star and has consumed exactly its own length.
\<close>

definition loop_inv :: "string \<Rightarrow> nat \<Rightarrow> nat \<Rightarrow> nat option \<Rightarrow> nat \<Rightarrow> bool" where
  "loop_inv p si pi star ss \<longleftrightarrow> pi \<le> length p \<and>
     (case star of None \<Rightarrow> True
      | Some st \<Rightarrow> st < pi \<and> ss \<le> si \<and> si - ss = pi - Suc st \<and>
          CHR ''*'' \<notin> set (drop (Suc st) (take pi p)))"

lemma loop_inv_lit:
  assumes "loop_inv p si pi star ss" "pi < length p" "p ! pi \<noteq> CHR ''*''"
  shows "loop_inv p (Suc si) (Suc pi) star ss"
  using assms by (auto simp: loop_inv_def take_Suc_conv_app_nth split: option.splits)

lemma retry_shift:
  assumes inv: "loop_inv p si pi (Some st) ss" and "retry p s (Some st) ss"
  obtains k where "k > ss" "si - ss \<le> length s - k" "glob (drop pi p) (drop (k + (si - ss)) s)"
proof -
  obtain k where k: "k > ss" and m: "glob (drop (Suc st) p) (drop k s)"
    using assms(2) by (auto simp: retry_def)
  define mid where "mid = drop (Suc st) (take pi p)"
  have len: "length mid = si - ss" and ns: "CHR ''*'' \<notin> set mid" and le: "Suc st \<le> pi" "pi \<le> length p"
    using inv by (auto simp: mid_def loop_inv_def)
  have "drop (Suc st) p = mid @ drop pi p"
    using le by (simp add: mid_def drop_take)
      (metis append_take_drop_id drop_drop le_add_diff_inverse2)
  with m have "glob (mid @ drop pi p) (drop k s)" by simp
  from glob_no_star_prefix [OF ns this] k that [of k] show thesis
    by (simp add: len add.commute)
qed

lemma retry_forget:
  assumes inv: "loop_inv p si pi (Some st) ss" and star: "pi < length p" "p ! pi = CHR ''*''"
    and "retry p s (Some st) ss"
  shows "glob (drop pi p) (drop si s)"
proof -
  obtain k where k: "k > ss" "glob (drop pi p) (drop (k + (si - ss)) s)"
    using retry_shift [OF inv assms(4)] by metis
  have p: "drop pi p = CHR ''*'' # drop (Suc pi) p"
    using star by (simp add: Cons_nth_drop_Suc [symmetric])
  have "si \<le> k + (si - ss)" using k inv by (auto simp: loop_inv_def)
  with k(2) show ?thesis unfolding p glob_star_drop by (meson order_trans)
qed

lemma glob_loop_complete:
  "CHR ''*'' \<notin> set s \<Longrightarrow> loop_inv p si pi star ss \<Longrightarrow> si \<le> length s \<Longrightarrow>
    glob (drop pi p) (drop si s) \<or> retry p s star ss \<Longrightarrow> glob_loop p s si pi star ss"
proof (induction p s si pi star ss rule: glob_loop.induct)
  case (1 p s si pi star ss)
  note ns = "1.prems"(1) and inv = "1.prems"(2) and le = "1.prems"(3) and goal = "1.prems"(4)
  let ?lit = "pi < length p \<and> (p ! pi = CHR ''?'' \<or> p ! pi = s ! si)"
  let ?star = "pi < length p \<and> p ! pi = CHR ''*''"
  have Cp: "pi < length p \<Longrightarrow> drop pi p = p ! pi # drop (Suc pi) p"
    and Cs: "si < length s \<Longrightarrow> drop si s = s ! si # drop (Suc si) s"
    by (simp_all add: Cons_nth_drop_Suc)
  consider (fin) "\<not> si < length s" | (lit) "si < length s" "?lit"
    | (star) "si < length s" "\<not> ?lit" "?star" | (bt) "si < length s" "\<not> ?lit" "\<not> ?star"
    by blast
  then show ?case
  proof cases
    case fin
    have "glob (drop pi p) []"
    proof (cases "glob (drop pi p) (drop si s)")
      case True
      with fin show ?thesis by simp
    next
      case False
      with goal obtain st where st: "star = Some st" "retry p s (Some st) ss"
        by (auto simp: retry_def split: option.splits)
      with retry_shift obtain k where k: "k > ss" "si - ss \<le> length s - k"
        "glob (drop pi p) (drop (k + (si - ss)) s)"
        using inv by metis
      have "length s \<le> k + (si - ss)" using k(1) fin by simp
      with k(3) show ?thesis by simp
    qed
    with fin show ?thesis by (simp add: glob_loop_end glob_tail_def glob_star_Nil)
  next
    case lit
    have nst: "p ! pi \<noteq> CHR ''*''" using lit ns nth_mem by fastforce
    have "glob (drop pi p) (drop si s) \<Longrightarrow> glob (drop (Suc pi) p) (drop (Suc si) s)"
      using lit nst by (simp add: Cp Cs)
    with goal have "glob (drop (Suc pi) p) (drop (Suc si) s) \<or> retry p s star ss" by blast
    with "1.IH"(1) [OF lit ns loop_inv_lit [OF inv _ nst]] lit glob_loop_lit [OF lit]
    show ?thesis by simp
  next
    case star
    have "glob (drop pi p) (drop si s)"
      using goal star inv by (cases star) (auto simp: retry_def [of p s None] intro: retry_forget)
    then have "\<exists>k\<ge>si. glob (drop (Suc pi) p) (drop k s)"
      using star by (simp add: Cp glob_star_drop)
    then have "glob (drop (Suc pi) p) (drop si s) \<or> retry p s (Some pi) si"
      by (auto simp: retry_def le_less)
    moreover have "loop_inv p si (Suc pi) (Some pi) si"
      using star by (simp add: loop_inv_def)
    ultimately show ?thesis
      using "1.IH"(2) [OF star ns] le glob_loop_star [OF star] by simp
  next
    case bt
    have "\<not> glob (drop pi p) (drop si s)"
      using bt by (cases "pi < length p") (auto simp: Cp Cs)
    with goal obtain st where st: "star = Some st" and r: "retry p s (Some st) ss"
      by (auto simp: retry_def split: option.splits)
    from r have "glob (drop (Suc st) p) (drop (Suc ss) s) \<or> retry p s (Some st) (Suc ss)"
      unfolding retry_def by simp (metis Suc_lessI)
    moreover have "loop_inv p (Suc ss) (Suc st) (Some st) (Suc ss)"
      using inv st by (auto simp: loop_inv_def)
    moreover have "Suc ss \<le> length s" using inv st bt(1) by (auto simp: loop_inv_def)
    ultimately show ?thesis
      using "1.IH"(3) [OF bt st ns] st glob_loop_back [OF bt] by simp
  qed
qed

lemma globMatch_sound: "globMatch p s \<Longrightarrow> glob p s"
  using glob_loop_sound [of p s 0 0 None 0] by (simp add: globMatch_def retry_def)

lemma globMatch_complete: "CHR ''*'' \<notin> set s \<Longrightarrow> glob p s \<Longrightarrow> globMatch p s"
  using glob_loop_complete [of s p 0 0 None 0] by (simp add: globMatch_def loop_inv_def)

lemma globMatch_eq: "CHR ''*'' \<notin> set s \<Longrightarrow> globMatch p s = glob p s"
  using globMatch_sound globMatch_complete by blast

section \<open>Properties\<close>

text \<open>C38: \<open>globMatch\<close> decides the IAM pattern language: a match of the loop is always a match of the
  reference semantics (no false positives on any input), and on every subject without a literal
  star the two agree, whatever stars and question marks the pattern has.\<close>

theorem globMatch_decides_glob:
  "(globMatch p s \<longrightarrow> glob p s) \<and> (CHR ''*'' \<notin> set s \<longrightarrow> globMatch p s = glob p s)"
  using globMatch_sound globMatch_eq by blast

theorem globMatch_decides_glob_witness:
  "glob ''arn:*:s?/*'' ''arn:aws:s3/a/b'' \<and> \<not> globMatch ''a*b?'' ''aab''"
proof
  have "globMatch ''arn:*:s?/*'' ''arn:aws:s3/a/b''" by code_simp
  with globMatch_decides_glob [of "''arn:*:s?/*''" "''arn:aws:s3/a/b''"]
  show "glob ''arn:*:s?/*'' ''arn:aws:s3/a/b''" by blast
  have "CHR ''*'' \<notin> set ''aab''" "\<not> glob ''a*b?'' ''aab''" by code_simp+
  with globMatch_decides_glob [of "''a*b?''" "''aab''"] show "\<not> globMatch ''a*b?'' ''aab''" by blast
qed

text \<open>The side condition is needed: a star of the subject is taken for a literal match of the
  pattern's star, which is then lost as a wildcard.\<close>

lemma literal_star_eats_wildcard: "glob ''*'' ''*a'' \<and> \<not> globMatch ''*'' ''*a''"
  by code_simp

end
