(* ===== verification/IamPolicy.thy ===== *)
theory IamPolicy
  imports Glob
begin

text \<open>
  internal/cloudiam/policy.go and the condition half of internal/cloudiam/authorize.go: AWS
  policy documents, statement matching, condition evaluation and the single-document-set
  decision \<open>Eval\<close>.

  A document is the decoded value (\<open>encoding/json\<close> and \<open>Parse\<close> are not modelled): a raw
  JSON field is the JSON value it decodes to, \<open>None\<close> when the field is absent. A Go map is an
  association list in the order an iteration visits it; the order is arbitrary in Go, and
  \<open>evalCondition_order\<close> shows that the answer does not depend on it. Times are nanoseconds
  since the epoch. The clock and the text parsers of \<open>time\<close> and \<open>net\<close> are the fields of an
  \<open>iam_env\<close>, a parameter of every definition that uses them.
\<close>

section \<open>Documents\<close>

type_synonym context_map = "string \<rightharpoonup> string"
type_synonym condition_block = "(string \<times> json) list"

record statement =
  Effect :: string
  Action :: "string list"
  NotAction :: "string list"
  Resource :: "string list"
  NotResource :: "string list"
  Principal :: "json option"
  Condition :: condition_block

record document =
  Version :: string
  Statement :: "statement list"

datatype decision = ImplicitDeny | Allow | ExplicitDeny

text \<open>
  What the evaluator asks of its environment: the clock, \<open>time.Parse\<close> for a layout and a
  value, \<open>net.ParseIP\<close> and \<open>net.ParseCIDR\<close> combined with \<open>Equal\<close> and \<open>Contains\<close>.
\<close>

record iam_env =
  env_now :: int
  env_parse_time :: "string \<Rightarrow> string \<Rightarrow> int option"
  env_ip_ok :: "string \<Rightarrow> bool"
  env_ip_equal :: "string \<Rightarrow> string \<Rightarrow> bool"
  env_cidr_contains :: "string \<Rightarrow> string \<Rightarrow> bool"

section \<open>Matching a statement\<close>

definition actionMatch :: "string list \<Rightarrow> string list \<Rightarrow> string \<Rightarrow> bool" where
  "actionMatch actions notActions action =
     (if notActions \<noteq> [] then \<not> list_ex (\<lambda>p. globMatchFold p action) notActions
      else list_ex (\<lambda>p. globMatchFold p action) actions)"

definition resourceMatch :: "string list \<Rightarrow> string list \<Rightarrow> string \<Rightarrow> bool" where
  "resourceMatch resources notResources resource =
     (if resources = [] \<and> notResources = [] then True
      else if notResources \<noteq> [] then \<not> list_ex (\<lambda>p. globMatch p resource) notResources
      else list_ex (\<lambda>p. globMatch p resource) resources)"

definition stmt_matches :: "statement \<Rightarrow> string \<Rightarrow> string \<Rightarrow> bool" where
  "stmt_matches st action resource \<longleftrightarrow>
     actionMatch (Action st) (NotAction st) action \<and>
     resourceMatch (Resource st) (NotResource st) resource"

abbreviation is_deny :: "statement \<Rightarrow> bool" where
  "is_deny st \<equiv> equal_fold (Effect st) ''Deny''"

abbreviation is_allow :: "statement \<Rightarrow> bool" where
  "is_allow st \<equiv> equal_fold (Effect st) ''Allow''"

lemma deny_not_allow: "is_deny st \<Longrightarrow> \<not> is_allow st"
  by (auto simp: equal_fold_def lower_char_def)

section \<open>Condition operators\<close>

text \<open>\<open>strconv.ParseInt(v, 10, 64)\<close>: an optional sign and decimal digits, in range.\<close>

definition digit_of :: "char \<Rightarrow> int option" where
  "digit_of c = (let n = (of_char c :: int) in if 48 \<le> n \<and> n \<le> 57 then Some (n - 48) else None)"

fun digits_value :: "int \<Rightarrow> string \<Rightarrow> int option" where
  "digits_value acc [] = Some acc"
| "digits_value acc (c # cs) =
     (case digit_of c of None \<Rightarrow> None | Some d \<Rightarrow> digits_value (10 * acc + d) cs)"

definition parse_int64 :: "string \<Rightarrow> int option" where
  "parse_int64 v =
     (let neg = (take 1 v = ''-'');
          body = (case v of [] \<Rightarrow> [] | c # cs \<Rightarrow> if c = CHR ''-'' \<or> c = CHR ''+'' then cs else v)
      in if body = [] then None
         else case digits_value 0 body of None \<Rightarrow> None
              | Some n \<Rightarrow> (let m = (if neg then - n else n) in
                  if - (2 ^ 63) \<le> m \<and> m < 2 ^ 63 then Some m else None))"

definition time_layouts :: "string list" where
  "time_layouts =
     [''2006-01-02T15:04:05Z07:00'', ''2006-01-02T15:04:05Z0700'', ''2006-01-02T15:04:05'',
      ''2006-01-02'']"

fun first_layout :: "(string \<Rightarrow> string \<Rightarrow> int option) \<Rightarrow> string list \<Rightarrow> string \<Rightarrow> int option" where
  "first_layout parse [] v = None"
| "first_layout parse (l # ls) v =
     (case parse l v of Some t \<Rightarrow> Some t | None \<Rightarrow> first_layout parse ls v)"

definition parseIAMTime :: "iam_env \<Rightarrow> string \<Rightarrow> int option" where
  "parseIAMTime env v0 =
     (let v = trim_space v0
      in case parse_int64 v of Some n \<Rightarrow> Some (n * 1000000000)
         | None \<Rightarrow> first_layout (env_parse_time env) time_layouts v)"

definition dateOps :: "string list" where
  "dateOps = [''DateEquals'', ''DateNotEquals'', ''DateLessThan'', ''DateLessThanEquals'',
     ''DateGreaterThan'', ''DateGreaterThanEquals'']"

definition date_op :: "string \<Rightarrow> int \<Rightarrow> int \<Rightarrow> bool" where
  "date_op op t b =
     (if op = ''DateEquals'' then t = b
      else if op = ''DateNotEquals'' then t \<noteq> b
      else if op = ''DateLessThan'' then t < b
      else if op = ''DateLessThanEquals'' then \<not> t > b
      else if op = ''DateGreaterThan'' then t > b
      else if op = ''DateGreaterThanEquals'' then \<not> t < b
      else False)"

text \<open>\<open>dateMatch\<close>: (match, known); \<open>seen\<close> is the variable \<open>any\<close>.\<close>

fun dateMatch_from :: "iam_env \<Rightarrow> string \<Rightarrow> int \<Rightarrow> bool \<Rightarrow> string list \<Rightarrow> bool \<times> bool" where
  "dateMatch_from env op t seen [] = (if \<not> seen then (False, False) else (False, True))"
| "dateMatch_from env op t seen (v # vs) =
     (case parseIAMTime env v of
        None \<Rightarrow> (False, False)
      | Some b \<Rightarrow> if date_op op t b then (True, True) else dateMatch_from env op t True vs)"

definition dateMatch :: "iam_env \<Rightarrow> string \<Rightarrow> int \<Rightarrow> string list \<Rightarrow> bool \<times> bool" where
  "dateMatch env op t vals = dateMatch_from env op t False vals"

definition requestTimeKeys :: "string list" where
  "requestTimeKeys = [''aws:currenttime'', ''aws:epochtime'', ''aws:tokenissuetime'']"

definition evalRequestTimeCondition ::
  "iam_env \<Rightarrow> string \<Rightarrow> string \<Rightarrow> string list \<Rightarrow> int \<Rightarrow> bool \<times> bool" where
  "evalRequestTimeCondition env op key vals now =
     (if to_lower key \<notin> set requestTimeKeys then (False, False)
      else if op \<in> set dateOps then dateMatch env op now vals
      else (False, False))"

definition ipInAny :: "iam_env \<Rightarrow> string \<Rightarrow> string list \<Rightarrow> bool" where
  "ipInAny env ipStr cidrs =
     (if \<not> env_ip_ok env ipStr then False
      else list_ex (\<lambda>c. if \<not> contains_str c ''/'' then env_ip_equal env ipStr c
                        else env_cidr_contains env c ipStr) cidrs)"

definition matchOp :: "iam_env \<Rightarrow> string \<Rightarrow> string \<Rightarrow> string list \<Rightarrow> bool \<times> bool" where
  "matchOp env op ctxVal vals =
     (if op \<in> {''Bool'', ''StringEquals'', ''StringEqualsIgnoreCase'', ''ArnEquals''} then
        (list_ex (\<lambda>v. if equal_fold op ''StringEqualsIgnoreCase'' then equal_fold ctxVal v
                      else ctxVal = v) vals, True)
      else if op = ''StringNotEquals'' then (\<not> list_ex (\<lambda>v. ctxVal = v) vals, True)
      else if op \<in> {''StringLike'', ''ArnLike''} then
        (list_ex (\<lambda>v. globMatch v ctxVal) vals, True)
      else if op \<in> set dateOps then
        (case parseIAMTime env ctxVal of None \<Rightarrow> (False, False) | Some t \<Rightarrow> dateMatch env op t vals)
      else if op = ''IpAddress'' then (ipInAny env ctxVal vals, True)
      else if op = ''NotIpAddress'' then (\<not> ipInAny env ctxVal vals, True)
      else (False, False))"

definition toStrings :: "json \<Rightarrow> string list" where
  "toStrings v =
     (case v of JStr x \<Rightarrow> [x]
      | JArr xs \<Rightarrow> List.map_filter (\<lambda>e. case e of JStr s \<Rightarrow> Some s | _ \<Rightarrow> None) xs
      | _ \<Rightarrow> [])"

section \<open>A condition block\<close>

text \<open>
  \<open>evalCondition\<close> is a double loop with an early return. \<open>None\<close> is the early return
  (false, true); \<open>Some d\<close> is falling through with the variable \<open>decided\<close> equal to \<open>d\<close>.
\<close>

fun eval_keys :: "iam_env \<Rightarrow> context_map \<Rightarrow> string \<Rightarrow> (string \<times> json) list \<Rightarrow> bool \<Rightarrow> bool option" where
  "eval_keys env ctx op [] decided = Some decided"
| "eval_keys env ctx op ((key, val) # kvs) decided =
     (let vals = toStrings val in
      case ctx key of
        None \<Rightarrow>
          (let (sat, known) = evalRequestTimeCondition env op key vals (env_now env) in
           if known then (if \<not> sat then None else eval_keys env ctx op kvs decided)
           else eval_keys env ctx op kvs False)
      | Some ctxVal \<Rightarrow>
          (let (m, known) = matchOp env op ctxVal vals in
           if \<not> known then eval_keys env ctx op kvs False
           else if \<not> m then None
           else eval_keys env ctx op kvs decided))"

fun eval_ops :: "iam_env \<Rightarrow> context_map \<Rightarrow> condition_block \<Rightarrow> bool \<Rightarrow> bool option" where
  "eval_ops env ctx [] decided = Some decided"
| "eval_ops env ctx ((op, JObj kv) # rest) decided =
     (case eval_keys env ctx op kv decided of
        None \<Rightarrow> None | Some d \<Rightarrow> eval_ops env ctx rest d)"
| "eval_ops env ctx ((op, _) # rest) decided = eval_ops env ctx rest False"

text \<open>The result is (satisfied, evaluable).\<close>

definition evalCondition :: "iam_env \<Rightarrow> condition_block \<Rightarrow> context_map \<Rightarrow> bool \<times> bool" where
  "evalCondition env cond ctx =
     (if cond = [] then (True, True)
      else case eval_ops env ctx cond True of
             None \<Rightarrow> (False, True)
           | Some decided \<Rightarrow> if decided then (True, True) else (False, False))"

text \<open>\<open>conditionState\<close>: (applies, firm), without a request context.\<close>

definition conditionState :: "iam_env \<Rightarrow> condition_block \<Rightarrow> bool \<times> bool" where
  "conditionState env cond =
     (if cond = [] then (True, True)
      else let (satisfied, evaluable) = evalCondition env cond Map.empty in
           if \<not> evaluable then (True, False) else (satisfied, satisfied))"

section \<open>Eval\<close>

text \<open>
  The two nested loops run over the statements of the non-nil documents in order; the state is
  (allowed, conditional), and an explicit deny returns at once.
\<close>

fun eval_stmts ::
  "iam_env \<Rightarrow> string \<Rightarrow> string \<Rightarrow> statement list \<Rightarrow> bool \<Rightarrow> bool \<Rightarrow> decision \<times> bool" where
  "eval_stmts env action resource [] allowed conditional =
     (if allowed then (Allow, conditional) else (ImplicitDeny, False))"
| "eval_stmts env action resource (st # sts) allowed conditional =
     (if \<not> stmt_matches st action resource
      then eval_stmts env action resource sts allowed conditional
      else let (applies, firm) = conditionState env (Condition st) in
        if \<not> applies then eval_stmts env action resource sts allowed conditional
        else if is_deny st then
          (if \<not> firm then eval_stmts env action resource sts allowed True
           else (ExplicitDeny, False))
        else if is_allow st then
          eval_stmts env action resource sts True (if \<not> firm then True else conditional)
        else eval_stmts env action resource sts allowed conditional)"

definition statements_of :: "document option list \<Rightarrow> statement list" where
  "statements_of docs = concat (map Statement (somes docs))"

definition Eval :: "iam_env \<Rightarrow> string \<Rightarrow> string \<Rightarrow> document option list \<Rightarrow> decision \<times> bool" where
  "Eval env action resource docs =
     eval_stmts env action resource (statements_of docs) False False"

definition Allows :: "iam_env \<Rightarrow> string \<Rightarrow> string \<Rightarrow> document option list \<Rightarrow> bool \<times> bool" where
  "Allows env action resource docs =
     (let (dec, cond) = Eval env action resource docs in (dec = Allow, cond))"

section \<open>What a condition block means\<close>

text \<open>
  One clause (an operator, a key and its values) is decided to hold, decided to fail, or left
  open; the block fails when a clause fails, is open when none fails and one is open.
\<close>

datatype verdict = Holds | Fails | Open

definition key_verdict :: "iam_env \<Rightarrow> context_map \<Rightarrow> string \<Rightarrow> string \<times> json \<Rightarrow> verdict" where
  "key_verdict env ctx op kv =
     (let (m, known) =
        (case ctx (fst kv) of
           None \<Rightarrow> evalRequestTimeCondition env op (fst kv) (toStrings (snd kv)) (env_now env)
         | Some v \<Rightarrow> matchOp env op v (toStrings (snd kv)))
      in if \<not> known then Open else if m then Holds else Fails)"

definition op_verdicts :: "iam_env \<Rightarrow> context_map \<Rightarrow> string \<times> json \<Rightarrow> verdict list" where
  "op_verdicts env ctx c =
     (case snd c of JObj kv \<Rightarrow> map (key_verdict env ctx (fst c)) kv | _ \<Rightarrow> [Open])"

definition block_verdicts :: "iam_env \<Rightarrow> context_map \<Rightarrow> condition_block \<Rightarrow> verdict set" where
  "block_verdicts env ctx cond = (\<Union>c \<in> set cond. set (op_verdicts env ctx c))"

lemma block_verdicts_Cons [simp]:
  "block_verdicts env ctx [] = {}"
  "block_verdicts env ctx (c # cond) = set (op_verdicts env ctx c) \<union> block_verdicts env ctx cond"
  by (simp_all add: block_verdicts_def)

definition verdict_result :: "verdict set \<Rightarrow> bool \<times> bool" where
  "verdict_result vs =
     (if Fails \<in> vs then (False, True) else if Open \<in> vs then (False, False) else (True, True))"

lemma eval_keys_Cons:
  "eval_keys env ctx op (kv # kvs) decided =
     (case key_verdict env ctx op kv of
        Fails \<Rightarrow> None
      | Open \<Rightarrow> eval_keys env ctx op kvs False
      | Holds \<Rightarrow> eval_keys env ctx op kvs decided)"
  by (cases kv) (simp add: key_verdict_def Let_def split: option.split prod.split)

declare eval_keys.simps(2) [simp del]

lemma eval_keys_eq:
  "eval_keys env ctx op kvs decided =
     (if \<exists>kv \<in> set kvs. key_verdict env ctx op kv = Fails then None
      else Some (decided \<and> (\<forall>kv \<in> set kvs. key_verdict env ctx op kv \<noteq> Open)))"
proof (induction kvs arbitrary: decided)
  case Nil
  then show ?case by simp
next
  case (Cons kv kvs)
  show ?case
    by (cases "key_verdict env ctx op kv") (simp_all add: eval_keys_Cons Cons.IH)
qed

lemma eval_ops_Cons:
  "eval_ops env ctx (c # cond) decided =
     (let vs = set (op_verdicts env ctx c) in
      if Fails \<in> vs then None else eval_ops env ctx cond (decided \<and> Open \<notin> vs))"
proof (cases c)
  case (Pair op j)
  have eq: "(v \<in> key_verdict env ctx op ` A) = (\<exists>kv \<in> A. key_verdict env ctx op kv = v)" for v A
    by auto
  show ?thesis unfolding Pair
    by (cases j) (auto simp: op_verdicts_def eval_keys_eq eq Let_def)
qed

lemma eval_ops_eq:
  "eval_ops env ctx cond decided =
     (let vs = block_verdicts env ctx cond in
      if Fails \<in> vs then None else Some (decided \<and> Open \<notin> vs))"
proof (induction cond arbitrary: decided)
  case Nil
  then show ?case by simp
next
  case (Cons c cond)
  then show ?case by (simp add: eval_ops_Cons Let_def)
qed

lemma evalCondition_eq:
  "evalCondition env cond ctx = verdict_result (block_verdicts env ctx cond)"
  by (auto simp: evalCondition_def eval_ops_eq verdict_result_def block_verdicts_def Let_def)

text \<open>Two blocks that an iteration over the same Go maps can produce.\<close>

fun same_keys :: "json \<Rightarrow> json \<Rightarrow> bool" where
  "same_keys (JObj a) (JObj b) = (mset a = mset b)"
| "same_keys a b = (a = b)"

definition reordered :: "condition_block \<Rightarrow> condition_block \<Rightarrow> bool" where
  "reordered c d \<longleftrightarrow>
     (\<exists>e. mset e = mset c \<and> list_all2 (\<lambda>a b. fst a = fst b \<and> same_keys (snd a) (snd b)) e d)"

lemma same_keys_verdicts:
  "same_keys a b \<Longrightarrow> set (op_verdicts env ctx (op, a)) = set (op_verdicts env ctx (op, b))"
  by (induction a b rule: same_keys.induct)
    (auto simp: op_verdicts_def dest: mset_eq_setD)

lemma reordered_verdicts:
  assumes "reordered c d"
  shows "block_verdicts env ctx c = block_verdicts env ctx d"
proof -
  obtain e where e: "mset e = mset c"
    and l: "list_all2 (\<lambda>a b. fst a = fst b \<and> same_keys (snd a) (snd b)) e d"
    using assms by (auto simp: reordered_def)
  from l have "block_verdicts env ctx e = block_verdicts env ctx d"
  proof (induction rule: list_all2_induct)
    case Nil
    show ?case ..
  next
    case (Cons a as b bs)
    then have "set (op_verdicts env ctx a) = set (op_verdicts env ctx b)"
      using same_keys_verdicts [of "snd a" "snd b" env ctx "fst a"] by (cases a) simp
    with Cons.IH show ?case by simp
  qed
  moreover have "set e = set c" using e by (rule mset_eq_setD)
  ultimately show ?thesis by (simp add: block_verdicts_def)
qed

lemma conditionState_eq:
  "conditionState env cond =
     (let vs = block_verdicts env Map.empty cond
      in (Fails \<notin> vs, Fails \<notin> vs \<and> Open \<notin> vs))"
  by (auto simp: conditionState_def evalCondition_eq verdict_result_def block_verdicts_def Let_def)

section \<open>What Eval decides\<close>

definition fires :: "iam_env \<Rightarrow> string \<Rightarrow> string \<Rightarrow> statement \<Rightarrow> bool" where
  "fires env action resource st \<longleftrightarrow>
     stmt_matches st action resource \<and> fst (conditionState env (Condition st))"

definition firm :: "iam_env \<Rightarrow> statement \<Rightarrow> bool" where
  "firm env st \<longleftrightarrow> snd (conditionState env (Condition st))"

lemma eval_stmts_Cons:
  "eval_stmts env a r (st # sts) allowed conditional =
     (if \<not> fires env a r st then eval_stmts env a r sts allowed conditional
      else if is_deny st then
        (if firm env st then (ExplicitDeny, False) else eval_stmts env a r sts allowed True)
      else if is_allow st then eval_stmts env a r sts True (conditional \<or> \<not> firm env st)
      else eval_stmts env a r sts allowed conditional)"
  by (simp add: fires_def firm_def Let_def split: prod.split)

declare eval_stmts.simps(2) [simp del]

text \<open>The three questions the loop answers about a set of statements.\<close>

definition denies :: "iam_env \<Rightarrow> string \<Rightarrow> string \<Rightarrow> statement list \<Rightarrow> bool" where
  "denies env a r sts \<longleftrightarrow> (\<exists>st \<in> set sts. fires env a r st \<and> firm env st \<and> is_deny st)"

definition grants :: "iam_env \<Rightarrow> string \<Rightarrow> string \<Rightarrow> statement list \<Rightarrow> bool" where
  "grants env a r sts \<longleftrightarrow> (\<exists>st \<in> set sts. fires env a r st \<and> is_allow st)"

definition gated :: "iam_env \<Rightarrow> string \<Rightarrow> string \<Rightarrow> statement list \<Rightarrow> bool" where
  "gated env a r sts \<longleftrightarrow>
     (\<exists>st \<in> set sts. fires env a r st \<and> \<not> firm env st \<and> (is_deny st \<or> is_allow st))"

lemma eval_stmts_eq:
  "eval_stmts env a r sts allowed conditional =
     (if denies env a r sts then (ExplicitDeny, False)
      else if allowed \<or> grants env a r sts then (Allow, conditional \<or> gated env a r sts)
      else (ImplicitDeny, False))"
proof (induction sts arbitrary: allowed conditional)
  case Nil
  then show ?case by (simp add: denies_def grants_def gated_def)
next
  case (Cons st sts)
  have d: "denies env a r (st # sts) = (fires env a r st \<and> firm env st \<and> is_deny st \<or> denies env a r sts)"
    and g: "grants env a r (st # sts) = (fires env a r st \<and> is_allow st \<or> grants env a r sts)"
    and c: "gated env a r (st # sts) =
      (fires env a r st \<and> \<not> firm env st \<and> (is_deny st \<or> is_allow st) \<or> gated env a r sts)"
    by (simp_all add: denies_def grants_def gated_def)
  show ?case
    using deny_not_allow [of st] by (simp add: eval_stmts_Cons Cons.IH d g c)
qed

lemma Eval_eq:
  "Eval env a r docs =
     (let sts = statements_of docs in
      if denies env a r sts then (ExplicitDeny, False)
      else if grants env a r sts then (Allow, gated env a r sts)
      else (ImplicitDeny, False))"
  by (simp add: Eval_def eval_stmts_eq Let_def)

section \<open>Properties\<close>

text \<open>Deny overrides, in any order. \<open>Eval\<close> is an explicit deny exactly when some matching Deny
  statement firmly applies, else an allow exactly when some matching Allow statement applies,
  with the conditional flag set exactly when some matching statement was only possibly gating;
  neither the order of documents nor of statements can change the answer.\<close>

theorem eval_is_deny_overrides:
  "Eval env a r docs =
     (let live = filter (\<lambda>st. stmt_matches st a r \<and> fst (conditionState env (Condition st))) (statements_of docs);
          settled = (\<lambda>st. snd (conditionState env (Condition st)))
      in if list_ex (\<lambda>st. settled st \<and> is_deny st) live then (ExplicitDeny, False)
         else if list_ex is_allow live
         then (Allow, list_ex (\<lambda>st. \<not> settled st \<and> (is_deny st \<or> is_allow st)) live)
         else (ImplicitDeny, False))"
proof -
  have "denies env a r sts \<longleftrightarrow> list_ex (\<lambda>st. firm env st \<and> is_deny st) (filter (fires env a r) sts)"
    and "grants env a r sts \<longleftrightarrow> list_ex is_allow (filter (fires env a r) sts)"
    and "gated env a r sts \<longleftrightarrow>
      list_ex (\<lambda>st. \<not> firm env st \<and> (is_deny st \<or> is_allow st)) (filter (fires env a r) sts)" for sts
    by (auto simp: denies_def grants_def gated_def list_ex_iff)
  then show ?thesis
    by (simp add: Eval_eq Let_def fires_def [abs_def] firm_def [abs_def])
qed

text \<open>Go visits a map in an arbitrary order; a condition block gets the same answer in every
  order of its operators and of the keys below each operator, although the loop returns early.\<close>

theorem condition_order_is_irrelevant:
  assumes "reordered c d"
  shows "evalCondition env c ctx = evalCondition env d ctx"
  using reordered_verdicts [OF assms] by (simp add: evalCondition_eq)

definition sample_clauses :: condition_block where
  "sample_clauses =
     [(''StringLike'', JObj [(''aws:PrincipalArn'', JStr ''*''), (''aws:SourceVpc'', JStr ''v'')]),
      (''Bool'', JObj [(''aws:MultiFactorAuthPresent'', JStr ''true'')])]"

definition sample_clauses_reordered :: condition_block where
  "sample_clauses_reordered =
     [(''Bool'', JObj [(''aws:MultiFactorAuthPresent'', JStr ''true'')]),
      (''StringLike'', JObj [(''aws:SourceVpc'', JStr ''v''), (''aws:PrincipalArn'', JStr ''*'')])]"

theorem condition_order_is_irrelevant_witness:
  "\<forall>env. evalCondition env sample_clauses [''aws:MultiFactorAuthPresent'' \<mapsto> ''false''] =
   evalCondition env sample_clauses_reordered [''aws:MultiFactorAuthPresent'' \<mapsto> ''false'']"
proof (rule allI, rule condition_order_is_irrelevant)
  have "mset (rev sample_clauses) = mset sample_clauses" by simp
  moreover have "list_all2 (\<lambda>a b. fst a = fst b \<and> same_keys (snd a) (snd b))
      (rev sample_clauses) sample_clauses_reordered"
    by (simp add: sample_clauses_def sample_clauses_reordered_def)
  ultimately show "reordered sample_clauses sample_clauses_reordered"
    unfolding reordered_def by blast
qed

end
