(* ===== verification/IamAuthorize.thy ===== *)
theory IamAuthorize
  imports IamPolicy
begin

text \<open>
  internal/cloudiam/authorize.go: the full AWS decision, with resource policies, service control
  policies, the permission boundary and the request context. A nil document is \<open>None\<close>.
\<close>

section \<open>Requests and policy sets\<close>

record request =
  req_principal :: string
  req_action :: string
  req_resource :: string
  req_context :: context_map

record policy_set =
  Identity :: "document option list"
  Boundary :: "document option"
  SCPs :: "document option list"
  ResourcePolicy :: "document option"
  SameAccount :: bool

record scan =
  scan_allow :: bool
  scan_cond :: bool
  scan_deny :: bool

definition no_scan :: scan where
  "no_scan = \<lparr>scan_allow = False, scan_cond = False, scan_deny = False\<rparr>"

section \<open>Principals\<close>

definition accountOf :: "string \<Rightarrow> string" where
  "accountOf arn =
     (let parts = split_on CHR '':'' arn in if 5 \<le> length parts then parts ! 4 else [])"

definition rootCovers :: "string \<Rightarrow> string \<Rightarrow> bool" where
  "rootCovers grant princ =
     (if \<not> has_suffix grant '':root'' then False
      else let acct = accountOf grant in acct \<noteq> [] \<and> accountOf princ = acct)"

text \<open>
  \<open>json.Unmarshal\<close> into a string takes a string, and leaves "" on a null; into a slice of
  strings it takes an array whose elements are strings or null, and leaves nil on a null.
\<close>

definition json_string :: "json \<Rightarrow> string option" where
  "json_string j = (case j of JStr s \<Rightarrow> Some s | JNull \<Rightarrow> Some [] | _ \<Rightarrow> None)"

definition toStringsRaw :: "json \<Rightarrow> string list" where
  "toStringsRaw raw =
     (case json_string raw of
        Some one \<Rightarrow> [one]
      | None \<Rightarrow>
          (case raw of
             JArr xs \<Rightarrow>
               (if list_all (\<lambda>e. json_string e \<noteq> None) xs then List.map_filter json_string xs else [])
           | _ \<Rightarrow> []))"

definition aws_covers :: "string \<Rightarrow> string \<Rightarrow> bool" where
  "aws_covers princ p \<longleftrightarrow>
     p = ''*'' \<or> p = princ \<or> globMatch p princ \<or> rootCovers p princ"

definition federated_covers :: "string \<Rightarrow> string \<Rightarrow> bool" where
  "federated_covers princ p \<longleftrightarrow> p = ''*'' \<or> p = princ \<or> globMatch p princ"

text \<open>\<open>principalMatches\<close>: (matched, present).\<close>

definition principalMatches :: "json option \<Rightarrow> string \<Rightarrow> bool \<times> bool" where
  "principalMatches raw princ =
     (case raw of
        None \<Rightarrow> (False, False)
      | Some j \<Rightarrow>
          if j = JStr ''*'' then (True, True)
          else (case j of
            JObj (kv # kvs) \<Rightarrow>
              (let obj = kv # kvs in
               if (case map_of obj ''AWS'' of None \<Rightarrow> False
                   | Some aws \<Rightarrow> list_ex (aws_covers princ) (toStringsRaw aws)) then (True, True)
               else if (case map_of obj ''Federated'' of None \<Rightarrow> False
                   | Some fed \<Rightarrow> list_ex (federated_covers princ) (toStringsRaw fed)) then (True, True)
               else (False, True))
          | _ \<Rightarrow>
              (case json_string j of
                 Some one \<Rightarrow> (federated_covers princ one, True)
               | None \<Rightarrow> (False, True))))"

section \<open>Scanning the policies\<close>

definition applyStatement :: "iam_env \<Rightarrow> scan \<Rightarrow> statement \<Rightarrow> context_map \<Rightarrow> scan" where
  "applyStatement env r st ctx =
     (let (sat, evaluable) = evalCondition env (Condition st) ctx;
          uncond = (Condition st = [])
      in if is_deny st then
           (if uncond \<or> (evaluable \<and> sat) then r\<lparr>scan_deny := True\<rparr> else r)
         else if is_allow st then
           (if uncond \<or> (evaluable \<and> sat) then r\<lparr>scan_allow := True\<rparr>
            else if \<not> evaluable then r\<lparr>scan_cond := True\<rparr> else r)
         else r)"

definition scanIdentity :: "iam_env \<Rightarrow> request \<Rightarrow> document option list \<Rightarrow> scan" where
  "scanIdentity env req docs =
     foldl (\<lambda>r st. if \<not> stmt_matches st (req_action req) (req_resource req) then r
                   else applyStatement env r st (req_context req))
       no_scan (statements_of docs)"

definition scanResource :: "iam_env \<Rightarrow> request \<Rightarrow> document option \<Rightarrow> scan" where
  "scanResource env req d =
     (case d of
        None \<Rightarrow> no_scan
      | Some doc \<Rightarrow>
          foldl (\<lambda>r st.
              if \<not> stmt_matches st (req_action req) (req_resource req) then r
              else let (matched, present) = principalMatches (Principal st) (req_principal req) in
                if present \<and> \<not> matched then r
                else applyStatement env r st (req_context req))
            no_scan (Statement doc))"

definition ceilingStatement :: "scan \<Rightarrow> statement \<Rightarrow> scan" where
  "ceilingStatement r st =
     (if is_deny st then (if Condition st = [] then r\<lparr>scan_deny := True\<rparr> else r)
      else if is_allow st then r\<lparr>scan_allow := True\<rparr> else r)"

definition scanCeiling :: "request \<Rightarrow> document option list \<Rightarrow> scan" where
  "scanCeiling req docs =
     foldl (\<lambda>r st. if \<not> stmt_matches st (req_action req) (req_resource req) then r
                   else ceilingStatement r st)
       no_scan (statements_of docs)"

definition docsOf :: "document option \<Rightarrow> document option list" where
  "docsOf d = (case d of None \<Rightarrow> [] | Some _ \<Rightarrow> [d])"

section \<open>Authorize\<close>

definition Authorize :: "iam_env \<Rightarrow> request \<Rightarrow> policy_set \<Rightarrow> decision \<times> bool" where
  "Authorize env req ps =
     (let idn = scanIdentity env req (Identity ps);
          res = scanResource env req (ResourcePolicy ps);
          bnd = scanCeiling req (docsOf (Boundary ps));
          scp = scanCeiling req (SCPs ps)
      in if scan_deny idn \<or> scan_deny res \<or> scan_deny bnd \<or> scan_deny scp then (ExplicitDeny, False)
         else if SCPs ps \<noteq> [] \<and> \<not> scan_allow scp then (ImplicitDeny, False)
         else if Boundary ps \<noteq> None \<and> \<not> scan_allow bnd then (ImplicitDeny, False)
         else if SameAccount ps then
           (if scan_allow idn \<or> scan_allow res then (Allow, False)
            else if scan_cond idn \<or> scan_cond res then (Allow, True)
            else (ImplicitDeny, False))
         else if scan_allow idn \<and> scan_allow res then (Allow, False)
         else if (scan_allow idn \<or> scan_cond idn) \<and> (scan_allow res \<or> scan_cond res)
         then (Allow, True)
         else (ImplicitDeny, False))"

definition Permits :: "iam_env \<Rightarrow> request \<Rightarrow> policy_set \<Rightarrow> bool \<times> bool" where
  "Permits env req ps = (let (dec, cond) = Authorize env req ps in (dec = Allow, cond))"

section \<open>What the scans collect\<close>

definition satisfied :: "iam_env \<Rightarrow> context_map \<Rightarrow> statement \<Rightarrow> bool" where
  "satisfied env ctx st \<longleftrightarrow> fst (evalCondition env (Condition st) ctx)"

definition undecided :: "iam_env \<Rightarrow> context_map \<Rightarrow> statement \<Rightarrow> bool" where
  "undecided env ctx st \<longleftrightarrow> \<not> snd (evalCondition env (Condition st) ctx)"

lemma satisfied_decided: "satisfied env ctx st \<Longrightarrow> \<not> undecided env ctx st"
  by (auto simp: satisfied_def undecided_def evalCondition_eq verdict_result_def split: if_splits)

lemma no_condition: "Condition st = [] \<Longrightarrow> satisfied env ctx st"
  by (simp add: satisfied_def evalCondition_def)

text \<open>\<open>collect\<close> is what a scan of a list of covered statements amounts to.\<close>

definition collect :: "iam_env \<Rightarrow> context_map \<Rightarrow> statement list \<Rightarrow> scan" where
  "collect env ctx sts =
     \<lparr>scan_allow = list_ex (\<lambda>st. is_allow st \<and> satisfied env ctx st) sts,
      scan_cond = list_ex (\<lambda>st. is_allow st \<and> undecided env ctx st) sts,
      scan_deny = list_ex (\<lambda>st. is_deny st \<and> satisfied env ctx st) sts\<rparr>"

lemma applyStatement_eq:
  "applyStatement env r st ctx =
     \<lparr>scan_allow = scan_allow r \<or> is_allow st \<and> satisfied env ctx st,
      scan_cond = scan_cond r \<or> is_allow st \<and> undecided env ctx st,
      scan_deny = scan_deny r \<or> is_deny st \<and> satisfied env ctx st\<rparr>"
proof -
  have c: "(uncond \<or> evaluable \<and> sat) = sat"
    if "evalCondition env (Condition st) ctx = (sat, evaluable)" "uncond = (Condition st = [])"
    for sat evaluable uncond
    using that satisfied_decided [of env ctx st] no_condition [of st env ctx]
    by (auto simp: satisfied_def undecided_def)
  show ?thesis
    using deny_not_allow [of st] satisfied_decided [of env ctx st]
    by (cases r) (auto simp: applyStatement_def Let_def c satisfied_def undecided_def split: prod.splits)
qed

lemma foldl_applyStatement:
  "foldl (\<lambda>r st. if \<not> keep st then r else applyStatement env r st ctx) r sts =
     (let c = collect env ctx (filter keep sts) in
      \<lparr>scan_allow = scan_allow r \<or> scan_allow c, scan_cond = scan_cond r \<or> scan_cond c,
       scan_deny = scan_deny r \<or> scan_deny c\<rparr>)"
  by (induction sts arbitrary: r) (auto simp: applyStatement_eq collect_def Let_def)

lemma foldl_applyStatement_none:
  "foldl (\<lambda>r st. if \<not> keep st then r else applyStatement env r st ctx) no_scan sts =
     collect env ctx (filter keep sts)"
  by (cases "collect env ctx (filter keep sts)") (simp add: foldl_applyStatement no_scan_def Let_def)

definition identity_stmts :: "request \<Rightarrow> document option list \<Rightarrow> statement list" where
  "identity_stmts req docs =
     filter (\<lambda>st. stmt_matches st (req_action req) (req_resource req)) (statements_of docs)"

definition names_principal :: "request \<Rightarrow> statement \<Rightarrow> bool" where
  "names_principal req st =
     (let (matched, present) = principalMatches (Principal st) (req_principal req)
      in present \<longrightarrow> matched)"

definition resource_stmts :: "request \<Rightarrow> document option \<Rightarrow> statement list" where
  "resource_stmts req d =
     (case d of None \<Rightarrow> []
      | Some doc \<Rightarrow> filter (\<lambda>st. stmt_matches st (req_action req) (req_resource req) \<and>
                              names_principal req st) (Statement doc))"

lemma scanIdentity_eq:
  "scanIdentity env req docs = collect env (req_context req) (identity_stmts req docs)"
  by (simp only: scanIdentity_def foldl_applyStatement_none identity_stmts_def)

lemma scanResource_eq:
  "scanResource env req d = collect env (req_context req) (resource_stmts req d)"
proof (cases d)
  case None
  then show ?thesis by (simp add: scanResource_def resource_stmts_def collect_def no_scan_def)
next
  case (Some doc)
  let ?keep = "\<lambda>st. stmt_matches st (req_action req) (req_resource req) \<and> names_principal req st"
  have "(if \<not> stmt_matches st (req_action req) (req_resource req) then r
         else let (matched, present) = principalMatches (Principal st) (req_principal req) in
           if present \<and> \<not> matched then r else applyStatement env r st (req_context req)) =
        (if \<not> ?keep st then r else applyStatement env r st (req_context req))" for r st
    by (auto simp: names_principal_def split: prod.splits)
  then show ?thesis
    by (simp only: scanResource_def resource_stmts_def Some option.case foldl_applyStatement_none)
qed

lemma scanCeiling_eq:
  "scanCeiling req docs =
     \<lparr>scan_allow = list_ex is_allow (identity_stmts req docs), scan_cond = False,
      scan_deny = list_ex (\<lambda>st. is_deny st \<and> Condition st = []) (identity_stmts req docs)\<rparr>"
proof -
  have "foldl (\<lambda>r st. if \<not> stmt_matches st a x then r else ceilingStatement r st) r sts =
     (let ms = filter (\<lambda>st. stmt_matches st a x) sts in
      \<lparr>scan_allow = scan_allow r \<or> list_ex is_allow ms, scan_cond = scan_cond r,
       scan_deny = scan_deny r \<or> list_ex (\<lambda>st. is_deny st \<and> Condition st = []) ms\<rparr>)" for r a x sts
  proof (induction sts arbitrary: r)
    case Nil
    then show ?case by simp
  next
    case (Cons st sts)
    then show ?case
      using deny_not_allow [of st] by (auto simp: ceilingStatement_def Let_def)
  qed
  then show ?thesis by (simp add: scanCeiling_def identity_stmts_def no_scan_def Let_def)
qed

lemmas scan_eqs = scanIdentity_eq scanResource_eq scanCeiling_eq collect_def list_ex_iff

section \<open>What Authorize decides\<close>

text \<open>The questions of the decision order, over the statements that cover the request.\<close>

definition explicit_deny :: "iam_env \<Rightarrow> request \<Rightarrow> policy_set \<Rightarrow> bool" where
  "explicit_deny env req ps \<longleftrightarrow>
     (\<exists>st \<in> set (identity_stmts req (Identity ps)) \<union> set (resource_stmts req (ResourcePolicy ps)).
        is_deny st \<and> satisfied env (req_context req) st) \<or>
     (\<exists>st \<in> set (identity_stmts req (docsOf (Boundary ps))) \<union> set (identity_stmts req (SCPs ps)).
        is_deny st \<and> Condition st = [])"

definition ceilings_allow :: "request \<Rightarrow> policy_set \<Rightarrow> bool" where
  "ceilings_allow req ps \<longleftrightarrow>
     (SCPs ps \<noteq> [] \<longrightarrow> (\<exists>st \<in> set (identity_stmts req (SCPs ps)). is_allow st)) \<and>
     (Boundary ps \<noteq> None \<longrightarrow> (\<exists>st \<in> set (identity_stmts req (docsOf (Boundary ps))). is_allow st))"

definition side_allow :: "iam_env \<Rightarrow> context_map \<Rightarrow> statement list \<Rightarrow> bool" where
  "side_allow env ctx sts \<longleftrightarrow> (\<exists>st \<in> set sts. is_allow st \<and> satisfied env ctx st)"

definition side_maybe :: "iam_env \<Rightarrow> context_map \<Rightarrow> statement list \<Rightarrow> bool" where
  "side_maybe env ctx sts \<longleftrightarrow>
     (\<exists>st \<in> set sts. is_allow st \<and> (satisfied env ctx st \<or> undecided env ctx st))"

text \<open>\<open>join_sides\<close>: the union rule inside an account, both sides across accounts.\<close>

definition join_sides :: "policy_set \<Rightarrow> bool \<Rightarrow> bool \<Rightarrow> bool" where
  "join_sides ps idn res = (if SameAccount ps then idn \<or> res else idn \<and> res)"

lemma Authorize_eq:
  "Authorize env req ps =
     (let idn = identity_stmts req (Identity ps); res = resource_stmts req (ResourcePolicy ps);
          ctx = req_context req
      in if explicit_deny env req ps then (ExplicitDeny, False)
         else if \<not> ceilings_allow req ps then (ImplicitDeny, False)
         else if join_sides ps (side_allow env ctx idn) (side_allow env ctx res) then (Allow, False)
         else if join_sides ps (side_maybe env ctx idn) (side_maybe env ctx res) then (Allow, True)
         else (ImplicitDeny, False))"
proof -
  let ?ctx = "req_context req"
  have allow: "side_allow env ?ctx sts = scan_allow (collect env ?ctx sts)" for sts
    by (simp add: side_allow_def collect_def list_ex_iff)
  have maybe: "side_maybe env ?ctx sts =
      (scan_allow (collect env ?ctx sts) \<or> scan_cond (collect env ?ctx sts))" for sts
    by (auto simp: side_maybe_def collect_def list_ex_iff)
  have deny: "explicit_deny env req ps \<longleftrightarrow>
      scan_deny (scanIdentity env req (Identity ps)) \<or> scan_deny (scanResource env req (ResourcePolicy ps)) \<or>
      scan_deny (scanCeiling req (docsOf (Boundary ps))) \<or> scan_deny (scanCeiling req (SCPs ps))"
    unfolding explicit_deny_def scan_eqs by auto
  have ceil: "ceilings_allow req ps \<longleftrightarrow>
      (SCPs ps \<noteq> [] \<longrightarrow> scan_allow (scanCeiling req (SCPs ps))) \<and>
      (Boundary ps \<noteq> None \<longrightarrow> scan_allow (scanCeiling req (docsOf (Boundary ps))))"
    by (simp add: ceilings_allow_def scanCeiling_eq list_ex_iff)
  show ?thesis
    by (simp add: Authorize_def Let_def deny ceil allow maybe join_sides_def
        scanIdentity_eq [symmetric] scanResource_eq [symmetric])
qed

lemma conditional_only_allow: "snd (Authorize env req ps) \<Longrightarrow> fst (Authorize env req ps) = Allow"
  by (auto simp: Authorize_eq Let_def split: if_splits)

interpretation aws: access_evaluator "Authorize env" Allow "Permits env"
  by unfold_locales (simp_all add: Permits_def conditional_only_allow split: prod.split)

lemma Authorize_Allow_iff:
  "Authorize env req ps = (Allow, c) \<longleftrightarrow>
     (let idn = identity_stmts req (Identity ps); res = resource_stmts req (ResourcePolicy ps);
          ctx = req_context req
      in \<not> explicit_deny env req ps \<and> ceilings_allow req ps \<and>
         join_sides ps (side_maybe env ctx idn) (side_maybe env ctx res) \<and>
         c = (\<not> join_sides ps (side_allow env ctx idn) (side_allow env ctx res)))"
proof -
  have "side_allow env ctx sts \<Longrightarrow> side_maybe env ctx sts" for ctx sts
    by (auto simp: side_allow_def side_maybe_def)
  then show ?thesis
    by (auto simp: Authorize_eq Let_def join_sides_def)
qed

lemma identity_stmts_append:
  "identity_stmts req (ds @ es) = identity_stmts req ds @ identity_stmts req es"
  by (simp add: identity_stmts_def statements_of_def)

lemma side_append:
  "side_allow env ctx (xs @ ys) = (side_allow env ctx xs \<or> side_allow env ctx ys)"
  "side_maybe env ctx (xs @ ys) = (side_maybe env ctx xs \<or> side_maybe env ctx ys)"
  by (auto simp: side_allow_def side_maybe_def)

lemma deny_only_sides:
  assumes "list_all is_deny (Statement d)"
  shows "\<not> side_allow env ctx (identity_stmts req [Some d])"
    and "\<not> side_maybe env ctx (identity_stmts req [Some d])"
  using assms deny_not_allow
  by (auto simp: side_allow_def side_maybe_def identity_stmts_def statements_of_def list_all_iff)

lemma explicit_deny_append:
  "explicit_deny env req ps \<Longrightarrow>
    explicit_deny env req (ps\<lparr>Identity := Identity ps @ ds\<rparr>)"
  by (auto simp: explicit_deny_def identity_stmts_append)

text \<open>Adding a document that holds only Deny statements to a principal never widens its
  access: where the request is still allowed afterwards, it was allowed before, with the same
  answer to "is the allow conditional".\<close>

theorem authorize_deny_only_narrows:
  assumes "list_all is_deny (Statement d)"
    and "Authorize env req (ps\<lparr>Identity := Identity ps @ [Some d]\<rparr>) = (Allow, c)"
  shows "Authorize env req ps = (Allow, c)"
proof -
  let ?ps = "ps\<lparr>Identity := Identity ps @ [Some d]\<rparr>"
  have "ceilings_allow req ?ps = ceilings_allow req ps"
    "join_sides ?ps = join_sides ps"
    by (auto simp: ceilings_allow_def join_sides_def fun_eq_iff)
  with assms(2) explicit_deny_append [of env req ps "[Some d]"] deny_only_sides [OF assms(1)]
  show ?thesis
    by (auto simp: Authorize_Allow_iff Let_def identity_stmts_append side_append)
qed

lemma lift_ceilings:
  assumes "Authorize env req ps = (Allow, c)"
  shows "Authorize env req (ps\<lparr>Boundary := None, SCPs := []\<rparr>) = (Allow, c)"
proof -
  let ?ps = "ps\<lparr>Boundary := None, SCPs := []\<rparr>"
  have "\<not> explicit_deny env req ps \<Longrightarrow> \<not> explicit_deny env req ?ps"
    by (auto simp: explicit_deny_def docsOf_def identity_stmts_def statements_of_def)
  moreover have "ceilings_allow req ?ps" by (simp add: ceilings_allow_def)
  moreover have "join_sides ?ps = join_sides ps" by (auto simp: join_sides_def fun_eq_iff)
  ultimately show ?thesis using assms by (simp add: Authorize_Allow_iff Let_def)
qed

text \<open>C3: The decision order of AWS. A request is allowed exactly when no policy of any kind
  denies it outright, every attached ceiling (SCPs, boundary) has a covering Allow, and the
  identity side or (across accounts: and) the resource side has a covering Allow whose condition
  is not decided against; the allow is conditional exactly when it needs an undecided condition.\<close>

theorem authorize_decision_order:
  "Authorize env req ps = (Allow, c) \<longleftrightarrow>
     (let idn = identity_stmts req (Identity ps); res = resource_stmts req (ResourcePolicy ps);
          ctx = req_context req
      in \<not> explicit_deny env req ps \<and> ceilings_allow req ps \<and>
         join_sides ps (side_maybe env ctx idn) (side_maybe env ctx res) \<and>
         c = (\<not> join_sides ps (side_allow env ctx idn) (side_allow env ctx res)))"
  by (rule Authorize_Allow_iff)

text \<open>The permission boundary and the service control policies are ceilings: lifting both
  never takes an allowed request away, and a request allowed under them is allowed, with the
  same conditional flag, without them.\<close>

theorem authorize_ceilings_narrow:
  assumes "Authorize env req ps = (Allow, c)"
  shows "Authorize env req (ps\<lparr>Boundary := None, SCPs := []\<rparr>) = (Allow, c)"
  using assms by (rule lift_ceilings)

section \<open>Eval and Authorize\<close>

definition identity_only :: "document option list \<Rightarrow> policy_set" where
  "identity_only docs =
     \<lparr>Identity = docs, Boundary = None, SCPs = [], ResourcePolicy = None, SameAccount = True\<rparr>"

lemma firm_satisfied: "firm env st = satisfied env Map.empty st"
  by (auto simp: firm_def satisfied_def conditionState_eq evalCondition_eq verdict_result_def Let_def)

lemma applies_iff:
  "fst (conditionState env (Condition st)) \<longleftrightarrow>
     satisfied env Map.empty st \<or> undecided env Map.empty st"
  by (auto simp: satisfied_def undecided_def conditionState_eq evalCondition_eq
      verdict_result_def Let_def)

text \<open>The two evaluators agree: asked about the identity policies of one principal with no
  request context, \<open>Authorize\<close> reaches the decision of \<open>Eval\<close>, and whenever it calls the allow
  conditional so does \<open>Eval\<close>.\<close>

theorem authorize_agrees_with_eval:
  assumes "req_context req = Map.empty"
  shows "fst (Authorize env req (identity_only docs)) =
      fst (Eval env (req_action req) (req_resource req) docs) \<and>
    (snd (Authorize env req (identity_only docs)) \<longrightarrow>
      snd (Eval env (req_action req) (req_resource req) docs))"
proof -
  let ?sts = "statements_of docs" and ?a = "req_action req" and ?r = "req_resource req"
  let ?ps = "identity_only docs"
  have idn: "identity_stmts req (Identity ?ps) = filter (\<lambda>st. stmt_matches st ?a ?r) ?sts"
    and res: "resource_stmts req (ResourcePolicy ?ps) = []"
    by (simp_all add: identity_only_def identity_stmts_def resource_stmts_def)
  have d: "explicit_deny env req ?ps = denies env ?a ?r ?sts"
    unfolding explicit_deny_def idn res denies_def fires_def applies_iff firm_satisfied assms
    by (auto simp: identity_only_def docsOf_def identity_stmts_def statements_of_def)
  have m: "side_maybe env Map.empty (identity_stmts req (Identity ?ps)) = grants env ?a ?r ?sts"
    unfolding idn side_maybe_def grants_def fires_def applies_iff by auto
  have n: "side_maybe env Map.empty [] = False" "side_allow env Map.empty [] = False"
    by (simp_all add: side_maybe_def side_allow_def)
  have j: "join_sides ?ps x y = (x \<or> y)" "ceilings_allow req ?ps" for x y
    by (simp_all add: join_sides_def identity_only_def ceilings_allow_def)
  have s: "side_allow env Map.empty (identity_stmts req (Identity ?ps)) \<Longrightarrow> grants env ?a ?r ?sts"
    unfolding m [symmetric] by (auto simp: side_allow_def side_maybe_def)
  have g: "grants env ?a ?r ?sts \<Longrightarrow>
      \<not> side_allow env Map.empty (identity_stmts req (Identity ?ps)) \<Longrightarrow> gated env ?a ?r ?sts"
    unfolding idn side_allow_def grants_def gated_def fires_def firm_satisfied by auto
  show ?thesis
    using s g by (auto simp: Authorize_eq Eval_eq assms d m n j res Let_def)
qed

section \<open>Concrete policies\<close>

definition sample_env :: iam_env where
  "sample_env = \<lparr>env_now = 0, env_parse_time = (\<lambda>_ _. None), env_ip_ok = (\<lambda>_. False),
     env_ip_equal = (\<lambda>_ _. False), env_cidr_contains = (\<lambda>_ _. False)\<rparr>"

definition sample_stmt :: "string \<Rightarrow> string \<Rightarrow> condition_block \<Rightarrow> statement" where
  "sample_stmt effect action cond =
     \<lparr>Effect = effect, Action = [action], NotAction = [], Resource = [''*''], NotResource = [],
      Principal = None, Condition = cond\<rparr>"

definition sample_doc :: "statement list \<Rightarrow> document option" where
  "sample_doc sts = Some \<lparr>Version = [], Statement = sts\<rparr>"

definition sample_req :: request where
  "sample_req = \<lparr>req_principal = ''arn:aws:iam::1:user/a'', req_action = ''s3:GetObject'',
     req_resource = ''arn:aws:s3:::b/k'', req_context = Map.empty\<rparr>"

definition sample_ps :: policy_set where
  "sample_ps = \<lparr>Identity = [sample_doc [sample_stmt ''Allow'' ''s3:Get*'' []]],
     Boundary = sample_doc [sample_stmt ''Allow'' ''s3:*'' []],
     SCPs = [sample_doc [sample_stmt ''allow'' ''*'' []]],
     ResourcePolicy = None, SameAccount = True\<rparr>"

lemmas sample_defs = sample_env_def sample_stmt_def sample_doc_def sample_req_def sample_ps_def

theorem authorize_ceilings_narrow_witness:
  "Authorize sample_env sample_req sample_ps = (Allow, False) \<and>
   Authorize sample_env sample_req (sample_ps\<lparr>Boundary := None, SCPs := []\<rparr>) = (Allow, False)"
proof -
  have "Authorize sample_env sample_req sample_ps = (Allow, False)" by code_simp
  with authorize_ceilings_narrow [OF this] show ?thesis by simp
qed

theorem authorize_deny_only_narrows_witness:
  "Authorize sample_env sample_req sample_ps = (Allow, False)"
proof -
  let ?d = "\<lparr>Version = [], Statement = [sample_stmt ''Deny'' ''s3:Put*'' []]\<rparr>"
  have "list_all is_deny (Statement ?d)" by code_simp
  moreover have "Authorize sample_env sample_req
      (sample_ps\<lparr>Identity := Identity sample_ps @ [Some ?d]\<rparr>) = (Allow, False)" by code_simp
  ultimately show ?thesis by (rule authorize_deny_only_narrows)
qed

theorem authorize_agrees_with_eval_witness:
  "fst (Authorize sample_env sample_req (identity_only (Identity sample_ps))) = Allow \<and>
   fst (Eval sample_env ''s3:GetObject'' ''arn:aws:s3:::b/k'' (Identity sample_ps)) = Allow"
proof -
  have e: "fst (Eval sample_env ''s3:GetObject'' ''arn:aws:s3:::b/k'' (Identity sample_ps)) = Allow"
    by code_simp
  have c: "req_context sample_req = Map.empty" by (simp add: sample_req_def)
  from e authorize_agrees_with_eval [OF c, of sample_env "Identity sample_ps"]
  show ?thesis by (simp add: sample_req_def)
qed

end
