(* ===== verification/IamPrivesc.thy ===== *)
theory IamPrivesc
  imports IamAuthorize
begin

text \<open>
  internal/cloudiam/privesc.go and internal/cloudiam/candidates.go: the catalogue of privilege
  escalation techniques, the concrete resources a principal's grants reach, and the question
  "can this principal escalate?" asked of \<open>Authorize\<close>.
\<close>

section \<open>The catalogue\<close>

record technique =
  tech_name :: string
  tech_all :: "string list list"
  tech_note :: string

definition mk_technique :: "string \<Rightarrow> string list list \<Rightarrow> string \<Rightarrow> technique" where
  "mk_technique name groups note = \<lparr>tech_name = name, tech_all = groups, tech_note = note\<rparr>"

definition Techniques :: "technique list" where
  "Techniques =
    [mk_technique ''CreateNewPolicyVersion'' [[''iam:CreatePolicyVersion'']] [],
     mk_technique ''SetExistingDefaultPolicyVersion'' [[''iam:SetDefaultPolicyVersion'']] [],
     mk_technique ''CreateAccessKey'' [[''iam:CreateAccessKey'']] [],
     mk_technique ''CreateLoginProfile'' [[''iam:CreateLoginProfile'']] [],
     mk_technique ''UpdateLoginProfile'' [[''iam:UpdateLoginProfile'']] [],
     mk_technique ''AttachUserPolicy'' [[''iam:AttachUserPolicy'']] [],
     mk_technique ''AttachGroupPolicy'' [[''iam:AttachGroupPolicy'']] [],
     mk_technique ''AttachRolePolicy''
       [[''iam:AttachRolePolicy'']]
       ''requires being able to use the role afterwards (assume it, or reach a service that runs as it)'',
     mk_technique ''PutUserPolicy'' [[''iam:PutUserPolicy'']] [],
     mk_technique ''PutGroupPolicy'' [[''iam:PutGroupPolicy'']] [],
     mk_technique ''PutRolePolicy''
       [[''iam:PutRolePolicy'']]
       ''requires being able to use the role afterwards (assume it, or reach a service that runs as it)'',
     mk_technique ''AddUserToGroup'' [[''iam:AddUserToGroup'']] [],
     mk_technique ''PassRoleToNewLambda''
       [[''iam:PassRole''], [''lambda:CreateFunction''], [''lambda:InvokeFunction'']]
       [],
     mk_technique ''PassRoleToNewEC2'' [[''iam:PassRole''], [''ec2:RunInstances'']] [],
     mk_technique ''PassRoleToCloudFormation''
       [[''iam:PassRole''], [''cloudformation:CreateStack'']]
       [],
     mk_technique ''UpdateLambdaCode'' [[''lambda:UpdateFunctionCode'']] [],
     mk_technique ''UpdateAssumeRolePolicy''
       [[''iam:UpdateAssumeRolePolicy''], [''sts:AssumeRole'']]
       [],
     mk_technique ''PassRoleToNewGlueDevEndpoint''
       [[''iam:PassRole''], [''glue:CreateDevEndpoint''], [''glue:GetDevEndpoint'']]
       [],
     mk_technique ''UpdateExistingGlueDevEndpoint'' [[''glue:UpdateDevEndpoint'']] [],
     mk_technique ''PassRoleToNewDataPipeline''
       [[''iam:PassRole''], [''datapipeline:CreatePipeline''], [''datapipeline:PutPipelineDefinition'']]
       [],
     mk_technique ''PassRoleToNewSageMakerNotebook''
       [[''iam:PassRole''], [''sagemaker:CreateNotebookInstance''], [''sagemaker:CreatePresignedNotebookInstanceUrl'']]
       [],
     mk_technique ''SSMSendCommand''
       [[''ssm:SendCommand''], [''ec2:DescribeInstances'']]
       ''escalates to the target instance's role; requires an instance with a more privileged profile'',
     mk_technique ''SSMStartSession''
       [[''ssm:StartSession''], [''ec2:DescribeInstances'']]
       ''escalates to the target instance's role; requires an instance with a more privileged profile'',
     mk_technique ''EC2InstanceConnect''
       [[''ec2-instance-connect:SendSSHPublicKey'', ''ec2-instance-connect:SendSerialConsoleSSHPublicKey''], [''ec2:DescribeInstances'']]
       ''escalates to the target instance's role; requires network reach to the instance'',
     mk_technique ''PassRoleToNewCodeBuildProject''
       [[''iam:PassRole''], [''codebuild:CreateProject''], [''codebuild:StartBuild'', ''codebuild:StartBuildBatch'']]
       [],
     mk_technique ''PassRoleToSageMakerProcessingJob''
       [[''iam:PassRole''], [''sagemaker:CreateProcessingJob'']]
       [],
     mk_technique ''PassRoleToSageMakerTrainingJob''
       [[''iam:PassRole''], [''sagemaker:CreateTrainingJob'']]
       [],
     mk_technique ''SageMakerPresignedNotebookURL''
       [[''sagemaker:CreatePresignedNotebookInstanceUrl'']]
       ''escalates to an existing notebook's role; requires a notebook to exist'',
     mk_technique ''UpdateCloudFormationStack''
       [[''cloudformation:UpdateStack'']]
       ''escalates to the existing stack's role; requires a stack with a more privileged role'',
     mk_technique ''PassRoleToNewLambdaThenEventSource''
       [[''iam:PassRole''], [''lambda:CreateFunction''], [''lambda:CreateEventSourceMapping'']]
       [],
     mk_technique ''PassRoleToNewECSTask''
       [[''iam:PassRole''], [''ecs:RegisterTaskDefinition''], [''ecs:RunTask'', ''ecs:StartTask'']]
       ''requires a cluster with capacity to place the task on'',
     mk_technique ''PassRoleToNewGlueJob''
       [[''iam:PassRole''], [''glue:CreateJob''], [''glue:StartJobRun'', ''glue:CreateTrigger'']]
       [],
     mk_technique ''UpdateExistingGlueJob''
       [[''glue:UpdateJob''], [''glue:StartJobRun'', ''glue:CreateTrigger'']]
       ''escalates to the existing job's role; requires a job with a more privileged role'',
     mk_technique ''EC2UserDataModification''
       [[''ec2:ModifyInstanceAttribute''], [''ec2:StopInstances''], [''ec2:StartInstances'']]
       ''escalates to the target instance's profile role; requires an instance with a more privileged profile'']"

section \<open>Detection\<close>

definition CanDo :: "iam_env \<Rightarrow> string \<Rightarrow> document option list \<Rightarrow> bool" where
  "CanDo env action docs = fst (Allows env action ''*'' docs)"

fun satisfies_groups :: "(string \<Rightarrow> bool) \<Rightarrow> string list list \<Rightarrow> bool" where
  "satisfies_groups can [] = True"
| "satisfies_groups can (g # gs) =
     (let anyOK = list_ex can g in if \<not> anyOK then False else satisfies_groups can gs)"

definition satisfies :: "technique \<Rightarrow> (string \<Rightarrow> bool) \<Rightarrow> bool" where
  "satisfies t can = satisfies_groups can (tech_all t)"

definition DetectPrivesc :: "(string \<Rightarrow> bool) \<Rightarrow> technique list" where
  "DetectPrivesc can = filter (\<lambda>t. satisfies t can) Techniques"

section \<open>Candidate resources\<close>

definition target_name :: string where
  "target_name = ''tsengine-target''"

text \<open>\<open>ConcreteResource\<close>: the resource and the flag \<open>ok\<close>.\<close>

definition ConcreteResource :: "string \<Rightarrow> string \<Rightarrow> string \<times> bool" where
  "ConcreteResource pattern account =
     (if pattern = [] then ([], False)
      else if \<not> has_prefix pattern ''arn:'' then (replace_char CHR ''*'' target_name pattern, True)
      else let p = split_n CHR '':'' 6 pattern in
        if length p < 6 then (replace_char CHR ''*'' target_name pattern, True)
        else if p ! 4 = ''aws'' then ([], False)
        else let p1 = (if p ! 4 = [] \<or> p ! 4 = ''*'' then p[4 := account] else p);
                 p2 = map (\<lambda>i. if i = 4 then p1 ! i
                               else replace_char CHR ''*'' target_name (p1 ! i)) [0..<length p1];
                 p3 = (if p2 ! 1 = target_name then p2[1 := ''aws''] else p2)
             in (join_with '':'' p3, True))"

text \<open>The closure \<open>add\<close>: no empty resource, no resource twice.\<close>

definition add_candidate :: "string \<Rightarrow> string list \<Rightarrow> string list" where
  "add_candidate s out = (if s = [] then out else add_once s out)"

definition stmt_candidates :: "string \<Rightarrow> statement \<Rightarrow> string list \<Rightarrow> string list" where
  "stmt_candidates account st out =
     (if \<not> is_allow st then out
      else if Resource st = [] \<or> NotResource st \<noteq> [] then add_candidate ''*'' out
      else foldl (\<lambda>out r. if r = ''*'' then add_candidate ''*'' out
                          else let (c, ok) = ConcreteResource r account in
                            if ok then add_candidate c out else out)
             out (Resource st))"

definition CandidateResources :: "document option list \<Rightarrow> string \<Rightarrow> string list" where
  "CandidateResources docs account0 =
     (let account = (if account0 = [] then ''000000000000'' else account0)
      in foldl (\<lambda>out st. stmt_candidates account st out) [] (statements_of docs))"

section \<open>PrivescOf\<close>

definition request_on :: "string \<Rightarrow> string \<Rightarrow> string \<Rightarrow> request" where
  "request_on princ action res =
     \<lparr>req_principal = princ, req_action = action, req_resource = res, req_context = Map.empty\<rparr>"

definition allowOn ::
  "iam_env \<Rightarrow> string \<Rightarrow> policy_set \<Rightarrow> string list \<Rightarrow> bool \<Rightarrow> string \<Rightarrow> bool" where
  "allowOn env princ ps targets requireFirm a =
     list_ex (\<lambda>res. let (dec, cond) = Authorize env (request_on princ a res) ps
                    in dec = Allow \<and> (\<not> requireFirm \<or> \<not> cond)) targets"

definition PrivescOf :: "iam_env \<Rightarrow> string \<Rightarrow> policy_set \<Rightarrow> technique list \<times> bool" where
  "PrivescOf env princ ps =
     (let targets = CandidateResources (Identity ps) (accountOf princ)
      in if targets = [] then ([], False)
         else let techs = DetectPrivesc (allowOn env princ ps targets False)
              in if techs = [] then ([], False)
                 else (techs, DetectPrivesc (allowOn env princ ps targets True) \<noteq> []))"

section \<open>Lemmas on detection\<close>

lemma satisfies_iff: "satisfies t can \<longleftrightarrow> (\<forall>g \<in> set (tech_all t). \<exists>a \<in> set g. can a)"
proof -
  have "satisfies_groups can gs \<longleftrightarrow> (\<forall>g \<in> set gs. \<exists>a \<in> set g. can a)" for gs
    by (induction gs) (auto simp: list_ex_iff)
  then show ?thesis by (simp add: satisfies_def)
qed

lemma set_DetectPrivesc: "set (DetectPrivesc can) = {t \<in> set Techniques. satisfies t can}"
  by (auto simp: DetectPrivesc_def)

lemma DetectPrivesc_mono:
  "(\<And>a. can a \<Longrightarrow> can' a) \<Longrightarrow> set (DetectPrivesc can) \<subseteq> set (DetectPrivesc can')"
  unfolding set_DetectPrivesc satisfies_iff by blast

lemma allowOn_iff:
  "allowOn env princ ps targets requireFirm a \<longleftrightarrow>
     (\<exists>res \<in> set targets. \<exists>cond. Authorize env (request_on princ a res) ps = (Allow, cond) \<and>
        (requireFirm \<longrightarrow> \<not> cond))"
proof -
  have "(let (dec, cond) = x in dec = Allow \<and> (\<not> requireFirm \<or> \<not> cond)) \<longleftrightarrow>
      (\<exists>cond. x = (Allow, cond) \<and> (requireFirm \<longrightarrow> \<not> cond))" for x :: "decision \<times> bool"
    by (cases x) auto
  then show ?thesis by (simp add: allowOn_def list_ex_iff)
qed

lemma allowOn_firm: "allowOn env princ ps targets True a \<Longrightarrow> allowOn env princ ps targets False a"
  by (auto simp: allowOn_iff)

lemma PrivescOf_techs:
  "set (fst (PrivescOf env princ ps)) =
     set (DetectPrivesc (allowOn env princ ps (CandidateResources (Identity ps) (accountOf princ)) False))"
proof (cases "CandidateResources (Identity ps) (accountOf princ) = []")
  case True
  have "\<forall>t \<in> set Techniques. tech_all t \<noteq> []" by code_simp
  then have "t \<in> set Techniques \<Longrightarrow> \<not> satisfies t (allowOn env princ ps [] False)" for t
    unfolding satisfies_iff allowOn_iff by (auto simp: neq_Nil_conv)
  with True show ?thesis by (auto simp: PrivescOf_def set_DetectPrivesc)
next
  case False
  then show ?thesis by (simp add: PrivescOf_def Let_def)
qed

lemma PrivescOf_firm:
  "snd (PrivescOf env princ ps) \<longleftrightarrow>
     (\<exists>t \<in> set Techniques. satisfies t
        (allowOn env princ ps (CandidateResources (Identity ps) (accountOf princ)) True))"
proof -
  let ?ts = "CandidateResources (Identity ps) (accountOf princ)"
  have sub: "set (DetectPrivesc (allowOn env princ ps ?ts True)) \<subseteq> set (fst (PrivescOf env princ ps))"
    unfolding PrivescOf_techs by (rule DetectPrivesc_mono) (rule allowOn_firm)
  have "snd (PrivescOf env princ ps) \<longleftrightarrow> set (DetectPrivesc (allowOn env princ ps ?ts True)) \<noteq> {}"
    using sub by (auto simp: PrivescOf_def Let_def split: if_splits)
  then show ?thesis by (auto simp: set_DetectPrivesc)
qed

section \<open>Lemmas on candidates\<close>

lemma set_add_candidate: "set (add_candidate s out) = set out \<union> (if s = [] then {} else {s})"
  by (auto simp: add_candidate_def)

text \<open>What one statement contributes, in any order.\<close>

definition pattern_candidates :: "string \<Rightarrow> string \<Rightarrow> string set" where
  "pattern_candidates account r =
     (if r = ''*'' then {''*''} else {c. ConcreteResource r account = (c, True) \<and> c \<noteq> []})"

definition reached :: "string \<Rightarrow> statement \<Rightarrow> string set" where
  "reached account st =
     (if \<not> is_allow st then {}
      else if Resource st = [] \<or> NotResource st \<noteq> [] then {''*''}
      else \<Union>r \<in> set (Resource st). pattern_candidates account r)"

lemma foldl_candidates:
  "set (foldl (\<lambda>out r. if r = ''*'' then add_candidate ''*'' out
                      else let (c, ok) = ConcreteResource r account in
                        if ok then add_candidate c out else out) out rs) =
     set out \<union> (\<Union>r \<in> set rs. pattern_candidates account r)"
proof (induction rs arbitrary: out)
  case Nil
  then show ?case by simp
next
  case (Cons r rs)
  have "set (if r = ''*'' then add_candidate ''*'' out
          else let (c, ok) = ConcreteResource r account in if ok then add_candidate c out else out) =
      set out \<union> pattern_candidates account r"
    by (cases "ConcreteResource r account") (auto simp: set_add_candidate pattern_candidates_def)
  with Cons show ?case by auto
qed

lemma set_stmt_candidates:
  "set (stmt_candidates account st out) = set out \<union> reached account st"
  by (auto simp: stmt_candidates_def reached_def foldl_candidates set_add_candidate)

lemma set_CandidateResources:
  "set (CandidateResources docs account) =
     (\<Union>st \<in> set (statements_of docs).
        reached (if account = [] then ''000000000000'' else account) st)"
proof -
  have "set (foldl (\<lambda>out st. stmt_candidates a st out) out sts) =
      set out \<union> (\<Union>st \<in> set sts. reached a st)" for a out sts
    by (induction sts arbitrary: out) (auto simp: set_stmt_candidates)
  then show ?thesis by (simp add: CandidateResources_def)
qed

lemma glob_replace: "glob p (replace_char CHR ''*'' w p)"
proof (induction p)
  case Nil
  then show ?case by simp
next
  case (Cons x p)
  have "glob [x] (if x = CHR ''*'' then w else [x])" using glob_star_any [of w] by simp
  from glob_append [OF this Cons] show ?case by (cases "x = CHR ''*''") simp_all
qed

lemma glob_join:
  "list_all2 glob ps ss \<Longrightarrow> glob (join_with [c] ps) (join_with [c] ss)"
proof (induction ps arbitrary: ss rule: induct_list012)
  case 1
  then show ?case by simp
next
  case (2 p)
  then show ?case by (auto simp: list_all2_Cons1)
next
  case (3 p q ps)
  then obtain t ts where ss: "ss = t # ts" and h: "glob p t" and r: "list_all2 glob (q # ps) ts"
    by (auto simp: list_all2_Cons1)
  from r have "ts \<noteq> []" by auto
  have "glob ([c] @ join_with [c] (q # ps)) ([c] @ join_with [c] ts)"
    by (rule glob_append [OF glob_self "3.IH"(2) [OF r]])
  from glob_append [OF h this] \<open>ts \<noteq> []\<close> show ?case by (simp add: ss join_with_Cons)
qed

lemma concrete_matches:
  assumes "ConcreteResource pattern account = (c, True)"
    and fields: "p = split_n CHR '':'' 6 pattern"
    and "6 \<le> length p \<longrightarrow> p ! 4 \<noteq> [] \<and> p ! 1 \<noteq> target_name"
  shows "glob pattern c"
proof -
  define p1 where "p1 = (if p ! 4 = [] \<or> p ! 4 = ''*'' then p[4 := account] else p)"
  define p2 where "p2 = map (\<lambda>i. if i = 4 then p1 ! i
    else replace_char CHR ''*'' target_name (p1 ! i)) [0..<length p1]"
  define p3 where "p3 = (if p2 ! 1 = target_name then p2[1 := ''aws''] else p2)"
  show ?thesis
  proof (cases "has_prefix pattern ''arn:'' \<and> 6 \<le> length p")
    case False
    with assms(1) have "c = replace_char CHR ''*'' target_name pattern"
      unfolding fields by (auto simp: ConcreteResource_def Let_def split: if_splits)
    then show ?thesis by (simp add: glob_replace)
  next
    case True
    with assms(1) have c: "c = join_with '':'' p3"
      unfolding fields p3_def p2_def p1_def
      by (auto simp: ConcreteResource_def Let_def split: if_splits)
    have len: "length p3 = length p" "length p1 = length p" by (simp_all add: p3_def p2_def p1_def)
    from True assms(3) have fields_ok: "p ! 4 \<noteq> []" "p ! 1 \<noteq> target_name" by blast+
    have "glob (p ! i) (p3 ! i)" if "i < length p" for i
    proof (cases "i = 4")
      case True
      then have "p3 ! i = p1 ! i" using that len by (simp add: p3_def p2_def)
      with True that fields_ok show ?thesis
        using glob_star_any [of account] by (auto simp: p1_def glob_self)
    next
      case False
      then have 2: "p2 ! i = replace_char CHR ''*'' target_name (p ! i)"
        using that len by (simp add: p2_def p1_def)
      show ?thesis
      proof (cases "i = 1 \<and> p2 ! 1 = target_name")
        case True
        have "x = ''*''" if "replace_char CHR ''*'' target_name x = target_name" "x \<noteq> target_name" for x
        proof (cases "CHR ''*'' \<in> set x")
          case False
          then have "replace_char CHR ''*'' target_name x = x" by (induction x) auto
          with that show ?thesis by simp
        next
          case True
          then obtain u v where x: "x = u @ CHR ''*'' # v" by (auto simp: in_set_conv_decomp)
          have app: "replace_char CHR ''*'' target_name (a @ b) =
              replace_char CHR ''*'' target_name a @ replace_char CHR ''*'' target_name b" for a b
            by (simp add: replace_char_def)
          have nonempty: "replace_char CHR ''*'' target_name a = [] \<longleftrightarrow> a = []" for a
            by (cases a) (auto simp: target_name_def)
          have "replace_char CHR ''*'' target_name u = []" "replace_char CHR ''*'' target_name v = []"
            using arg_cong [OF that(1), of length] by (simp_all add: x app)
          with nonempty show ?thesis by (simp add: x)
        qed
        with True 2 fields_ok have "p ! i = ''*''" by auto
        then show ?thesis using glob_star_any by simp
      next
        case False
        then have "p3 ! i = p2 ! i" by (auto simp: p3_def)
        with 2 show ?thesis by (simp add: glob_replace)
      qed
    qed
    then have "list_all2 glob p p3" using len by (simp add: list_all2_conv_all_nth)
    from glob_join [OF this, of "CHR '':''"] show ?thesis
      by (simp add: c fields join_split_n)
  qed
qed

section \<open>Properties\<close>

text \<open>What \<open>PrivescOf\<close> reports is grounded: every technique is in the catalogue, and for each
  of its action groups some action is allowed by \<open>Authorize\<close> on a resource that an Allow
  statement of the principal reaches.\<close>

theorem privesc_grounded:
  assumes "t \<in> set (fst (PrivescOf env princ ps))" and "g \<in> set (tech_all t)"
  shows "t \<in> set Techniques \<and>
    (\<exists>a \<in> set g. \<exists>st \<in> set (statements_of (Identity ps)). \<exists>res cond. is_allow st \<and>
       res \<in> reached (if accountOf princ = [] then ''000000000000'' else accountOf princ) st \<and>
       Authorize env (request_on princ a res) ps = (Allow, cond))"
proof -
  let ?ts = "CandidateResources (Identity ps) (accountOf princ)"
  from assms(1) have t: "t \<in> set Techniques" "satisfies t (allowOn env princ ps ?ts False)"
    unfolding PrivescOf_techs set_DetectPrivesc by simp_all
  from t(2) assms(2) obtain a where a: "a \<in> set g" "allowOn env princ ps ?ts False a"
    unfolding satisfies_iff by blast
  from a(2) obtain res cond where r: "res \<in> set ?ts"
    "Authorize env (request_on princ a res) ps = (Allow, cond)"
    unfolding allowOn_iff by blast
  from r(1) obtain st where "st \<in> set (statements_of (Identity ps))"
    "res \<in> reached (if accountOf princ = [] then ''000000000000'' else accountOf princ) st"
    unfolding set_CandidateResources by blast
  moreover from this(2) have "is_allow st" unfolding reached_def by (meson empty_iff)
  ultimately show ?thesis using t(1) a(1) r(2) by blast
qed

text \<open>Ceilings only take escalations away: every technique found under a permission boundary
  and SCPs is also found without them, and an escalation that is firm under them is firm without
  them.\<close>

theorem privesc_ceilings_narrow:
  "set (fst (PrivescOf env princ ps)) \<subseteq> set (fst (PrivescOf env princ (ps\<lparr>Boundary := None, SCPs := []\<rparr>)))
   \<and> (snd (PrivescOf env princ ps) \<longrightarrow> snd (PrivescOf env princ (ps\<lparr>Boundary := None, SCPs := []\<rparr>)))"
proof -
  have lift: "allowOn env princ ps ts f a \<Longrightarrow>
      allowOn env princ (ps\<lparr>Boundary := None, SCPs := []\<rparr>) ts f a" for ts f a
    unfolding allowOn_iff using lift_ceilings by blast
  have "satisfies t (allowOn env princ ps ts f) \<Longrightarrow>
      satisfies t (allowOn env princ (ps\<lparr>Boundary := None, SCPs := []\<rparr>) ts f)" for t ts f
    unfolding satisfies_iff using lift by blast
  then show ?thesis
    unfolding PrivescOf_techs PrivescOf_firm set_DetectPrivesc by auto
qed

text \<open>A concrete resource really is one the pattern reaches: where \<open>ConcreteResource\<close>
  answers, and the pattern, if it is a full ARN, names an account (or a star) and not the
  placeholder as its partition, the answer matches the pattern.\<close>

theorem concrete_resource_matches_pattern:
  assumes "ConcreteResource pattern account = (c, True)"
    and "6 \<le> length (split_n CHR '':'' 6 pattern) \<longrightarrow>
      split_n CHR '':'' 6 pattern ! 4 \<noteq> [] \<and> split_n CHR '':'' 6 pattern ! 1 \<noteq> target_name"
    and "CHR ''*'' \<notin> set c"
  shows "globMatch pattern c"
  using concrete_matches [OF assms(1) refl assms(2)] globMatch_eq [OF assms(3)] by simp

text \<open>A pattern with an empty account field, the form of every S3 ARN, is given the
  principal's account, and the answer is then NOT a resource the pattern matches.\<close>

theorem concrete_resource_leaves_s3_pattern:
  "ConcreteResource ''arn:aws:s3:::b/*'' ''123'' = (''arn:aws:s3::123:b/tsengine-target'', True) \<and>
   \<not> globMatch ''arn:aws:s3:::b/*'' ''arn:aws:s3::123:b/tsengine-target''"
  by code_simp

theorem concrete_resource_matches_pattern_witness:
  "globMatch ''arn:aws:iam::*:policy/fn2-*'' ''arn:aws:iam::123:policy/fn2-tsengine-target''"
proof (rule concrete_resource_matches_pattern)
  show "ConcreteResource ''arn:aws:iam::*:policy/fn2-*'' ''123'' =
    (''arn:aws:iam::123:policy/fn2-tsengine-target'', True)" by code_simp
qed code_simp+

definition esc_ps :: policy_set where
  "esc_ps = \<lparr>Identity = [sample_doc [sample_stmt ''Allow'' ''iam:CreateAccessKey'' []]],
     Boundary = None, SCPs = [], ResourcePolicy = None, SameAccount = True\<rparr>"

theorem privesc_grounded_witness:
  "mk_technique ''CreateAccessKey'' [[''iam:CreateAccessKey'']] [] \<in> set Techniques"
proof -
  let ?t = "mk_technique ''CreateAccessKey'' [[''iam:CreateAccessKey'']] []"
  have 1: "?t \<in> set (fst (PrivescOf sample_env ''arn:aws:iam::1:user/a'' esc_ps))"
    unfolding PrivescOf_techs set_DetectPrivesc mem_Collect_eq
  proof
    show "?t \<in> set Techniques" by code_simp
    show "satisfies ?t (allowOn sample_env ''arn:aws:iam::1:user/a'' esc_ps
        (CandidateResources (Identity esc_ps) (accountOf ''arn:aws:iam::1:user/a'')) False)"
      by code_simp
  qed
  have 2: "[''iam:CreateAccessKey''] \<in> set (tech_all ?t)" by (simp add: mk_technique_def)
  from privesc_grounded [OF 1 2] show ?thesis by blast
qed

text \<open>A principal that may mint access keys, inside a boundary that admits all of IAM.\<close>

definition bounded_ps :: policy_set where
  "bounded_ps = esc_ps\<lparr>Boundary := sample_doc [sample_stmt ''Allow'' ''iam:*'' []]\<rparr>"

theorem privesc_ceilings_narrow_witness:
  "snd (PrivescOf sample_env ''arn:aws:iam::1:user/a'' (bounded_ps\<lparr>Boundary := None, SCPs := []\<rparr>))"
proof -
  let ?t = "mk_technique ''CreateAccessKey'' [[''iam:CreateAccessKey'']] []"
  have "?t \<in> set Techniques" by code_simp
  moreover have "satisfies ?t (allowOn sample_env ''arn:aws:iam::1:user/a'' bounded_ps
      (CandidateResources (Identity bounded_ps) (accountOf ''arn:aws:iam::1:user/a'')) True)"
    by code_simp
  ultimately have "snd (PrivescOf sample_env ''arn:aws:iam::1:user/a'' bounded_ps)"
    unfolding PrivescOf_firm by blast
  with privesc_ceilings_narrow [of sample_env "''arn:aws:iam::1:user/a''" bounded_ps]
  show ?thesis by blast
qed

end
