(* ===== verification/CloudGraph.thy ===== *)
theory CloudGraph
  imports Prelude
begin

text \<open>
  internal/cloudgraph/graph.go and paths.go: the inventory snapshot and \<open>FindPaths\<close>, the bounded
  depth-first search for attack paths. The lazily built adjacency map \<open>out\<close> is a cache of
  \<open>Edges\<close>: \<open>edgesFrom\<close> is modelled by what the cache holds, the edges of the node in insertion
  order. A time is an integer whose zero is the zero time, and the keys of a map that an iteration
  does not visit are read by a function. \<open>sort.Slice\<close> is modelled by a stable sort on the same key (two edges with equal target
  and kind may come in either order in Go; no property below depends on that order).
\<close>

section \<open>Snapshots\<close>

datatype node_kind = KindResource | KindPrincipal | KindNetwork | KindData

datatype edge_kind =
    EdgeAssumeRole | EdgePassRole | EdgeHasAccess | EdgeNetworkReach | EdgeRunsAs | EdgePrivesc
  | EdgeTriggers | EdgeSecretAccess | EdgeCopyOf

text \<open>The string value of a kind: \<open>FindPaths\<close> sorts by it.\<close>

fun kind_string :: "edge_kind \<Rightarrow> string" where
  "kind_string EdgeAssumeRole = ''assume_role''"
| "kind_string EdgePassRole = ''pass_role''"
| "kind_string EdgeHasAccess = ''has_access''"
| "kind_string EdgeNetworkReach = ''network_reach''"
| "kind_string EdgeRunsAs = ''runs_as''"
| "kind_string EdgePrivesc = ''privesc''"
| "kind_string EdgeTriggers = ''triggers''"
| "kind_string EdgeSecretAccess = ''secret_access''"
| "kind_string EdgeCopyOf = ''copy_of''"

datatype sensitivity = SensNone | SensLow | SensHigh

record node =
  n_id :: string
  n_kind :: node_kind
  n_type :: string
  n_name :: string
  n_region :: string
  n_public :: bool
  n_sensitive :: sensitivity
  n_privileged :: bool
  n_tags :: "string \<rightharpoonup> string"
  n_attrs :: "string \<rightharpoonup> string"

record edge =
  e_from :: string
  e_to :: string
  e_kind :: edge_kind
  e_condition :: string
  e_detail :: string

record snapshot =
  s_account :: string
  s_provider :: string
  s_captured :: int
  s_nodes :: "string \<rightharpoonup> node"
  s_edges :: "edge list"

definition InternetID :: string where
  "InternetID = ''internet''"

definition new_snapshot :: "string \<Rightarrow> string \<Rightarrow> snapshot" where
  "new_snapshot account provider =
     \<lparr>s_account = account, s_provider = provider, s_captured = 0, s_nodes = Map.empty, s_edges = []\<rparr>"

definition AddNode :: "snapshot \<Rightarrow> node option \<Rightarrow> snapshot" where
  "AddNode s n =
     (case n of
        None \<Rightarrow> s
      | Some nd \<Rightarrow> if n_id nd = [] then s else s\<lparr>s_nodes := (s_nodes s)(n_id nd \<mapsto> nd)\<rparr>)"

definition AddEdge :: "snapshot \<Rightarrow> edge \<Rightarrow> snapshot" where
  "AddEdge s e = s\<lparr>s_edges := s_edges s @ [e]\<rparr>"

definition edgesFrom :: "snapshot \<Rightarrow> string \<Rightarrow> edge list" where
  "edgesFrom s v = filter (\<lambda>e. e_from e = v) (s_edges s)"

section \<open>Sorting the out-edges\<close>

definition edge_less :: "edge \<Rightarrow> edge \<Rightarrow> bool" where
  "edge_less a b =
     (if e_to a \<noteq> e_to b then str_less (e_to a) (e_to b)
      else str_less (kind_string (e_kind a)) (kind_string (e_kind b)))"

section \<open>FindPaths\<close>

record path =
  p_nodes :: "string list"
  p_edges :: "edge list"

text \<open>
  The recursive closure \<open>dfs\<close>. \<open>left\<close> is \<open>maxDepth - depth\<close>; \<open>curNodes\<close> and \<open>curEdges\<close> are the
  current path, and \<open>onPath\<close> of the source is membership in \<open>curNodes\<close>; \<open>out\<close> is threaded
  through. \<open>dfs_edges\<close> is the loop over the sorted edges, with its early return when the cap is
  met; its argument \<open>rec\<close> is the recursive call \<open>dfs(e.To, depth+1)\<close>.
\<close>

primrec dfs_edges ::
  "snapshot \<Rightarrow> (node \<Rightarrow> bool) \<Rightarrow> (edge_kind \<Rightarrow> bool) \<Rightarrow> nat \<Rightarrow>
    (string \<Rightarrow> string list \<Rightarrow> edge list \<Rightarrow> path list \<Rightarrow> path list) \<Rightarrow> edge list \<Rightarrow>
    string list \<Rightarrow> edge list \<Rightarrow> path list \<Rightarrow> path list"
where
  "dfs_edges s target allow maxPaths rec [] curNodes curEdges out = out"
| "dfs_edges s target allow maxPaths rec (e # es) curNodes curEdges out =
     (if \<not> allow (e_kind e) then dfs_edges s target allow maxPaths rec es curNodes curEdges out
      else (case s_nodes s (e_to e) of
        None \<Rightarrow> dfs_edges s target allow maxPaths rec es curNodes curEdges out
      | Some nxt \<Rightarrow>
          if e_to e \<in> set curNodes then dfs_edges s target allow maxPaths rec es curNodes curEdges out
          else let nodes = curNodes @ [e_to e]; edges = curEdges @ [e];
                   out1 = (if target nxt then out @ [\<lparr>p_nodes = nodes, p_edges = edges\<rparr>] else out);
                   out2 = rec (e_to e) nodes edges out1
               in if maxPaths \<le> length out2 then out2
                  else dfs_edges s target allow maxPaths rec es curNodes curEdges out2))"

primrec dfs ::
  "snapshot \<Rightarrow> (node \<Rightarrow> bool) \<Rightarrow> (edge_kind \<Rightarrow> bool) \<Rightarrow> nat \<Rightarrow> nat \<Rightarrow> string \<Rightarrow>
    string list \<Rightarrow> edge list \<Rightarrow> path list \<Rightarrow> path list"
where
  "dfs s target allow maxPaths 0 v curNodes curEdges out = out"
| "dfs s target allow maxPaths (Suc left) v curNodes curEdges out =
     (if maxPaths \<le> length out then out
      else dfs_edges s target allow maxPaths (dfs s target allow maxPaths left)
             (sort_by edge_less (edgesFrom s v)) curNodes curEdges out)"

text \<open>The nil \<open>allow\<close> map is \<open>None\<close>; a nil target returns no path.\<close>

definition FindPaths ::
  "snapshot \<Rightarrow> string \<Rightarrow> (node \<Rightarrow> bool) option \<Rightarrow> edge_kind set option \<Rightarrow> int \<Rightarrow> int \<Rightarrow> path list" where
  "FindPaths s src target allow maxDepth maxPaths =
     (case target of
        None \<Rightarrow> []
      | Some tgt \<Rightarrow>
          if s_nodes s src = None then []
          else let md = (if maxDepth \<le> 0 then 8 else nat maxDepth);
                   mp = (if maxPaths \<le> 0 then 50 else nat maxPaths);
                   ok = (\<lambda>k. case allow of None \<Rightarrow> True | Some ks \<Rightarrow> k \<in> ks)
               in dfs s tgt ok mp md src [src] [] [])"

definition Conditional :: "path \<Rightarrow> bool" where
  "Conditional p = list_ex (\<lambda>e. e_condition e \<noteq> []) (p_edges p)"

definition SensitiveData :: "node option \<Rightarrow> bool" where
  "SensitiveData n = (case n of None \<Rightarrow> False | Some nd \<Rightarrow> n_sensitive nd = SensHigh)"

definition PrivilegedIdentity :: "node option \<Rightarrow> bool" where
  "PrivilegedIdentity n = (case n of None \<Rightarrow> False | Some nd \<Rightarrow> n_privileged nd)"

definition AllAttackEdges :: "edge_kind set" where
  "AllAttackEdges = {EdgeAssumeRole, EdgePassRole, EdgeHasAccess, EdgeNetworkReach, EdgeRunsAs,
     EdgePrivesc, EdgeTriggers, EdgeSecretAccess}"

section \<open>Attack paths, declaratively\<close>

text \<open>A walk from the end of \<open>ns\<close>: each edge starts where the last one ended.\<close>

fun walk :: "string \<Rightarrow> edge list \<Rightarrow> bool" where
  "walk v [] = True"
| "walk v (e # es) = (e_from e = v \<and> walk (e_to e) es)"

definition visited :: "string \<Rightarrow> edge list \<Rightarrow> string list" where
  "visited v es = v # map e_to es"

text \<open>
  A simple attack path from \<open>v\<close>: a walk along allowed edges of the snapshot, over known nodes,
  that visits no node twice and ends at a node that satisfies the target.
\<close>

definition attack_path ::
  "snapshot \<Rightarrow> (node \<Rightarrow> bool) \<Rightarrow> (edge_kind \<Rightarrow> bool) \<Rightarrow> string \<Rightarrow> edge list \<Rightarrow> bool" where
  "attack_path s target allow v es \<longleftrightarrow>
     es \<noteq> [] \<and> walk v es \<and> distinct (visited v es) \<and>
     (\<forall>e \<in> set es. e \<in> set (s_edges s) \<and> allow (e_kind e) \<and> s_nodes s (e_to e) \<noteq> None) \<and>
     (\<exists>nd. s_nodes s (last (visited v es)) = Some nd \<and> target nd)"

section \<open>What the search finds\<close>

text \<open>The extensions of a current path that the search is to report, by its own recursion.\<close>

primrec extensions ::
  "snapshot \<Rightarrow> (node \<Rightarrow> bool) \<Rightarrow> (edge_kind \<Rightarrow> bool) \<Rightarrow> nat \<Rightarrow> string \<Rightarrow> string list \<Rightarrow> edge list set"
where
  "extensions s target allow 0 v cur = {}"
| "extensions s target allow (Suc left) v cur =
     (\<Union>e \<in> set (edgesFrom s v).
        (case s_nodes s (e_to e) of
           None \<Rightarrow> {}
         | Some nxt \<Rightarrow>
             if \<not> allow (e_kind e) \<or> e_to e \<in> set cur then {}
             else (if target nxt then {[e]} else {}) \<union>
               (#) e ` extensions s target allow left (e_to e) (cur @ [e_to e])))"

definition via_edge ::
  "snapshot \<Rightarrow> (node \<Rightarrow> bool) \<Rightarrow> (edge_kind \<Rightarrow> bool) \<Rightarrow> nat \<Rightarrow> string list \<Rightarrow> edge \<Rightarrow> edge list set"
where
  "via_edge s target allow left cur e =
     (case s_nodes s (e_to e) of
        None \<Rightarrow> {}
      | Some nxt \<Rightarrow>
          if \<not> allow (e_kind e) \<or> e_to e \<in> set cur then {}
          else (if target nxt then {[e]} else {}) \<union>
            (#) e ` extensions s target allow left (e_to e) (cur @ [e_to e]))"

lemma extensions_Suc:
  "extensions s target allow (Suc left) v cur =
     (\<Union>e \<in> set (edgesFrom s v). via_edge s target allow left cur e)"
  by (simp add: via_edge_def)

declare extensions.simps(2) [simp del]

text \<open>The report for an extension of the current path.\<close>

definition report :: "string list \<Rightarrow> edge list \<Rightarrow> edge list \<Rightarrow> path" where
  "report cur curE ext = \<lparr>p_nodes = cur @ map e_to ext, p_edges = curE @ ext\<rparr>"

text \<open>
  A stretch of the search from \<open>out\<close> to \<open>res\<close> that is responsible for the extensions \<open>E\<close>: it
  appends reports of members of \<open>E\<close> only, and of all of them unless it stopped at the cap.
\<close>

definition searched ::
  "nat \<Rightarrow> string list \<Rightarrow> edge list \<Rightarrow> path list \<Rightarrow> path list \<Rightarrow> edge list set \<Rightarrow> bool" where
  "searched mp cur curE out res E \<longleftrightarrow>
     (\<exists>new. res = out @ new \<and> set new \<subseteq> report cur curE ` E \<and>
        (length res < mp \<longrightarrow> report cur curE ` E \<subseteq> set new))"

lemma searched_none: "searched mp cur curE out out {}"
  by (simp add: searched_def)

lemma searched_one: "searched mp cur curE out (out @ [report cur curE ext]) {ext}"
  by (simp add: searched_def)

lemma searched_capped:
  "mp \<le> length res \<Longrightarrow> searched mp cur curE out res E \<Longrightarrow> searched mp cur curE out res (E \<union> F)"
  by (auto simp: searched_def)

lemma searched_trans:
  assumes "searched mp cur curE out mid E" "searched mp cur curE mid res F"
  shows "searched mp cur curE out res (E \<union> F)"
proof -
  obtain new1 where 1: "mid = out @ new1" "set new1 \<subseteq> report cur curE ` E"
    "length mid < mp \<longrightarrow> report cur curE ` E \<subseteq> set new1"
    using assms(1) unfolding searched_def by blast
  obtain new2 where 2: "res = mid @ new2" "set new2 \<subseteq> report cur curE ` F"
    "length res < mp \<longrightarrow> report cur curE ` F \<subseteq> set new2"
    using assms(2) unfolding searched_def by blast
  show ?thesis
    unfolding searched_def
  proof (intro exI conjI impI)
    show "res = out @ (new1 @ new2)" using 1(1) 2(1) by simp
    show "set (new1 @ new2) \<subseteq> report cur curE ` (E \<union> F)"
      using 1(2) 2(2) unfolding image_Un set_append by (rule Un_mono)
    assume "length res < mp"
    moreover from this have "length mid < mp" using 2(1) by simp
    ultimately show "report cur curE ` (E \<union> F) \<subseteq> set (new1 @ new2)"
      using 1(3) 2(3) unfolding image_Un set_append by (blast intro: Un_mono)
  qed
qed

lemma searched_push:
  "searched mp (cur @ [e_to e]) (curE @ [e]) out res E \<Longrightarrow> searched mp cur curE out res ((#) e ` E)"
  by (simp add: searched_def report_def image_image)

text \<open>One turn of the loop over the edges: an edge is skipped, or taken and searched below.\<close>

definition usable ::
  "snapshot \<Rightarrow> (edge_kind \<Rightarrow> bool) \<Rightarrow> string list \<Rightarrow> edge \<Rightarrow> bool" where
  "usable s allow cur e \<longleftrightarrow>
     allow (e_kind e) \<and> s_nodes s (e_to e) \<noteq> None \<and> e_to e \<notin> set cur"

definition after_edge ::
  "snapshot \<Rightarrow> (node \<Rightarrow> bool) \<Rightarrow> edge \<Rightarrow> string list \<Rightarrow> edge list \<Rightarrow> path list \<Rightarrow> path list" where
  "after_edge s target e cur curE out =
     (if target (the (s_nodes s (e_to e))) then out @ [report cur curE [e]] else out)"

lemma dfs_edges_skip:
  "\<not> usable s allow cur e \<Longrightarrow>
    dfs_edges s target allow mp rec (e # es) cur curE out =
    dfs_edges s target allow mp rec es cur curE out"
  by (auto simp: usable_def split: option.split)

lemma dfs_edges_take:
  "usable s allow cur e \<Longrightarrow>
    dfs_edges s target allow mp rec (e # es) cur curE out =
    (let out2 = rec (e_to e) (cur @ [e_to e]) (curE @ [e])
                  (after_edge s target e cur curE out)
     in if mp \<le> length out2 then out2 else dfs_edges s target allow mp rec es cur curE out2)"
  by (auto simp: usable_def after_edge_def report_def Let_def)

text \<open>Induction over the search with the loop body reduced to those two cases.\<close>

lemma search_induct [case_names stop enter fin skip take]:
  assumes "\<And>v cur curE out. P 0 v cur curE out"
    and "\<And>left v cur curE out.
      (\<not> mp \<le> length out \<Longrightarrow> Q left (sort_by edge_less (edgesFrom s v)) cur curE out) \<Longrightarrow>
      P (Suc left) v cur curE out"
    and "\<And>left cur curE out. Q left [] cur curE out"
    and "\<And>left e es cur curE out. \<not> usable s allow cur e \<Longrightarrow> Q left es cur curE out \<Longrightarrow>
      Q left (e # es) cur curE out"
    and "\<And>left e es cur curE out. usable s allow cur e \<Longrightarrow>
      P left (e_to e) (cur @ [e_to e]) (curE @ [e]) (after_edge s target e cur curE out) \<Longrightarrow>
      (\<And>out2. Q left es cur curE out2) \<Longrightarrow> Q left (e # es) cur curE out"
  shows "P left v cur curE out" and "Q left es cur curE out"
proof -
  have Q: "\<forall>es cur curE out. Q left es cur curE out"
    if P: "\<forall>v cur curE out. P left v cur curE out" for left
  proof (intro allI)
    fix es cur curE out
    show "Q left es cur curE out"
    proof (induction es arbitrary: cur curE out)
      case Nil
      show ?case by (rule assms(3))
    next
      case (Cons e es)
      show ?case
      proof (cases "usable s allow cur e")
        case True
        from True P Cons show ?thesis by (blast intro: assms(5))
      next
        case False
        from False Cons show ?thesis by (rule assms(4))
      qed
    qed
  qed
  have P: "\<forall>v cur curE out. P left v cur curE out" for left
    by (induction left) (use assms(1,2) Q in blast)+
  from P show "P left v cur curE out" by blast
  from Q [OF P] show "Q left es cur curE out" by blast
qed

declare dfs_edges.simps(2) [simp del]

lemma via_edge_usable:
  "via_edge s target allow left cur e =
     (if usable s allow cur e then
        (if target (the (s_nodes s (e_to e))) then {[e]} else {}) \<union>
        (#) e ` extensions s target allow left (e_to e) (cur @ [e_to e])
      else {})"
  by (auto simp: via_edge_def usable_def split: option.splits)

lemma dfs_searched:
  "searched mp cur curE out (dfs s target allow mp left v cur curE out)
     (extensions s target allow left v cur)"
  "searched mp cur curE out (dfs_edges s target allow mp (dfs s target allow mp left) es cur curE out)
     (\<Union>e \<in> set es. via_edge s target allow left cur e)"
proof (induction left v cur curE out and left es cur curE out
    rule: search_induct [where mp = mp and s = s and allow = allow and target = target])
  case (stop v cur curE out)
  then show ?case by (simp add: searched_none)
next
  case (enter left v cur curE out)
  then show ?case
    using searched_capped [of mp out cur curE out "{}"]
    by (auto simp: extensions_Suc searched_none)
next
  case (fin left cur curE out)
  then show ?case by (simp add: searched_none)
next
  case (skip left e es cur curE out)
  then show ?case by (simp add: dfs_edges_skip via_edge_usable)
next
  case (take left e es cur curE out)
  define out1 where "out1 = after_edge s target e cur curE out"
  define out2 where "out2 = dfs s target allow mp left (e_to e) (cur @ [e_to e]) (curE @ [e]) out1"
  let ?one = "if target (the (s_nodes s (e_to e))) then {[e]} else {}"
  let ?rest = "\<Union>e \<in> set es. via_edge s target allow left cur e"
  have "searched mp cur curE out out1 ?one"
    by (simp add: out1_def after_edge_def searched_none searched_one)
  from searched_trans [OF this searched_push [OF take(2) [folded out1_def]]] take(1)
  have e: "searched mp cur curE out out2 (via_edge s target allow left cur e)"
    by (simp add: out2_def out1_def via_edge_usable)
  have step: "dfs_edges s target allow mp (dfs s target allow mp left) (e # es) cur curE out =
      (if mp \<le> length out2 then out2 else dfs_edges s target allow mp (dfs s target allow mp left) es cur curE out2)"
    using take(1) by (simp add: dfs_edges_take out1_def out2_def Let_def)
  show ?case
    using searched_capped [OF _ e, of ?rest] searched_trans [OF e take(3)] by (simp add: step)
qed

lemma dfs_bounded:
  "length out \<le> mp \<longrightarrow> length (dfs s target allow mp left v cur curE out) \<le> mp"
  "length out < mp \<longrightarrow> length (dfs_edges s target allow mp (dfs s target allow mp left) es cur curE out) \<le> mp"
proof (induction left v cur curE out and left es cur curE out
    rule: search_induct [where mp = mp and s = s and allow = allow and target = target])
  case (take left e es cur curE out)
  have "length (after_edge s target e cur curE out) \<le> Suc (length out)"
    by (simp add: after_edge_def)
  with take show ?case by (simp add: dfs_edges_take Let_def)
qed (simp_all add: dfs_edges_skip)

text \<open>The extensions are the simple paths, no longer than the depth left.\<close>

lemma extensions_iff:
  "es \<in> extensions s target allow left v cur \<longleftrightarrow>
     es \<noteq> [] \<and> length es \<le> left \<and> walk v es \<and> distinct (map e_to es) \<and>
     set (map e_to es) \<inter> set cur = {} \<and>
     (\<forall>e \<in> set es. e \<in> set (s_edges s) \<and> allow (e_kind e) \<and> s_nodes s (e_to e) \<noteq> None) \<and>
     (\<exists>nd. s_nodes s (e_to (last es)) = Some nd \<and> target nd)"
proof (induction left arbitrary: v cur es)
  case 0
  then show ?case by auto
next
  case (Suc left)
  show ?case
  proof (cases es)
    case Nil
    then show ?thesis by (auto simp: extensions_Suc via_edge_def split: option.splits)
  next
    case (Cons e fs)
    have "es \<in> extensions s target allow (Suc left) v cur \<longleftrightarrow>
        e \<in> set (edgesFrom s v) \<and> es \<in> via_edge s target allow left cur e"
      unfolding extensions_Suc by (auto simp: Cons via_edge_def split: option.splits if_splits)
    also have "\<dots> \<longleftrightarrow> e_from e = v \<and> e \<in> set (s_edges s) \<and> allow (e_kind e) \<and> e_to e \<notin> set cur \<and>
        (\<exists>nxt. s_nodes s (e_to e) = Some nxt \<and> (fs = [] \<and> target nxt \<or>
           fs \<in> extensions s target allow left (e_to e) (cur @ [e_to e])))"
      by (auto simp: edgesFrom_def via_edge_def Cons split: option.splits if_splits)
    finally have eq: "es \<in> extensions s target allow (Suc left) v cur \<longleftrightarrow>
        e_from e = v \<and> e \<in> set (s_edges s) \<and> allow (e_kind e) \<and> e_to e \<notin> set cur \<and>
        (\<exists>nxt. s_nodes s (e_to e) = Some nxt \<and> (fs = [] \<and> target nxt \<or>
           fs \<in> extensions s target allow left (e_to e) (cur @ [e_to e])))" .
    show ?thesis
      unfolding eq Suc.IH by (cases "fs = []") (auto simp: Cons)
  qed
qed

lemma extensions_attack_path:
  "es \<in> extensions s target allow left v [v] \<longleftrightarrow>
     attack_path s target allow v es \<and> length es \<le> left"
  unfolding extensions_iff attack_path_def
  by (auto simp: visited_def last_map)

definition depth_of :: "int \<Rightarrow> nat" where
  "depth_of maxDepth = (if maxDepth \<le> 0 then 8 else nat maxDepth)"

definition cap_of :: "int \<Rightarrow> nat" where
  "cap_of maxPaths = (if maxPaths \<le> 0 then 50 else nat maxPaths)"

definition allows_kind :: "edge_kind set option \<Rightarrow> edge_kind \<Rightarrow> bool" where
  "allows_kind allow k = (case allow of None \<Rightarrow> True | Some ks \<Rightarrow> k \<in> ks)"

lemma FindPaths_eq:
  "FindPaths s src (Some target) allow maxDepth maxPaths =
     (if s_nodes s src = None then []
      else dfs s target (allows_kind allow) (cap_of maxPaths) (depth_of maxDepth) src [src] [] [])"
  by (simp add: FindPaths_def cap_of_def depth_of_def allows_kind_def [abs_def] Let_def)

lemma FindPaths_sound:
  assumes "p \<in> set (FindPaths s src (Some target) allow maxDepth maxPaths)"
  shows "attack_path s target (allows_kind allow) src (p_edges p) \<and>
    p_nodes p = visited src (p_edges p) \<and> length (p_edges p) \<le> depth_of maxDepth"
proof -
  from assms have p: "p \<in> set (dfs s target (allows_kind allow) (cap_of maxPaths)
      (depth_of maxDepth) src [src] [] [])"
    by (simp add: FindPaths_eq split: if_splits)
  then obtain ext where "p = report [src] [] ext"
    "ext \<in> extensions s target (allows_kind allow) (depth_of maxDepth) src [src]"
    using dfs_searched(1) [of "cap_of maxPaths" "[src]" "[]" "[]" s target "allows_kind allow"
        "depth_of maxDepth" src]
    by (auto simp: searched_def)
  then show ?thesis by (simp add: report_def extensions_attack_path visited_def)
qed

lemma FindPaths_complete:
  assumes "s_nodes s src \<noteq> None"
    and "length (FindPaths s src (Some target) allow maxDepth maxPaths) < cap_of maxPaths"
    and "attack_path s target (allows_kind allow) src es" "length es \<le> depth_of maxDepth"
  shows "\<lparr>p_nodes = visited src es, p_edges = es\<rparr> \<in> set (FindPaths s src (Some target) allow maxDepth maxPaths)"
proof -
  let ?res = "dfs s target (allows_kind allow) (cap_of maxPaths) (depth_of maxDepth) src [src] [] []"
  have eq: "FindPaths s src (Some target) allow maxDepth maxPaths = ?res"
    using assms(1) by (auto simp: FindPaths_eq)
  have "es \<in> extensions s target (allows_kind allow) (depth_of maxDepth) src [src]"
    using assms(3,4) by (simp add: extensions_attack_path)
  with assms(2) dfs_searched(1) [of "cap_of maxPaths" "[src]" "[]" "[]" s target "allows_kind allow"
        "depth_of maxDepth" src]
  have "report [src] [] es \<in> set ?res" unfolding eq searched_def by auto
  then show ?thesis by (simp add: eq report_def visited_def)
qed

section \<open>Properties\<close>

lemma edge_order: "weak_order edge_less"
  by (auto simp: weak_order_def edge_less_def str_less_codes inj_map_eq_map [OF inj_of_char])

lemma dfs_edges_filter:
  "dfs_edges s target allow mp rec (filter (\<lambda>e. allow (e_kind e)) es) cur curE out =
   dfs_edges s target allow mp rec es cur curE out"
  by (induction es arbitrary: cur curE out) (auto simp: dfs_edges.simps Let_def split: option.splits)

lemma dfs_edges_nodes:
  "s_nodes s = s_nodes t \<Longrightarrow>
   dfs_edges s target allow mp rec es cur curE out = dfs_edges t target allow mp rec es cur curE out"
  by (induction es arbitrary: cur curE out) (auto simp: dfs_edges.simps Let_def split: option.splits)

text \<open>The search reads the nodes and the edges of the allowed kinds, and nothing else.\<close>

lemma dfs_cong:
  assumes "s_nodes s = s_nodes t"
    and "filter (\<lambda>e. allow (e_kind e)) (s_edges s) = filter (\<lambda>e. allow (e_kind e)) (s_edges t)"
  shows "dfs s target allow mp left = dfs t target allow mp left"
proof (induction left)
  case (Suc left)
  have "filter (\<lambda>e. allow (e_kind e)) (sort_by edge_less (edgesFrom s v)) =
      filter (\<lambda>e. allow (e_kind e)) (sort_by edge_less (edgesFrom t v))" for v
    unfolding filter_sort_by [OF edge_order] edgesFrom_def filter_filter
    using arg_cong [OF assms(2), of "filter (\<lambda>e. e_from e = v)"] by (simp add: conj_commute)
  then have "dfs_edges s target allow mp rec (sort_by edge_less (edgesFrom s v)) cur curE out =
      dfs_edges t target allow mp rec (sort_by edge_less (edgesFrom t v)) cur curE out" for rec v cur curE out
    by (metis dfs_edges_filter dfs_edges_nodes [OF assms(1)])
  then show ?case by (simp add: fun_eq_iff Suc)
qed (simp add: fun_eq_iff)

lemma FindPaths_cong:
  assumes "s_nodes s = s_nodes t"
    and "filter (\<lambda>e. e_kind e \<in> ks) (s_edges s) = filter (\<lambda>e. e_kind e \<in> ks) (s_edges t)"
  shows "FindPaths s src target (Some ks) md mp = FindPaths t src target (Some ks) md mp"
  using dfs_cong [of s t "\<lambda>k. k \<in> ks"] assms
  by (cases target) (simp_all add: FindPaths_def Let_def)

text \<open>\<open>FindPaths\<close> reports real attack paths only: each is a walk along allowed edges of the
  snapshot src the source, visits no node twice, ends at a target, is no longer than the depth
  bound, and lists exactly the nodes its edges visit.\<close>

theorem findpaths_sound:
  assumes "p \<in> set (FindPaths s src (Some target) allow maxDepth maxPaths)"
  shows "attack_path s target (allows_kind allow) src (p_edges p) \<and>
    p_nodes p = visited src (p_edges p) \<and> length (p_edges p) \<le> depth_of maxDepth"
  using assms by (rule FindPaths_sound)

text \<open>C4: \<open>FindPaths\<close> misses nothing below its caps: when it returns fewer paths than the cap, the
  edge lists of its paths are exactly the simple attack paths within the depth bound.\<close>

theorem findpaths_exhaustive:
  assumes "s_nodes s src \<noteq> None"
    and "length (FindPaths s src (Some target) allow maxDepth maxPaths) < cap_of maxPaths"
  shows "p_edges ` set (FindPaths s src (Some target) allow maxDepth maxPaths) =
    {es. attack_path s target (allows_kind allow) src es \<and> length es \<le> depth_of maxDepth}"
proof (intro set_eqI iffI)
  fix es
  assume "es \<in> p_edges ` set (FindPaths s src (Some target) allow maxDepth maxPaths)"
  then show "es \<in> {es. attack_path s target (allows_kind allow) src es \<and> length es \<le> depth_of maxDepth}"
    using FindPaths_sound by auto
next
  fix es
  assume "es \<in> {es. attack_path s target (allows_kind allow) src es \<and> length es \<le> depth_of maxDepth}"
  then show "es \<in> p_edges ` set (FindPaths s src (Some target) allow maxDepth maxPaths)"
    using FindPaths_complete [OF assms] by (metis (mono_tags, lifting) image_eqI mem_Collect_eq path.select_convs(2))
qed

text \<open>The number of paths never exceeds the cap (50 where the caller gives none), and an
  unknown source or a missing target predicate gives none.\<close>

theorem findpaths_bounded:
  "length (FindPaths s src target allow maxDepth maxPaths) \<le> cap_of maxPaths \<and>
   FindPaths s src None allow maxDepth maxPaths = [] \<and>
   (s_nodes s src = None \<longrightarrow> FindPaths s src target allow maxDepth maxPaths = [])"
proof (cases target)
  case None
  then show ?thesis by (simp add: FindPaths_def)
next
  case (Some tgt)
  then show ?thesis
    using dfs_bounded(1) [of "[]" "cap_of maxPaths"]
    by (cases "s_nodes s src") (auto simp: FindPaths_eq FindPaths_def [of s src None])
qed

definition sample_node :: "string \<Rightarrow> sensitivity \<Rightarrow> node" where
  "sample_node i sens = \<lparr>n_id = i, n_kind = KindResource, n_type = ''t'', n_name = i,
     n_region = [], n_public = False, n_sensitive = sens, n_privileged = False, n_tags = Map.empty,
     n_attrs = Map.empty\<rparr>"

definition sample_edge :: "string \<Rightarrow> string \<Rightarrow> edge_kind \<Rightarrow> edge" where
  "sample_edge u v k = \<lparr>e_from = u, e_to = v, e_kind = k, e_condition = [], e_detail = []\<rparr>"

text \<open>An instance with a role that reads a bucket, with a cycle on the way.\<close>

definition sample_snapshot :: snapshot where
  "sample_snapshot =
     foldl AddEdge
       (foldl AddNode (new_snapshot ''1'' ''aws'')
          [Some (sample_node InternetID SensNone), Some (sample_node ''vm'' SensNone),
           Some (sample_node ''role'' SensLow), Some (sample_node ''bucket'' SensHigh)])
       [sample_edge InternetID ''vm'' EdgeNetworkReach, sample_edge ''vm'' ''role'' EdgeRunsAs,
        sample_edge ''role'' ''vm'' EdgeAssumeRole, sample_edge ''role'' ''bucket'' EdgeHasAccess]"

definition sample_path :: path where
  "sample_path =
     \<lparr>p_nodes = [InternetID, ''vm'', ''role'', ''bucket''],
      p_edges = [sample_edge InternetID ''vm'' EdgeNetworkReach, sample_edge ''vm'' ''role'' EdgeRunsAs,
        sample_edge ''role'' ''bucket'' EdgeHasAccess]\<rparr>"

lemma sample_search:
  "FindPaths sample_snapshot InternetID (Some (\<lambda>n. SensitiveData (Some n))) (Some AllAttackEdges) 0 0 = [sample_path]"
  by code_simp

theorem findpaths_sound_witness:
  "distinct (visited InternetID (p_edges sample_path)) \<and> length (p_edges sample_path) \<le> 8"
proof -
  have "sample_path \<in> set (FindPaths sample_snapshot InternetID
      (Some (\<lambda>n. SensitiveData (Some n))) (Some AllAttackEdges) 0 0)"
    by (simp add: sample_search)
  from findpaths_sound [OF this] show ?thesis by (simp add: attack_path_def depth_of_def)
qed

theorem findpaths_exhaustive_witness:
  "{es. attack_path sample_snapshot (\<lambda>n. SensitiveData (Some n)) (allows_kind (Some AllAttackEdges))
      InternetID es \<and> length es \<le> 8} = {p_edges sample_path}"
proof -
  have "s_nodes sample_snapshot InternetID \<noteq> None"
    by (simp add: sample_snapshot_def AddEdge_def AddNode_def sample_node_def new_snapshot_def InternetID_def)
  from findpaths_exhaustive [OF this, of "\<lambda>n. SensitiveData (Some n)" "Some AllAttackEdges" 0 0]
  show ?thesis by (simp add: sample_search cap_of_def depth_of_def)
qed

end
