(* ===== verification/AzureIam.thy ===== *)
theory AzureIam
  imports Glob
begin

text \<open>
  internal/azureiam/authorize.go: the Azure RBAC decision. A scope is its own assignments and
  its parent (resource, resource group, subscription, management group); the role table is a
  map from role names to definitions; conditions are opaque strings that are never evaluated.
\<close>

section \<open>Data\<close>

datatype az_decision = AzAllow | AzImplicitDeny | AzExplicitDeny

record role_def =
  Actions :: "string list"
  NotActions :: "string list"

record assignment =
  as_role :: string
  as_principals :: "string list"
  as_condition :: string

record deny_assignment =
  da_actions :: "string list"
  da_not_actions :: "string list"
  da_principals :: "string list"
  da_exclude :: "string list"
  da_condition :: string

datatype scope = Scope (scope_name: string) (scope_assignments: "assignment list")
  (scope_parent: "scope option")

record az_policy_set =
  az_scope :: "scope option"
  az_roles :: "string \<rightharpoonup> role_def"
  az_denies :: "deny_assignment list"

record az_request =
  az_principal :: string
  az_action :: string

section \<open>Actions and roles\<close>

definition azGlob :: "string \<Rightarrow> string \<Rightarrow> bool" where
  "azGlob pattern action =
     (let p = to_lower pattern; a = to_lower action in
      if p = ''*'' \<or> p = a then True
      else if has_suffix p ''/*'' then has_prefix a (trim_suffix p ''*'')
      else if has_prefix p ''*/'' then has_suffix a (trim_prefix p ''*'')
      else (case index_byte p CHR ''*'' of
              Some i \<Rightarrow> has_prefix a (take i p) \<and> has_suffix a (drop (Suc i) p)
            | None \<Rightarrow> False))"

definition isReadAction :: "string \<Rightarrow> bool" where
  "isReadAction action =
     (let a = to_lower action in has_suffix a ''/read'' \<or> has_suffix a ''/list'')"

definition isAuthorizationWrite :: "string \<Rightarrow> bool" where
  "isAuthorizationWrite action =
     (let a = to_lower action in
      if \<not> has_prefix a ''microsoft.authorization/'' then False
      else has_suffix a ''/write'' \<or> has_suffix a ''/delete'' \<or> contains_str a ''elevateaccess'')"

definition actionMatches :: "string list \<Rightarrow> string list \<Rightarrow> string \<Rightarrow> bool" where
  "actionMatches actions notActions action =
     (if \<not> list_ex (\<lambda>a. azGlob a action) actions then False
      else \<not> list_ex (\<lambda>na. azGlob na action) notActions)"

text \<open>\<open>roleGrants\<close>: (grants, known).\<close>

definition az_roleGrants :: "(string \<rightharpoonup> role_def) \<Rightarrow> string \<Rightarrow> string \<Rightarrow> bool \<times> bool" where
  "az_roleGrants roles role action =
     (let r = to_lower role in
      if r = ''owner'' then (True, True)
      else if r = ''contributor'' then
        (if isAuthorizationWrite action then (False, True) else (True, True))
      else if r = ''reader'' then (isReadAction action, True)
      else (case roles role of
              None \<Rightarrow> (False, False)
            | Some def \<Rightarrow> (actionMatches (Actions def) (NotActions def) action, True)))"

section \<open>Principals\<close>

text \<open>\<open>principalMatch\<close>: (hit, certain); \<open>hit\<close> accumulates over the loop.\<close>

fun principalMatch_from :: "bool \<Rightarrow> string list \<Rightarrow> string \<Rightarrow> bool \<times> bool" where
  "principalMatch_from hit [] princ = (hit, False)"
| "principalMatch_from hit (p # ps) princ =
     (if p = princ then (True, True)
      else if has_prefix p ''group:'' then principalMatch_from True ps princ
      else principalMatch_from hit ps princ)"

definition principalMatch :: "string list \<Rightarrow> string \<Rightarrow> bool \<times> bool" where
  "principalMatch ps princ = principalMatch_from False ps princ"

definition principalInExact :: "string list \<Rightarrow> string \<Rightarrow> bool" where
  "principalInExact ps princ = list_ex (\<lambda>p. p = princ) ps"

section \<open>Authorize\<close>

text \<open>The deny loop: \<open>None\<close> is the early return, \<open>Some denyPossible\<close> the fall-through.\<close>

fun az_deny_loop :: "az_request \<Rightarrow> deny_assignment list \<Rightarrow> bool \<Rightarrow> bool option" where
  "az_deny_loop req [] denyPossible = Some denyPossible"
| "az_deny_loop req (d # ds) denyPossible =
     (if da_condition d \<noteq> [] then az_deny_loop req ds denyPossible
      else if \<not> actionMatches (da_actions d) (da_not_actions d) (az_action req)
      then az_deny_loop req ds denyPossible
      else if principalInExact (da_exclude d) (az_principal req)
      then az_deny_loop req ds denyPossible
      else let (hit, certain) = principalMatch (da_principals d) (az_principal req) in
        if hit then (if certain then None else az_deny_loop req ds True)
        else az_deny_loop req ds denyPossible)"

definition az_assignment_step ::
  "az_request \<Rightarrow> (string \<rightharpoonup> role_def) \<Rightarrow> bool \<times> bool \<Rightarrow> assignment \<Rightarrow> bool \<times> bool" where
  "az_assignment_step req roles acc a =
     (let (hit, sure) = principalMatch (as_principals a) (az_principal req) in
      if \<not> hit then acc
      else let (grants, roleKnown) = az_roleGrants roles (as_role a) (az_action req) in
        if roleKnown \<and> \<not> grants then acc
        else if grants \<and> roleKnown \<and> sure \<and> as_condition a = [] then (True, snd acc)
        else (fst acc, True))"

text \<open>The walk up the scope chain accumulates (allow, cond).\<close>

fun az_walk :: "az_request \<Rightarrow> (string \<rightharpoonup> role_def) \<Rightarrow> scope \<Rightarrow> bool \<times> bool \<Rightarrow> bool \<times> bool" where
  "az_walk req roles (Scope nm asgs par) acc =
     (let acc' = foldl (az_assignment_step req roles) acc asgs in
      case par of None \<Rightarrow> acc' | Some sc \<Rightarrow> az_walk req roles sc acc')"

definition az_Authorize :: "az_request \<Rightarrow> az_policy_set \<Rightarrow> az_decision \<times> bool" where
  "az_Authorize req ps =
     (case az_deny_loop req (az_denies ps) False of
        None \<Rightarrow> (AzExplicitDeny, False)
      | Some denyPossible \<Rightarrow>
          (let (allow, cond) =
             (case az_scope ps of None \<Rightarrow> (False, False)
              | Some sc \<Rightarrow> az_walk req (az_roles ps) sc (False, False))
           in if allow then (AzAllow, cond \<or> denyPossible)
              else if cond then (AzAllow, True)
              else (AzImplicitDeny, False)))"

definition az_Permits :: "az_request \<Rightarrow> az_policy_set \<Rightarrow> bool \<times> bool" where
  "az_Permits req ps = (let (d, c) = az_Authorize req ps in (d = AzAllow, c))"

section \<open>The facts behind the loops\<close>

lemma principalMatch_eq:
  "principalMatch ps princ =
     (princ \<in> set ps \<or> list_ex (\<lambda>p. has_prefix p ''group:'') ps, princ \<in> set ps)"
proof -
  have "principalMatch_from hit ps princ =
     (hit \<or> princ \<in> set ps \<or> list_ex (\<lambda>p. has_prefix p ''group:'') ps, princ \<in> set ps)" for hit
    by (induction ps arbitrary: hit) auto
  then show ?thesis by (simp add: principalMatch_def)
qed

text \<open>A deny assignment that could apply, and one that certainly does.\<close>

definition deny_covers :: "az_request \<Rightarrow> deny_assignment \<Rightarrow> bool" where
  "deny_covers req d \<longleftrightarrow>
     da_condition d = [] \<and> actionMatches (da_actions d) (da_not_actions d) (az_action req) \<and>
     az_principal req \<notin> set (da_exclude d)"

definition deny_certain :: "az_request \<Rightarrow> deny_assignment \<Rightarrow> bool" where
  "deny_certain req d \<longleftrightarrow> deny_covers req d \<and> az_principal req \<in> set (da_principals d)"

definition deny_possible :: "az_request \<Rightarrow> deny_assignment \<Rightarrow> bool" where
  "deny_possible req d \<longleftrightarrow>
     deny_covers req d \<and> list_ex (\<lambda>p. has_prefix p ''group:'') (da_principals d)"

lemma az_deny_loop_Cons:
  "az_deny_loop req (d # ds) denyPossible =
     (if deny_certain req d then None else az_deny_loop req ds (denyPossible \<or> deny_possible req d))"
proof (cases "deny_covers req d")
  case True
  then show ?thesis
    by (simp add: deny_covers_def deny_certain_def deny_possible_def principalInExact_def
        list_ex_iff principalMatch_eq Let_def)
next
  case False
  then show ?thesis
    by (auto simp: deny_covers_def deny_certain_def deny_possible_def principalInExact_def list_ex_iff)
qed

declare az_deny_loop.simps(2) [simp del]

lemma az_deny_loop_eq:
  "az_deny_loop req ds denyPossible =
     (if \<exists>d \<in> set ds. deny_certain req d then None
      else Some (denyPossible \<or> (\<exists>d \<in> set ds. deny_possible req d)))"
  by (induction ds arbitrary: denyPossible) (auto simp: az_deny_loop_Cons)

text \<open>An assignment that certainly grants the action, and one that might.\<close>

definition as_firm :: "az_request \<Rightarrow> (string \<rightharpoonup> role_def) \<Rightarrow> assignment \<Rightarrow> bool" where
  "as_firm req roles a \<longleftrightarrow> az_principal req \<in> set (as_principals a) \<and>
     az_roleGrants roles (as_role a) (az_action req) = (True, True) \<and> as_condition a = []"

definition as_hit :: "az_request \<Rightarrow> assignment \<Rightarrow> bool" where
  "as_hit req a \<longleftrightarrow> az_principal req \<in> set (as_principals a) \<or>
     list_ex (\<lambda>p. has_prefix p ''group:'') (as_principals a)"

definition as_possible :: "az_request \<Rightarrow> (string \<rightharpoonup> role_def) \<Rightarrow> assignment \<Rightarrow> bool" where
  "as_possible req roles a \<longleftrightarrow>
     as_hit req a \<and> az_roleGrants roles (as_role a) (az_action req) \<noteq> (False, True)"

lemma az_roleGrants_known: "az_roleGrants roles role action = (True, k) \<Longrightarrow> k"
  by (auto simp: az_roleGrants_def Let_def split: if_splits option.splits)

lemma az_assignment_step_eq:
  "az_assignment_step req roles acc a =
     (fst acc \<or> as_firm req roles a, snd acc \<or> as_possible req roles a \<and> \<not> as_firm req roles a)"
  by (cases acc; cases "az_roleGrants roles (as_role a) (az_action req)")
    (auto simp: az_assignment_step_def principalMatch_eq as_firm_def as_possible_def as_hit_def Let_def)

fun chain_assignments :: "scope \<Rightarrow> assignment list" where
  "chain_assignments (Scope nm asgs par) =
     asgs @ (case par of None \<Rightarrow> [] | Some sc \<Rightarrow> chain_assignments sc)"

lemma foldl_assignment_step:
  "foldl (az_assignment_step req roles) acc asgs =
     (fst acc \<or> (\<exists>a \<in> set asgs. as_firm req roles a),
      snd acc \<or> (\<exists>a \<in> set asgs. as_possible req roles a \<and> \<not> as_firm req roles a))"
  by (induction asgs arbitrary: acc) (auto simp: az_assignment_step_eq)

lemma az_walk_eq:
  "az_walk req roles sc acc =
     (fst acc \<or> (\<exists>a \<in> set (chain_assignments sc). as_firm req roles a),
      snd acc \<or> (\<exists>a \<in> set (chain_assignments sc). as_possible req roles a \<and> \<not> as_firm req roles a))"
  by (induction req roles sc acc rule: az_walk.induct)
    (auto simp: foldl_assignment_step Let_def split: option.splits)

definition in_scope :: "az_policy_set \<Rightarrow> assignment set" where
  "in_scope ps = (case az_scope ps of None \<Rightarrow> {} | Some sc \<Rightarrow> set (chain_assignments sc))"

lemma az_Authorize_eq:
  "az_Authorize req ps =
     (if \<exists>d \<in> set (az_denies ps). deny_certain req d then (AzExplicitDeny, False)
      else let firm = (\<exists>a \<in> in_scope ps. as_firm req (az_roles ps) a);
               maybe = (\<exists>a \<in> in_scope ps. as_possible req (az_roles ps) a \<and>
                          \<not> as_firm req (az_roles ps) a);
               denyPossible = (\<exists>d \<in> set (az_denies ps). deny_possible req d)
           in if firm then (AzAllow, maybe \<or> denyPossible)
              else if maybe then (AzAllow, True)
              else (AzImplicitDeny, False))"
  by (auto simp: az_Authorize_def az_deny_loop_eq az_walk_eq in_scope_def Let_def
      split: option.splits)

lemma az_cond_allow: "snd (az_Authorize req ps) \<Longrightarrow> fst (az_Authorize req ps) = AzAllow"
  by (auto simp: az_Authorize_eq Let_def split: if_splits)

interpretation azure: access_evaluator az_Authorize AzAllow az_Permits
  by unfold_locales (simp_all add: az_Permits_def az_cond_allow split: prod.split)

lemma as_firm_possible: "as_firm req roles a \<Longrightarrow> as_possible req roles a"
  by (simp add: as_firm_def as_possible_def as_hit_def)

lemma az_implicit_iff:
  "fst (az_Authorize req ps) = AzImplicitDeny \<longleftrightarrow>
     (\<forall>d \<in> set (az_denies ps). \<not> deny_certain req d) \<and>
     (\<forall>a \<in> in_scope ps. \<not> as_possible req (az_roles ps) a)"
  by (auto simp: az_Authorize_eq Let_def intro: as_firm_possible)

section \<open>Properties\<close>

text \<open>A refusal is definitive. \<open>Authorize\<close> refuses only when an unconditioned deny assignment
  names the principal itself, or when no assignment on the scope or any ancestor could grant the
  action: each one either cannot cover the principal, even through a group, or has a known role
  that does not grant the action.\<close>

theorem az_refusal_is_definitive:
  assumes "fst (az_Authorize req ps) \<noteq> AzAllow"
  shows "(\<exists>d \<in> set (az_denies ps). da_condition d = [] \<and> az_principal req \<in> set (da_principals d) \<and>
       actionMatches (da_actions d) (da_not_actions d) (az_action req)) \<or>
     (\<forall>a \<in> in_scope ps. \<not> as_hit req a \<or>
       az_roleGrants (az_roles ps) (as_role a) (az_action req) = (False, True))"
proof (cases "fst (az_Authorize req ps)")
  case AzAllow
  with assms show ?thesis by simp
next
  case AzImplicitDeny
  then show ?thesis by (auto simp: az_implicit_iff as_possible_def)
next
  case AzExplicitDeny
  then show ?thesis
    by (auto simp: az_Authorize_eq deny_certain_def deny_covers_def Let_def split: if_splits)
qed

text \<open>Inheritance: a request allowed on a scope is allowed on every scope below it, with
  whatever further assignments that scope adds.\<close>

theorem az_inheritance:
  assumes "az_scope ps = Some sc" and "fst (az_Authorize req ps) = AzAllow"
  shows "fst (az_Authorize req (ps\<lparr>az_scope := Some (Scope nm asgs (Some sc))\<rparr>)) = AzAllow"
proof -
  let ?ps = "ps\<lparr>az_scope := Some (Scope nm asgs (Some sc))\<rparr>"
  have "in_scope ps \<subseteq> in_scope ?ps" using assms(1) by (simp add: in_scope_def)
  with assms(2) show ?thesis
    by (auto simp: az_Authorize_eq Let_def split: if_splits)
qed

text \<open>Contributor cannot escalate itself: whatever the rest of the policy says, a
  Contributor assignment alone never grants a write, a delete or an elevation in the
  authorization namespace.\<close>

theorem az_contributor_no_escalation:
  assumes "isAuthorizationWrite (az_action req)"
    and "\<forall>a \<in> in_scope ps. equal_fold (as_role a) ''Contributor''"
  shows "fst (az_Authorize req ps) \<noteq> AzAllow"
proof -
  have "to_lower ''Contributor'' = ''contributor''" by code_simp
  with assms have "\<forall>a \<in> in_scope ps. az_roleGrants (az_roles ps) (as_role a) (az_action req) = (False, True)"
    by (auto simp: az_roleGrants_def equal_fold_def Let_def)
  then have "\<forall>a \<in> in_scope ps. \<not> as_possible req (az_roles ps) a"
    by (simp add: as_possible_def)
  then show ?thesis
    by (auto simp: az_Authorize_eq Let_def dest: as_firm_possible)
qed

text \<open>What an unconditional allow rests on: an assignment that certainly grants, no deny assignment that
  could apply, and no assignment at all that might grant but leaves it in doubt.
\<close>

theorem az_firm_allow:
  "az_Authorize req ps = (AzAllow, False) \<longleftrightarrow>
     (\<exists>a \<in> in_scope ps. as_firm req (az_roles ps) a) \<and>
     (\<forall>a \<in> in_scope ps. as_possible req (az_roles ps) a \<longrightarrow> as_firm req (az_roles ps) a) \<and>
     (\<forall>d \<in> set (az_denies ps). \<not> deny_certain req d \<and> \<not> deny_possible req d)"
  by (auto simp: az_Authorize_eq Let_def)

text \<open>A custom role with two stars in a pattern is read as granting nothing it names: the
  glob of the Azure evaluator handles one star only, so the evaluator refuses outright an action
  that the pattern covers.\<close>

theorem az_two_star_pattern_refused:
  "let a = \<lparr>as_role = ''ops'', as_principals = [''sp:x''], as_condition = []\<rparr>;
       roles = [''ops'' \<mapsto> \<lparr>Actions = [''Microsoft.*/vm/*''], NotActions = []\<rparr>];
       ps = \<lparr>az_scope = Some (Scope ''rg'' [a] None), az_roles = roles, az_denies = []\<rparr>;
       req = \<lparr>az_principal = ''sp:x'', az_action = ''Microsoft.Compute/vm/start''\<rparr>
   in glob ''Microsoft.*/vm/*'' (az_action req) \<and> az_Authorize req ps = (AzImplicitDeny, False)"
  by code_simp

section \<open>Concrete policies\<close>

definition az_sample :: "string \<Rightarrow> az_policy_set" where
  "az_sample role =
     \<lparr>az_scope = Some (Scope ''sub'' [\<lparr>as_role = role, as_principals = [''sp:x''], as_condition = []\<rparr>] None),
      az_roles = Map.empty, az_denies = []\<rparr>"

definition az_sample_req :: "string \<Rightarrow> az_request" where
  "az_sample_req action = \<lparr>az_principal = ''sp:x'', az_action = action\<rparr>"

theorem az_refusal_is_definitive_witness:
  "az_roleGrants Map.empty ''Reader'' ''Microsoft.Compute/vm/start'' = (False, True)"
proof -
  have "fst (az_Authorize (az_sample_req ''Microsoft.Compute/vm/start'') (az_sample ''Reader'')) \<noteq> AzAllow"
    by code_simp
  from az_refusal_is_definitive [OF this] show ?thesis
    by (simp add: az_sample_def az_sample_req_def in_scope_def as_hit_def)
qed

theorem az_inheritance_witness:
  "fst (az_Authorize (az_sample_req ''Microsoft.Compute/vm/start'')
     ((az_sample ''Owner'')\<lparr>az_scope := Some (Scope ''vm'' [] (az_scope (az_sample ''Owner'')))\<rparr>)) = AzAllow"
proof -
  obtain sc where sc: "az_scope (az_sample ''Owner'') = Some sc" by (simp add: az_sample_def)
  have "fst (az_Authorize (az_sample_req ''Microsoft.Compute/vm/start'') (az_sample ''Owner'')) = AzAllow"
    by code_simp
  from az_inheritance [OF sc this] show ?thesis unfolding sc .
qed

theorem az_contributor_no_escalation_witness:
  "fst (az_Authorize (az_sample_req ''Microsoft.Authorization/roleAssignments/write'')
     (az_sample ''Contributor'')) \<noteq> AzAllow"
proof (rule az_contributor_no_escalation)
  show "isAuthorizationWrite (az_action (az_sample_req ''Microsoft.Authorization/roleAssignments/write''))"
    by code_simp
  show "\<forall>a \<in> in_scope (az_sample ''Contributor''). equal_fold (as_role a) ''Contributor''"
    by (simp add: in_scope_def az_sample_def)
qed

text \<open>
  The last clause of the characterisation is a defect: assignments only add up, yet an Owner whose allow is certain is
  answered conditionally as soon as a second assignment, of a role that is not known, is in scope.
\<close>

theorem az_firm_allow_witness:
  "let owner = \<lparr>as_role = ''Owner'', as_principals = [''sp:x''], as_condition = []\<rparr>;
       other = \<lparr>as_role = ''custom'', as_principals = [''sp:x''], as_condition = []\<rparr>;
       ps = (\<lambda>asgs. \<lparr>az_scope = Some (Scope ''sub'' asgs None), az_roles = Map.empty, az_denies = []\<rparr>);
       req = az_sample_req ''Microsoft.Compute/vm/start''
   in as_firm req Map.empty owner \<and> az_Authorize req (ps [owner]) = (AzAllow, False) \<and>
      az_Authorize req (ps [owner, other]) \<noteq> (AzAllow, False)"
proof -
  let ?owner = "\<lparr>as_role = ''Owner'', as_principals = [''sp:x''], as_condition = []\<rparr>"
  let ?other = "\<lparr>as_role = ''custom'', as_principals = [''sp:x''], as_condition = []\<rparr>"
  let ?req = "az_sample_req ''Microsoft.Compute/vm/start''"
  have "as_firm ?req Map.empty ?owner" "as_possible ?req Map.empty ?other" "\<not> as_firm ?req Map.empty ?other"
    by code_simp+
  then show ?thesis by (simp add: Let_def az_firm_allow in_scope_def)
qed

end
