(* ===== verification/GcpIam.thy ===== *)
theory GcpIam
  imports Prelude
begin

text \<open>
  internal/gcpiam/authorize.go: the GCP IAM decision over bindings, deny rules and the resource
  hierarchy (resource, project, folder, organization). Conditions (CEL) are opaque strings that
  are never evaluated. The scan of the bindings keeps three different answers apart: a firm
  grant, a grant gated only by a condition, and a grant that is itself in doubt.
\<close>

section \<open>Data\<close>

datatype gcp_decision = GcpAllow | GcpImplicitDeny | GcpExplicitDeny

record binding =
  b_role :: string
  b_members :: "string list"
  b_condition :: string

record deny_rule =
  dr_permissions :: "string list"
  dr_principals :: "string list"
  dr_exceptions :: "string list"
  dr_condition :: string

datatype resource = Resource (res_name: string) (res_bindings: "binding list")
  (res_parent: "resource option")

record gcp_policy_set =
  gcp_resource :: "resource option"
  gcp_roles :: "string \<rightharpoonup> string list"
  gcp_denies :: "deny_rule list"

record gcp_request =
  gcp_member :: string
  gcp_permission :: string

section \<open>Permissions and roles\<close>

definition isReadPerm :: "string \<Rightarrow> bool" where
  "isReadPerm perm =
     (case last_index_byte perm CHR ''.'' of
        None \<Rightarrow> False
      | Some i \<Rightarrow> drop (Suc i) perm \<in>
          {''get'', ''list'', ''view'', ''getIamPolicy'', ''check'', ''read'', ''export''})"

definition globGrants :: "string \<Rightarrow> string \<Rightarrow> bool" where
  "globGrants pattern perm =
     (if pattern = ''*'' then True
      else if has_suffix pattern ''.*'' then has_prefix perm (trim_suffix pattern ''*'')
      else pattern = perm)"

definition permIn :: "string list \<Rightarrow> string \<Rightarrow> bool" where
  "permIn perms perm = list_ex (\<lambda>p. p = ''*'' \<or> p = perm \<or> globGrants p perm) perms"

text \<open>\<open>roleGrants\<close>: (grants, known).\<close>

definition gcp_roleGrants :: "(string \<rightharpoonup> string list) \<Rightarrow> string \<Rightarrow> string \<Rightarrow> bool \<times> bool" where
  "gcp_roleGrants roles role perm =
     (if role = ''roles/owner'' \<or> role = ''roles/editor'' then (True, True)
      else if role = ''roles/viewer'' then (isReadPerm perm, True)
      else (case roles role of
              None \<Rightarrow> (False, False)
            | Some perms \<Rightarrow>
                (if list_ex (\<lambda>p. p = ''*'' \<or> p = perm \<or> globGrants p perm) perms
                 then (True, True) else (False, True))))"

section \<open>Members\<close>

definition domainOf :: "string \<Rightarrow> string" where
  "domainOf member =
     (case last_index_byte member CHR ''@'' of
        None \<Rightarrow> []
      | Some at \<Rightarrow>
          (let dom = drop (Suc at) member in
           if has_suffix dom ''.iam.gserviceaccount.com'' \<or> has_suffix dom ''.gserviceaccount.com''
           then [] else dom))"

text \<open>\<open>memberMatch\<close>: (hit, certain); \<open>hit\<close> accumulates over the loop.\<close>

fun memberMatch_from :: "bool \<Rightarrow> string list \<Rightarrow> string \<Rightarrow> bool \<times> bool" where
  "memberMatch_from hit [] member = (hit, False)"
| "memberMatch_from hit (m # ms) member =
     (if m = ''allUsers'' \<or> m = ''allAuthenticatedUsers'' then (True, True)
      else if m = member then (True, True)
      else if has_prefix m ''domain:'' then
        (if domainOf member = trim_prefix m ''domain:'' then (True, True)
         else memberMatch_from hit ms member)
      else if has_prefix m ''group:'' then memberMatch_from True ms member
      else memberMatch_from hit ms member)"

definition memberMatch :: "string list \<Rightarrow> string \<Rightarrow> bool \<times> bool" where
  "memberMatch members member = memberMatch_from False members member"

definition memberInExact :: "string list \<Rightarrow> string \<Rightarrow> bool" where
  "memberInExact members member = list_ex (\<lambda>m. m = member) members"

section \<open>Scanning the bindings\<close>

text \<open>The triple is (allow, condOnly, condOther).\<close>

definition binding_step ::
  "gcp_request \<Rightarrow> (string \<rightharpoonup> string list) \<Rightarrow> bool \<times> bool \<times> bool \<Rightarrow> binding \<Rightarrow> bool \<times> bool \<times> bool" where
  "binding_step req roles acc b =
     (case acc of (allow, condOnly, condOther) \<Rightarrow>
        (let (memberHit, memberSure) = memberMatch (b_members b) (gcp_member req) in
         if \<not> memberHit then acc
         else let (grants, roleKnown) = gcp_roleGrants roles (b_role b) (gcp_permission req) in
           if roleKnown \<and> \<not> grants then acc
           else if grants \<and> roleKnown \<and> memberSure \<and> b_condition b = [] then (True, condOnly, condOther)
           else if grants \<and> roleKnown \<and> memberSure then (allow, True, condOther)
           else (allow, condOnly, True)))"

fun scan_chain ::
  "gcp_request \<Rightarrow> (string \<rightharpoonup> string list) \<Rightarrow> resource \<Rightarrow> bool \<times> bool \<times> bool \<Rightarrow> bool \<times> bool \<times> bool" where
  "scan_chain req roles (Resource nm bs par) acc =
     (let acc' = foldl (binding_step req roles) acc bs in
      case par of None \<Rightarrow> acc' | Some r \<Rightarrow> scan_chain req roles r acc')"

definition scanBindings :: "gcp_request \<Rightarrow> gcp_policy_set \<Rightarrow> bool \<times> bool \<times> bool" where
  "scanBindings req ps =
     (case gcp_resource ps of None \<Rightarrow> (False, False, False)
      | Some r \<Rightarrow> scan_chain req (gcp_roles ps) r (False, False, False))"

section \<open>Authorize\<close>

fun gcp_deny_loop :: "gcp_request \<Rightarrow> deny_rule list \<Rightarrow> bool \<Rightarrow> bool option" where
  "gcp_deny_loop req [] denyPossible = Some denyPossible"
| "gcp_deny_loop req (d # ds) denyPossible =
     (if dr_condition d \<noteq> [] then gcp_deny_loop req ds denyPossible
      else if \<not> permIn (dr_permissions d) (gcp_permission req)
      then gcp_deny_loop req ds denyPossible
      else if memberInExact (dr_exceptions d) (gcp_member req)
      then gcp_deny_loop req ds denyPossible
      else let (m, certain) = memberMatch (dr_principals d) (gcp_member req) in
        if m then (if certain then None else gcp_deny_loop req ds True)
        else gcp_deny_loop req ds denyPossible)"

definition gcp_Authorize :: "gcp_request \<Rightarrow> gcp_policy_set \<Rightarrow> gcp_decision \<times> bool" where
  "gcp_Authorize req ps =
     (case gcp_deny_loop req (gcp_denies ps) False of
        None \<Rightarrow> (GcpExplicitDeny, False)
      | Some denyPossible \<Rightarrow>
          (let (allow, condOnly, condOther) = scanBindings req ps; cond = (condOnly \<or> condOther)
           in if allow then (GcpAllow, cond \<or> denyPossible)
              else if cond then (GcpAllow, True)
              else (GcpImplicitDeny, False)))"

definition gcp_Permits :: "gcp_request \<Rightarrow> gcp_policy_set \<Rightarrow> bool \<times> bool" where
  "gcp_Permits req ps = (let (d, c) = gcp_Authorize req ps in (d = GcpAllow, c))"

definition PermitsGrantedButGated :: "gcp_request \<Rightarrow> gcp_policy_set \<Rightarrow> bool" where
  "PermitsGrantedButGated req ps =
     (if fst (gcp_Authorize req ps) = GcpExplicitDeny then False
      else let (_, condOnly, _) = scanBindings req ps in condOnly)"

section \<open>The facts behind the loops\<close>

definition sure_member :: "string \<Rightarrow> string \<Rightarrow> bool" where
  "sure_member member m \<longleftrightarrow> m = ''allUsers'' \<or> m = ''allAuthenticatedUsers'' \<or> m = member \<or>
     has_prefix m ''domain:'' \<and> domainOf member = trim_prefix m ''domain:''"

lemma domain_not_group: "has_prefix m ''domain:'' \<Longrightarrow> \<not> has_prefix m ''group:''"
  by (auto simp: prefix_def)

lemma memberMatch_eq:
  "memberMatch ms member =
     (list_ex (\<lambda>m. sure_member member m \<or> has_prefix m ''group:'') ms, list_ex (sure_member member) ms)"
proof -
  have "memberMatch_from hit ms member =
     (hit \<or> list_ex (\<lambda>m. sure_member member m \<or> has_prefix m ''group:'') ms,
      list_ex (sure_member member) ms)" for hit
  proof (induction ms arbitrary: hit)
    case Nil
    then show ?case by simp
  next
    case (Cons m ms)
    then show ?case
      using domain_not_group [of m]
      by (cases "has_prefix m ''domain:''") (simp_all add: sure_member_def)
  qed
  then show ?thesis by (simp add: memberMatch_def)
qed

definition b_hit :: "gcp_request \<Rightarrow> binding \<Rightarrow> bool" where
  "b_hit req b \<longleftrightarrow>
     list_ex (\<lambda>m. sure_member (gcp_member req) m \<or> has_prefix m ''group:'') (b_members b)"

definition b_granted :: "gcp_request \<Rightarrow> (string \<rightharpoonup> string list) \<Rightarrow> binding \<Rightarrow> bool" where
  "b_granted req roles b \<longleftrightarrow> list_ex (sure_member (gcp_member req)) (b_members b) \<and>
     gcp_roleGrants roles (b_role b) (gcp_permission req) = (True, True)"

definition b_doubtful :: "gcp_request \<Rightarrow> (string \<rightharpoonup> string list) \<Rightarrow> binding \<Rightarrow> bool" where
  "b_doubtful req roles b \<longleftrightarrow> b_hit req b \<and> \<not> b_granted req roles b \<and>
     gcp_roleGrants roles (b_role b) (gcp_permission req) \<noteq> (False, True)"

lemma binding_step_eq:
  "binding_step req roles (x, y, z) b =
     (x \<or> b_granted req roles b \<and> b_condition b = [],
      y \<or> b_granted req roles b \<and> b_condition b \<noteq> [],
      z \<or> b_doubtful req roles b)"
proof (cases "gcp_roleGrants roles (b_role b) (gcp_permission req)")
  case (Pair grants known)
  have hit: "list_ex (sure_member (gcp_member req)) (b_members b) \<Longrightarrow> b_hit req b"
    by (auto simp: b_hit_def list_ex_iff)
  show ?thesis
    unfolding binding_step_def prod.case memberMatch_eq Let_def b_hit_def [symmetric] Pair
    using hit by (auto simp: b_granted_def b_doubtful_def Pair)
qed

fun chain_bindings :: "resource \<Rightarrow> binding list" where
  "chain_bindings (Resource nm bs par) =
     bs @ (case par of None \<Rightarrow> [] | Some r \<Rightarrow> chain_bindings r)"

definition bindings_of :: "gcp_policy_set \<Rightarrow> binding set" where
  "bindings_of ps = (case gcp_resource ps of None \<Rightarrow> {} | Some r \<Rightarrow> set (chain_bindings r))"

lemma foldl_binding_step:
  "foldl (binding_step req roles) (x, y, z) bs =
     (x \<or> (\<exists>b \<in> set bs. b_granted req roles b \<and> b_condition b = []),
      y \<or> (\<exists>b \<in> set bs. b_granted req roles b \<and> b_condition b \<noteq> []),
      z \<or> (\<exists>b \<in> set bs. b_doubtful req roles b))"
  by (induction bs arbitrary: x y z) (simp_all add: binding_step_eq disj_assoc)

lemma scan_chain_eq:
  "scan_chain req roles r (x, y, z) =
     (x \<or> (\<exists>b \<in> set (chain_bindings r). b_granted req roles b \<and> b_condition b = []),
      y \<or> (\<exists>b \<in> set (chain_bindings r). b_granted req roles b \<and> b_condition b \<noteq> []),
      z \<or> (\<exists>b \<in> set (chain_bindings r). b_doubtful req roles b))"
proof (induction r arbitrary: x y z rule: chain_bindings.induct)
  case (1 nm bs par)
  show ?case
  proof (cases par)
    case None
    then show ?thesis by (simp add: foldl_binding_step Let_def)
  next
    case (Some r)
    then show ?thesis
      by (simp add: foldl_binding_step Let_def "1.IH" bex_Un disj_assoc)
  qed
qed

lemma scanBindings_eq:
  "scanBindings req ps =
     (\<exists>b \<in> bindings_of ps. b_granted req (gcp_roles ps) b \<and> b_condition b = [],
      \<exists>b \<in> bindings_of ps. b_granted req (gcp_roles ps) b \<and> b_condition b \<noteq> [],
      \<exists>b \<in> bindings_of ps. b_doubtful req (gcp_roles ps) b)"
  by (simp add: scanBindings_def bindings_of_def scan_chain_eq split: option.split)

definition rule_covers :: "gcp_request \<Rightarrow> deny_rule \<Rightarrow> bool" where
  "rule_covers req d \<longleftrightarrow> dr_condition d = [] \<and> permIn (dr_permissions d) (gcp_permission req) \<and>
     gcp_member req \<notin> set (dr_exceptions d)"

definition rule_certain :: "gcp_request \<Rightarrow> deny_rule \<Rightarrow> bool" where
  "rule_certain req d \<longleftrightarrow> rule_covers req d \<and>
     list_ex (sure_member (gcp_member req)) (dr_principals d)"

definition rule_possible :: "gcp_request \<Rightarrow> deny_rule \<Rightarrow> bool" where
  "rule_possible req d \<longleftrightarrow> rule_covers req d \<and> \<not> rule_certain req d \<and>
     list_ex (\<lambda>m. has_prefix m ''group:'') (dr_principals d)"

lemma gcp_deny_loop_Cons:
  "gcp_deny_loop req (d # ds) denyPossible =
     (if rule_certain req d then None else gcp_deny_loop req ds (denyPossible \<or> rule_possible req d))"
proof (cases "rule_covers req d")
  case True
  then show ?thesis
    by (auto simp: rule_covers_def rule_certain_def rule_possible_def memberInExact_def
        list_ex_iff memberMatch_eq Let_def)
next
  case False
  then show ?thesis
    by (auto simp: rule_covers_def rule_certain_def rule_possible_def memberInExact_def list_ex_iff)
qed

declare gcp_deny_loop.simps(2) [simp del]

lemma gcp_deny_loop_eq:
  "gcp_deny_loop req ds denyPossible =
     (if \<exists>d \<in> set ds. rule_certain req d then None
      else Some (denyPossible \<or> (\<exists>d \<in> set ds. rule_possible req d)))"
  by (induction ds arbitrary: denyPossible) (auto simp: gcp_deny_loop_Cons)

lemma gcp_Authorize_eq:
  "gcp_Authorize req ps =
     (let roles = gcp_roles ps; bs = bindings_of ps;
          allow = (\<exists>b \<in> bs. b_granted req roles b \<and> b_condition b = []);
          cond = (\<exists>b \<in> bs. b_granted req roles b \<and> b_condition b \<noteq> [] \<or> b_doubtful req roles b)
      in if \<exists>d \<in> set (gcp_denies ps). rule_certain req d then (GcpExplicitDeny, False)
         else if allow then (GcpAllow, cond \<or> (\<exists>d \<in> set (gcp_denies ps). rule_possible req d))
         else if cond then (GcpAllow, True)
         else (GcpImplicitDeny, False))"
  by (auto simp: gcp_Authorize_def gcp_deny_loop_eq scanBindings_eq Let_def)

lemma gcp_cond_allow: "snd (gcp_Authorize req ps) \<Longrightarrow> fst (gcp_Authorize req ps) = GcpAllow"
  by (auto simp: gcp_Authorize_eq Let_def split: if_splits)

interpretation gcp: access_evaluator gcp_Authorize GcpAllow gcp_Permits
  by unfold_locales (simp_all add: gcp_Permits_def gcp_cond_allow split: prod.split)

section \<open>Properties\<close>

text \<open>A refusal is definitive: an unconditioned deny rule covers the member itself, or no
  binding on the resource or an ancestor could grant the permission, because each one cannot
  cover the member (even through a group) or has a known role without the permission.\<close>

theorem gcp_refusal_is_definitive:
  assumes "fst (gcp_Authorize req ps) \<noteq> GcpAllow"
  shows "(\<exists>d \<in> set (gcp_denies ps). rule_certain req d) \<or>
     (\<forall>b \<in> bindings_of ps. \<not> b_hit req b \<or>
        gcp_roleGrants (gcp_roles ps) (b_role b) (gcp_permission req) = (False, True))"
proof (rule disjCI)
  assume n: "\<not> (\<forall>b \<in> bindings_of ps. \<not> b_hit req b \<or>
        gcp_roleGrants (gcp_roles ps) (b_role b) (gcp_permission req) = (False, True))"
  then obtain b where b: "b \<in> bindings_of ps" "b_hit req b"
    "gcp_roleGrants (gcp_roles ps) (b_role b) (gcp_permission req) \<noteq> (False, True)" by blast
  then have "b_granted req (gcp_roles ps) b \<or> b_doubtful req (gcp_roles ps) b"
    by (auto simp: b_doubtful_def)
  with b(1) assms show "\<exists>d \<in> set (gcp_denies ps). rule_certain req d"
    by (auto simp: gcp_Authorize_eq Let_def split: if_splits)
qed

text \<open>"Granted but gated" names a real permission: there is then a binding whose role is
  known to grant it and whose members certainly include the member, held back only by its
  condition, and the request is answered with a conditional allow.\<close>

theorem gcp_gated_is_conditional_allow:
  assumes "PermitsGrantedButGated req ps"
  shows "gcp_Authorize req ps = (GcpAllow, True) \<and>
    (\<exists>b \<in> bindings_of ps. b_granted req (gcp_roles ps) b \<and> b_condition b \<noteq> [])"
proof -
  from assms have g: "\<exists>b \<in> bindings_of ps. b_granted req (gcp_roles ps) b \<and> b_condition b \<noteq> []"
    and d: "fst (gcp_Authorize req ps) \<noteq> GcpExplicitDeny"
    by (auto simp: PermitsGrantedButGated_def scanBindings_eq split: if_splits)
  from d have "\<not> (\<exists>d \<in> set (gcp_denies ps). rule_certain req d)"
    by (auto simp: gcp_Authorize_eq Let_def split: if_splits)
  with g show ?thesis by (auto simp: gcp_Authorize_eq Let_def)
qed

text \<open>What an unconditional allow rests on: some binding certainly grants the permission to the
  member without a condition, no binding leaves a grant in doubt or rests it on a condition, and no
  deny rule could apply.\<close>

theorem gcp_firm_allow:
  "gcp_Authorize req ps = (GcpAllow, False) \<longleftrightarrow>
     (\<exists>b \<in> bindings_of ps. b_granted req (gcp_roles ps) b \<and> b_condition b = []) \<and>
     (\<forall>b \<in> bindings_of ps. \<not> b_doubtful req (gcp_roles ps) b \<and>
        \<not> (b_granted req (gcp_roles ps) b \<and> b_condition b \<noteq> [])) \<and>
     (\<forall>d \<in> set (gcp_denies ps). \<not> rule_certain req d \<and> \<not> rule_possible req d)"
  by (auto simp: gcp_Authorize_eq Let_def)

section \<open>Concrete policies\<close>

definition gcp_sample :: "string \<Rightarrow> string \<Rightarrow> gcp_policy_set" where
  "gcp_sample role cond =
     \<lparr>gcp_resource = Some (Resource ''b'' [] (Some (Resource ''p''
        [\<lparr>b_role = role, b_members = [''user:a@x''], b_condition = cond\<rparr>] None))),
      gcp_roles = Map.empty, gcp_denies = []\<rparr>"

definition gcp_sample_req :: gcp_request where
  "gcp_sample_req = \<lparr>gcp_member = ''user:a@x'', gcp_permission = ''storage.objects.delete''\<rparr>"

theorem gcp_refusal_is_definitive_witness:
  "gcp_roleGrants Map.empty ''roles/viewer'' ''storage.objects.delete'' = (False, True)"
proof -
  have "fst (gcp_Authorize gcp_sample_req (gcp_sample ''roles/viewer'' [])) \<noteq> GcpAllow" by code_simp
  from gcp_refusal_is_definitive [OF this] show ?thesis
    by (simp add: gcp_sample_def gcp_sample_req_def bindings_of_def b_hit_def sure_member_def)
qed

theorem gcp_gated_is_conditional_allow_witness:
  "gcp_Authorize gcp_sample_req (gcp_sample ''roles/owner'' ''request.time < t'') = (GcpAllow, True)"
proof -
  have "PermitsGrantedButGated gcp_sample_req (gcp_sample ''roles/owner'' ''request.time < t'')"
    by code_simp
  from gcp_gated_is_conditional_allow [OF this] show ?thesis by blast
qed

text \<open>
  As on Azure, the clause on the other bindings is a defect: bindings only add up, yet an owner is answered
  conditionally as soon as a second binding grants the same under a condition.
\<close>

theorem gcp_firm_allow_witness:
  "let b = (\<lambda>c. \<lparr>b_role = ''roles/owner'', b_members = [''user:a@x''], b_condition = c\<rparr>);
       ps = (\<lambda>bs. \<lparr>gcp_resource = Some (Resource ''p'' bs None), gcp_roles = Map.empty, gcp_denies = []\<rparr>)
   in gcp_Authorize gcp_sample_req (ps [b []]) = (GcpAllow, False) \<and>
      gcp_Authorize gcp_sample_req (ps [b [], b ''request.time < t'']) \<noteq> (GcpAllow, False)"
proof -
  let ?b = "\<lambda>c. \<lparr>b_role = ''roles/owner'', b_members = [''user:a@x''], b_condition = c\<rparr>"
  have "b_granted gcp_sample_req Map.empty (?b [])" "\<not> b_doubtful gcp_sample_req Map.empty (?b [])"
    "b_granted gcp_sample_req Map.empty (?b ''request.time < t'')"
    by code_simp+
  then show ?thesis by (simp add: Let_def gcp_firm_allow bindings_of_def)
qed

end
