(* ===== verification/NetAddr.thy ===== *)
theory NetAddr
  imports Prelude
begin

text \<open>
  The part of the Go package \<open>net\<close> that the sources call: textual IPv4 and IPv6 addresses
  (\<open>ParseIP\<close>), CIDR ranges (\<open>ParseCIDR\<close>), \<open>IPNet.Contains\<close> and the address-class predicates.
  An \<open>IP\<close> is its bytes, 4 or 16 of them; a nil \<open>IP\<close> is \<open>None\<close>. \<open>ParseIP\<close> always yields the
  16-byte form, an IPv4 address mapped into it, and \<open>To4\<close> undoes the mapping.
\<close>

type_synonym ip = "nat list"

section \<open>Textual addresses\<close>

fun digit_val :: "char \<Rightarrow> nat option" where
  "digit_val c = (let n = of_char c :: nat in if 48 \<le> n \<and> n \<le> 57 then Some (n - 48) else None)"

fun hex_val :: "char \<Rightarrow> nat option" where
  "hex_val c =
     (let n = of_char c :: nat in
      if 48 \<le> n \<and> n \<le> 57 then Some (n - 48)
      else if 97 \<le> n \<and> n \<le> 102 then Some (n - 87)
      else if 65 \<le> n \<and> n \<le> 70 then Some (n - 55) else None)"

fun dec_value :: "nat \<Rightarrow> string \<Rightarrow> nat option" where
  "dec_value acc [] = Some acc"
| "dec_value acc (c # cs) =
     (case digit_val c of None \<Rightarrow> None | Some d \<Rightarrow> dec_value (10 * acc + d) cs)"

text \<open>One field of a dotted quad: no empty field, no leading zero, at most 255.\<close>

definition octet_of :: "string \<Rightarrow> nat option" where
  "octet_of s =
     (if s = [] \<or> 3 < length s \<or> (1 < length s \<and> hd s = CHR ''0'') then None
      else case dec_value 0 s of None \<Rightarrow> None | Some n \<Rightarrow> if n \<le> 255 then Some n else None)"

definition parse_v4 :: "string \<Rightarrow> ip option" where
  "parse_v4 s =
     (case map octet_of (split_on (CHR ''.'') s) of
        [Some a, Some b, Some c, Some d] \<Rightarrow> Some [a, b, c, d]
      | _ \<Rightarrow> None)"

text \<open>The leading hex digits of a group: their value, their number, and what follows.\<close>

fun hex_run :: "nat \<Rightarrow> nat \<Rightarrow> string \<Rightarrow> nat \<times> nat \<times> string" where
  "hex_run acc off [] = (acc, off, [])"
| "hex_run acc off (c # cs) =
     (case hex_val c of
        None \<Rightarrow> (acc, off, c # cs)
      | Some d \<Rightarrow> hex_run (16 * acc + d) (Suc off) cs)"

text \<open>
  The group loop of the IPv6 parser: \<open>left\<close> groups may still follow, \<open>out\<close> holds the bytes read,
  \<open>ell\<close> the position of the ellipsis. The last group may be a dotted quad.
\<close>

fun v6_loop :: "nat \<Rightarrow> string \<Rightarrow> nat list \<Rightarrow> nat option \<Rightarrow> (nat list \<times> nat option) option" where
  "v6_loop 0 s out ell = (if s = [] then Some (out, ell) else None)"
| "v6_loop (Suc left) s out ell =
     (let (acc, off, rest) = hex_run 0 0 s in
      if off = 0 \<or> 4 < off then None
      else if rest \<noteq> [] \<and> hd rest = CHR ''.'' then
        (if ell = None \<and> length out \<noteq> 12 \<or> 12 < length out then None
         else case parse_v4 s of None \<Rightarrow> None | Some q \<Rightarrow> Some (out @ q, ell))
      else let out1 = out @ [acc div 256, acc mod 256] in
        (case rest of
           [] \<Rightarrow> Some (out1, ell)
         | [c] \<Rightarrow> None
         | c # d # more \<Rightarrow>
             if c \<noteq> CHR '':'' then None
             else if d \<noteq> CHR '':'' then v6_loop left (d # more) out1 ell
             else if ell \<noteq> None then None
             else if more = [] then Some (out1, Some (length out1))
             else v6_loop left more out1 (Some (length out1))))"

definition v6_expand :: "nat list \<times> nat option \<Rightarrow> ip option" where
  "v6_expand r =
     (case r of (out, ell) \<Rightarrow>
        (case ell of
           None \<Rightarrow> if length out = 16 then Some out else None
         | Some k \<Rightarrow>
             if 16 \<le> length out then None
             else Some (take k out @ replicate (16 - length out) 0 @ drop k out)))"

definition parse_v6 :: "string \<Rightarrow> ip option" where
  "parse_v6 s =
     (if prefix ''::'' s then
        (if length s = 2 then Some (replicate 16 0)
         else Option.bind (v6_loop 8 (drop 2 s) [] (Some 0)) v6_expand)
      else Option.bind (v6_loop 8 s [] None) v6_expand)"

text \<open>\<open>netip.ParseAddr\<close>: the first of \<open>. : %\<close> decides; a zone is not accepted by the callers.
  The result keeps the family: 4 or 16 bytes.\<close>

definition parse_addr :: "string \<Rightarrow> ip option" where
  "parse_addr s =
     (case filter (\<lambda>c. c \<in> set ''.:%'') s of
        [] \<Rightarrow> None
      | c # _ \<Rightarrow>
          if c = CHR ''.'' then parse_v4 s
          else if c = CHR '':'' \<and> CHR ''%'' \<notin> set s then parse_v6 s else None)"

definition v4_prefix :: "nat list" where
  "v4_prefix = replicate 10 0 @ [255, 255]"

definition to16 :: "ip \<Rightarrow> ip" where
  "to16 a = (if length a = 4 then v4_prefix @ a else a)"

definition To4 :: "ip \<Rightarrow> ip option" where
  "To4 a =
     (if length a = 4 then Some a
      else if length a = 16 \<and> take 12 a = v4_prefix then Some (drop 12 a) else None)"

definition ParseIP :: "string \<Rightarrow> ip option" where
  "ParseIP s = map_option to16 (parse_addr s)"

section \<open>Ranges\<close>

text \<open>The network number and the mask, a mask being \<open>ones\<close> leading ones out of \<open>bits\<close>.\<close>

record ipnet =
  net_ip :: ip
  net_ones :: nat
  net_bits :: nat

definition byte_bits :: "nat \<Rightarrow> bool list" where
  "byte_bits n = map (\<lambda>k. odd (n div 2 ^ k)) [7, 6, 5, 4, 3, 2, 1, 0]"

definition ip_bits :: "ip \<Rightarrow> bool list" where
  "ip_bits a = concat (map byte_bits a)"

text \<open>A byte with its last bits cleared, the first \<open>k\<close> kept.\<close>

definition mask_byte :: "nat \<Rightarrow> nat \<Rightarrow> nat" where
  "mask_byte k b = (if 8 \<le> k then b else (b div 2 ^ (8 - k)) * 2 ^ (8 - k))"

fun mask_ip :: "nat \<Rightarrow> ip \<Rightarrow> ip" where
  "mask_ip ones [] = []"
| "mask_ip ones (b # bs) = mask_byte ones b # mask_ip (ones - 8) bs"

definition ParseCIDR :: "string \<Rightarrow> ipnet option" where
  "ParseCIDR s =
     (case index_byte s (CHR ''/'') of
        None \<Rightarrow> None
      | Some i \<Rightarrow>
          (case parse_addr (take i s) of
             None \<Rightarrow> None
           | Some a \<Rightarrow>
               (case (if drop (Suc i) s = [] then None else dec_value 0 (drop (Suc i) s)) of
                  None \<Rightarrow> None
                | Some n \<Rightarrow>
                    if n \<le> 8 * length a
                    then Some \<lparr>net_ip = mask_ip n a, net_ones = n, net_bits = 8 * length a\<rparr>
                    else None)))"

text \<open>\<open>networkNumberAndMask\<close>: a mapped network number shortens a 16-byte mask to its last 4 bytes.\<close>

definition net_number :: "ipnet \<Rightarrow> (ip \<times> nat) option" where
  "net_number n =
     (let a = (case To4 (net_ip n) of Some q \<Rightarrow> q | None \<Rightarrow> net_ip n) in
      if net_bits n = 32 then (if length a = 4 then Some (a, net_ones n) else None)
      else Some (a, if length a = 4 then net_ones n - 96 else net_ones n))"

definition Contains :: "ipnet \<Rightarrow> ip \<Rightarrow> bool" where
  "Contains n a =
     (let x = (case To4 a of Some q \<Rightarrow> q | None \<Rightarrow> a) in
      case net_number n of
        None \<Rightarrow> False
      | Some (nn, ones) \<Rightarrow>
          length x = length nn \<and> take ones (ip_bits x) = take ones (ip_bits nn))"

section \<open>Address classes\<close>

definition ip_equal :: "ip \<Rightarrow> ip \<Rightarrow> bool" where
  "ip_equal a b \<longleftrightarrow> to16 a = to16 b"

definition IsUnspecified :: "ip \<Rightarrow> bool" where
  "IsUnspecified a \<longleftrightarrow> ip_equal a [0, 0, 0, 0] \<or> ip_equal a (replicate 16 0)"

definition IsLoopback :: "ip \<Rightarrow> bool" where
  "IsLoopback a =
     (case To4 a of Some q \<Rightarrow> q ! 0 = 127 | None \<Rightarrow> ip_equal a (replicate 15 0 @ [1]))"

definition IsPrivate :: "ip \<Rightarrow> bool" where
  "IsPrivate a =
     (case To4 a of
        Some q \<Rightarrow> q ! 0 = 10 \<or> q ! 0 = 172 \<and> q ! 1 div 16 = 1 \<or> q ! 0 = 192 \<and> q ! 1 = 168
      | None \<Rightarrow> length a = 16 \<and> a ! 0 div 2 = 126)"

definition IsMulticast :: "ip \<Rightarrow> bool" where
  "IsMulticast a =
     (case To4 a of Some q \<Rightarrow> q ! 0 div 16 = 14 | None \<Rightarrow> length a = 16 \<and> a ! 0 = 255)"

definition IsInterfaceLocalMulticast :: "ip \<Rightarrow> bool" where
  "IsInterfaceLocalMulticast a \<longleftrightarrow> length a = 16 \<and> a ! 0 = 255 \<and> a ! 1 mod 16 = 1"

definition IsLinkLocalMulticast :: "ip \<Rightarrow> bool" where
  "IsLinkLocalMulticast a =
     (case To4 a of
        Some q \<Rightarrow> q ! 0 = 224 \<and> q ! 1 = 0 \<and> q ! 2 = 0
      | None \<Rightarrow> length a = 16 \<and> a ! 0 = 255 \<and> a ! 1 mod 16 = 2)"

definition IsLinkLocalUnicast :: "ip \<Rightarrow> bool" where
  "IsLinkLocalUnicast a =
     (case To4 a of
        Some q \<Rightarrow> q ! 0 = 169 \<and> q ! 1 = 254
      | None \<Rightarrow> length a = 16 \<and> a ! 0 = 254 \<and> a ! 1 div 64 = 2)"

section \<open>Lemmas\<close>

lemma length_byte_bits [simp]: "length (byte_bits n) = 8"
  by (simp add: byte_bits_def)

lemma length_ip_bits [simp]: "length (ip_bits a) = 8 * length a"
  by (induction a) (simp_all add: ip_bits_def)

lemma length_mask_ip [simp]: "length (mask_ip n a) = length a"
  by (induction n a rule: mask_ip.induct) simp_all

lemma To4_v4 [simp]: "length a = 4 \<Longrightarrow> To4 a = Some a"
  by (simp add: To4_def)

lemma To4_length: "To4 a = Some q \<Longrightarrow> length q = 4"
  by (auto simp: To4_def split: if_splits)

lemma To4_to16 [simp]: "length a = 4 \<Longrightarrow> To4 (to16 a) = Some a"
  by (simp add: To4_def to16_def v4_prefix_def)

text \<open>The mapped form of an IPv4 address is in the same ranges and classes as the address.\<close>

lemma Contains_to16 [simp]: "length a = 4 \<Longrightarrow> Contains n (to16 a) = Contains n a"
  by (simp add: Contains_def)

lemma take_le_eq: "take m xs = take m ys \<Longrightarrow> n \<le> m \<Longrightarrow> take n xs = take n ys"
  by (metis min.absorb1 take_take)

definition shorten :: "ip \<Rightarrow> ip" where
  "shorten a = (case To4 a of Some q \<Rightarrow> q | None \<Rightarrow> a)"

lemma shorten_v4 [simp]: "length a = 4 \<Longrightarrow> shorten a = a"
  by (simp add: shorten_def)

lemma shorten_v6 [simp]: "To4 a = None \<Longrightarrow> shorten a = a"
  by (simp add: shorten_def)

text \<open>A network in the plain form: an IPv4 number under a 32-bit mask, or an unmapped IPv6
  number under a 128-bit mask. Only the CIDR notation of a mapped address gives another form.\<close>

definition plain_net :: "ipnet \<Rightarrow> bool" where
  "plain_net n \<longleftrightarrow>
     To4 (net_ip n) \<noteq> None \<and> net_bits n = 32 \<or>
     length (net_ip n) = 16 \<and> To4 (net_ip n) = None \<and> net_bits n = 128"

lemma Contains_plain:
  "plain_net n \<Longrightarrow> Contains n a \<longleftrightarrow>
     length (shorten a) = length (shorten (net_ip n)) \<and>
     take (net_ones n) (ip_bits (shorten a)) = take (net_ones n) (ip_bits (shorten (net_ip n)))"
  by (auto simp: plain_net_def net_number_def Contains_def shorten_def [symmetric] Let_def
      dest: To4_length) (auto simp: shorten_def dest: To4_length)

lemma Contains_self: "plain_net n \<Longrightarrow> Contains n (net_ip n)"
  by (simp add: Contains_plain)

text \<open>A range with at most as many ones that contains the number of another contains all of it.\<close>

lemma Contains_mono:
  assumes "plain_net n" "plain_net m" "net_ones n \<le> net_ones m" "Contains n (net_ip m)" "Contains m a"
  shows "Contains n a"
  using assms take_le_eq [OF _ assms(3), of "ip_bits (shorten a)" "ip_bits (shorten (net_ip m))"]
  by (simp add: Contains_plain)

text \<open>Only a mask without ones covers a whole family: two of its addresses differ in the first bit.\<close>

lemma first_bit_splits:
  assumes "plain_net n" "length a = 4 \<or> length a = 16 \<and> To4 a = None" "hd a = 0"
    and "length b = 4 \<or> length b = 16 \<and> To4 b = None" "hd b = 128"
    and "Contains n a" "Contains n b"
  shows "net_ones n = 0"
proof -
  have "a \<noteq> []" "b \<noteq> []" using assms(2,4) by auto
  with assms(3,5) obtain as bs where "a = 0 # as" "b = 128 # bs" by (cases a; cases b) auto
  moreover have "take (net_ones n) (ip_bits a) = take (net_ones n) (ip_bits b)"
    using assms(1,2,4,6,7) by (auto simp: Contains_plain)
  ultimately show ?thesis by (cases "net_ones n") (simp_all add: ip_bits_def byte_bits_def)
qed

end
