(* ===== verification/CloudPrune.thy ===== *)
theory CloudPrune
  imports CloudGraph IamAuthorize AzureIam GcpIam NetAddr
begin

text \<open>
  internal/cloudgraph/prune.go and reachability.go: the two passes that remove over-approximated
  edges before the paths are enumerated. \<open>PruneUnauthorized\<close> asks the three cloud evaluators
  about assume-role edges, \<open>PruneUnreachable\<close> asks the ingress rules about edges from the
  internet. Decoding JSON text into the documents and rules is an argument (\<open>prune_env\<close>).
\<close>

section \<open>Security-group reachability\<close>

record sg_rule =
  sg_proto :: string
  sg_cidr :: string
  sg_from :: int
  sg_to :: int

definition protoMatches :: "string \<Rightarrow> string \<Rightarrow> bool" where
  "protoMatches rule want =
     (let r = to_lower (trim_space rule) in
      if r = [] \<or> r = ''-1'' \<or> r = ''all'' then True else r = to_lower (trim_space want))"

definition portMatches :: "sg_rule \<Rightarrow> int \<Rightarrow> bool" where
  "portMatches r port =
     (if sg_from r = 0 \<and> sg_to r = 0 then True else sg_from r \<le> port \<and> port \<le> sg_to r)"

definition parseCIDR :: "string \<Rightarrow> ipnet option" where
  "parseCIDR s0 =
     (let s = trim_space s0 in
      if s = [] then None
      else case ParseCIDR s of
        Some n \<Rightarrow> Some n
      | None \<Rightarrow>
          (case ParseIP s of
             None \<Rightarrow> None
           | Some a \<Rightarrow>
               let bits = (if To4 a = None then 128 else 32)
               in Some \<lparr>net_ip = a, net_ones = bits, net_bits = bits\<rparr>))"

definition cidrCovers :: "string \<Rightarrow> string \<Rightarrow> bool" where
  "cidrCovers rule src =
     (case (parseCIDR rule, parseCIDR src) of
        (Some nr, Some ns) \<Rightarrow> net_ones nr \<le> net_ones ns \<and> Contains nr (net_ip ns)
      | _ \<Rightarrow> True)"

definition ruleAllows :: "sg_rule \<Rightarrow> string \<Rightarrow> int \<Rightarrow> string \<Rightarrow> bool" where
  "ruleAllows r srcCIDR port proto =
     (if \<not> protoMatches (sg_proto r) proto \<or> \<not> portMatches r port then False
      else cidrCovers (sg_cidr r) srcCIDR)"

definition Reachable :: "sg_rule list \<Rightarrow> string \<Rightarrow> int \<Rightarrow> string \<Rightarrow> bool" where
  "Reachable rules srcCIDR port proto = list_ex (\<lambda>r. ruleAllows r srcCIDR port proto) rules"

definition InternetReachable :: "sg_rule list \<Rightarrow> int \<Rightarrow> string \<Rightarrow> bool" where
  "InternetReachable rules port proto =
     (Reachable rules ''0.0.0.0/0'' port proto \<or> Reachable rules ''::/0'' port proto)"

section \<open>The pruning passes\<close>

record prune_env =
  pe_iam :: iam_env
  pe_trust :: "string \<Rightarrow> document option"
  pe_gcp :: "string \<Rightarrow> gcp_policy_set option"
  pe_azure :: "string \<Rightarrow> az_policy_set option"
  pe_rules :: "string \<Rightarrow> sg_rule list option"

text \<open>Reading a key of a Go map of strings: an absent key, or a nil map, reads as empty.\<close>

definition attr :: "node \<Rightarrow> string \<Rightarrow> string" where
  "attr n k = (case n_attrs n k of None \<Rightarrow> [] | Some v \<Rightarrow> v)"

definition ParseSGRules :: "prune_env \<Rightarrow> string \<Rightarrow> sg_rule list option" where
  "ParseSGRules env s0 = (let s = trim_space s0 in if s = [] then Some [] else pe_rules env s)"

definition internetBlocked :: "prune_env \<Rightarrow> snapshot \<Rightarrow> string \<Rightarrow> bool" where
  "internetBlocked env s dst =
     (case s_nodes s dst of
        None \<Rightarrow> False
      | Some n \<Rightarrow>
          let portStr = attr n ''service_port'' in
          if portStr = [] then False
          else case parse_int64 portStr of
            None \<Rightarrow> False
          | Some port \<Rightarrow>
              (case ParseSGRules env (attr n ''sg_ingress'') of
                 None \<Rightarrow> False
               | Some rules \<Rightarrow>
                   if rules = [] then False
                   else let proto = (if attr n ''service_proto'' = [] then ''tcp'' else attr n ''service_proto'')
                        in \<not> InternetReachable rules port proto))"

definition PruneUnreachable :: "prune_env \<Rightarrow> snapshot \<Rightarrow> snapshot" where
  "PruneUnreachable env s =
     s\<lparr>s_edges := filter (\<lambda>e. \<not> (e_kind e = EdgeNetworkReach \<and> e_from e = InternetID \<and>
        internetBlocked env s (e_to e))) (s_edges s)\<rparr>"

text \<open>The name under which the source is known to the target's provider.\<close>

definition source_name :: "snapshot \<Rightarrow> string \<Rightarrow> string \<Rightarrow> string" where
  "source_name s src key =
     (case s_nodes s src of
        None \<Rightarrow> src
      | Some fn \<Rightarrow> if attr fn key \<noteq> [] then attr fn key else src)"

definition impersonation_perms :: "string list" where
  "impersonation_perms = [''iam.serviceAccounts.getAccessToken'', ''iam.serviceAccounts.actAs'']"

definition takeover_actions :: "string list" where
  "takeover_actions =
     [''Microsoft.Authorization/roleAssignments/write'',
      ''Microsoft.ManagedIdentity/userAssignedIdentities/assign/action'']"

definition assumeAuthorized :: "prune_env \<Rightarrow> snapshot \<Rightarrow> string \<Rightarrow> string \<Rightarrow> bool" where
  "assumeAuthorized env s src dst =
     (case s_nodes s dst of
        None \<Rightarrow> True
      | Some tn \<Rightarrow>
          if attr tn ''gcp_iam_policy'' \<noteq> [] then
            (case pe_gcp env (attr tn ''gcp_iam_policy'') of
               None \<Rightarrow> True
             | Some ps \<Rightarrow>
                 list_ex (\<lambda>perm.
                   let (allowed, cond) =
                     gcp_Permits \<lparr>gcp_member = source_name s src ''member'', gcp_permission = perm\<rparr> ps
                   in allowed \<or> cond) impersonation_perms)
          else if attr tn ''azure_rbac_policy'' \<noteq> [] then
            (case pe_azure env (attr tn ''azure_rbac_policy'') of
               None \<Rightarrow> True
             | Some ps \<Rightarrow>
                 list_ex (\<lambda>act.
                   let (allowed, cond) =
                     az_Permits \<lparr>az_principal = source_name s src ''principal'', az_action = act\<rparr> ps
                   in allowed \<or> cond) takeover_actions)
          else if attr tn ''trust_policy'' = [] then True
          else case pe_trust env (attr tn ''trust_policy'') of
            None \<Rightarrow> True
          | Some doc \<Rightarrow>
              fst (Allows (pe_iam env) ''sts:AssumeRole'' (source_name s src ''arn'') [Some doc]))"

definition PruneUnauthorized :: "prune_env \<Rightarrow> snapshot \<Rightarrow> snapshot" where
  "PruneUnauthorized env s =
     s\<lparr>s_edges := filter (\<lambda>e. \<not> (e_kind e = EdgeAssumeRole \<and>
        \<not> assumeAuthorized env s (e_from e) (e_to e))) (s_edges s)\<rparr>"

section \<open>What the passes remove\<close>

text \<open>The evaluators' contract reduces "neither allowed nor conditionally allowed" to a decision.\<close>

lemma gcp_asks:
  "list_ex (\<lambda>perm. let (allowed, cond) = gcp_Permits \<lparr>gcp_member = m, gcp_permission = perm\<rparr> ps
      in allowed \<or> cond) perms \<longleftrightarrow>
    (\<exists>perm \<in> set perms. fst (gcp_Authorize \<lparr>gcp_member = m, gcp_permission = perm\<rparr> ps) = GcpAllow)"
  by (simp add: list_ex_iff gcp.keeps_iff_allow split_def)

lemma azure_asks:
  "list_ex (\<lambda>act. let (allowed, cond) = az_Permits \<lparr>az_principal = p, az_action = act\<rparr> ps
      in allowed \<or> cond) acts \<longleftrightarrow>
    (\<exists>act \<in> set acts. fst (az_Authorize \<lparr>az_principal = p, az_action = act\<rparr> ps) = AzAllow)"
  by (simp add: list_ex_iff azure.keeps_iff_allow split_def)

text \<open>The target carries a policy that decodes and that definitively refuses the source.\<close>

definition gcp_refuses :: "prune_env \<Rightarrow> snapshot \<Rightarrow> string \<Rightarrow> node \<Rightarrow> bool" where
  "gcp_refuses env s src tn \<longleftrightarrow>
     (\<exists>ps. pe_gcp env (attr tn ''gcp_iam_policy'') = Some ps \<and>
        (\<forall>perm \<in> set impersonation_perms.
           fst (gcp_Authorize \<lparr>gcp_member = source_name s src ''member'', gcp_permission = perm\<rparr> ps)
             \<noteq> GcpAllow))"

definition azure_refuses :: "prune_env \<Rightarrow> snapshot \<Rightarrow> string \<Rightarrow> node \<Rightarrow> bool" where
  "azure_refuses env s src tn \<longleftrightarrow>
     (\<exists>ps. pe_azure env (attr tn ''azure_rbac_policy'') = Some ps \<and>
        (\<forall>act \<in> set takeover_actions.
           fst (az_Authorize \<lparr>az_principal = source_name s src ''principal'', az_action = act\<rparr> ps)
             \<noteq> AzAllow))"

definition trust_refuses :: "prune_env \<Rightarrow> snapshot \<Rightarrow> string \<Rightarrow> node \<Rightarrow> bool" where
  "trust_refuses env s src tn \<longleftrightarrow>
     (\<exists>doc. pe_trust env (attr tn ''trust_policy'') = Some doc \<and>
        fst (Eval (pe_iam env) ''sts:AssumeRole'' (source_name s src ''arn'') [Some doc]) \<noteq> Allow)"

definition refuses :: "prune_env \<Rightarrow> snapshot \<Rightarrow> string \<Rightarrow> node \<Rightarrow> bool" where
  "refuses env s src tn =
     (if attr tn ''gcp_iam_policy'' \<noteq> [] then gcp_refuses env s src tn
      else if attr tn ''azure_rbac_policy'' \<noteq> [] then azure_refuses env s src tn
      else attr tn ''trust_policy'' \<noteq> [] \<and> trust_refuses env s src tn)"

lemma asks_trust:
  "fst (Allows env act res docs) \<longleftrightarrow> fst (Eval env act res docs) = Allow"
  by (simp add: Allows_def split: prod.split)

lemma not_assumeAuthorized:
  "\<not> assumeAuthorized env s src dst \<longleftrightarrow> (\<exists>tn. s_nodes s dst = Some tn \<and> refuses env s src tn)"
proof (cases "s_nodes s dst")
  case None
  then show ?thesis by (simp add: assumeAuthorized_def)
next
  case (Some tn)
  consider (gcp) "attr tn ''gcp_iam_policy'' \<noteq> []"
    | (azure) "attr tn ''gcp_iam_policy'' = []" "attr tn ''azure_rbac_policy'' \<noteq> []"
    | (aws) "attr tn ''gcp_iam_policy'' = []" "attr tn ''azure_rbac_policy'' = []"
    by blast
  then show ?thesis
  proof cases
    case gcp
    with Some show ?thesis
      by (simp only: assumeAuthorized_def gcp_asks option.case if_True refuses_def gcp_refuses_def
          option.inject ex_simps simp_thms split: option.split) auto
  next
    case azure
    with Some show ?thesis
      by (simp only: assumeAuthorized_def azure_asks option.case if_True if_False refuses_def
          azure_refuses_def option.inject ex_simps simp_thms split: option.split) auto
  next
    case aws
    with Some show ?thesis
      by (simp add: assumeAuthorized_def asks_trust refuses_def trust_refuses_def
          split: option.split)
  qed
qed

text \<open>A pass only selects edges: nodes, and the order of what stays, are untouched.\<close>

lemma Prune_select [simp]:
  "s_nodes (PruneUnauthorized env s) = s_nodes s"
  "s_nodes (PruneUnreachable env s) = s_nodes s"
  by (simp_all add: PruneUnauthorized_def PruneUnreachable_def)

definition blocked_edge :: "prune_env \<Rightarrow> snapshot \<Rightarrow> edge \<Rightarrow> bool" where
  "blocked_edge env s e \<longleftrightarrow>
     e_kind e = EdgeAssumeRole \<and> \<not> assumeAuthorized env s (e_from e) (e_to e) \<or>
     e_kind e = EdgeNetworkReach \<and> e_from e = InternetID \<and> internetBlocked env s (e_to e)"

text \<open>The verdicts read the nodes only, so the passes do not disturb each other.\<close>

lemma verdicts_read_nodes:
  assumes "s_nodes s = s_nodes t"
  shows "assumeAuthorized env s = assumeAuthorized env t"
    and "internetBlocked env s = internetBlocked env t"
  using assms by (auto simp: fun_eq_iff assumeAuthorized_def internetBlocked_def source_name_def
      cong: option.case_cong)

lemma prune_both:
  "s_edges (PruneUnreachable env (PruneUnauthorized env s)) =
     filter (\<lambda>e. \<not> blocked_edge env s e) (s_edges s)"
proof -
  have "internetBlocked env (PruneUnauthorized env s) = internetBlocked env s"
    by (rule verdicts_read_nodes(2)) simp
  then show ?thesis
    by (simp add: PruneUnreachable_def PruneUnauthorized_def blocked_edge_def conj_commute)
qed

lemma attack_path_pruned:
  "attack_path (PruneUnreachable env (PruneUnauthorized env s)) target allow v es \<longleftrightarrow>
     attack_path s target allow v es \<and> list_all (\<lambda>e. \<not> blocked_edge env s e) es"
  by (auto simp: attack_path_def prune_both list_all_iff)

section \<open>What the ingress rules say of the whole internet\<close>

abbreviation all_v4 :: "ip set" where
  "all_v4 \<equiv> {a. length a = 4}"

abbreviation all_v6 :: "ip set" where
  "all_v6 \<equiv> {a. length a = 16 \<and> To4 a = None}"

definition net_addrs :: "ipnet \<Rightarrow> ip set" where
  "net_addrs n = {a. Contains n a}"

text \<open>The rule speaks of the port and its range is unreadable or spans a whole family.\<close>

definition opens_to_world :: "sg_rule \<Rightarrow> int \<Rightarrow> string \<Rightarrow> bool" where
  "opens_to_world r port proto \<longleftrightarrow>
     protoMatches (sg_proto r) proto \<and> portMatches r port \<and>
     (case parseCIDR (sg_cidr r) of
        None \<Rightarrow> True | Some n \<Rightarrow> all_v4 \<subseteq> net_addrs n \<or> all_v6 \<subseteq> net_addrs n)"

definition world4 :: ipnet where
  "world4 = \<lparr>net_ip = [0, 0, 0, 0], net_ones = 0, net_bits = 32\<rparr>"

definition world6 :: ipnet where
  "world6 = \<lparr>net_ip = replicate 16 0, net_ones = 0, net_bits = 128\<rparr>"

lemma parse_worlds [simp]:
  "parseCIDR ''0.0.0.0/0'' = Some world4" "parseCIDR ''::/0'' = Some world6"
  by code_simp+

lemma plain_worlds [simp]: "plain_net world4" "plain_net world6"
  by code_simp+

lemma Contains_worlds: "length a = 4 \<Longrightarrow> Contains world4 a" "a \<in> all_v6 \<Longrightarrow> Contains world6 a"
proof -
  have n: "net_number world4 = Some ([0, 0, 0, 0], 0)" "net_number world6 = Some (replicate 16 0, 0)"
    by code_simp+
  show "length a = 4 \<Longrightarrow> Contains world4 a" "a \<in> all_v6 \<Longrightarrow> Contains world6 a"
    by (simp_all add: Contains_def n)
qed

lemma covers_world4:
  assumes "plain_net n"
  shows "net_ones n \<le> net_ones world4 \<and> Contains n (net_ip world4) \<longleftrightarrow> all_v4 \<subseteq> net_addrs n"
proof
  assume "net_ones n \<le> net_ones world4 \<and> Contains n (net_ip world4)"
  then show "all_v4 \<subseteq> net_addrs n"
    using Contains_mono [OF assms plain_worlds(1)] Contains_worlds by (auto simp: net_addrs_def)
next
  assume sub: "all_v4 \<subseteq> net_addrs n"
  have "Contains n [0, 0, 0, 0]" "Contains n [128, 0, 0, 0]"
    using subsetD [OF sub, of "[0, 0, 0, 0]"] subsetD [OF sub, of "[128, 0, 0, 0]"]
    by (simp_all add: net_addrs_def)
  with first_bit_splits [OF assms, of "[0, 0, 0, 0]" "[128, 0, 0, 0]"]
  show "net_ones n \<le> net_ones world4 \<and> Contains n (net_ip world4)" by (simp add: world4_def)
qed

lemma covers_world6:
  assumes "plain_net n"
  shows "net_ones n \<le> net_ones world6 \<and> Contains n (net_ip world6) \<longleftrightarrow> all_v6 \<subseteq> net_addrs n"
proof
  assume "net_ones n \<le> net_ones world6 \<and> Contains n (net_ip world6)"
  then show "all_v6 \<subseteq> net_addrs n"
    using Contains_mono [OF assms plain_worlds(2)] Contains_worlds by (auto simp: net_addrs_def)
next
  assume sub: "all_v6 \<subseteq> net_addrs n"
  let ?a = "replicate 16 0 :: ip" and ?b = "128 # replicate 15 0 :: ip"
  have "To4 ?a = None" "To4 ?b = None" by code_simp+
  then have v6: "?a \<in> all_v6" "?b \<in> all_v6" by simp_all
  have "Contains n ?a" "Contains n ?b"
    using subsetD [OF sub v6(1)] subsetD [OF sub v6(2)] by (simp_all add: net_addrs_def)
  with first_bit_splits [OF assms, of ?a ?b] v6
  show "net_ones n \<le> net_ones world6 \<and> Contains n (net_ip world6)" by (simp add: world6_def)
qed

lemma ruleAllows_world:
  assumes "\<And>n. parseCIDR (sg_cidr r) = Some n \<Longrightarrow> plain_net n"
  shows "ruleAllows r ''0.0.0.0/0'' port proto \<or> ruleAllows r ''::/0'' port proto \<longleftrightarrow>
    opens_to_world r port proto"
  using assms covers_world4 covers_world6
  by (auto simp: ruleAllows_def cidrCovers_def opens_to_world_def split: option.split)

text \<open>A trust policy with the \<open>Principal\<close> element of every statement replaced.\<close>

definition retarget :: "(json option \<Rightarrow> json option) \<Rightarrow> document \<Rightarrow> document" where
  "retarget f doc = doc\<lparr>Statement := map (\<lambda>st. st\<lparr>Principal := f (Principal st)\<rparr>) (Statement doc)\<rparr>"

lemma eval_stmts_retarget:
  "eval_stmts env action resource (map (\<lambda>st. st\<lparr>Principal := f (Principal st)\<rparr>) sts) al co =
     eval_stmts env action resource sts al co"
  by (induction sts arbitrary: al co) (simp_all add: eval_stmts.simps stmt_matches_def Let_def split: prod.split)

section \<open>Properties\<close>


text \<open>Pruning acts on attack paths edge by edge: the attack paths of the pruned snapshot are
  exactly the attack paths of the snapshot that use no refused edge; no path is invented and no
  other path is lost.\<close>

theorem pruning_keeps_unblocked_paths:
  "attack_path (PruneUnreachable env (PruneUnauthorized env s)) target allow v es \<longleftrightarrow>
     attack_path s target allow v es \<and> list_all (\<lambda>e. \<not> blocked_edge env s e) es"
  by (rule attack_path_pruned)

text \<open>Once pruned, a snapshot has nothing more to prune, and the order of the two passes does
  not matter.\<close>

theorem pruning_settles:
  "PruneUnauthorized env (PruneUnauthorized env s) = PruneUnauthorized env s \<and>
   PruneUnreachable env (PruneUnreachable env s) = PruneUnreachable env s \<and>
   PruneUnauthorized env (PruneUnreachable env s) = PruneUnreachable env (PruneUnauthorized env s)"
proof -
  note read = verdicts_read_nodes(1) [of "PruneUnauthorized env s" s env]
    verdicts_read_nodes(1) [of "PruneUnreachable env s" s env]
    verdicts_read_nodes(2) [of "PruneUnreachable env s" s env]
    verdicts_read_nodes(2) [of "PruneUnauthorized env s" s env]
  show ?thesis
    unfolding PruneUnauthorized_def [of env "PruneUnauthorized env s"]
      PruneUnauthorized_def [of env "PruneUnreachable env s"]
      PruneUnreachable_def [of env "PruneUnreachable env s"]
      PruneUnreachable_def [of env "PruneUnauthorized env s"]
    using read by (simp add: PruneUnauthorized_def PruneUnreachable_def conj_commute)
qed

text \<open>Where every readable range is in plain notation, a port is internet-reachable exactly
  when some single rule speaks of it and has an unreadable range or a range that contains every
  IPv4 address, or every IPv6 address.\<close>

theorem internet_reachable_iff:
  assumes "\<And>r n. r \<in> set rules \<Longrightarrow> parseCIDR (sg_cidr r) = Some n \<Longrightarrow> plain_net n"
  shows "InternetReachable rules port proto \<longleftrightarrow> (\<exists>r \<in> set rules. opens_to_world r port proto)"
proof -
  have "InternetReachable rules port proto \<longleftrightarrow>
      (\<exists>r \<in> set rules. ruleAllows r ''0.0.0.0/0'' port proto \<or> ruleAllows r ''::/0'' port proto)"
    by (auto simp: InternetReachable_def Reachable_def list_ex_iff)
  also have "\<dots> \<longleftrightarrow> (\<exists>r \<in> set rules. opens_to_world r port proto)"
    using assms ruleAllows_world by blast
  finally show ?thesis .
qed

theorem internet_reachable_iff_witness:
  "\<exists>r \<in> set [\<lparr>sg_proto = ''TCP'', sg_cidr = ''10.0.0.0/8'', sg_from = 0, sg_to = 0\<rparr>,
              \<lparr>sg_proto = ''tcp'', sg_cidr = ''::/0'', sg_from = 400, sg_to = 500\<rparr>].
     opens_to_world r 443 ''tcp''"
proof -
  let ?rules = "[\<lparr>sg_proto = ''TCP'', sg_cidr = ''10.0.0.0/8'', sg_from = 0, sg_to = 0\<rparr>,
              \<lparr>sg_proto = ''tcp'', sg_cidr = ''::/0'', sg_from = 400, sg_to = 500\<rparr>]"
  have "list_all (\<lambda>r. case parseCIDR (sg_cidr r) of None \<Rightarrow> True | Some n \<Rightarrow> plain_net n) ?rules"
    by code_simp
  then have "plain_net n" if "r \<in> set ?rules" "parseCIDR (sg_cidr r) = Some n" for r n
    using that by (force simp: list_all_iff)
  moreover have "InternetReachable ?rules 443 ''tcp''" by code_simp
  ultimately show ?thesis using internet_reachable_iff [of ?rules 443 "''tcp''"] by blast
qed

text \<open>Coverage is judged rule by rule: two rules that together admit every IPv4 address (one
  half of the address space each) do not count as open to the internet, so the edge from the
  internet is pruned although any address of the internet is admitted.\<close>

theorem split_ranges_are_pruned:
  "\<not> InternetReachable
       [\<lparr>sg_proto = ''tcp'', sg_cidr = ''0.0.0.0/1'', sg_from = 22, sg_to = 22\<rparr>,
        \<lparr>sg_proto = ''tcp'', sg_cidr = ''128.0.0.0/1'', sg_from = 22, sg_to = 22\<rparr>] 22 ''tcp'' \<and>
   all_v4 \<inter> {a. hd a < 256} \<subseteq>
     net_addrs (the (parseCIDR ''0.0.0.0/1'')) \<union> net_addrs (the (parseCIDR ''128.0.0.0/1''))"
proof -
  have p: "parseCIDR ''0.0.0.0/1'' = Some \<lparr>net_ip = [0, 0, 0, 0], net_ones = Suc 0, net_bits = 32\<rparr>"
    "parseCIDR ''128.0.0.0/1'' = Some \<lparr>net_ip = [128, 0, 0, 0], net_ones = Suc 0, net_bits = 32\<rparr>"
    by code_simp+
  have plain: "plain_net \<lparr>net_ip = [0, 0, 0, 0], net_ones = Suc 0, net_bits = 32\<rparr>"
    "plain_net \<lparr>net_ip = [128, 0, 0, 0], net_ones = Suc 0, net_bits = 32\<rparr>"
    by code_simp+
  have bit: "odd (b div 128) \<longleftrightarrow> 128 \<le> b" if "b < 256" for b :: nat
  proof (cases "b < 128")
    case False
    with that have "b div 128 = 1" by (intro div_nat_eqI) simp_all
    with False show ?thesis by simp
  qed simp
  have "a \<in> net_addrs (the (parseCIDR ''0.0.0.0/1'')) \<union> net_addrs (the (parseCIDR ''128.0.0.0/1''))"
    if "length a = 4" "hd a < 256" for a
  proof -
    from that obtain b bs where "a = b # bs" "b < 256" by (cases a) auto
    with that(1) show ?thesis
      by (simp add: p net_addrs_def Contains_plain plain ip_bits_def byte_bits_def bit)
  qed
  moreover have "\<not> InternetReachable
       [\<lparr>sg_proto = ''tcp'', sg_cidr = ''0.0.0.0/1'', sg_from = 22, sg_to = 22\<rparr>,
        \<lparr>sg_proto = ''tcp'', sg_cidr = ''128.0.0.0/1'', sg_from = 22, sg_to = 22\<rparr>] 22 ''tcp''"
    by code_simp
  ultimately show ?thesis by auto
qed

text \<open>The trust-policy check never looks at the \<open>Principal\<close> element of a statement: replacing
  it in every statement of every trust policy changes no verdict. Sources are compared with
  \<open>Resource\<close>, the shape the check's own inputs use, and not with the element that carries the
  trusted principals in an AWS trust policy.\<close>

theorem trust_check_ignores_principals:
  "assumeAuthorized (env\<lparr>pe_trust := map_option (retarget f) \<circ> pe_trust env\<rparr>) s src dst =
     assumeAuthorized env s src dst"
proof -
  have "Allows iam ''sts:AssumeRole'' r [Some (retarget f doc)] = Allows iam ''sts:AssumeRole'' r [Some doc]"
    for iam r doc
    by (simp add: Allows_def Eval_def statements_of_def retarget_def eval_stmts_retarget)
  then show ?thesis
    by (simp add: assumeAuthorized_def split: option.split)
qed

end
