(* ===== verification/Netguard.thy ===== *)
theory Netguard
  imports NetAddr
begin

text \<open>
  internal/netguard/netguard.go: the two dial-time SSRF guards. \<open>GuardedDialContext\<close> admits public
  addresses only; \<open>forbiddenDialWith\<close> is for tooling that may reach private hosts in its scope but
  never the metadata service. The resolver is an argument; \<open>Dial a p\<close> is the guard handing the
  resolved address \<open>a\<close> and the port to the dialer, whose answer it returns as it is. A nil
  \<open>net.IP\<close> is \<open>None\<close>. \<open>GuardedClient\<close> only builds an HTTP client over the first guard.
\<close>

section \<open>Address screening\<close>

definition nonPublicCIDRs :: "ipnet list" where
  "nonPublicCIDRs = somes (map ParseCIDR
     [''0.0.0.0/8'', ''100.64.0.0/10'', ''192.0.0.0/24'', ''192.0.2.0/24'', ''198.18.0.0/15'',
      ''198.51.100.0/24'', ''203.0.113.0/24'', ''240.0.0.0/4'', ''64:ff9b::/96'', ''100::/64'',
      ''2001:db8::/32'', ''2002::/16''])"

definition IsPublicIP :: "ip option \<Rightarrow> bool" where
  "IsPublicIP x =
     (case x of
        None \<Rightarrow> False
      | Some a \<Rightarrow>
          if IsLoopback a \<or> IsPrivate a \<or> IsUnspecified a \<or> IsLinkLocalUnicast a \<or>
             IsLinkLocalMulticast a \<or> IsMulticast a then False
          else \<not> list_ex (\<lambda>n. Contains n a) nonPublicCIDRs)"

definition metadataIPs :: "ip list" where
  "metadataIPs = somes (map ParseIP [''169.254.169.254'', ''169.254.170.2'', ''fd00:ec2::254''])"

definition IsForbiddenIP :: "ip option \<Rightarrow> bool" where
  "IsForbiddenIP x =
     (case x of
        None \<Rightarrow> True
      | Some a \<Rightarrow>
          if IsLoopback a \<or> IsUnspecified a \<or> IsLinkLocalUnicast a \<or> IsLinkLocalMulticast a \<or>
             IsMulticast a \<or> IsInterfaceLocalMulticast a then True
          else list_ex (ip_equal a) metadataIPs)"

section \<open>Dialling\<close>

text \<open>\<open>net.SplitHostPort\<close>: the port follows the last colon; a host with colons is bracketed.\<close>

definition SplitHostPort :: "string \<Rightarrow> (string \<times> string) option" where
  "SplitHostPort s =
     (case last_index_byte s (CHR '':'') of
        None \<Rightarrow> None
      | Some i \<Rightarrow>
          let port = drop (Suc i) s in
          if take 1 s = ''['' then
            (case index_byte s (CHR '']'') of
               None \<Rightarrow> None
             | Some e \<Rightarrow>
                 if Suc e = i \<and> CHR ''['' \<notin> set (drop 1 s) \<and> CHR '']'' \<notin> set (drop (Suc e) s)
                 then Some (drop 1 (take e s), port) else None)
          else if CHR '':'' \<in> set (take i s) \<or> CHR ''['' \<in> set s \<or> CHR '']'' \<in> set s then None
          else Some (take i s, port))"

datatype dial_outcome =
    BadAddress
  | Unresolved string
  | Refused string "ip option"
  | Dial "ip option" string

definition GuardedDialContext :: "(string \<Rightarrow> ip option list option) \<Rightarrow> string \<Rightarrow> dial_outcome" where
  "GuardedDialContext resolve addr =
     (case SplitHostPort addr of
        None \<Rightarrow> BadAddress
      | Some (host, port) \<Rightarrow>
          (case resolve host of
             None \<Rightarrow> Unresolved host
           | Some [] \<Rightarrow> Unresolved host
           | Some (a # as) \<Rightarrow>
               (case List.find (\<lambda>x. \<not> IsPublicIP x) (a # as) of
                  Some x \<Rightarrow> Refused host x
                | None \<Rightarrow> Dial a port)))"

definition loopback_exempt :: "bool \<Rightarrow> ip option \<Rightarrow> bool" where
  "loopback_exempt allowLoopback x =
     (case x of None \<Rightarrow> False | Some b \<Rightarrow> allowLoopback \<and> IsLoopback b)"

text \<open>The second component is what the hook \<open>onDeny\<close> was called with; \<open>hook\<close> says it is not nil.\<close>

definition forbiddenDialWith ::
  "(string \<Rightarrow> ip option list option) \<Rightarrow> bool \<Rightarrow> bool \<Rightarrow> string \<Rightarrow>
    dial_outcome \<times> (string \<times> ip option) list" where
  "forbiddenDialWith resolve allowLoopback hook addr =
     (case SplitHostPort addr of
        None \<Rightarrow> (BadAddress, [])
      | Some (host, port) \<Rightarrow>
          (case resolve host of
             None \<Rightarrow> (Unresolved host, [])
           | Some [] \<Rightarrow> (Unresolved host, [])
           | Some (a # as) \<Rightarrow>
               (case List.find (\<lambda>x. \<not> loopback_exempt allowLoopback x \<and> IsForbiddenIP x) (a # as) of
                  Some x \<Rightarrow> (Refused host x, if hook then [(host, x)] else [])
                | None \<Rightarrow> (Dial a port, []))))"

section \<open>The special-use registry, as arithmetic\<close>

text \<open>
  The IPv4 blocks and the IPv6 blocks that are not routable public space, on the values of the
  leading bytes: the reference for what the screening is to refuse.
\<close>

definition special_v4 :: "nat \<Rightarrow> nat \<Rightarrow> nat \<Rightarrow> bool" where
  "special_v4 a b c \<longleftrightarrow>
     a = 0 \<or> a = 10 \<or> a = 127 \<or> 224 \<le> a \<or>
     a = 100 \<and> 64 \<le> b \<and> b < 128 \<or>
     a = 169 \<and> b = 254 \<or>
     a = 172 \<and> 16 \<le> b \<and> b < 32 \<or>
     a = 192 \<and> (b = 168 \<or> b = 0 \<and> (c = 0 \<or> c = 2)) \<or>
     a = 198 \<and> (b = 18 \<or> b = 19 \<or> b = 51 \<and> c = 100) \<or>
     a = 203 \<and> b = 0 \<and> c = 113"

definition octets :: "ip \<Rightarrow> bool" where
  "octets a \<longleftrightarrow> (\<forall>x \<in> set a. x < 256)"

text \<open>Two bytes agree on their first \<open>k\<close> bits exactly when they agree above the other ones.\<close>

lemma odd_bits_eq:
  fixes m n :: nat
  assumes "m < 2 ^ k" "n < 2 ^ k" "\<And>i. i < k \<Longrightarrow> odd (m div 2 ^ i) = odd (n div 2 ^ i)"
  shows "m = n"
  using assms
proof (induction k arbitrary: m n)
  case 0
  then show ?case by simp
next
  case (Suc k)
  have "m div 2 = n div 2"
  proof (rule Suc.IH)
    show "m div 2 < 2 ^ k" "n div 2 < 2 ^ k" using Suc.prems(1,2) by auto
    show "odd (m div 2 div 2 ^ i) = odd (n div 2 div 2 ^ i)" if "i < k" for i
      using Suc.prems(3) [of "Suc i"] that by (simp add: div_mult2_eq)
  qed
  moreover have "odd m = odd n" using Suc.prems(3) [of 0] by simp
  ultimately show ?case by (metis even_iff_mod_2_eq_zero mod_div_decomp odd_iff_mod_2_eq_one)
qed

lemma nth_byte_bits: "i < 8 \<Longrightarrow> byte_bits n ! i = odd (n div 2 ^ (7 - i))"
proof -
  have "byte_bits n = map (\<lambda>i. odd (n div 2 ^ (7 - i))) [0..<8]"
    by (simp add: byte_bits_def upt_rec)
  then show "i < 8 \<Longrightarrow> ?thesis" by simp
qed

lemma take_byte_bits:
  assumes "k \<le> 8" "x < 256" "y < 256"
  shows "take k (byte_bits x) = take k (byte_bits y) \<longleftrightarrow> x div 2 ^ (8 - k) = y div 2 ^ (8 - k)"
proof
  assume eq: "take k (byte_bits x) = take k (byte_bits y)"
  show "x div 2 ^ (8 - k) = y div 2 ^ (8 - k)"
  proof (rule odd_bits_eq [where k = k])
    have "z div 2 ^ (8 - k) < 2 ^ k" if "z < 256" for z :: nat
    proof -
      have "(256 :: nat) = 2 ^ k * 2 ^ (8 - k)"
        using assms(1) by (simp flip: power_add)
      with that show ?thesis by (simp add: less_mult_imp_div_less)
    qed
    with assms(2,3) show "x div 2 ^ (8 - k) < 2 ^ k" "y div 2 ^ (8 - k) < 2 ^ k" by simp_all
    fix i assume i: "i < k"
    have j: "k - Suc i < k" "7 - (k - Suc i) = 8 - k + i" using i assms(1) by auto
    from eq have "take k (byte_bits x) ! (k - Suc i) = take k (byte_bits y) ! (k - Suc i)" by simp
    with j i assms(1) have "odd (x div 2 ^ (8 - k + i)) = odd (y div 2 ^ (8 - k + i))"
      by (simp add: nth_byte_bits)
    then show "odd (x div 2 ^ (8 - k) div 2 ^ i) = odd (y div 2 ^ (8 - k) div 2 ^ i)"
      by (simp add: power_add div_mult2_eq)
  qed
next
  assume eq: "x div 2 ^ (8 - k) = y div 2 ^ (8 - k)"
  show "take k (byte_bits x) = take k (byte_bits y)"
  proof (rule nth_equalityI)
    fix i assume "i < length (take k (byte_bits x))"
    then have i: "i < k" "i < 8" by simp_all
    have "z div 2 ^ (7 - i) = z div 2 ^ (8 - k) div 2 ^ (k - Suc i)" for z :: nat
      using i assms(1) by (simp flip: div_mult2_eq power_add)
    with eq have "x div 2 ^ (7 - i) = y div 2 ^ (7 - i)" by simp
    with i show "take k (byte_bits x) ! i = take k (byte_bits y) ! i"
      by (simp add: nth_byte_bits)
  qed simp
qed

lemma byte_bits_inj: "x < 256 \<Longrightarrow> y < 256 \<Longrightarrow> byte_bits x = byte_bits y \<longleftrightarrow> x = y"
  using take_byte_bits [of 8 x y] by simp

lemma ip_bits_simps [simp]: "ip_bits [] = []" "ip_bits (x # a) = byte_bits x @ ip_bits a"
  by (simp_all add: ip_bits_def)

lemma take_ip_bits: "take (8 * k) (ip_bits a) = ip_bits (take k a)"
proof (induction k arbitrary: a)
  case (Suc k)
  then show ?case by (cases a) simp_all
qed simp

lemma ip_bits_inj: "octets a \<Longrightarrow> octets b \<Longrightarrow> ip_bits a = ip_bits b \<longleftrightarrow> a = b"
proof (induction a b rule: list_induct2')
  case (4 x a y b)
  then show ?case by (auto simp: octets_def byte_bits_inj)
qed (auto dest: arg_cong [of _ _ length])

lemma octets_take: "octets a \<Longrightarrow> octets (take k a)"
  by (auto simp: octets_def dest: in_set_takeD)

lemma take_bits_eq:
  "octets a \<Longrightarrow> octets b \<Longrightarrow> take (8 * k) (ip_bits a) = take (8 * k) (ip_bits b) \<longleftrightarrow> take k a = take k b"
  by (simp add: take_ip_bits ip_bits_inj octets_take)

text \<open>The ranges of the source, parsed.\<close>



text \<open>Parsing runs on the simplifier's numerals: the groups are too large for unary evaluation.\<close>

lemmas v6_loop_numeral =
  v6_loop.simps(2) [of "pred_numeral n" for n, folded numeral_eq_Suc]

lemma replicate_numeral: "replicate (numeral n) x = x # replicate (pred_numeral n) x"
  by (simp add: numeral_eq_Suc)

lemmas parse_net_simps =
  ParseCIDR_def parse_addr_def parse_v6_def v6_loop_numeral v6_expand_def mask_byte_def
  replicate_numeral parse_v4_def octet_of_def

lemma nonPublic_nets:
  "nonPublicCIDRs =
     [\<lparr>net_ip = [0, 0, 0, 0], net_ones = 8, net_bits = 32\<rparr>,
      \<lparr>net_ip = [100, 64, 0, 0], net_ones = 10, net_bits = 32\<rparr>,
      \<lparr>net_ip = [192, 0, 0, 0], net_ones = 24, net_bits = 32\<rparr>,
      \<lparr>net_ip = [192, 0, 2, 0], net_ones = 24, net_bits = 32\<rparr>,
      \<lparr>net_ip = [198, 18, 0, 0], net_ones = 15, net_bits = 32\<rparr>,
      \<lparr>net_ip = [198, 51, 100, 0], net_ones = 24, net_bits = 32\<rparr>,
      \<lparr>net_ip = [203, 0, 113, 0], net_ones = 24, net_bits = 32\<rparr>,
      \<lparr>net_ip = [240, 0, 0, 0], net_ones = 4, net_bits = 32\<rparr>,
      \<lparr>net_ip = [0, 100, 255, 155, 0, 0, 0, 0, 0, 0, 0, 0, 0, 0, 0, 0], net_ones = 96, net_bits = 128\<rparr>,
      \<lparr>net_ip = [1, 0, 0, 0, 0, 0, 0, 0, 0, 0, 0, 0, 0, 0, 0, 0], net_ones = 64, net_bits = 128\<rparr>,
      \<lparr>net_ip = [32, 1, 13, 184, 0, 0, 0, 0, 0, 0, 0, 0, 0, 0, 0, 0], net_ones = 32, net_bits = 128\<rparr>,
      \<lparr>net_ip = [32, 2, 0, 0, 0, 0, 0, 0, 0, 0, 0, 0, 0, 0, 0, 0], net_ones = 16, net_bits = 128\<rparr>]"
  by (simp add: nonPublicCIDRs_def parse_net_simps Let_def)

lemma metadata_addresses:
  "metadataIPs = [v4_prefix @ [169, 254, 169, 254], v4_prefix @ [169, 254, 170, 2],
     [253, 0, 14, 194, 0, 0, 0, 0, 0, 0, 0, 0, 0, 0, 2, 84]]"
  by (simp add: metadataIPs_def ParseIP_def parse_net_simps to16_def Let_def)

definition special_v6 :: "ip \<Rightarrow> bool" where
  "special_v6 a \<longleftrightarrow>
     a = replicate 16 0 \<or> a = replicate 15 0 @ [1] \<or>
     a ! 0 div 2 = 126 \<or> a ! 0 = 254 \<and> a ! 1 div 64 = 2 \<or> a ! 0 = 255 \<or>
     take 12 a = [0, 100, 255, 155, 0, 0, 0, 0, 0, 0, 0, 0] \<or>
     take 8 a = [1, 0, 0, 0, 0, 0, 0, 0] \<or> take 4 a = [32, 1, 13, 184] \<or> take 2 a = [32, 2]"

definition special_use :: "ip \<Rightarrow> bool" where
  "special_use a \<longleftrightarrow>
     (case To4 a of Some q \<Rightarrow> special_v4 (q ! 0) (q ! 1) (q ! 2) | None \<Rightarrow> special_v6 a)"

definition well_formed :: "ip \<Rightarrow> bool" where
  "well_formed a \<longleftrightarrow> (length a = 4 \<or> length a = 16) \<and> octets a"

lemma length_4_cases:
  assumes "length q = 4" obtains a b c d where "q = [a, b, c, d]"
  using assms by (auto simp: numeral_eq_Suc length_Suc_conv)

lemma nets_v4:
  assumes "octets [a, b, c, d]"
  shows "list_ex (\<lambda>n. Contains n [a, b, c, d]) nonPublicCIDRs \<longleftrightarrow>
    a = 0 \<or> a = 100 \<and> b div 64 = 1 \<or> a = 192 \<and> b = 0 \<and> (c = 0 \<or> c = 2) \<or>
    a = 198 \<and> (b div 2 = 9 \<or> b = 51 \<and> c = 100) \<or> a = 203 \<and> b = 0 \<and> c = 113 \<or> a div 16 = 15"
  using assms
  by (auto simp: nonPublic_nets Contains_def net_number_def To4_def v4_prefix_def octets_def
      take_byte_bits byte_bits_inj replicate_numeral)

lemma classes_v4 [simp]:
  "IsLoopback [a, b, c, d] \<longleftrightarrow> a = 127"
  "IsPrivate [a, b, c, d] \<longleftrightarrow> a = 10 \<or> a = 172 \<and> b div 16 = 1 \<or> a = 192 \<and> b = 168"
  "IsUnspecified [a, b, c, d] \<longleftrightarrow> a = 0 \<and> b = 0 \<and> c = 0 \<and> d = 0"
  "IsMulticast [a, b, c, d] \<longleftrightarrow> a div 16 = 14"
  "IsLinkLocalUnicast [a, b, c, d] \<longleftrightarrow> a = 169 \<and> b = 254"
  "IsLinkLocalMulticast [a, b, c, d] \<longleftrightarrow> a = 224 \<and> b = 0 \<and> c = 0"
  by (simp_all add: IsLoopback_def IsPrivate_def IsMulticast_def IsLinkLocalUnicast_def
      IsLinkLocalMulticast_def)
    (simp add: IsUnspecified_def ip_equal_def to16_def v4_prefix_def replicate_numeral)

lemma public_v4:
  assumes "octets [a, b, c, d]"
  shows "IsPublicIP (Some [a, b, c, d]) \<longleftrightarrow> \<not> special_v4 a b c"
proof -
  have "a < 256" "b < 256" using assms by (simp_all add: octets_def)
  then have div: "b div 64 = 1 \<longleftrightarrow> 64 \<le> b \<and> b < 128" "b div 16 = 1 \<longleftrightarrow> 16 \<le> b \<and> b < 32"
    "b div 2 = 9 \<longleftrightarrow> b = 18 \<or> b = 19" "a div 16 = 14 \<or> a div 16 = 15 \<longleftrightarrow> 224 \<le> a"
    by auto
  have a224: "a = 224 \<longrightarrow> 224 \<le> a" by simp
  have "IsPublicIP (Some [a, b, c, d]) \<longleftrightarrow>
      \<not> (a = 127 \<or> a = 10 \<or> a = 172 \<and> b div 16 = 1 \<or> a = 192 \<and> b = 168 \<or> a = 169 \<and> b = 254 \<or>
         a = 224 \<and> b = 0 \<and> c = 0 \<or> a div 16 = 14 \<or> a = 0 \<and> b = 0 \<and> c = 0 \<and> d = 0 \<or>
         list_ex (\<lambda>n. Contains n [a, b, c, d]) nonPublicCIDRs)"
    by (simp add: IsPublicIP_def)
  also have "\<dots> \<longleftrightarrow> \<not> special_v4 a b c"
    unfolding nets_v4 [OF assms] special_v4_def div(1-3) using div(4) a224 by argo
  finally show ?thesis .
qed

lemma nets_v6:
  assumes "length a = 16" "To4 a = None" "octets a"
  shows "list_ex (\<lambda>n. Contains n a) nonPublicCIDRs \<longleftrightarrow>
    take 12 a = [0, 100, 255, 155, 0, 0, 0, 0, 0, 0, 0, 0] \<or>
    take 8 a = [1, 0, 0, 0, 0, 0, 0, 0] \<or> take 4 a = [32, 1, 13, 184] \<or> take 2 a = [32, 2]"
proof -
  have bits: "take (8 * k) (ip_bits a) = take (8 * k) (ip_bits b) \<longleftrightarrow> take k a = take k b"
    if "octets b" for k b
    using that assms(3) by (simp only: take_bits_eq)
  have eqs: "take 96 (ip_bits a) = take 96 (ip_bits b) \<longleftrightarrow> take 12 a = take 12 b"
    "take 64 (ip_bits a) = take 64 (ip_bits b) \<longleftrightarrow> take 8 a = take 8 b"
    "take 32 (ip_bits a) = take 32 (ip_bits b) \<longleftrightarrow> take 4 a = take 4 b"
    "take 16 (ip_bits a) = take 16 (ip_bits b) \<longleftrightarrow> take 2 a = take 2 b" if "octets b" for b
    using bits [OF that, of 12] bits [OF that, of 8] bits [OF that, of 4] bits [OF that, of 2] by simp_all
  have oct: "octets [0, 100, 255, 155, 0, 0, 0, 0, 0, 0, 0, 0, 0, 0, 0, 0]"
    "octets [1, 0, 0, 0, 0, 0, 0, 0, 0, 0, 0, 0, 0, 0, 0, 0]"
    "octets [32, 1, 13, 184, 0, 0, 0, 0, 0, 0, 0, 0, 0, 0, 0, 0]"
    "octets [32, 2, 0, 0, 0, 0, 0, 0, 0, 0, 0, 0, 0, 0, 0, 0]"
    by (simp_all add: octets_def)
  have "list_ex (\<lambda>n. Contains n a) nonPublicCIDRs \<longleftrightarrow>
    take 96 (ip_bits a) = take 96 (ip_bits [0, 100, 255, 155, 0, 0, 0, 0, 0, 0, 0, 0, 0, 0, 0, 0]) \<or>
    take 64 (ip_bits a) = take 64 (ip_bits [1, 0, 0, 0, 0, 0, 0, 0, 0, 0, 0, 0, 0, 0, 0, 0]) \<or>
    take 32 (ip_bits a) = take 32 (ip_bits [32, 1, 13, 184, 0, 0, 0, 0, 0, 0, 0, 0, 0, 0, 0, 0]) \<or>
    take 16 (ip_bits a) = take 16 (ip_bits [32, 2, 0, 0, 0, 0, 0, 0, 0, 0, 0, 0, 0, 0, 0, 0])"
    using assms(1,2)
    by (simp add: nonPublic_nets Contains_def net_number_def To4_def [of "_ # _"] v4_prefix_def
        replicate_numeral del: ip_bits_simps)
  also have "\<dots> \<longleftrightarrow> take 12 a = [0, 100, 255, 155, 0, 0, 0, 0, 0, 0, 0, 0] \<or>
    take 8 a = [1, 0, 0, 0, 0, 0, 0, 0] \<or> take 4 a = [32, 1, 13, 184] \<or> take 2 a = [32, 2]"
    unfolding eqs(1) [OF oct(1)] eqs(2) [OF oct(2)] eqs(3) [OF oct(3)] eqs(4) [OF oct(4)] by simp
  finally show ?thesis .
qed

lemma public_v6:
  assumes "length a = 16" "To4 a = None" "octets a"
  shows "IsPublicIP (Some a) \<longleftrightarrow> \<not> special_v6 a"
proof -
  have unspec: "IsUnspecified a \<longleftrightarrow> a = replicate 16 0" "IsLoopback a \<longleftrightarrow> a = replicate 15 0 @ [1]"
    using assms(1,2)
    by (auto simp: IsUnspecified_def IsLoopback_def ip_equal_def to16_def To4_def split: if_splits)
  show ?thesis
    using assms(1,2)
    by (simp add: IsPublicIP_def nets_v6 [OF assms] unspec special_v6_def IsPrivate_def IsMulticast_def
        IsLinkLocalUnicast_def IsLinkLocalMulticast_def)
qed

text \<open>The screening is exact, in either spelling of an IPv4 address.\<close>

lemma IsPublicIP_to16: "length q = 4 \<Longrightarrow> IsPublicIP (Some (to16 q)) = IsPublicIP (Some q)"
proof -
  assume q: "length q = 4"
  have "list_ex (\<lambda>n. Contains n (to16 q)) ns = list_ex (\<lambda>n. Contains n q) ns" for ns
    using q by simp
  with q show ?thesis
    by (simp add: IsPublicIP_def IsLoopback_def IsPrivate_def IsUnspecified_def IsMulticast_def
        IsLinkLocalUnicast_def IsLinkLocalMulticast_def ip_equal_def) (simp add: to16_def v4_prefix_def)
qed

lemma mapped_form: "length a = 16 \<Longrightarrow> To4 a = Some q \<Longrightarrow> a = to16 q \<and> length q = 4"
  by (auto simp: To4_def to16_def split: if_splits) (metis append_take_drop_id)

lemma IsPublicIP_iff:
  assumes "well_formed a"
  shows "IsPublicIP (Some a) \<longleftrightarrow> \<not> special_use a"
proof (cases "To4 a")
  case None
  then have "length a = 16" using assms by (auto simp: well_formed_def)
  with None assms show ?thesis by (simp add: public_v6 special_use_def well_formed_def)
next
  case (Some q)
  have q: "length q = 4" "octets q" "IsPublicIP (Some a) = IsPublicIP (Some q)"
    using assms Some mapped_form [of a q] IsPublicIP_to16 [of q]
    by (auto simp: well_formed_def octets_def to16_def)
  from q(1) obtain x y z w where "q = [x, y, z, w]" by (rule length_4_cases)
  with q Some public_v4 [of x y z w] show ?thesis by (simp add: special_use_def)
qed

section \<open>What the guards dial\<close>

lemma find_passes: "List.find P xs = None \<longleftrightarrow> list_all (\<lambda>x. \<not> P x) xs"
  by (induction xs) auto

lemma guarded_dial:
  "GuardedDialContext resolve addr = Dial a p \<longleftrightarrow>
     (\<exists>host as. SplitHostPort addr = Some (host, p) \<and> resolve host = Some (a # as) \<and>
        list_all IsPublicIP (a # as))"
  using find_passes [of "\<lambda>x. \<not> IsPublicIP x"]
  by (fastforce simp: GuardedDialContext_def simp del: List.find.simps list.pred_inject
      split: option.splits list.splits)

lemma forbidden_dial:
  "fst (forbiddenDialWith resolve allowLoopback hook addr) = Dial a p \<longleftrightarrow>
     (\<exists>host as. SplitHostPort addr = Some (host, p) \<and> resolve host = Some (a # as) \<and>
        list_all (\<lambda>x. \<not> (\<not> loopback_exempt allowLoopback x \<and>
          IsForbiddenIP x)) (a # as))"
  using find_passes [of "\<lambda>x. \<not> loopback_exempt allowLoopback x \<and>
      IsForbiddenIP x"]
  by (fastforce simp: forbiddenDialWith_def Let_def simp del: List.find.simps list.pred_inject
      split: option.splits list.splits)

text \<open>A metadata address: IPv4 link-local, or the pinned IPv6 address.\<close>

definition metadata :: "ip \<Rightarrow> bool" where
  "metadata a \<longleftrightarrow>
     (case To4 a of
        Some q \<Rightarrow> q ! 0 = 169 \<and> q ! 1 = 254
      | None \<Rightarrow> a = [253, 0, 14, 194, 0, 0, 0, 0, 0, 0, 0, 0, 0, 0, 2, 84])"

lemma metadata_forbidden: "metadata a \<Longrightarrow> IsForbiddenIP (Some a) \<and> \<not> IsLoopback a"
proof (cases "To4 a")
  case None
  assume "metadata a"
  with None have a: "a = [253, 0, 14, 194, 0, 0, 0, 0, 0, 0, 0, 0, 0, 0, 2, 84]"
    by (simp add: metadata_def)
  have "list_ex (ip_equal a) metadataIPs" by (simp add: metadata_addresses ip_equal_def a)
  moreover have "\<not> IsLoopback a"
    using None by (simp add: IsLoopback_def a ip_equal_def to16_def replicate_numeral)
  ultimately show ?thesis by (simp add: IsForbiddenIP_def)
next
  case (Some q)
  assume "metadata a"
  with Some have q: "q ! 0 = 169" "q ! 1 = 254" by (simp_all add: metadata_def)
  with Some show ?thesis by (simp add: IsForbiddenIP_def IsLinkLocalUnicast_def IsLoopback_def)
qed

section \<open>Properties\<close>

text \<open>C39: No rebinding to an internal host: the guarded dialer connects only to the first address of
  the very answer it screened, and only when no address of that answer is nil or lies in a
  special-use block (private, loopback, link-local, CGNAT, documentation, NAT64, 6to4, multicast
  and reserved space, stated on the byte values), in whichever family and spelling it came.\<close>

theorem guarded_dial_is_public:
  assumes "GuardedDialContext resolve addr = Dial a p"
    and "\<And>host xs b. resolve host = Some xs \<Longrightarrow> Some b \<in> set xs \<Longrightarrow> well_formed b"
  shows "\<exists>host as. SplitHostPort addr = Some (host, p) \<and> resolve host = Some (a # as) \<and>
    (\<forall>x \<in> set (a # as). \<exists>b. x = Some b \<and> \<not> special_use b)"
proof -
  from assms(1) obtain host as where d: "SplitHostPort addr = Some (host, p)"
    "resolve host = Some (a # as)" "list_all IsPublicIP (a # as)"
    unfolding guarded_dial by blast
  have "\<exists>b. x = Some b \<and> \<not> special_use b" if "x \<in> set (a # as)" for x
  proof -
    from d(3) that have "IsPublicIP x" unfolding list_all_iff by blast
    then obtain b where b: "x = Some b" "IsPublicIP (Some b)"
      by (cases x) (auto simp: IsPublicIP_def)
    with assms(2) [OF d(2), of b] that IsPublicIP_iff [of b] show ?thesis by blast
  qed
  with d(1,2) show ?thesis by blast
qed

text \<open>Scope-bounded tooling never reaches the metadata service: where \<open>forbiddenDialWith\<close> dials,
  it dials the first address of the answer it screened, every address of that answer is either
  not forbidden or a loopback address that was explicitly allowed, and none is a metadata
  address, whatever \<open>allowLoopback\<close> says and whatever the hook does.\<close>

theorem forbidden_dial_refuses:
  assumes "fst (forbiddenDialWith resolve allowLoopback hook addr) = Dial a p"
  shows "\<exists>host as. SplitHostPort addr = Some (host, p) \<and> resolve host = Some (a # as) \<and>
    (\<forall>x \<in> set (a # as). \<exists>b. x = Some b \<and> \<not> metadata b \<and>
       (\<not> IsForbiddenIP x \<or> allowLoopback \<and> IsLoopback b))"
proof -
  from assms obtain host as where d: "SplitHostPort addr = Some (host, p)"
    "resolve host = Some (a # as)"
    "list_all (\<lambda>x. \<not> (\<not> loopback_exempt allowLoopback x \<and>
      IsForbiddenIP x)) (a # as)"
    unfolding forbidden_dial by blast
  have "\<exists>b. x = Some b \<and> \<not> metadata b \<and> (\<not> IsForbiddenIP x \<or> allowLoopback \<and> IsLoopback b)"
    if "x \<in> set (a # as)" for x
  proof -
    from d(3) that have "\<not> (\<not> loopback_exempt allowLoopback x \<and>
        IsForbiddenIP x)"
      unfolding list_all_iff by blast
    then have x: "\<not> IsForbiddenIP x \<or> allowLoopback \<and> (\<exists>b. x = Some b \<and> IsLoopback b)"
      by (auto simp: loopback_exempt_def split: option.splits)
    then obtain b where "x = Some b" by (cases x) (auto simp: IsForbiddenIP_def)
    with x metadata_forbidden [of b] show ?thesis by blast
  qed
  with d(1,2) show ?thesis by blast
qed

text \<open>The metadata address behind a NAT64 or a 6to4 prefix is not pinned: the scope-bounded guard
  lets it pass, where the public guard refuses both ranges.\<close>

lemma embedded_metadata_is_not_forbidden:
  "ParseIP ''64:ff9b::a9fe:a9fe'' = Some [0, 100, 255, 155, 0, 0, 0, 0, 0, 0, 0, 0, 169, 254, 169, 254] \<and>
   \<not> IsForbiddenIP (ParseIP ''64:ff9b::a9fe:a9fe'') \<and> \<not> IsPublicIP (ParseIP ''64:ff9b::a9fe:a9fe'')"
proof -
  let ?a = "[0, 100, 255, 155, 0, 0, 0, 0, 0, 0, 0, 0, 169, 254, 169, 254] :: ip"
  have p: "ParseIP ''64:ff9b::a9fe:a9fe'' = Some ?a"
    by (simp add: ParseIP_def parse_net_simps to16_def Let_def)
  have t: "To4 ?a = None" by (simp add: To4_def v4_prefix_def replicate_numeral)
  have "\<not> IsForbiddenIP (Some ?a)"
    using t by (simp add: IsForbiddenIP_def IsLoopback_def IsUnspecified_def IsLinkLocalUnicast_def
        IsLinkLocalMulticast_def IsMulticast_def IsInterfaceLocalMulticast_def metadata_addresses
        ip_equal_def to16_def v4_prefix_def replicate_numeral)
  moreover have "\<not> IsPublicIP (Some ?a)"
    using t by (simp add: IsPublicIP_iff special_use_def special_v6_def well_formed_def octets_def)
  ultimately show ?thesis by (simp add: p)
qed

text \<open>A name with one public and one private address, and one with a loopback address.\<close>

definition sample_dns :: "string \<Rightarrow> ip option list option" where
  "sample_dns host =
     (if host = ''ok'' then Some [Some [8, 8, 8, 8]]
      else if host = ''mixed'' then Some [Some [8, 8, 8, 8], Some [10, 0, 0, 1]]
      else if host = ''local'' then Some [Some [127, 0, 0, 1]] else None)"

lemma split_sample: "SplitHostPort ''ok:443'' = Some (''ok'', ''443'')"
  "SplitHostPort ''local:80'' = Some (''local'', ''80'')"
  by code_simp+

theorem guarded_dial_is_public_witness:
  "\<not> special_use [8, 8, 8, 8]"
proof -
  have "IsPublicIP (Some [8, 8, 8, 8])" by (simp add: public_v4 octets_def special_v4_def)
  then have d: "GuardedDialContext sample_dns ''ok:443'' = Dial (Some [8, 8, 8, 8]) ''443''"
    unfolding guarded_dial by (simp add: split_sample sample_dns_def)
  have "well_formed b" if "sample_dns host = Some xs" "Some b \<in> set xs" for host xs b
    using that by (auto simp: sample_dns_def well_formed_def octets_def split: if_splits)
  from guarded_dial_is_public [OF d this]
  show ?thesis by (auto simp: split_sample sample_dns_def)
qed

theorem forbidden_dial_refuses_witness:
  "\<not> metadata [127, 0, 0, 1]"
proof -
  have "fst (forbiddenDialWith sample_dns True True ''local:80'') = Dial (Some [127, 0, 0, 1]) ''80''"
    unfolding forbidden_dial by (simp add: split_sample sample_dns_def loopback_exempt_def)
  from forbidden_dial_refuses [OF this] show ?thesis by (auto simp: split_sample sample_dns_def)
qed

end
