(* ===== verification/ExecPolicy.thy ===== *)
theory ExecPolicy
  imports Prelude
begin

text \<open>
  internal/execpolicy/execpolicy.go: the capability envelope that the sandbox tool server enforces
  on every dispatch. \<open>net/url\<close> parsing is the argument \<open>hostname\<close> (\<open>None\<close> for a parse error, else
  the host name without its port). A time is an integer whose zero is the zero time.
  \<open>FromEnv\<close> and \<open>Encode\<close> are JSON decoding and encoding.
\<close>

section \<open>Model\<close>

record policy =
  pl_scan :: string
  pl_tenant :: string
  pl_tools :: "string list"
  pl_hosts :: "string list"
  pl_max :: int
  pl_notAfter :: int

text \<open>The value of an argument: a string, a \<open>[]string\<close>, a \<open>[]any\<close>, or anything else.\<close>

datatype arg = ArgStr string | ArgStrs "string list" | ArgAny "json list" | ArgOther

type_synonym arg_map = "string \<rightharpoonup> arg"

definition targetKeys :: "string list" where
  "targetKeys = [''target'', ''targets'', ''url'', ''urls'', ''host'', ''hosts'', ''login_url'']"

definition hostOf :: "(string \<Rightarrow> string option) \<Rightarrow> string \<Rightarrow> string" where
  "hostOf hostname v0 =
     (let v = trim_space v0 in
      if v = [] then []
      else if contains_str v ''://'' then
        (case hostname v of None \<Rightarrow> [] | Some h \<Rightarrow> to_lower h)
      else
        (case (if has_prefix v ''['' then index_byte v (CHR '']'') else None) of
           Some i \<Rightarrow> to_lower (drop 1 (take i v))
         | None \<Rightarrow>
             (case last_index_byte v (CHR '':'') of
                None \<Rightarrow> to_lower v
              | Some i \<Rightarrow>
                  if CHR '':'' \<in> set (take i v) then to_lower v else to_lower (take i v))))"

text \<open>The closure \<open>add\<close>: hostless values are dropped, hosts are listed once.\<close>

definition add_host :: "(string \<Rightarrow> string option) \<Rightarrow> string \<Rightarrow> string list \<Rightarrow> string list" where
  "add_host hostname v out =
     (let h = hostOf hostname v in if h = [] then out else add_once h out)"

definition arg_strings :: "arg option \<Rightarrow> string list" where
  "arg_strings a =
     (case a of
        Some (ArgStr s) \<Rightarrow> [s]
      | Some (ArgStrs ss) \<Rightarrow> ss
      | Some (ArgAny js) \<Rightarrow> List.map_filter (\<lambda>j. case j of JStr s \<Rightarrow> Some s | _ \<Rightarrow> None) js
      | _ \<Rightarrow> [])"

definition HostsFromArgs :: "(string \<Rightarrow> string option) \<Rightarrow> arg_map \<Rightarrow> string list" where
  "HostsFromArgs hostname args =
     fold (\<lambda>k out. fold (add_host hostname) (arg_strings (args k)) out) targetKeys []"

definition hostAllowed :: "string list \<Rightarrow> string \<Rightarrow> bool" where
  "hostAllowed allowed h = list_ex (\<lambda>a. equal_fold (trim_space a) h) allowed"

datatype exec_error =
    Expired int
  | ToolNotPermitted string
  | BudgetExhausted int
  | OutOfScope string

definition Allow ::
  "(string \<Rightarrow> string option) \<Rightarrow> policy option \<Rightarrow> string \<Rightarrow> arg_map \<Rightarrow> int \<Rightarrow> int \<Rightarrow> exec_error option" where
  "Allow hostname po tool args served now =
     (case po of
        None \<Rightarrow> None
      | Some p \<Rightarrow>
          if pl_notAfter p \<noteq> 0 \<and> pl_notAfter p < now then Some (Expired (pl_notAfter p))
          else if pl_tools p \<noteq> [] \<and> tool \<notin> set (pl_tools p) then Some (ToolNotPermitted tool)
          else if 0 < pl_max p \<and> pl_max p \<le> served then Some (BudgetExhausted (pl_max p))
          else if pl_hosts p \<noteq> [] then
            map_option OutOfScope
              (List.find (\<lambda>h. \<not> hostAllowed (pl_hosts p) h) (HostsFromArgs hostname args))
          else None)"

section \<open>Lemmas\<close>

lemma set_add_host: "set (add_host hn v out) = set out \<union> ({hostOf hn v} - {[]})"
  by (auto simp: add_host_def Let_def)

lemma set_fold_add: "set (fold (add_host hn) vs out) = set out \<union> (hostOf hn ` set vs - {[]})"
  by (induction vs arbitrary: out) (auto simp: set_add_host)

lemma set_HostsFromArgs:
  "set (HostsFromArgs hn args) = (\<Union>k \<in> set targetKeys. hostOf hn ` set (arg_strings (args k))) - {[]}"
proof -
  have "set (fold (\<lambda>k out. fold (add_host hn) (arg_strings (args k)) out) ks out) =
      set out \<union> ((\<Union>k \<in> set ks. hostOf hn ` set (arg_strings (args k))) - {[]})" for ks out
    by (induction ks arbitrary: out) (auto simp: set_fold_add)
  then show ?thesis by (simp add: HostsFromArgs_def)
qed

lemma find_none: "List.find P xs = None \<longleftrightarrow> list_all (\<lambda>x. \<not> P x) xs"
  by (induction xs) auto

section \<open>Properties\<close>

text \<open>A present policy is deny-by-default in every dimension it constrains: a dispatch passes
  exactly when the capability has not expired, the tool is listed (or none is), the budget is not
  exhausted (or unlimited), and, where hosts are listed, every string below every target-like
  argument key either has no host or has one that some entry names, up to case and blanks.\<close>

theorem allow_is_deny_by_default:
  "Allow hostname (Some p) tool args served now = None \<longleftrightarrow>
     (pl_notAfter p = 0 \<or> now \<le> pl_notAfter p) \<and>
     (pl_tools p = [] \<or> tool \<in> set (pl_tools p)) \<and>
     (pl_max p \<le> 0 \<or> served < pl_max p) \<and>
     (pl_hosts p = [] \<or>
        (\<forall>k \<in> set targetKeys. \<forall>v \<in> set (arg_strings (args k)). hostOf hostname v = [] \<or>
           (\<exists>a \<in> set (pl_hosts p). equal_fold (trim_space a) (hostOf hostname v))))"
proof -
  have hosts: "list_all (\<lambda>h. hostAllowed (pl_hosts p) h) (HostsFromArgs hostname args) \<longleftrightarrow>
      (\<forall>k \<in> set targetKeys. \<forall>v \<in> set (arg_strings (args k)). hostOf hostname v = [] \<or>
         (\<exists>a \<in> set (pl_hosts p). equal_fold (trim_space a) (hostOf hostname v)))"
    unfolding list_all_iff set_HostsFromArgs hostAllowed_def list_ex_iff by blast
  show ?thesis
    unfolding hosts [symmetric]
    by (simp add: Allow_def find_none) linarith
qed

text \<open>A target that \<open>url.Parse\<close> rejects has no host and is not checked at all.\<close>

lemma unparsable_target_is_allowed:
  assumes "hostname ''http://evil.example:x/'' = None"
  shows "Allow hostname
      (Some \<lparr>pl_scan = [], pl_tenant = [], pl_tools = [], pl_hosts = [''shop.example''], pl_max = 0, pl_notAfter = 0\<rparr>)
      ''sqlmap'' [''target'' \<mapsto> ArgStr ''http://evil.example:x/''] 0 0 = None"
proof -
  have "trim_space ''http://evil.example:x/'' = ''http://evil.example:x/''"
    "contains_str ''http://evil.example:x/'' ''://''" by code_simp+
  then have "hostOf hostname ''http://evil.example:x/'' = []"
    using assms by (simp add: hostOf_def)
  then show ?thesis
    by (simp add: Allow_def HostsFromArgs_def targetKeys_def arg_strings_def add_host_def)
qed

definition sample_policy :: policy where
  "sample_policy = \<lparr>pl_scan = ''s'', pl_tenant = ''t'', pl_tools = [''nuclei''],
     pl_hosts = ['' Shop.Example ''], pl_max = 10, pl_notAfter = 100\<rparr>"

theorem allow_is_deny_by_default_witness:
  "Allow (\<lambda>_. None) (Some sample_policy) ''nuclei'' [''host'' \<mapsto> ArgStr ''shop.example:443''] 9 100 = None \<and>
   Allow (\<lambda>_. None) (Some sample_policy) ''nuclei'' [''hosts'' \<mapsto> ArgAny [JStr ''10.0.0.1'']] 9 100 \<noteq> None"
proof
  have ok: "hostOf (\<lambda>_. None) ''shop.example:443'' = ''shop.example''"
    "equal_fold (trim_space '' Shop.Example '') ''shop.example''"
    "hostOf (\<lambda>_. None) ''10.0.0.1'' = ''10.0.0.1''"
    "\<not> equal_fold (trim_space '' Shop.Example '') ''10.0.0.1''"
    by code_simp+
  show "Allow (\<lambda>_. None) (Some sample_policy) ''nuclei'' [''host'' \<mapsto> ArgStr ''shop.example:443''] 9 100 = None"
    unfolding allow_is_deny_by_default
    by (simp add: sample_policy_def targetKeys_def arg_strings_def ok)
  show "Allow (\<lambda>_. None) (Some sample_policy) ''nuclei'' [''hosts'' \<mapsto> ArgAny [JStr ''10.0.0.1'']] 9 100 \<noteq> None"
    unfolding allow_is_deny_by_default
    by (simp add: sample_policy_def targetKeys_def arg_strings_def List.map_filter_def ok)
qed

end
