(* ===== verification/ActionStore.thy ===== *)
theory ActionStore
  imports Prelude
begin

text \<open>
  The part of pkg/platform (types.go) and of the in-memory store (internal/store/memory.go) that
  holds remediation actions, and the contract under which the approval desk uses a store.
\<close>

section \<open>Actions\<close>

text \<open>The verdict of a re-test.\<close>

record fix_verification =
  fv_status :: string
  fv_method :: string
  fv_at :: int
  fv_fixed :: "string list"
  fv_still :: "string list"
  fv_evidence :: string
  fv_saidFixed :: bool
  fv_disagreement :: string

abbreviation FixStatusFixed :: string where "FixStatusFixed \<equiv> ''fixed''"
abbreviation FixStatusStillPresent :: string where "FixStatusStillPresent \<equiv> ''still_present''"
abbreviation FixStatusRescanUnconfirmed :: string where "FixStatusRescanUnconfirmed \<equiv> ''rescan_unconfirmed''"

record action =
  a_id :: string
  a_tenant :: string
  a_finding :: string
  a_kind :: string
  a_tier :: int
  a_status :: string
  a_payload :: "(string \<times> json) list"
  a_approver :: string
  a_feedback :: string
  a_reviewedBy :: string
  a_reviewedAt :: int
  a_findingKeys :: "string list"
  a_verification :: "fix_verification option"
  a_history :: "fix_verification list"
  a_ticket :: "string option"
  a_deliveryError :: string
  a_createdAt :: int
  a_decidedAt :: int

abbreviation ActProposed :: string where "ActProposed \<equiv> ''proposed''"
abbreviation ActPendingApproval :: string where "ActPendingApproval \<equiv> ''pending_approval''"
abbreviation ActApproved :: string where "ActApproved \<equiv> ''approved''"
abbreviation ActApplied :: string where "ActApplied \<equiv> ''applied''"
abbreviation ActRejected :: string where "ActRejected \<equiv> ''rejected''"
abbreviation ActChangesRequested :: string where "ActChangesRequested \<equiv> ''changes_requested''"

definition GateTier :: int where "GateTier = 2"

definition TierIrreversible :: int where "TierIrreversible = 3"

definition NeedsApproval :: "action \<Rightarrow> bool" where
  "NeedsApproval a \<longleftrightarrow> GateTier \<le> a_tier a"

definition NeedsHumanSignature :: "action \<Rightarrow> bool" where
  "NeedsHumanSignature a \<longleftrightarrow> TierIrreversible \<le> a_tier a"

section \<open>The in-memory store\<close>

record autonomy_grant =
  g_class :: string
  g_rtype :: string
  g_by :: string
  g_at :: int
  g_basis :: int

record tenant =
  t_id :: string
  t_halted :: bool
  t_grants :: "autonomy_grant list"

record memory =
  mem_tenants :: "string \<rightharpoonup> tenant"
  mem_actions :: "string \<Rightarrow> (string \<times> action) list"

definition new_memory :: memory where
  "new_memory = \<lparr>mem_tenants = Map.empty, mem_actions = (\<lambda>_. [])\<rparr>"

definition mem_PutTenant :: "tenant \<Rightarrow> memory \<Rightarrow> memory" where
  "mem_PutTenant t m = m\<lparr>mem_tenants := (mem_tenants m)(t_id t \<mapsto> t)\<rparr>"

definition mem_GetTenant :: "memory \<Rightarrow> string \<Rightarrow> tenant option" where
  "mem_GetTenant m k = mem_tenants m k"

definition mem_PutAction :: "action \<Rightarrow> memory \<Rightarrow> memory option" where
  "mem_PutAction a m =
     Some (m\<lparr>mem_actions := (mem_actions m)(a_tenant a := put (a_id a) a (mem_actions m (a_tenant a)))\<rparr>)"

definition mem_GetAction :: "memory \<Rightarrow> string \<Rightarrow> string \<Rightarrow> action option" where
  "mem_GetAction m tenantID k = map_of (mem_actions m tenantID) k"

definition mem_PendingApprovals :: "memory \<Rightarrow> string \<Rightarrow> action list" where
  "mem_PendingApprovals m tenantID =
     filter (\<lambda>a. a_status a = ActPendingApproval) (map snd (mem_actions m tenantID))"

definition mem_ListActions :: "memory \<Rightarrow> string \<Rightarrow> action list" where
  "mem_ListActions m tenantID = map snd (mem_actions m tenantID)"

section \<open>The contract\<close>

text \<open>
  What the desk asks of a store: reading a tenant, reading, writing and listing actions. A write
  may fail (\<open>None\<close>), and then the store is as before.
\<close>

record 's store_ops =
  so_tenant :: "'s \<Rightarrow> string \<Rightarrow> tenant option"
  so_get :: "'s \<Rightarrow> string \<Rightarrow> string \<Rightarrow> action option"
  so_put :: "action \<Rightarrow> 's \<Rightarrow> 's option"
  so_pending :: "'s \<Rightarrow> string \<Rightarrow> action list"

locale action_store =
  fixes ops :: "'s store_ops"
    and ok :: "'s \<Rightarrow> bool"
  assumes get_put: "so_put ops a s = Some s' \<Longrightarrow>
      so_get ops s' t i = (if t = a_tenant a \<and> i = a_id a then Some a else so_get ops s t i)"
    and tenant_put: "so_put ops a s = Some s' \<Longrightarrow> so_tenant ops s' t = so_tenant ops s t"
    and ok_put: "ok s \<Longrightarrow> so_put ops a s = Some s' \<Longrightarrow> ok s'"
    and get_key: "ok s \<Longrightarrow> so_get ops s t i = Some a \<Longrightarrow> a_tenant a = t \<and> a_id a = i"
    and pending_iff: "ok s \<Longrightarrow> a \<in> set (so_pending ops s t) \<longleftrightarrow>
      (\<exists>i. so_get ops s t i = Some a) \<and> a_status a = ActPendingApproval"

definition memory_ops :: "memory store_ops" where
  "memory_ops = \<lparr>so_tenant = mem_GetTenant, so_get = mem_GetAction, so_put = mem_PutAction,
     so_pending = mem_PendingApprovals\<rparr>"

text \<open>Every action is filed under its tenant and its id, once.\<close>

definition memory_ok :: "memory \<Rightarrow> bool" where
  "memory_ok m \<longleftrightarrow>
     (\<forall>t. distinct (map fst (mem_actions m t)) \<and>
        (\<forall>(i, a) \<in> set (mem_actions m t). a_tenant a = t \<and> a_id a = i))"

lemma memory_ok_new: "memory_ok new_memory"
  by (simp add: memory_ok_def new_memory_def)

lemma memory_ok_tenant: "memory_ok m \<Longrightarrow> memory_ok (mem_PutTenant t m)"
  by (simp add: memory_ok_def mem_PutTenant_def)

lemma memory_ok_put: "memory_ok m \<Longrightarrow> mem_PutAction a m = Some m' \<Longrightarrow> memory_ok m'"
  by (fastforce simp: memory_ok_def mem_PutAction_def split: if_splits dest!: set_put)

interpretation memory_store: action_store memory_ops memory_ok
proof
  fix a t i s s'
  assume "so_put memory_ops a s = Some s'"
  then show "so_get memory_ops s' t i =
      (if t = a_tenant a \<and> i = a_id a then Some a else so_get memory_ops s t i)"
    and "so_tenant memory_ops s' t = so_tenant memory_ops s t"
    by (auto simp: memory_ops_def mem_PutAction_def mem_GetAction_def mem_GetTenant_def)
next
  fix a s s'
  assume "memory_ok s" "so_put memory_ops a s = Some s'"
  then show "memory_ok s'" using memory_ok_put by (simp add: memory_ops_def)
next
  fix s t i a
  assume "memory_ok s" "so_get memory_ops s t i = Some a"
  then show "a_tenant a = t \<and> a_id a = i"
    by (auto simp: memory_ok_def memory_ops_def mem_GetAction_def dest: map_of_SomeD)
next
  fix s a t
  assume "memory_ok s"
  then have "(\<exists>i. (i, a) \<in> set (mem_actions s t)) \<longleftrightarrow> (\<exists>i. map_of (mem_actions s t) i = Some a)"
    by (auto simp: memory_ok_def map_of_eq_Some_iff)
  then show "a \<in> set (so_pending memory_ops s t) \<longleftrightarrow>
      (\<exists>i. so_get memory_ops s t i = Some a) \<and> a_status a = ActPendingApproval"
    by (force simp: memory_ops_def mem_PendingApprovals_def mem_GetAction_def)
qed

end
