(* ===== verification/Ledger.thy ===== *)
theory Ledger
  imports Prelude Complex_Main
begin

text \<open>
  pkg/ledger/ledger.go and episode.go: the decision ledger of an agent run, its signature, its
  replay, and the episode that brackets it with two posture censuses. SHA-256, Ed25519 and the
  canonical JSON encoding are the fields of a \<open>crypto\<close>. A nil \<open>*Recorder\<close> is \<open>None\<close>; a time is an
  integer whose zero is the zero time; the cost is a rational (float64 rounding is not modelled).
  \<open>Export\<close> and \<open>Load\<close> are I/O.
\<close>

section \<open>Records\<close>

type_synonym args = "(string \<times> json) list"

record step =
  st_seq :: int
  st_at :: int
  st_thought :: string
  st_tool :: string
  st_args :: args
  st_observation :: string
  st_note :: string
  st_cost :: rat
  st_tokens :: int
  st_verified :: string

record decision =
  d_id :: string
  d_kind :: string
  d_severity :: string
  d_refs :: "string list"
  d_detail :: string

record attestation =
  at_sha :: string
  at_signedAt :: int
  at_signer :: string
  at_signature :: string

record ledger =
  lg_version :: string
  lg_engagement :: string
  lg_agent :: string
  lg_target :: string
  lg_engine :: string
  lg_started :: int
  lg_completed :: int
  lg_steps :: "step list"
  lg_decisions :: "decision list"
  lg_summary :: string
  lg_attestation :: "attestation option"

definition SchemaVersion :: string where
  "SchemaVersion = ''tsengine-ledger/1''"

section \<open>Recorder\<close>

record recorder =
  rc_steps :: "step list"
  rc_n :: int

definition NewRecorder :: recorder where
  "NewRecorder = \<lparr>rc_steps = [], rc_n = 0\<rparr>"

definition blank_step :: "int \<Rightarrow> int \<Rightarrow> step" where
  "blank_step i now =
     \<lparr>st_seq = i, st_at = now, st_thought = [], st_tool = [], st_args = [], st_observation = [],
      st_note = [], st_cost = 0, st_tokens = 0, st_verified = []\<rparr>"

text \<open>\<open>cloneArgs\<close> copies by way of JSON, which is the identity on values decoded from JSON; the
  copy is what makes a recorded step a value. A nil map and an empty one read alike.\<close>

definition cloneArgs :: "args \<Rightarrow> args" where
  "cloneArgs as = as"

definition Record ::
  "int \<Rightarrow> string \<Rightarrow> string \<Rightarrow> args \<Rightarrow> string \<Rightarrow> recorder option \<Rightarrow> recorder option" where
  "Record now thought tool as observation ro =
     (case ro of
        None \<Rightarrow> None
      | Some r \<Rightarrow>
          let i = rc_n r + 1 in
          Some \<lparr>rc_steps = rc_steps r @
                  [(blank_step i now)\<lparr>st_thought := thought, st_tool := tool,
                     st_args := cloneArgs as, st_observation := observation\<rparr>],
                rc_n = i\<rparr>)"

definition Charge :: "rat \<Rightarrow> int \<Rightarrow> recorder option \<Rightarrow> recorder option" where
  "Charge usd tokens ro =
     (case ro of
        None \<Rightarrow> None
      | Some r \<Rightarrow>
          if rc_steps r = [] then Some r
          else let s = last (rc_steps r) in
            Some (r\<lparr>rc_steps := butlast (rc_steps r) @
              [s\<lparr>st_cost := st_cost s + usd, st_tokens := st_tokens s + tokens\<rparr>]\<rparr>))"

fun ground_loop :: "int \<Rightarrow> string \<Rightarrow> step list \<Rightarrow> step list \<times> bool" where
  "ground_loop i d [] = ([], False)"
| "ground_loop i d (s # ss) =
     (if st_seq s = i then (s\<lparr>st_verified := d\<rparr> # ss, True)
      else let (ss1, ok) = ground_loop i d ss in (s # ss1, ok))"

definition Ground :: "int \<Rightarrow> string \<Rightarrow> recorder option \<Rightarrow> recorder option \<times> bool" where
  "Ground i decisionID ro =
     (case ro of
        None \<Rightarrow> (None, False)
      | Some r \<Rightarrow>
          if decisionID = [] then (Some r, False)
          else let (ss, ok) = ground_loop i decisionID (rc_steps r)
               in (Some (r\<lparr>rc_steps := ss\<rparr>), ok))"

definition Note :: "int \<Rightarrow> string \<Rightarrow> recorder option \<Rightarrow> recorder option" where
  "Note now msg ro =
     (case ro of
        None \<Rightarrow> None
      | Some r \<Rightarrow>
          let i = rc_n r + 1 in
          Some \<lparr>rc_steps = rc_steps r @ [(blank_step i now)\<lparr>st_note := msg\<rparr>], rc_n = i\<rparr>)"

definition Steps :: "recorder option \<Rightarrow> step list" where
  "Steps ro = (case ro of None \<Rightarrow> [] | Some r \<Rightarrow> rc_steps r)"

definition Len :: "recorder option \<Rightarrow> nat" where
  "Len ro = (case ro of None \<Rightarrow> 0 | Some r \<Rightarrow> length (rc_steps r))"

record meta =
  m_engagement :: string
  m_agent :: string
  m_target :: string
  m_engine :: string
  m_summary :: string
  m_started :: int
  m_completed :: int
  m_decisions :: "decision list"

definition Build :: "meta \<Rightarrow> recorder option \<Rightarrow> ledger" where
  "Build m ro =
     \<lparr>lg_version = SchemaVersion, lg_engagement = m_engagement m, lg_agent = m_agent m,
      lg_target = m_target m, lg_engine = m_engine m, lg_started = m_started m,
      lg_completed = (if m_completed m \<noteq> 0 then m_completed m else 0),
      lg_steps = Steps ro, lg_decisions = m_decisions m, lg_summary = m_summary m,
      lg_attestation = None\<rparr>"

section \<open>Signing\<close>

definition hex_digit :: "nat \<Rightarrow> char" where
  "hex_digit n = (if n < 10 then char_of (48 + n) else char_of (87 + n))"

definition hex_encode :: "string \<Rightarrow> string" where
  "hex_encode s = concat (map (\<lambda>c. let n = of_char c :: nat in [hex_digit (n div 16), hex_digit (n mod 16)]) s)"

definition hex_value :: "char \<Rightarrow> nat option" where
  "hex_value c =
     (let n = of_char c :: nat in
      if 48 \<le> n \<and> n \<le> 57 then Some (n - 48)
      else if 97 \<le> n \<and> n \<le> 102 then Some (n - 87)
      else if 65 \<le> n \<and> n \<le> 70 then Some (n - 55) else None)"

fun hex_decode :: "string \<Rightarrow> string option" where
  "hex_decode [] = Some []"
| "hex_decode [c] = None"
| "hex_decode (a # b # s) =
     (case (hex_value a, hex_value b) of
        (Some x, Some y) \<Rightarrow> map_option ((#) (char_of (16 * x + y))) (hex_decode s)
      | _ \<Rightarrow> None)"

record crypto =
  c_encode :: "ledger \<Rightarrow> string option"
  c_sha :: "string \<Rightarrow> string"
  c_sign :: "string \<Rightarrow> string \<Rightarrow> string"
  c_verify :: "string \<Rightarrow> string \<Rightarrow> string \<Rightarrow> bool"

datatype sign_error = BadPrivateKey nat | EmptySigner | SignCanonical

datatype verify_error =
    MissingAttestation | BadPublicKey nat | VerifyCanonical | HashMismatch string string
  | SignatureDecode | SignatureInvalid

definition strip :: "ledger \<Rightarrow> ledger" where
  "strip l = l\<lparr>lg_attestation := None\<rparr>"

definition canon :: "crypto \<Rightarrow> ledger \<Rightarrow> string option" where
  "canon c l = c_encode c (strip l)"

text \<open>\<open>Sign\<close> updates the ledger in place: the result carries the ledger as it is left.\<close>

definition Sign :: "crypto \<Rightarrow> string \<Rightarrow> string \<Rightarrow> int \<Rightarrow> ledger \<Rightarrow> ledger \<times> sign_error option" where
  "Sign c signer priv now l0 =
     (if length priv \<noteq> 64 then (l0, Some (BadPrivateKey (length priv)))
      else if signer = [] then (l0, Some EmptySigner)
      else let l = (if lg_started l0 = 0 then l0\<lparr>lg_started := now\<rparr> else l0) in
        (case canon c l of
           None \<Rightarrow> (l, Some SignCanonical)
         | Some b \<Rightarrow>
             let sum = c_sha c b; sig = c_sign c priv sum in
             (l\<lparr>lg_attestation := Some \<lparr>at_sha = hex_encode sum, at_signedAt = now,
                 at_signer = signer, at_signature = hex_encode sig\<rparr>\<rparr>, None)))"

definition Verify :: "crypto \<Rightarrow> string \<Rightarrow> ledger \<Rightarrow> verify_error option" where
  "Verify c pub l =
     (case lg_attestation l of
        None \<Rightarrow> Some MissingAttestation
      | Some att \<Rightarrow>
          if length pub \<noteq> 32 then Some (BadPublicKey (length pub))
          else (case canon c l of
            None \<Rightarrow> Some VerifyCanonical
          | Some b \<Rightarrow>
              let sum = c_sha c b; want = hex_encode sum in
              if at_sha att \<noteq> want then Some (HashMismatch (at_sha att) want)
              else (case hex_decode (at_signature att) of
                None \<Rightarrow> Some SignatureDecode
              | Some sig \<Rightarrow> if c_verify c pub sum sig then None else Some SignatureInvalid)))"

section \<open>Replay\<close>

text \<open>One pass of \<open>strings.ReplaceAll(s, two blanks, one blank)\<close>, left to right.\<close>

fun squeeze :: "string \<Rightarrow> string" where
  "squeeze (x # y # s) =
     (if x = CHR '' '' \<and> y = CHR '' '' then CHR '' '' # squeeze s else x # squeeze (y # s))"
| "squeeze s = s"

lemma length_squeeze: "length (squeeze s) \<le> length s"
  by (induction s rule: squeeze.induct) auto

lemma squeeze_shorter: "contains_str s ''  '' \<Longrightarrow> length (squeeze s) < length s"
proof (induction s rule: squeeze.induct)
  case (1 x y s)
  show ?case
  proof (cases "x = CHR '' '' \<and> y = CHR '' ''")
    case True
    with length_squeeze [of s] show ?thesis by simp
  next
    case False
    with 1 show ?thesis by (auto simp: contains_str_def)
  qed
qed (auto simp: contains_str_def)

function squeeze_all :: "string \<Rightarrow> string" where
  "squeeze_all s = (if contains_str s ''  '' then squeeze_all (squeeze s) else s)"
  by auto
termination by (relation "measure length") (auto simp: squeeze_shorter)

declare squeeze_all.simps [simp del]

definition ellipsis :: string where
  "ellipsis = utf8 [226, 128, 166]"

definition oneLine :: "string \<Rightarrow> nat \<Rightarrow> string" where
  "oneLine s0 m =
     (let s1 = replace_char (CHR 0x0D) '' '' (replace_char (CHR 0x0A) '' '' s0);
          s = trim_space (squeeze_all s1)
      in if m < length s then take m s @ ellipsis else s)"

text \<open>\<open>show\<close> is the rendering \<open>%v\<close> of a value. Keys are sorted; the keys of a Go map are distinct.\<close>

definition compactArgs :: "(json \<Rightarrow> string) \<Rightarrow> args \<Rightarrow> string" where
  "compactArgs show as =
     (if as = [] then []
      else join_with '', '' (map (\<lambda>(k, v). k @ ''='' @ oneLine (show v) 80)
             (sort_by (\<lambda>a b. str_less (fst a) (fst b)) as)))"

definition replay_step :: "(json \<Rightarrow> string) \<Rightarrow> step \<Rightarrow> string" where
  "replay_step show s =
     (if st_note s \<noteq> []
      then ''#'' @ dec_int (st_seq s) @ ''  '' @ utf8 [226, 154, 160] @ '' '' @ st_note s
      else
        let line = ''#'' @ dec_int (st_seq s) @ ''  '' @ st_tool s @ ''('' @ compactArgs show (st_args s) @ '')'';
            t = trim_space (st_thought s); ob = trim_space (st_observation s);
            line1 = (if t \<noteq> [] \<and> t \<noteq> ''playbook''
                     then line @ [CHR 0x0A] @ ''     '' @ utf8 [226, 134, 179] @ '' thought: '' @ oneLine t 200
                     else line)
        in if ob \<noteq> [] then line1 @ [CHR 0x0A] @ ''     '' @ utf8 [226, 135, 146] @ '' '' @ oneLine ob 280
           else line1)"

definition replay_decision :: "decision \<Rightarrow> string" where
  "replay_decision d =
     (let refs = (if d_refs d \<noteq> [] then '' evidence=['' @ join_with '','' (d_refs d) @ '']'' else []);
          sev = (if d_severity d \<noteq> [] then '' '' @ d_severity d else [])
      in ''  '' @ utf8 [226, 128, 162] @ '' '' @ d_id d @ '' ('' @ d_kind d @ sev @ '')'' @ refs)"

definition decisions_banner :: string where
  "decisions_banner = utf8 [226, 148, 128, 226, 148, 128] @ '' grounded decisions '' @ utf8 [226, 148, 128, 226, 148, 128]"

definition Replay :: "(json \<Rightarrow> string) \<Rightarrow> ledger \<Rightarrow> string list" where
  "Replay show l =
     map (replay_step show) (lg_steps l) @
     (if lg_decisions l \<noteq> [] then decisions_banner # map replay_decision (lg_decisions l) else [])"

section \<open>Episodes\<close>

record security_state =
  ss_at :: int
  ss_scope :: string
  ss_keys :: "string list"
  ss_severity :: "(string \<times> int) list"
  ss_facts :: "(string \<times> int) list"

record state_delta =
  sd_scope :: string
  sd_opened :: "string list"
  sd_closed :: "string list"
  sd_persisted :: nat
  sd_severity :: "(string \<times> int) list"
  sd_facts :: "(string \<times> int) list"

datatype diff_error = MissingBracket | ScopeMismatch | NilEpisode | ConsentNotRetroactive

definition count_at :: "(string \<times> int) list \<Rightarrow> string \<Rightarrow> int" where
  "count_at m k = (case map_of m k of None \<Rightarrow> 0 | Some v \<Rightarrow> v)"

definition countDelta :: "(string \<times> int) list \<Rightarrow> (string \<times> int) list \<Rightarrow> (string \<times> int) list" where
  "countDelta before aft =
     [(k, v - count_at before k). (k, v) \<leftarrow> aft, v - count_at before k \<noteq> 0] @
     [(k, - v). (k, v) \<leftarrow> before, map_of aft k = None, v \<noteq> 0]"

definition Diff :: "security_state option \<Rightarrow> security_state option \<Rightarrow> diff_error + state_delta" where
  "Diff before aft =
     (case (before, aft) of
        (Some b, Some a) \<Rightarrow>
          if ss_scope b \<noteq> ss_scope a then Inl ScopeMismatch
          else
            let inAfter = remdups (ss_keys a); inBefore = remdups (ss_keys b) in
            Inr \<lparr>sd_scope = ss_scope a,
                 sd_opened = sort_by str_less (filter (\<lambda>k. k \<notin> set (ss_keys b)) inAfter),
                 sd_closed = sort_by str_less (filter (\<lambda>k. k \<notin> set (ss_keys a)) inBefore),
                 sd_persisted = length (filter (\<lambda>k. k \<in> set (ss_keys b)) inAfter),
                 sd_severity = countDelta (ss_severity b) (ss_severity a),
                 sd_facts = countDelta (ss_facts b) (ss_facts a)\<rparr>
      | _ \<Rightarrow> Inl MissingBracket)"

record training =
  tr_consented :: bool
  tr_by :: string
  tr_at :: int
  tr_statement :: string

record episode =
  ep_ledger :: "ledger option"
  ep_before :: "security_state option"
  ep_after :: "security_state option"
  ep_delta :: "state_delta option"
  ep_training :: training
  ep_costUSD :: rat
  ep_unscored :: "diff_error option"

definition no_training :: training where
  "no_training = \<lparr>tr_consented = False, tr_by = [], tr_at = 0, tr_statement = []\<rparr>"

definition NewEpisode :: "ledger option \<Rightarrow> security_state option \<Rightarrow> episode" where
  "NewEpisode l before =
     \<lparr>ep_ledger = l, ep_before = before, ep_after = None, ep_delta = None, ep_training = no_training,
      ep_costUSD = 0, ep_unscored = None\<rparr>"

definition Close :: "security_state option \<Rightarrow> episode option \<Rightarrow> episode option \<times> diff_error option" where
  "Close aft eo =
     (case eo of
        None \<Rightarrow> (None, Some NilEpisode)
      | Some e0 \<Rightarrow>
          let e = e0\<lparr>ep_after := aft\<rparr> in
          (case Diff (ep_before e) aft of
             Inl err \<Rightarrow> (Some (e\<lparr>ep_delta := None, ep_unscored := Some err\<rparr>), Some err)
           | Inr d \<Rightarrow> (Some (e\<lparr>ep_delta := Some d, ep_unscored := None\<rparr>), None)))"

definition Trainable :: "episode option \<Rightarrow> bool" where
  "Trainable eo = (case eo of None \<Rightarrow> False | Some e \<Rightarrow> tr_consented (ep_training e))"

definition GrantConsent ::
  "string \<Rightarrow> string \<Rightarrow> int \<Rightarrow> episode option \<Rightarrow> episode option \<times> diff_error option" where
  "GrantConsent by_whom statement now eo =
     (case eo of
        None \<Rightarrow> (None, Some NilEpisode)
      | Some e \<Rightarrow>
          if ep_after e \<noteq> None then (Some e, Some ConsentNotRetroactive)
          else (Some (e\<lparr>ep_training := \<lparr>tr_consented = True, tr_by = by_whom, tr_at = now,
                  tr_statement = statement\<rparr>\<rparr>), None))"

definition CostPerVerified :: "int \<Rightarrow> episode option \<Rightarrow> (rat \<times> bool)" where
  "CostPerVerified verified eo =
     (case eo of
        None \<Rightarrow> (0, False)
      | Some e \<Rightarrow> if verified \<le> 0 then (0, False) else (ep_costUSD e / of_int verified, True))"

section \<open>Lemmas\<close>

text \<open>The calls on a recorder, as a machine whose steps are numbered without a gap.\<close>

datatype rc_call =
    RRecord int string string args string | RNote int string | RCharge rat int | RGround int string

fun rc_apply :: "recorder option \<Rightarrow> rc_call \<Rightarrow> recorder option" where
  "rc_apply r (RRecord now thought tool as ob) = Record now thought tool as ob r"
| "rc_apply r (RNote now msg) = Note now msg r"
| "rc_apply r (RCharge usd tokens) = Charge usd tokens r"
| "rc_apply r (RGround i d) = fst (Ground i d r)"

fun adds_step :: "rc_call \<Rightarrow> bool" where
  "adds_step (RRecord now thought tool as ob) = True"
| "adds_step (RNote now msg) = True"
| "adds_step c = False"

definition numbered :: "recorder option \<Rightarrow> bool" where
  "numbered ro \<longleftrightarrow>
     (case ro of
        None \<Rightarrow> True
      | Some r \<Rightarrow> map st_seq (rc_steps r) = map int [1..<Suc (length (rc_steps r))] \<and>
                  rc_n r = int (length (rc_steps r)))"

lemma ground_loop_keeps:
  "map st_seq (fst (ground_loop i d ss)) = map st_seq ss"
  "length (fst (ground_loop i d ss)) = length ss"
  "map (\<lambda>s. s\<lparr>st_verified := []\<rparr>) (fst (ground_loop i d ss)) = map (\<lambda>s. s\<lparr>st_verified := []\<rparr>) ss"
  by (induction ss) (auto split: prod.splits)

lemma Charge_seq: "ss \<noteq> [] \<Longrightarrow> map st_seq (butlast ss @ [(last ss)\<lparr>st_cost := x, st_tokens := y\<rparr>]) = map st_seq ss"
  by (induction ss rule: rev_induct) auto

interpretation recorder: machine rc_apply numbered
proof
  fix r c
  assume n: "numbered r"
  show "numbered (rc_apply r c)"
  proof (cases r)
    case None
    then show ?thesis by (cases c) (simp_all add: numbered_def Record_def Note_def Charge_def Ground_def)
  next
    case (Some rc)
    with n have s: "map st_seq (rc_steps rc) = map int [1..<Suc (length (rc_steps rc))]"
      "rc_n rc = int (length (rc_steps rc))" by (simp_all add: numbered_def)
    show ?thesis
    proof (cases c)
      case (RCharge usd tokens)
      with s show ?thesis
        by (auto simp: Some numbered_def Charge_def Let_def Charge_seq simp del: map_append)
    next
      case (RGround i d)
      with s show ?thesis
        using ground_loop_keeps [of i d "rc_steps rc"]
        by (auto simp: Some numbered_def Ground_def split: prod.split)
    qed (use s in \<open>simp_all add: Some numbered_def Record_def Note_def blank_step_def Let_def\<close>)
  qed
qed

lemma Len_apply: "Len (rc_apply (Some r) c) = Len (Some r) + (if adds_step c then 1 else 0) \<and>
    (\<exists>r'. rc_apply (Some r) c = Some r')"
  using ground_loop_keeps(2) [of _ _ "rc_steps r"]
  by (cases c) (auto simp: Len_def Record_def Note_def Charge_def Ground_def Let_def split_def)

lemma Len_run: "Len (foldl rc_apply (Some r) cs) = Len (Some r) + length (filter adds_step cs)"
proof (induction cs arbitrary: r)
  case (Cons c cs)
  from Len_apply [of r c] obtain r' where "rc_apply (Some r) c = Some r'"
    "Len (Some r') = Len (Some r) + (if adds_step c then 1 else 0)" by auto
  with Cons.IH [of r'] show ?case by simp
qed simp

lemma hex_value_digit: "n < 16 \<Longrightarrow> hex_value (hex_digit n) = Some n"
  by (auto simp: hex_value_def hex_digit_def Let_def)

lemma hex_roundtrip: "hex_decode (hex_encode s) = Some s"
proof (induction s)
  case (Cons c s)
  let ?n = "of_char c :: nat"
  have "hex_encode (c # s) = hex_digit (?n div 16) # hex_digit (?n mod 16) # hex_encode s"
    by (simp add: hex_encode_def Let_def)
  moreover have "?n div 16 < 16" "16 * (?n div 16) + ?n mod 16 = ?n"
    using nat_of_char_less_256 [of c] by (simp_all only: div_less_iff_less_mult mult_div_mod_eq)
  ultimately show ?case using Cons by (simp add: hex_value_digit)
qed (simp add: hex_encode_def)

lemma strip_simps [simp]:
  "strip (strip l) = strip l" "lg_steps (strip l) = lg_steps l" "lg_decisions (strip l) = lg_decisions l"
  "strip (l\<lparr>lg_attestation := a\<rparr>) = strip l"
  by (simp_all add: strip_def)

lemma canon_attested [simp]: "canon c (l\<lparr>lg_attestation := a\<rparr>) = canon c l"
  by (simp add: canon_def)

text \<open>\<open>Verify\<close> accepts exactly the attested digest of the stripped ledger, signed.\<close>

lemma Verify_None:
  "Verify c pub l = None \<longleftrightarrow>
     (\<exists>att b sig. lg_attestation l = Some att \<and> length pub = 32 \<and> canon c l = Some b \<and>
        at_sha att = hex_encode (c_sha c b) \<and> hex_decode (at_signature att) = Some sig \<and>
        c_verify c pub (c_sha c b) sig)"
  by (auto simp: Verify_def Let_def split: option.splits)

text \<open>Episodes under their two operations.\<close>

datatype ep_call = EClose "security_state option" | EGrant string string int

fun ep_apply :: "episode option \<Rightarrow> ep_call \<Rightarrow> episode option" where
  "ep_apply e (EClose aft) = fst (Close aft e)"
| "ep_apply e (EGrant by_whom statement now) = fst (GrantConsent by_whom statement now e)"

text \<open>A delta is there only for a bracketed run, and is then the difference of its brackets.\<close>

definition scored :: "episode option \<Rightarrow> bool" where
  "scored eo \<longleftrightarrow>
     (case eo of
        None \<Rightarrow> True
      | Some e \<Rightarrow> (\<forall>d. ep_delta e = Some d \<longrightarrow> Diff (ep_before e) (ep_after e) = Inr d))"

interpretation episodes: machine ep_apply scored
proof
  fix e c
  assume "scored e"
  then show "scored (ep_apply e c)"
    by (cases c) (auto simp: scored_def Close_def GrantConsent_def Let_def split: option.split sum.split)
qed

section \<open>Properties\<close>

text \<open>The step trail has no gap: whatever calls a recorder receives, its steps are numbered
  1, 2, 3, ... in order, and there is one step for each \<open>Record\<close> and each \<open>Note\<close>.\<close>

theorem recorder_has_no_gap:
  "map st_seq (Steps (foldl rc_apply (Some NewRecorder) cs)) =
     map int [1..<Suc (length (filter adds_step cs))]"
proof -
  have "numbered (Some NewRecorder)" by (simp add: numbered_def NewRecorder_def)
  from recorder.run_inv [OF this] have n: "numbered (foldl rc_apply (Some NewRecorder) cs)" .
  have l: "Len (foldl rc_apply (Some NewRecorder) cs) = length (filter adds_step cs)"
    by (simp add: Len_run) (simp add: Len_def NewRecorder_def)
  from n l show ?thesis
    by (cases "foldl rc_apply (Some NewRecorder) cs") (auto simp: numbered_def Steps_def Len_def)
qed

text \<open>A ledger that \<open>Sign\<close> signed verifies under the matching key, for any signature scheme
  whose signatures verify.\<close>

theorem signed_ledger_verifies:
  assumes "Sign c signer priv now l = (l', None)" "length pub = 32"
    and "\<And>m. c_verify c pub m (c_sign c priv m)"
  shows "Verify c pub l' = None"
proof -
  from assms(1) obtain l1 b where l1: "canon c l1 = Some b"
    "l' = l1\<lparr>lg_attestation := Some \<lparr>at_sha = hex_encode (c_sha c b), at_signedAt = now,
       at_signer = signer, at_signature = hex_encode (c_sign c priv (c_sha c b))\<rparr>\<rparr>"
    by (auto simp: Sign_def Let_def split: if_splits option.splits)
  with assms(2,3) show ?thesis by (simp add: Verify_None hex_roundtrip)
qed

text \<open>A toy scheme for the examples: the digest is the text, the signature repeats it.\<close>

definition toy_crypto :: crypto where
  "toy_crypto = \<lparr>c_encode = (\<lambda>l. Some (lg_summary l)), c_sha = (\<lambda>x. x), c_sign = (\<lambda>p m. m),
     c_verify = (\<lambda>p m s. m = s)\<rparr>"

definition sample_ledger :: ledger where
  "sample_ledger = Build \<lparr>m_engagement = [], m_agent = ''webagent'', m_target = [], m_engine = [],
     m_summary = ''ok'', m_started = 5, m_completed = 9, m_decisions = []\<rparr> (Some NewRecorder)"

definition signed_sample :: ledger where
  "signed_sample = fst (Sign toy_crypto ''me'' (replicate 64 CHR ''k'') 7 sample_ledger)"

theorem signed_ledger_verifies_witness:
  "Verify toy_crypto (replicate 32 CHR ''k'') signed_sample = None"
proof -
  have "Sign toy_crypto ''me'' (replicate 64 CHR ''k'') 7 sample_ledger = (signed_sample, None)"
    by (simp add: signed_sample_def Sign_def canon_def toy_crypto_def Let_def)
  from signed_ledger_verifies [OF this, of "replicate 32 CHR ''k''"]
  show ?thesis by (simp add: toy_crypto_def)
qed



text \<open>The signer's name and the signing time are outside the signature: \<open>Verify\<close> gives the same
  answer when they are rewritten.\<close>

theorem signer_is_not_authenticated:
  "Verify c pub (l\<lparr>lg_attestation := map_option (\<lambda>a. a\<lparr>at_signer := s, at_signedAt := t\<rparr>) (lg_attestation l)\<rparr>) =
     Verify c pub l"
  by (cases "lg_attestation l") (simp_all add: Verify_def Let_def split: option.split)

text \<open>A delta partitions the two censuses: opened and persisting keys are those after, closed
  ones those before only, both lists sorted and without repetition; and there is no delta for a
  missing bracket or between different scopes.\<close>

theorem diff_partitions:
  "if before = None \<or> aft = None then Diff before aft = Inl MissingBracket
   else if ss_scope (the before) \<noteq> ss_scope (the aft) then Diff before aft = Inl ScopeMismatch
   else (\<exists>d. Diff before aft = Inr d \<and> sd_scope d = ss_scope (the aft) \<and>
       set (sd_opened d) = set (ss_keys (the aft)) - set (ss_keys (the before)) \<and>
       set (sd_closed d) = set (ss_keys (the before)) - set (ss_keys (the aft)) \<and>
       sd_persisted d = card (set (ss_keys (the aft)) \<inter> set (ss_keys (the before))) \<and>
       sorted (map codes (sd_opened d)) \<and> sorted (map codes (sd_closed d)) \<and>
       distinct (sd_opened d) \<and> distinct (sd_closed d))"
proof -
  have sorted: "sorted (map codes (sort_by str_less ks))" for ks
    using sorted_sort_by [OF weak_order_str [of "\<lambda>x. x"], of ks]
    unfolding sorted_wrt_map by (rule sorted_wrt_mono_rel [rotated]) (simp add: str_less_codes not_less)
  have dist: "distinct (sort_by str_less ks) = distinct ks" for ks
    by (rule mset_eq_imp_distinct_iff) simp
  have card: "length (filter (\<lambda>k. k \<in> B) (remdups ks)) = card (set ks \<inter> B)" for ks B
    by (metis Int_commute distinct_card distinct_filter distinct_remdups inter_set_filter set_remdups)
  show ?thesis
    by (auto simp: Diff_def Let_def sorted dist card split: option.splits)
qed

text \<open>Training consent is not retroactive for a run closed with a census: its consent never
  changes again, and a delta is only ever the difference of the run's own brackets.\<close>

theorem consent_after_close_refused:
  "(let e = ep_apply (Some (NewEpisode l before)) (EClose (Some aft));
        e' = foldl ep_apply e (map (\<lambda>(w, s, t). EGrant w s t) grants)
    in e' = e \<and> \<not> Trainable e') \<and>
   scored (foldl ep_apply (Some (NewEpisode l before)) cs)"
proof -
  obtain e1 where e1: "ep_apply (Some (NewEpisode l before)) (EClose (Some aft)) = Some e1"
    "ep_after e1 \<noteq> None" "\<not> Trainable (Some e1)"
    by (cases "Diff before (Some aft)")
      (auto simp: NewEpisode_def Close_def Let_def Trainable_def no_training_def)
  have "foldl ep_apply (Some e1) (map (\<lambda>(w, s, t). EGrant w s t) grants) = Some e1"
    using e1(2) by (induction grants) (auto simp: GrantConsent_def)
  moreover have "scored (Some (NewEpisode l before))" by (simp add: scored_def NewEpisode_def)
  ultimately show ?thesis using e1 episodes.run_inv by (simp add: Let_def del: ep_apply.simps)
qed

text \<open>The refusal looks at the after-census only: a run that was closed without one, because it
  could not be measured, still accepts consent afterwards and becomes trainable.\<close>

theorem consent_after_unmeasured_close:
  "Trainable (foldl ep_apply (Some (NewEpisode l before)) [EClose None, EGrant w s t])"
  by (cases before) (simp_all add: NewEpisode_def Close_def GrantConsent_def Diff_def Trainable_def)

end
