(* ===== verification/Hitl.thy ===== *)
theory Hitl
  imports ActionStore Ledger
begin

text \<open>
  internal/hitl/hitl.go: the desk between an agent that proposes a remediation and the system that
  applies it. The state is the store, the decision recorder and the trace of outward effects (what
  was handed to the applier, who was notified). The applier, the earned-autonomy hook, the clock,
  \<open>strconv.Quote\<close> and \<open>url.Parse\<close> are the fields of a \<open>desk\<close>. A payload is a value: that an edit changes
  the Go map a caller may share is not modelled.
\<close>

section \<open>Delivery errors\<close>

definition is_letter :: "char \<Rightarrow> bool" where
  "is_letter c \<longleftrightarrow> (let n = of_char c :: nat in 65 \<le> n \<and> n \<le> 90 \<or> 97 \<le> n \<and> n \<le> 122)"

definition is_scheme_char :: "char \<Rightarrow> bool" where
  "is_scheme_char c \<longleftrightarrow>
     is_letter c \<or> (let n = of_char c :: nat in 48 \<le> n \<and> n \<le> 57) \<or> c \<in> set ''+.-''"

text \<open>The bytes the regular expression excludes after the slashes: white space, both quotes and the
  backquote.\<close>

definition ends_url :: "char \<Rightarrow> bool" where
  "ends_url c \<longleftrightarrow> (of_char c :: nat) \<in> {9, 10, 12, 13, 32, 34, 39, 96}"

text \<open>The match of \<open>urlRe\<close> at the front of a string: the URL and what follows it.\<close>

definition url_here :: "string \<Rightarrow> (string \<times> string) option" where
  "url_here s =
     (case s of
        [] \<Rightarrow> None
      | c # _ \<Rightarrow>
          let sch = takeWhile is_scheme_char s; rest = drop (length sch) s;
              body = takeWhile (\<lambda>x. \<not> ends_url x) (drop 3 rest)
          in if is_letter c \<and> prefix ''://'' rest \<and> body \<noteq> []
             then Some (sch @ ''://'' @ body, drop (3 + length body) rest) else None)"

lemma url_here_shorter: "url_here s = Some (u, rest) \<Longrightarrow> length rest < length s"
  by (auto simp: url_here_def Let_def split: list.splits if_splits)

text \<open>\<open>ReplaceAllStringFunc\<close>; \<open>parse\<close> gives the scheme and the host of a URL.\<close>

function redact :: "(string \<Rightarrow> (string \<times> string) option) \<Rightarrow> string \<Rightarrow> string" where
  "redact parse s =
     (case url_here s of
        Some (u, rest) \<Rightarrow>
          (case parse u of
             None \<Rightarrow> ''[redacted-url]''
           | Some (scheme, host) \<Rightarrow>
               if host = [] then ''[redacted-url]'' else scheme @ ''://'' @ host @ ''/[redacted]'')
          @ redact parse rest
      | None \<Rightarrow> (case s of [] \<Rightarrow> [] | c # cs \<Rightarrow> c # redact parse cs))"
  by pat_completeness auto
termination by (relation "measure (length \<circ> snd)") (auto simp: url_here_shorter)

declare redact.simps [simp del]

definition deliveryError :: "(string \<Rightarrow> (string \<times> string) option) \<Rightarrow> string \<Rightarrow> string" where
  "deliveryError parse err =
     (let msg = redact parse err in if 300 < length msg then take 300 msg @ ellipsis else msg)"

section \<open>The desk\<close>

datatype applier =
    NoApplier
  | Plain "action \<Rightarrow> string option"
  | WithResult "action \<Rightarrow> string + string option"

record 's desk =
  dk_store :: "'s store_ops"
  dk_apply :: applier
  dk_notify :: bool
  dk_autonomy :: "('s \<Rightarrow> action \<Rightarrow> string \<times> bool) option"
  dk_now :: int
  dk_quote :: "string \<Rightarrow> string"
  dk_url :: "string \<Rightarrow> (string \<times> string) option"

datatype effect = Delivered action | Notified action

record 's world =
  w_store :: 's
  w_recorder :: "recorder option"
  w_effects :: "effect list"

datatype desk_error =
    Halted | NeedsHumanSignature_err | NotFound | NotPending string string | NoApprover | NoFeedback
  | StoreFailed | ApplyFailed string string

definition autoApprover :: string where
  "autoApprover = ''auto''"

definition halted :: "'s desk \<Rightarrow> string \<Rightarrow> 's world \<Rightarrow> bool" where
  "halted d tenantID w =
     (case so_tenant (dk_store d) (w_store w) tenantID of None \<Rightarrow> False | Some t \<Rightarrow> t_halted t)"

definition record_event :: "'s desk \<Rightarrow> string \<Rightarrow> action \<Rightarrow> string \<Rightarrow> 's world \<Rightarrow> 's world" where
  "record_event d event a approver w =
     (let effect_key = (\<lambda>k. case map_of (a_payload a) k of None \<Rightarrow> [] | Some v \<Rightarrow> [(k, v)]);
          meta = [(''action_id'', JStr (a_id a)), (''finding_id'', JStr (a_finding a)),
                  (''kind'', JStr (a_kind a)), (''tier'', JNum (a_tier a)), (''approver'', JStr approver)]
                 @ effect_key ''target'' @ effect_key ''remediation_type''
      in w\<lparr>w_recorder := Record (dk_now d) (''hitl '' @ event) ''hitl_decision'' meta
             (''action '' @ a_id a @ '' '' @ utf8 [226, 134, 146] @ '' '' @ a_status a @ '' (tier '' @
               dec_int (a_tier a) @ '', approver '' @ dk_quote d approver @ '')'') (w_recorder w)\<rparr>)"

text \<open>A write whose error is ignored, and one whose error is returned.\<close>

definition put_quiet :: "'s desk \<Rightarrow> action \<Rightarrow> 's world \<Rightarrow> 's world" where
  "put_quiet d a w =
     (case so_put (dk_store d) a (w_store w) of None \<Rightarrow> w | Some s \<Rightarrow> w\<lparr>w_store := s\<rparr>)"

definition put_checked :: "'s desk \<Rightarrow> action \<Rightarrow> 's world \<Rightarrow> 's world option" where
  "put_checked d a w = map_option (\<lambda>s. w\<lparr>w_store := s\<rparr>) (so_put (dk_store d) a (w_store w))"

definition emit :: "effect \<Rightarrow> 's world \<Rightarrow> 's world" where
  "emit e w = w\<lparr>w_effects := w_effects w @ [e]\<rparr>"

type_synonym 's outcome = "'s world \<times> action \<times> desk_error option"

definition finish_apply :: "'s desk \<Rightarrow> action \<Rightarrow> string \<Rightarrow> 's world \<Rightarrow> 's outcome" where
  "finish_apply d a0 approver w =
     (let a = a0\<lparr>a_status := ActApplied, a_deliveryError := [],
                a_decidedAt := (if a_decidedAt a0 = 0 then dk_now d else a_decidedAt a0)\<rparr>
      in case put_checked d a w of
           None \<Rightarrow> (w, a, Some StoreFailed)
         | Some w1 \<Rightarrow> (record_event d ''applied'' a approver w1, a, None))"

definition fail_apply :: "'s desk \<Rightarrow> action \<Rightarrow> string \<Rightarrow> string \<Rightarrow> 's world \<Rightarrow> 's outcome" where
  "fail_apply d a0 approver err w =
     (let a = a0\<lparr>a_status := ActApproved, a_deliveryError := deliveryError (dk_url d) err\<rparr>
      in (record_event d ''apply_failed'' a approver (put_quiet d a w), a, Some (ApplyFailed (a_id a) err)))"

definition apply_action :: "'s desk \<Rightarrow> action \<Rightarrow> string \<Rightarrow> 's world \<Rightarrow> 's outcome" where
  "apply_action d a approver w =
     (if NeedsHumanSignature a \<and> (approver = [] \<or> approver = autoApprover) then
        let a1 = a\<lparr>a_status := ActPendingApproval\<rparr>
        in (record_event d ''blocked_t3_needs_signature'' a1 approver (put_quiet d a1 w), a1,
            Some NeedsHumanSignature_err)
      else if halted d (a_tenant a) w then
        let a1 = a\<lparr>a_status := ActPendingApproval\<rparr>
        in (record_event d ''blocked_killswitch'' a1 approver (put_quiet d a1 w), a1, Some Halted)
      else
        (case dk_apply d of
           NoApplier \<Rightarrow> finish_apply d a approver w
         | Plain f \<Rightarrow>
             (case f a of
                None \<Rightarrow> finish_apply d a approver (emit (Delivered a) w)
              | Some err \<Rightarrow> fail_apply d a approver err (emit (Delivered a) w))
         | WithResult f \<Rightarrow>
             (case f a of
                Inr ticket \<Rightarrow> finish_apply d (a\<lparr>a_ticket := ticket\<rparr>) approver (emit (Delivered a) w)
              | Inl err \<Rightarrow> fail_apply d a approver err (emit (Delivered a) w))))"

definition queue_action :: "'s desk \<Rightarrow> action \<Rightarrow> 's world \<Rightarrow> 's outcome" where
  "queue_action d a0 w =
     (let a = a0\<lparr>a_status := ActPendingApproval\<rparr> in
      case put_checked d a w of
        None \<Rightarrow> (w, a, Some StoreFailed)
      | Some w1 \<Rightarrow>
          let w2 = record_event d ''queued'' a [] w1
          in (if dk_notify d then emit (Notified a) w2 else w2, a, None))"

text \<open>Earned autonomy: consulted for exactly the gate tier and never under the kill-switch.\<close>

definition earned_grant :: "'s desk \<Rightarrow> action \<Rightarrow> bool \<Rightarrow> 's world \<Rightarrow> string option" where
  "earned_grant d a stop w =
     (if \<not> stop \<and> a_tier a = GateTier then
        (case dk_autonomy d of
           None \<Rightarrow> None
         | Some f \<Rightarrow>
             let (who, ok) = f (w_store w) a
             in if ok \<and> who \<noteq> [] \<and> who \<noteq> autoApprover then Some who else None)
      else None)"

definition Submit :: "'s desk \<Rightarrow> action \<Rightarrow> 's world \<Rightarrow> 's outcome" where
  "Submit d a0 w =
     (let a = (if a_createdAt a0 = 0 then a0\<lparr>a_createdAt := dk_now d\<rparr> else a0);
          stop = halted d (a_tenant a) w
      in case earned_grant d a stop w of
           Some who \<Rightarrow>
             let a1 = a\<lparr>a_approver := who\<rparr>
             in apply_action d a1 who (record_event d ''earned_autonomy'' a1 who w)
         | None \<Rightarrow>
             if NeedsApproval a \<or> stop then queue_action d a w
             else apply_action d a autoApprover w)"

definition Pending :: "'s desk \<Rightarrow> string \<Rightarrow> 's world \<Rightarrow> action list" where
  "Pending d tenantID w = so_pending (dk_store d) (w_store w) tenantID"

record verdict =
  v_approver :: string
  v_approve :: bool
  v_edit :: "(string \<times> json) list"
  v_requestChanges :: bool
  v_feedback :: string

definition protectedPayloadKeys :: "string set" where
  "protectedPayloadKeys = {''target'', ''remediation_type''}"

definition apply_edits :: "(string \<times> json) list \<Rightarrow> (string \<times> json) list \<Rightarrow> (string \<times> json) list" where
  "apply_edits edit payload =
     fold (\<lambda>(k, v) p. if k \<in> protectedPayloadKeys then p else put k v p) edit payload"

definition Decide :: "'s desk \<Rightarrow> string \<Rightarrow> string \<Rightarrow> verdict \<Rightarrow> 's world \<Rightarrow>
    's world \<times> action option \<times> desk_error option" where
  "Decide d tenantID actionID v w =
     (case so_get (dk_store d) (w_store w) tenantID actionID of
        None \<Rightarrow> (w, None, Some NotFound)
      | Some a \<Rightarrow>
          if a_status a \<noteq> ActPendingApproval then (w, Some a, Some (NotPending actionID (a_status a)))
          else if v_approver v = [] then (w, Some a, Some NoApprover)
          else if v_requestChanges v then
            (if trim_space (v_feedback v) = [] then (w, Some a, Some NoFeedback)
             else let a1 = a\<lparr>a_status := ActChangesRequested, a_feedback := trim_space (v_feedback v),
                            a_reviewedBy := v_approver v, a_reviewedAt := dk_now d\<rparr>
               in case put_checked d a1 w of
                    None \<Rightarrow> (w, Some a1, Some StoreFailed)
                  | Some w1 \<Rightarrow> (record_event d ''changes_requested'' a1 (v_approver v) w1, Some a1, None))
          else
            let a1 = a\<lparr>a_approver := v_approver v, a_decidedAt := dk_now d,
                      a_payload := apply_edits (v_edit v) (a_payload a)\<rparr>
            in if \<not> v_approve v then
                 let a2 = a1\<lparr>a_status := ActRejected\<rparr>
                 in (case put_checked d a2 w of
                       None \<Rightarrow> (w, Some a2, Some StoreFailed)
                     | Some w1 \<Rightarrow> (record_event d ''rejected'' a2 (v_approver v) w1, Some a2, None))
               else if halted d tenantID w then (w, Some a1, Some Halted)
               else let (w1, a2, err) = apply_action d a1 (v_approver v) w in (w1, Some a2, err))"

section \<open>What reaches the applier\<close>

text \<open>The effects of a call: what it appended to the trace.\<close>

definition new_effects :: "'s world \<Rightarrow> 's world \<Rightarrow> effect list" where
  "new_effects w w' = drop (length (w_effects w)) (w_effects w')"

text \<open>An approver that the irreversible tier does not accept.\<close>

definition unnamed :: "string \<Rightarrow> bool" where
  "unnamed approver \<longleftrightarrow> approver = [] \<or> approver = autoApprover"

lemma effects_simps [simp]:
  "w_effects (record_event d ev a who w) = w_effects w"
  "w_effects (put_quiet d a w) = w_effects w"
  "w_effects (emit e w) = w_effects w @ [e]"
  "w_store (record_event d ev a who w) = w_store w"
  "w_store (emit e w) = w_store w"
  by (simp_all add: record_event_def put_quiet_def emit_def Let_def split: option.split)

lemma put_checked_effects [simp]: "put_checked d a w = Some w' \<Longrightarrow> w_effects w' = w_effects w"
  by (auto simp: put_checked_def)

lemma halted_record [simp]: "halted d t (record_event d' ev a who w) = halted d t w"
  by (simp add: halted_def)

lemma finish_effects [simp]: "w_effects (fst (finish_apply d a who w)) = w_effects w"
  by (simp add: finish_apply_def Let_def split: option.split)

lemma fail_effects [simp]: "w_effects (fst (fail_apply d a who err w)) = w_effects w"
  by (simp add: fail_apply_def Let_def)

lemma apply_effects:
  "w_effects (fst (apply_action d a who w)) = w_effects w \<or>
   w_effects (fst (apply_action d a who w)) = w_effects w @ [Delivered a] \<and>
     \<not> halted d (a_tenant a) w \<and> \<not> (NeedsHumanSignature a \<and> unnamed who)"
  by (auto simp: apply_action_def unnamed_def Let_def split: applier.split option.split sum.split)

lemma queue_effects:
  "set (new_effects w (fst (queue_action d a w))) \<subseteq> {Notified (a\<lparr>a_status := ActPendingApproval\<rparr>)}"
  by (auto simp: queue_action_def new_effects_def Let_def split: option.split)

text \<open>Same fix: the identity of an action and everything that defines its effect.\<close>

definition same_fix :: "action \<Rightarrow> action \<Rightarrow> bool" where
  "same_fix a b \<longleftrightarrow>
     a_id b = a_id a \<and> a_tenant b = a_tenant a \<and> a_finding b = a_finding a \<and> a_kind b = a_kind a \<and>
     a_tier b = a_tier a \<and>
     (\<forall>k \<in> protectedPayloadKeys. map_of (a_payload b) k = map_of (a_payload a) k)"

lemma apply_edits_protected:
  "k \<in> protectedPayloadKeys \<Longrightarrow> map_of (apply_edits edit p) k = map_of p k"
  unfolding apply_edits_def by (induction edit arbitrary: p) auto

text \<open>The two ways to the applier.\<close>

definition stamped :: "'s desk \<Rightarrow> action \<Rightarrow> action" where
  "stamped d a = (if a_createdAt a = 0 then a\<lparr>a_createdAt := dk_now d\<rparr> else a)"

definition submit_may_deliver :: "'s desk \<Rightarrow> action \<Rightarrow> 's world \<Rightarrow> bool" where
  "submit_may_deliver d a w \<longleftrightarrow>
     \<not> halted d (a_tenant a) w \<and>
     (a_tier a < GateTier \<or>
      a_tier a = GateTier \<and> (\<exists>f who. dk_autonomy d = Some f \<and> f (w_store w) (stamped d a) = (who, True) \<and> \<not> unnamed who))"

lemma submit_delivers:
  assumes "Delivered b \<in> set (new_effects w (fst (Submit d a w)))"
  shows "submit_may_deliver d a w \<and> same_fix a b"
proof -
  define a1 where "a1 = stamped d a"
  have a1: "a_tier a1 = a_tier a" "a_tenant a1 = a_tenant a" "same_fix a a1" "same_fix a (a1\<lparr>a_approver := x\<rparr>)" for x
    by (simp_all add: a1_def stamped_def same_fix_def)
  have submit: "Submit d a w = (case earned_grant d a1 (halted d (a_tenant a) w) w of
      Some who \<Rightarrow> apply_action d (a1\<lparr>a_approver := who\<rparr>) who
        (record_event d ''earned_autonomy'' (a1\<lparr>a_approver := who\<rparr>) who w)
    | None \<Rightarrow> if GateTier \<le> a_tier a \<or> halted d (a_tenant a) w then queue_action d a1 w
        else apply_action d a1 autoApprover w)"
    unfolding Submit_def Let_def stamped_def [symmetric] a1_def [symmetric] NeedsApproval_def a1(1,2) by (rule refl)
  show ?thesis
  proof (cases "earned_grant d a1 (halted d (a_tenant a) w) w")
    case (Some who)
    then have "submit_may_deliver d a w"
      by (auto simp: earned_grant_def submit_may_deliver_def unnamed_def a1(1) a1_def [symmetric]
          split: if_splits option.splits prod.splits)
    with assms apply_effects [of d "a1\<lparr>a_approver := who\<rparr>" who
        "record_event d ''earned_autonomy'' (a1\<lparr>a_approver := who\<rparr>) who w"] Some a1
    show ?thesis by (auto simp: new_effects_def submit)
  next
    case None
    show ?thesis
    proof (cases "GateTier \<le> a_tier a \<or> halted d (a_tenant a) w")
      case True
      with None assms queue_effects [of w d a1] show ?thesis by (auto simp: submit)
    next
      case False
      with None assms apply_effects [of d a1 autoApprover w] a1 show ?thesis
        by (auto simp: new_effects_def submit_may_deliver_def submit)
    qed
  qed
qed

definition verdict_may_deliver :: "'s desk \<Rightarrow> string \<Rightarrow> verdict \<Rightarrow> action \<Rightarrow> 's world \<Rightarrow> bool" where
  "verdict_may_deliver d t v a w \<longleftrightarrow>
     a_status a = ActPendingApproval \<and> v_approve v \<and> \<not> v_requestChanges v \<and> v_approver v \<noteq> [] \<and>
     \<not> halted d t w \<and> \<not> halted d (a_tenant a) w \<and> \<not> (NeedsHumanSignature a \<and> unnamed (v_approver v))"

lemma decide_delivers:
  assumes "Delivered b \<in> set (new_effects w (fst (Decide d t i v w)))"
  shows "\<exists>a. so_get (dk_store d) (w_store w) t i = Some a \<and> verdict_may_deliver d t v a w \<and> same_fix a b"
proof (cases "so_get (dk_store d) (w_store w) t i")
  case None
  with assms show ?thesis by (simp add: Decide_def new_effects_def)
next
  case (Some a)
  define a1 where "a1 = a\<lparr>a_approver := v_approver v, a_decidedAt := dk_now d,
    a_payload := apply_edits (v_edit v) (a_payload a)\<rparr>"
  have a1: "same_fix a a1" "a_tenant a1 = a_tenant a" "NeedsHumanSignature a1 = NeedsHumanSignature a"
    by (simp_all add: a1_def same_fix_def apply_edits_protected NeedsHumanSignature_def)
  have "w_effects (fst (Decide d t i v w)) = w_effects w \<or>
      a_status a = ActPendingApproval \<and> v_approve v \<and> \<not> v_requestChanges v \<and> v_approver v \<noteq> [] \<and>
      \<not> halted d t w \<and> fst (Decide d t i v w) = fst (apply_action d a1 (v_approver v) w)"
    unfolding Decide_def Some option.case a1_def [symmetric] Let_def
    by (auto simp: split_def split: option.split)
  with assms apply_effects [of d a1 "v_approver v" w] a1 show ?thesis
    by (auto simp: Some new_effects_def verdict_may_deliver_def)
qed

section \<open>Over a lawful store\<close>

context action_store
begin

text \<open>An action that was applied is no longer pending: deciding it again reaches nobody.\<close>

lemma finish_stored:
  assumes "finish_apply d a who w = (w', a', None)" "dk_store d = ops"
  shows "so_get ops (w_store w') (a_tenant a) (a_id a) = Some a' \<and> a_status a' = ActApplied"
  using assms get_put by (auto simp: finish_apply_def put_checked_def Let_def split: option.splits)

lemma apply_stored:
  assumes "apply_action d a who w = (w', a', None)" "dk_store d = ops"
  shows "so_get ops (w_store w') (a_tenant a) (a_id a) = Some a' \<and> a_status a' = ActApplied"
proof -
  have "\<exists>b u. finish_apply d b who u = (w', a', None) \<and> a_tenant b = a_tenant a \<and> a_id b = a_id a"
    using assms(1)
    by (auto simp: apply_action_def fail_apply_def Let_def split: if_splits applier.splits option.splits sum.splits)
  then obtain b u where "finish_apply d b who u = (w', a', None)" "a_tenant b = a_tenant a" "a_id b = a_id a"
    by blast
  with finish_stored [OF _ assms(2)] show ?thesis by metis
qed

lemma decided_once:
  assumes "ok (w_store w)" "dk_store d = ops" "dk_store d' = ops"
    and "Decide d t i v w = (w', Some a', None)" "a_status a' = ActApplied"
  shows "Decide d' t i v' w' = (w', Some a', Some (NotPending i ActApplied))"
proof -
  obtain a where a: "so_get ops (w_store w) t i = Some a"
    using assms(2,4) by (auto simp: Decide_def split: option.splits)
  with get_key [OF assms(1)] have k: "a_tenant a = t" "a_id a = i" by blast+
  define a1 where "a1 = a\<lparr>a_approver := v_approver v, a_decidedAt := dk_now d,
    a_payload := apply_edits (v_edit v) (a_payload a)\<rparr>"
  have "apply_action d a1 (v_approver v) w = (w', a', None)"
    using assms(2,4,5) a unfolding Decide_def Let_def a1_def
    by (auto split: option.splits if_splits prod.splits)
  from apply_stored [OF this assms(2)] k assms(3) show ?thesis
    by (simp add: Decide_def a1_def)
qed

text \<open>A queued action is on the desk: it is pending in the store.\<close>

lemma queue_is_pending:
  assumes "queue_action d a w = (w', a', None)" "dk_store d = ops" "ok (w_store w)"
  shows "a' \<in> set (Pending d (a_tenant a) w')"
proof -
  have p: "so_put ops (a\<lparr>a_status := ActPendingApproval\<rparr>) (w_store w) = Some (w_store w')"
    "a' = a\<lparr>a_status := ActPendingApproval\<rparr>"
    using assms(1,2) by (auto simp: queue_action_def put_checked_def Let_def split: option.splits)
  from get_put [OF p(1)] have "so_get ops (w_store w') (a_tenant a) (a_id a) = Some a'" by (simp add: p(2))
  with pending_iff [OF ok_put [OF assms(3) p(1)]] show ?thesis by (auto simp: Pending_def assms(2) p(2))
qed

end

section \<open>The desk over the in-memory store\<close>

datatype desk_call =
    DSubmit "memory desk" action
  | DDecide "memory desk" string string verdict
  | DTenant tenant

definition on_memory :: "memory desk \<Rightarrow> memory desk" where
  "on_memory d = d\<lparr>dk_store := memory_ops\<rparr>"

fun desk_step :: "memory world \<Rightarrow> desk_call \<Rightarrow> memory world" where
  "desk_step w (DSubmit d a) = fst (Submit (on_memory d) a w)"
| "desk_step w (DDecide d t i v) = fst (Decide (on_memory d) t i v w)"
| "desk_step w (DTenant t) = w\<lparr>w_store := mem_PutTenant t (w_store w)\<rparr>"

definition start_world :: "memory world" where
  "start_world = \<lparr>w_store = new_memory, w_recorder = Some NewRecorder, w_effects = []\<rparr>"

text \<open>The store stays well filed, and the trace of effects only grows.\<close>

definition grown :: "memory world \<Rightarrow> memory world \<Rightarrow> bool" where
  "grown w w' \<longleftrightarrow> memory_ok (w_store w') \<and> prefix (w_effects w) (w_effects w')"

lemma grown_self: "memory_ok (w_store w) \<Longrightarrow> grown w w"
  by (simp add: grown_def)

lemma grown_put:
  "grown w u \<Longrightarrow> grown w (put_quiet (on_memory d) a u)"
  "grown w u \<Longrightarrow> put_checked (on_memory d) a u = Some w' \<Longrightarrow> grown w w'"
  using memory_ok_put
  by (auto simp: grown_def put_quiet_def put_checked_def on_memory_def memory_ops_def split: option.splits)

lemma grown_emit [simp]:
  "grown w u \<Longrightarrow> grown w (emit e u)"
  "grown w (record_event d ev a who u) = grown w u"
  by (auto simp: grown_def)

lemma grown_finish: "grown w u \<Longrightarrow> grown w (fst (finish_apply (on_memory d) a who u))"
  by (auto simp: finish_apply_def Let_def intro: grown_put(2) split: option.split)

lemma grown_fail: "grown w u \<Longrightarrow> grown w (fst (fail_apply (on_memory d) a who err u))"
  by (simp add: fail_apply_def Let_def grown_put(1))

lemma grown_apply: "grown w u \<Longrightarrow> grown w (fst (apply_action (on_memory d) a who u))"
  by (simp add: apply_action_def Let_def grown_put(1) grown_finish grown_fail
      split: applier.split option.split sum.split)

lemma grown_queue: "grown w u \<Longrightarrow> grown w (fst (queue_action (on_memory d) a u))"
  by (auto simp: queue_action_def Let_def intro: grown_put(2) intro!: grown_emit(1) split: option.split)

lemma grown_step:
  assumes "memory_ok (w_store w)"
  shows "grown w (desk_step w c)"
proof (cases c)
  case (DSubmit d a)
  with grown_self [OF assms] show ?thesis
    by (simp add: Submit_def Let_def grown_apply grown_queue split: option.split)
next
  case (DDecide d t i v)
  with grown_self [OF assms] show ?thesis
    by (auto simp: Decide_def Let_def split_def grown_apply intro: grown_put(2) split: option.split)
next
  case (DTenant t)
  with assms show ?thesis by (simp add: grown_def memory_ok_tenant)
qed

interpretation desk_machine: machine desk_step "\<lambda>w. memory_ok (w_store w)"
  using grown_step by unfold_locales (simp add: grown_def)

lemma run_memory_ok: "memory_ok (w_store (foldl desk_step start_world cs))"
  by (rule desk_machine.run_inv) (simp add: start_world_def memory_ok_new)

text \<open>The human verdict behind a delivery.\<close>

fun signs :: "action \<Rightarrow> desk_call \<Rightarrow> bool" where
  "signs b (DDecide d t i v) =
     (t = a_tenant b \<and> i = a_id b \<and> v_approve v \<and> \<not> v_requestChanges v \<and> \<not> unnamed (v_approver v))"
| "signs b c = False"

lemma step_signed:
  assumes "memory_ok (w_store w)" "Delivered b \<in> set (w_effects (desk_step w c))"
    and "Delivered b \<notin> set (w_effects w)" "NeedsHumanSignature b"
  shows "signs b c"
proof -
  have new: "Delivered b \<in> set (new_effects w (desk_step w c))"
    using assms(1-3) grown_step [of w c] by (auto simp: grown_def prefix_def new_effects_def)
  show ?thesis
  proof (cases c)
    case (DSubmit d a)
    with submit_delivers [of b w "on_memory d" a] new assms(4) show ?thesis
      by (auto simp: submit_may_deliver_def same_fix_def NeedsHumanSignature_def GateTier_def TierIrreversible_def)
  next
    case (DDecide d t i v)
    with decide_delivers [of b w "on_memory d" t i v] new obtain a where
      a: "so_get memory_ops (w_store w) t i = Some a" "verdict_may_deliver (on_memory d) t v a w" "same_fix a b"
      by (auto simp: on_memory_def)
    with memory_store.get_key [OF assms(1) a(1)] assms(4) DDecide show ?thesis
      by (auto simp: verdict_may_deliver_def same_fix_def NeedsHumanSignature_def)
  next
    case (DTenant t)
    with new show ?thesis by (simp add: new_effects_def)
  qed
qed

lemma some_delivered:
  "list_ex (\<lambda>e. case e of Delivered b \<Rightarrow> P b | _ \<Rightarrow> False) es \<Longrightarrow> \<exists>b. Delivered b \<in> set es \<and> P b"
  by (induction es) (auto split: effect.splits)

section \<open>Properties\<close>

text \<open>A proposal reaches the applier on submission only while the tenant's kill-switch is off,
  and only below the gate tier, or at exactly the gate tier under a named earned-autonomy grant;
  what is delivered is the same fix (identity, kind, tier, target and remediation type).\<close>

theorem submit_is_gated:
  assumes "Delivered b \<in> set (new_effects w (fst (Submit d a w)))"
  shows "submit_may_deliver d a w \<and> same_fix a b"
  using assms by (rule submit_delivers)

definition sample_action :: "int \<Rightarrow> action" where
  "sample_action tier =
     \<lparr>a_id = ''a1'', a_tenant = ''t'', a_finding = ''f'', a_kind = ''apply_config'', a_tier = tier,
      a_status = ActProposed, a_payload = [(''target'', JStr ''bucket-a'')], a_approver = [],
      a_feedback = [], a_reviewedBy = [], a_reviewedAt = 0, a_findingKeys = [],
      a_verification = None, a_history = [], a_ticket = None, a_deliveryError = [],
      a_createdAt = 1, a_decidedAt = 0\<rparr>"

definition sample_desk :: "memory desk" where
  "sample_desk = \<lparr>dk_store = memory_ops, dk_apply = Plain (\<lambda>a. None), dk_notify = True,
     dk_autonomy = None, dk_now = 5, dk_quote = (\<lambda>s. s), dk_url = (\<lambda>u. None)\<rparr>"

definition sample_verdict :: "string \<Rightarrow> verdict" where
  "sample_verdict who = \<lparr>v_approver = who, v_approve = True, v_edit = [(''target'', JStr ''bucket-b'')],
     v_requestChanges = False, v_feedback = []\<rparr>"

theorem submit_is_gated_witness:
  "submit_may_deliver sample_desk (sample_action 1) start_world"
proof -
  have "new_effects start_world (fst (Submit sample_desk (sample_action 1) start_world)) = [Delivered (sample_action 1)]"
    by code_simp
  then have "Delivered (sample_action 1) \<in> set (new_effects start_world (fst (Submit sample_desk (sample_action 1) start_world)))"
    by simp
  from submit_is_gated [OF this] show ?thesis by blast
qed

text \<open>A verdict reaches the applier only for the recorded action, while it is pending, when a
  human with a name approves it without requesting changes, with the kill-switch off; for an
  irreversible action the approver is not the automatic one. Edits never change what the fix is.\<close>

theorem decide_is_gated:
  assumes "Delivered b \<in> set (new_effects w (fst (Decide d t i v w)))"
  shows "\<exists>a. so_get (dk_store d) (w_store w) t i = Some a \<and> verdict_may_deliver d t v a w \<and> same_fix a b"
  using assms by (rule decide_delivers)

definition queued_world :: "memory world" where
  "queued_world = fst (Submit sample_desk (sample_action 3) start_world)"

theorem decide_is_gated_witness:
  "\<exists>a b. same_fix a b \<and> a_status a = ActPendingApproval \<and>
     Delivered b \<in> set (new_effects queued_world (fst (Decide sample_desk ''t'' ''a1'' (sample_verdict ''ann'') queued_world)))"
proof -
  let ?e = "new_effects queued_world (fst (Decide sample_desk ''t'' ''a1'' (sample_verdict ''ann'') queued_world))"
  have "list_ex (\<lambda>e. case e of Delivered b \<Rightarrow> True | _ \<Rightarrow> False) ?e" by code_simp
  then obtain b where b: "Delivered b \<in> set ?e" using some_delivered [of "\<lambda>b. True"] by blast
  from decide_is_gated [OF b] b show ?thesis by (auto simp: verdict_may_deliver_def)
qed

text \<open>C1: No irreversible action is ever applied without a signature: over the in-memory store,
  whatever is submitted, decided and switched, every delivered tier-3 action has among the calls
  an approval of that very action by a named human.\<close>

theorem irreversible_needs_signature:
  assumes "Delivered b \<in> set (w_effects (foldl desk_step start_world cs))" "NeedsHumanSignature b"
  shows "list_ex (signs b) cs"
  using assms
proof (induction cs rule: rev_induct)
  case Nil
  then show ?case by (simp add: start_world_def)
next
  case (snoc c cs)
  show ?case
  proof (cases "Delivered b \<in> set (w_effects (foldl desk_step start_world cs))")
    case True
    with snoc show ?thesis by simp
  next
    case False
    with step_signed [OF run_memory_ok _ False snoc.prems(2), of c] snoc.prems(1) show ?thesis by simp
  qed
qed

theorem irreversible_needs_signature_witness:
  "\<exists>b. NeedsHumanSignature b \<and> signs b (DDecide sample_desk ''t'' ''a1'' (sample_verdict ''ann''))"
proof -
  let ?cs = "[DSubmit sample_desk (sample_action 3), DDecide sample_desk ''t'' ''a1'' (sample_verdict ''ann'')]"
  have "list_ex (\<lambda>e. case e of Delivered b \<Rightarrow> a_tier b = 3 | _ \<Rightarrow> False) (w_effects (foldl desk_step start_world ?cs))"
    by code_simp
  then obtain b where b: "Delivered b \<in> set (w_effects (foldl desk_step start_world ?cs))" "a_tier b = 3"
    using some_delivered [of "\<lambda>b. a_tier b = 3"] by blast
  then have "NeedsHumanSignature b" by (simp add: NeedsHumanSignature_def TierIrreversible_def)
  with irreversible_needs_signature [OF b(1) this] show ?thesis by auto
qed

text \<open>An action is applied by at most one verdict: once a verdict has applied it, every later
  verdict on it is refused, and neither the store nor the outside world sees anything.\<close>

theorem verdict_applies_once:
  assumes "memory_ok (w_store w)"
    and "Decide (on_memory d) t i v w = (w', Some a, None)" "a_status a = ActApplied"
  shows "Decide (on_memory d') t i v' w' = (w', Some a, Some (NotPending i ActApplied))"
  by (rule memory_store.decided_once [OF assms(1) _ _ assms(2,3)]) (simp_all add: on_memory_def)

theorem verdict_applies_once_witness:
  "snd (snd (Decide (on_memory sample_desk) ''t'' ''a1'' (sample_verdict ''bob'')
      (fst (Decide (on_memory sample_desk) ''t'' ''a1'' (sample_verdict ''ann'') queued_world)))) =
    Some (NotPending ''a1'' ActApplied)"
proof -
  let ?r = "Decide (on_memory sample_desk) ''t'' ''a1'' (sample_verdict ''ann'') queued_world"
  have ok: "memory_ok (w_store queued_world)"
    using run_memory_ok [of "[DSubmit sample_desk (sample_action 3)]"]
    by (simp add: queued_world_def on_memory_def sample_desk_def)
  have "(case snd ?r of (Some a, None) \<Rightarrow> a_status a = ActApplied | _ \<Rightarrow> False)" by code_simp
  then obtain w' a where r: "?r = (w', Some a, None)" "a_status a = ActApplied"
    by (cases ?r) (auto split: option.splits)
  from verdict_applies_once [OF ok r, of sample_desk "sample_verdict ''bob''"] r(1) show ?thesis by simp
qed

text \<open>A delivery whose success cannot be recorded is not marked applied: where the write after
  the applier fails, the store is as it was, so that the action is still pending and a second
  verdict delivers it a second time.\<close>

theorem unrecorded_delivery_stays_pending:
  assumes "dk_apply d = Plain (\<lambda>a. None)" "\<And>a. so_put (dk_store d) a (w_store w) = None"
    and "so_get (dk_store d) (w_store w) t i = Some a" "verdict_may_deliver d t v a w"
  shows "w_store (fst (Decide d t i v w)) = w_store w \<and>
    (\<exists>b. new_effects w (fst (Decide d t i v w)) = [Delivered b]) \<and>
    (\<exists>b c. w_effects (fst (Decide d t i v (fst (Decide d t i v w)))) = w_effects w @ [Delivered b, Delivered c])"
proof -
  define a1 where "a1 = a\<lparr>a_approver := v_approver v, a_decidedAt := dk_now d,
    a_payload := apply_edits (v_edit v) (a_payload a)\<rparr>"
  have once: "fst (Decide d t i v u) = emit (Delivered a1) u" if u: "w_store u = w_store w" for u
  proof -
    have "fst (Decide d t i v u) = fst (apply_action d a1 (v_approver v) u)"
      using assms(3,4) u unfolding a1_def
      by (auto simp: Decide_def verdict_may_deliver_def Let_def halted_def split_def)
    moreover have "apply_action d a1 (v_approver v) u = finish_apply d a1 (v_approver v) (emit (Delivered a1) u)"
      using assms(1,4) u
      by (auto simp: apply_action_def verdict_may_deliver_def a1_def NeedsHumanSignature_def unnamed_def halted_def)
    ultimately show ?thesis
      using assms(2) u by (simp add: finish_apply_def put_checked_def Let_def)
  qed
  from once [of w] once [of "emit (Delivered a1) w"] show ?thesis by (simp add: new_effects_def)
qed

end
