(* ===== verification/Breaker.thy ===== *)
theory Breaker
  imports Prelude
begin

text \<open>
  internal/breaker/breaker.go: the circuit breaker that halts an agent when containment signals
  accumulate. The clock reading of a call is an argument; a time and the window are integers
  (nanoseconds). The reason text is represented by what it is formatted from.
\<close>

section \<open>Model\<close>

datatype kind =
    EgressBlocked | ScopeDenied | VolumeAnomaly | HoneytokenHit | WAFBlocked | TargetUnhealthy
  | SessionInvalid

datatype halt_reason = NoReason | Honeytoken | LimitReached kind int int

record stamped =
  st_kind :: kind
  st_at :: int

record breaker =
  b_limits :: "kind \<rightharpoonup> int"
  b_window :: int
  b_events :: "stamped list"
  b_tripped :: bool
  b_reason :: halt_reason

definition new_breaker :: "(kind \<rightharpoonup> int) \<Rightarrow> int \<Rightarrow> breaker" where
  "new_breaker limits window =
     \<lparr>b_limits = limits, b_window = window, b_events = [], b_tripped = False, b_reason = NoReason\<rparr>"

definition trip :: "halt_reason \<Rightarrow> breaker \<Rightarrow> breaker" where
  "trip r b = b\<lparr>b_tripped := True, b_reason := r\<rparr>"

definition prune :: "int \<Rightarrow> breaker \<Rightarrow> breaker" where
  "prune now b =
     (if b_window b \<le> 0 then b
      else b\<lparr>b_events := filter (\<lambda>e. now - b_window b < st_at e) (b_events b)\<rparr>)"

definition count_kind :: "kind \<Rightarrow> stamped list \<Rightarrow> int" where
  "count_kind k es = int (length (filter (\<lambda>e. st_kind e = k) es))"

text \<open>A missing key of the limits reads as 0.\<close>

definition limit_of :: "(kind \<rightharpoonup> int) \<Rightarrow> kind \<Rightarrow> int" where
  "limit_of limits k = (case limits k of None \<Rightarrow> 0 | Some v \<Rightarrow> v)"

definition Record :: "kind \<Rightarrow> int \<Rightarrow> breaker \<Rightarrow> breaker \<times> bool" where
  "Record k now b0 =
     (let b = prune now (b0\<lparr>b_events := b_events b0 @ [\<lparr>st_kind = k, st_at = now\<rparr>]\<rparr>) in
      if b_tripped b then (b, True)
      else if k = HoneytokenHit then (trip Honeytoken b, True)
      else let limit = limit_of (b_limits b) k in
        if 0 < limit \<and> limit \<le> count_kind k (b_events b)
        then (trip (LimitReached k limit (b_window b)) b, True)
        else (b, False))"

definition Tripped :: "breaker \<Rightarrow> bool \<times> halt_reason" where
  "Tripped b = (b_tripped b, b_reason b)"

definition Reset :: "breaker \<Rightarrow> breaker" where
  "Reset b = b\<lparr>b_tripped := False, b_reason := NoReason\<rparr>"

definition Counts :: "int \<Rightarrow> breaker \<Rightarrow> breaker \<times> (kind \<Rightarrow> int)" where
  "Counts now b0 = (let b = prune now b0 in (b, \<lambda>k. count_kind k (b_events b)))"

text \<open>The calls a breaker receives, each with its clock reading.\<close>

datatype call = CRecord kind int | CReset | CCounts int

fun apply_call :: "breaker \<Rightarrow> call \<Rightarrow> breaker" where
  "apply_call b (CRecord k now) = fst (Record k now b)"
| "apply_call b CReset = Reset b"
| "apply_call b (CCounts now) = fst (Counts now b)"

abbreviation run_calls :: "breaker \<Rightarrow> call list \<Rightarrow> breaker" where
  "run_calls \<equiv> foldl apply_call"

section \<open>The breaker without pruning\<close>

text \<open>
  What the breaker promises, with the whole history kept: a signal halts it when it is a
  honeytoken, or when the signals of its kind inside the window that ends now reach the limit.
\<close>

record watch =
  w_hist :: "stamped list"
  w_halted :: bool

definition in_window :: "int \<Rightarrow> int \<Rightarrow> stamped list \<Rightarrow> stamped list" where
  "in_window window now es = filter (\<lambda>e. window \<le> 0 \<or> now - window < st_at e) es"

definition alarm :: "(kind \<rightharpoonup> int) \<Rightarrow> int \<Rightarrow> stamped list \<Rightarrow> kind \<Rightarrow> int \<Rightarrow> bool" where
  "alarm limits window hist k now \<longleftrightarrow>
     k = HoneytokenHit \<or>
     0 < limit_of limits k \<and> limit_of limits k \<le> count_kind k (in_window window now hist)"

fun watch_call :: "(kind \<rightharpoonup> int) \<Rightarrow> int \<Rightarrow> watch \<Rightarrow> call \<Rightarrow> watch" where
  "watch_call limits window w (CRecord k now) =
     (let hist = w_hist w @ [\<lparr>st_kind = k, st_at = now\<rparr>] in
      \<lparr>w_hist = hist, w_halted = (w_halted w \<or> alarm limits window hist k now)\<rparr>)"
| "watch_call limits window w CReset = w\<lparr>w_halted := False\<rparr>"
| "watch_call limits window w (CCounts now) = w"

definition new_watch :: watch where
  "new_watch = \<lparr>w_hist = [], w_halted = False\<rparr>"

text \<open>The clock readings of the calls, in their order.\<close>

fun call_times :: "call list \<Rightarrow> int list" where
  "call_times [] = []"
| "call_times (CRecord k now # cs) = now # call_times cs"
| "call_times (CReset # cs) = call_times cs"
| "call_times (CCounts now # cs) = now # call_times cs"

section \<open>Lemmas\<close>

lemma prune_keeps [simp]:
  "b_limits (prune now b) = b_limits b" "b_window (prune now b) = b_window b"
  "b_tripped (prune now b) = b_tripped b" "b_reason (prune now b) = b_reason b"
  "b_events (prune now b) = in_window (b_window b) now (b_events b)"
  by (auto simp: prune_def in_window_def)

lemma trip_simps [simp]:
  "b_limits (trip r b) = b_limits b" "b_window (trip r b) = b_window b"
  "b_tripped (trip r b) = True" "b_reason (trip r b) = r" "b_events (trip r b) = b_events b"
  by (simp_all add: trip_def)

lemma Record_simps [simp]:
  "b_limits (fst (Record k now b)) = b_limits b"
  "b_window (fst (Record k now b)) = b_window b"
  "b_events (fst (Record k now b)) =
     in_window (b_window b) now (b_events b @ [\<lparr>st_kind = k, st_at = now\<rparr>])"
  "snd (Record k now b) = b_tripped (fst (Record k now b))"
  by (auto simp: Record_def Let_def)

lemma Record_tripped [simp]:
  "b_tripped (fst (Record k now b)) \<longleftrightarrow>
     b_tripped b \<or> alarm (b_limits b) (b_window b) (b_events b @ [\<lparr>st_kind = k, st_at = now\<rparr>]) k now"
  by (auto simp: Record_def Let_def alarm_def)

lemma call_fixed [simp]:
  "b_limits (apply_call b c) = b_limits b" "b_window (apply_call b c) = b_window b"
  by (cases c; simp add: Reset_def Counts_def Let_def)+

lemma in_window_later:
  "t \<le> now \<Longrightarrow> in_window w now (in_window w t es @ xs) = in_window w now (es @ xs)"
  by (auto simp: in_window_def intro: filter_cong)

text \<open>The breaker has a reason exactly while it is halted.\<close>

definition reasoned :: "breaker \<Rightarrow> bool" where
  "reasoned b \<longleftrightarrow> (b_tripped b \<longleftrightarrow> b_reason b \<noteq> NoReason)"

interpretation breaker_machine: machine apply_call reasoned
proof
  fix b c
  assume "reasoned b"
  then show "reasoned (apply_call b c)"
    by (cases c) (auto simp: reasoned_def Record_def Reset_def Counts_def Let_def)
qed

lemma reasoned_new [simp]: "reasoned (new_breaker limits window)"
  by (simp add: reasoned_def new_breaker_def)

text \<open>The simulation: the events kept are the window of the history at the last reading \<open>t\<close>.\<close>

definition tracks :: "(kind \<rightharpoonup> int) \<Rightarrow> int \<Rightarrow> int \<Rightarrow> breaker \<Rightarrow> watch \<Rightarrow> bool" where
  "tracks limits window t b w \<longleftrightarrow>
     b_limits b = limits \<and> b_window b = window \<and> b_tripped b = w_halted w \<and>
     (\<forall>now xs. t \<le> now \<longrightarrow> in_window window now (b_events b @ xs) = in_window window now (w_hist w @ xs))"

lemma tracks_new: "tracks limits window t (new_breaker limits window) new_watch"
  by (simp add: tracks_def new_breaker_def new_watch_def)

lemma tracks_step:
  assumes "tracks limits window t b w" "list_all ((\<le>) t) (call_times [c])"
  shows "tracks limits window (last (t # call_times [c])) (apply_call b c) (watch_call limits window w c)"
proof (cases c)
  case (CRecord k now)
  with assms show ?thesis by (simp add: tracks_def alarm_def Let_def in_window_later)
next
  case CReset
  with assms show ?thesis by (simp add: tracks_def Reset_def)
next
  case (CCounts now)
  with assms show ?thesis by (simp add: tracks_def Counts_def Let_def in_window_later)
qed

lemma tracks_run:
  assumes "tracks limits window t b w" "sorted (t # call_times cs)"
  shows "\<exists>u. tracks limits window u (run_calls b cs) (foldl (watch_call limits window) w cs)"
  using assms
proof (induction cs arbitrary: t b w)
  case (Cons c cs)
  let ?u = "last (t # call_times [c])"
  have t: "list_all ((\<le>) t) (call_times [c])" and u: "sorted (?u # call_times cs)"
    using Cons.prems(2) by (cases c; simp)+
  from Cons.IH [OF tracks_step [OF Cons.prems(1) t] u] show ?case by simp
qed auto

lemma latched_run:
  "CReset \<notin> set cs \<Longrightarrow> b_tripped b \<Longrightarrow>
    b_tripped (run_calls b cs) \<and> b_reason (run_calls b cs) = b_reason b"
proof (induction cs arbitrary: b)
  case (Cons c cs)
  have "b_tripped (apply_call b c)" "b_reason (apply_call b c) = b_reason b"
    using Cons.prems by (cases c; simp add: Record_def Counts_def Let_def)+
  with Cons show ?case by simp
qed simp

section \<open>Properties\<close>

text \<open>C8: Pruning is invisible: under a clock that never goes back, the breaker is halted after
  any calls exactly when the breaker that keeps its whole history is, whose rule is "a honeytoken,
  or the limit of the kind reached within the window that ends with this signal, until a reset".\<close>

theorem breaker_refines_watch:
  assumes "sorted (call_times cs)"
  shows "fst (Tripped (run_calls (new_breaker limits window) cs)) =
    w_halted (foldl (watch_call limits window) new_watch cs)"
proof -
  obtain t where "sorted (t # call_times cs)"
    using assms by (cases "call_times cs") (auto intro: that)
  from tracks_run [OF tracks_new this] show ?thesis by (auto simp: tracks_def Tripped_def)
qed

definition sample_calls :: "call list" where
  "sample_calls = [CRecord ScopeDenied 0, CRecord ScopeDenied 50, CCounts 120, CRecord ScopeDenied 130]"

theorem breaker_refines_watch_witness:
  "sorted (call_times sample_calls) \<and>
   w_halted (foldl (watch_call [ScopeDenied \<mapsto> 2] 100) new_watch sample_calls)"
proof -
  have s: "sorted (call_times sample_calls)" by code_simp
  have "fst (Tripped (run_calls (new_breaker [ScopeDenied \<mapsto> 2] 100) sample_calls))" by code_simp
  with s breaker_refines_watch [OF s] show ?thesis by blast
qed

text \<open>The breaker latches: once halted it stays halted, with the same reason, through every
  call but a reset, and every \<open>Record\<close> then answers true.\<close>

theorem breaker_latches:
  assumes "b_tripped b" "CReset \<notin> set cs"
  shows "Tripped (run_calls b cs) = (True, b_reason b) \<and> snd (Record k now (run_calls b cs))"
  using latched_run [OF assms(2,1)] by (simp add: Tripped_def)

theorem breaker_latches_witness:
  "snd (Record EgressBlocked 9 (run_calls (fst (Record HoneytokenHit 0 (new_breaker Map.empty 0)))
     [CCounts 5, CRecord ScopeDenied 7]))"
  by (rule breaker_latches [THEN conjunct2]) (code_simp, simp)

text \<open>A breaker is never halted without a reason, and never has one while it runs, whatever
  the calls and their clock readings.\<close>

theorem breaker_halt_has_reason:
  "fst (Tripped (run_calls (new_breaker limits window) cs)) =
     (snd (Tripped (run_calls (new_breaker limits window) cs)) \<noteq> NoReason)"
  using breaker_machine.run_inv [OF reasoned_new] by (simp add: Tripped_def reasoned_def)

text \<open>The trail of a halted breaker is not retained: the next signal after the window has
  passed erases the events that caused the halt, while the breaker is still halted.\<close>

theorem breaker_trail_is_pruned:
  "let b = run_calls (new_breaker [ScopeDenied \<mapsto> 2] 100) [CRecord ScopeDenied 0, CRecord ScopeDenied 1];
       b1 = fst (Record EgressBlocked 500 b)
   in b_tripped b \<and> length (b_events b) = 2 \<and> b_tripped b1 \<and>
      b_events b1 = [\<lparr>st_kind = EgressBlocked, st_at = 500\<rparr>]"
  by code_simp

end
