(* ===== verification/RateLimit.thy ===== *)
theory RateLimit
  imports Prelude
begin

text \<open>
  internal/ratelimit/ratelimit.go: the per-tenant limiter. The token bucket itself is
  \<open>golang.org/x/time/rate\<close>, which is not part of the repository: a \<open>rate_pkg\<close> gives its
  constructor (the allowance per minute, whose sixtieth is the refill rate, and the burst) and
  \<open>AllowN(now, 1)\<close>. Times are integers in seconds.
\<close>

section \<open>Model\<close>

record 'lim rate_pkg =
  new_lim :: "int \<Rightarrow> int \<Rightarrow> 'lim"
  allow_one :: "'lim \<Rightarrow> int \<Rightarrow> 'lim \<times> bool"

record 'lim bucket =
  bk_lim :: 'lim
  bk_seen :: int
  bk_perM :: int

record 'lim limiter =
  l_buckets :: "string \<rightharpoonup> 'lim bucket"
  l_lastSweep :: int

definition idleTTL :: int where "idleTTL = 15 * 60"

definition sweepEvery :: int where "sweepEvery = 60"

text \<open>The zero \<open>time.Time\<close> of a new limiter is the reading \<open>start\<close>, long before any other.\<close>

definition new_limiter :: "int \<Rightarrow> 'lim limiter" where
  "new_limiter start = \<lparr>l_buckets = Map.empty, l_lastSweep = start\<rparr>"

definition idle :: "int \<Rightarrow> 'lim bucket \<Rightarrow> bool" where
  "idle now b \<longleftrightarrow> idleTTL < now - bk_seen b"

definition maybeSweep :: "int \<Rightarrow> 'lim limiter \<Rightarrow> 'lim limiter" where
  "maybeSweep now l =
     (if now - l_lastSweep l < sweepEvery then l
      else \<lparr>l_buckets = (\<lambda>k. case l_buckets l k of
                None \<Rightarrow> None | Some b \<Rightarrow> if idle now b then None else Some b),
            l_lastSweep = now\<rparr>)"

definition fresh_bucket :: "'lim rate_pkg \<Rightarrow> int \<Rightarrow> int \<Rightarrow> 'lim bucket" where
  "fresh_bucket rp perMinute now =
     (let burst = (if perMinute < 1 then 1 else perMinute)
      in \<lparr>bk_lim = new_lim rp perMinute burst, bk_seen = now, bk_perM = perMinute\<rparr>)"

definition AllowKey ::
  "'lim rate_pkg \<Rightarrow> string \<Rightarrow> int \<Rightarrow> int \<Rightarrow> 'lim limiter option \<Rightarrow> 'lim limiter option \<times> bool" where
  "AllowKey rp key perMinute now lo =
     (case lo of
        None \<Rightarrow> (None, True)
      | Some l0 \<Rightarrow>
          if perMinute \<le> 0 then (Some l0, True)
          else
            let l = maybeSweep now l0;
                b = (case l_buckets l key of
                       None \<Rightarrow> fresh_bucket rp perMinute now
                     | Some b \<Rightarrow> if bk_perM b \<noteq> perMinute then fresh_bucket rp perMinute now else b);
                (lim, ok) = allow_one rp (bk_lim b) now
            in (Some (l\<lparr>l_buckets := (l_buckets l)(key \<mapsto> b\<lparr>bk_lim := lim, bk_seen := now\<rparr>)\<rparr>), ok))"

text \<open>A request: its key, the allowance of the key's plan, and the clock reading.\<close>

type_synonym call = "string \<times> int \<times> int"

fun answers :: "'lim rate_pkg \<Rightarrow> 'lim limiter option \<Rightarrow> call list \<Rightarrow> (string \<times> bool) list" where
  "answers rp lo [] = []"
| "answers rp lo ((key, perMinute, now) # cs) =
     (let (lo1, ok) = AllowKey rp key perMinute now lo in (key, ok) # answers rp lo1 cs)"

section \<open>What is relied on of the token bucket\<close>

text \<open>
  The bucket of an allowance as used by the limiter: built full, then asked at times that do not
  go back. The law: once it has been left alone for more than \<open>idleTTL\<close> it is full again (a
  minute refills a whole burst), so that it answers, and goes on, as a new one.
\<close>

inductive used :: "'lim rate_pkg \<Rightarrow> int \<Rightarrow> 'lim \<Rightarrow> int \<Rightarrow> bool" for rp n where
  first: "used rp n (fst (allow_one rp (new_lim rp n n) t)) t"
| again: "used rp n l t \<Longrightarrow> t \<le> t' \<Longrightarrow> used rp n (fst (allow_one rp l t')) t'"

definition refills :: "'lim rate_pkg \<Rightarrow> bool" where
  "refills rp \<longleftrightarrow>
     (\<forall>n l t t'. 0 < n \<longrightarrow> used rp n l t \<longrightarrow> idleTTL < t' - t \<longrightarrow>
        allow_one rp l t' = allow_one rp (new_lim rp n n) t')"

section \<open>Lemmas\<close>

text \<open>The bucket that a request of the key meets: none when it is gone or idle.\<close>

definition live :: "int \<Rightarrow> int \<Rightarrow> 'lim bucket option \<Rightarrow> 'lim option" where
  "live perMinute now bo =
     (case bo of
        None \<Rightarrow> None
      | Some b \<Rightarrow> if idle now b \<or> bk_perM b \<noteq> perMinute then None else Some (bk_lim b))"

definition asked :: "'lim rate_pkg \<Rightarrow> int \<Rightarrow> int \<Rightarrow> 'lim option \<Rightarrow> 'lim \<times> bool" where
  "asked rp perMinute now lo =
     allow_one rp (case lo of None \<Rightarrow> new_lim rp perMinute perMinute | Some l \<Rightarrow> l) now"

text \<open>Buckets as the limiter makes them, none seen after \<open>t\<close>.\<close>

definition bucket_ok :: "'lim rate_pkg \<Rightarrow> int \<Rightarrow> 'lim bucket option \<Rightarrow> bool" where
  "bucket_ok rp t bo =
     (case bo of
        None \<Rightarrow> True
      | Some b \<Rightarrow> 0 < bk_perM b \<and> used rp (bk_perM b) (bk_lim b) (bk_seen b) \<and> bk_seen b \<le> t)"

lemma maybeSweep_bucket:
  "l_buckets (maybeSweep now l) k = l_buckets l k \<or>
   (\<exists>b. l_buckets l k = Some b \<and> idle now b \<and> l_buckets (maybeSweep now l) k = None)"
  by (cases "l_buckets l k") (auto simp: maybeSweep_def)

lemma live_sweep [simp]:
  "now \<le> u \<Longrightarrow> live n u (l_buckets (maybeSweep now l) k) = live n u (l_buckets l k)"
  using maybeSweep_bucket [of now l k] by (auto simp: live_def idle_def)

lemma ok_sweep: "bucket_ok rp t (l_buckets l k) \<Longrightarrow> bucket_ok rp t (l_buckets (maybeSweep now l) k)"
  using maybeSweep_bucket [of now l k] by (auto simp: bucket_ok_def)

lemma ok_later: "bucket_ok rp t bo \<Longrightarrow> t \<le> u \<Longrightarrow> bucket_ok rp u bo"
  by (auto simp: bucket_ok_def split: option.splits)

text \<open>A request in the allowance answers by what is live of its bucket, and leaves that bucket
  asked; an unlimited request leaves the limiter alone.\<close>

definition next_bucket :: "'lim rate_pkg \<Rightarrow> int \<Rightarrow> int \<Rightarrow> 'lim limiter \<Rightarrow> string \<Rightarrow> 'lim bucket" where
  "next_bucket rp n now l key =
     \<lparr>bk_lim = fst (asked rp n now (live n now (l_buckets l key))), bk_seen = now, bk_perM = n\<rparr>"

lemma allow_met:
  assumes "refills rp" "0 < n" "bucket_ok rp t bo"
  shows "allow_one rp (bk_lim (case bo of None \<Rightarrow> fresh_bucket rp n now
       | Some b \<Rightarrow> if bk_perM b \<noteq> n then fresh_bucket rp n now else b)) now =
    asked rp n now (live n now bo)"
  using assms
  by (auto simp: asked_def live_def fresh_bucket_def Let_def refills_def bucket_ok_def idle_def
      split: option.splits)

lemma AllowKey_eq:
  assumes "refills rp" "bucket_ok rp t (l_buckets l key)"
  shows "AllowKey rp key n now (Some l) =
    (if n \<le> 0 then (Some l, True)
     else (Some ((maybeSweep now l)\<lparr>l_buckets :=
             (l_buckets (maybeSweep now l))(key \<mapsto> next_bucket rp n now l key)\<rparr>),
           snd (asked rp n now (live n now (l_buckets l key)))))"
proof (cases "n \<le> 0")
  case True
  then show ?thesis by (simp add: AllowKey_def)
next
  case False
  let ?bo = "l_buckets (maybeSweep now l) key"
  let ?b = "case ?bo of None \<Rightarrow> fresh_bucket rp n now
       | Some b \<Rightarrow> if bk_perM b \<noteq> n then fresh_bucket rp n now else b"
  have met: "allow_one rp (bk_lim ?b) now = asked rp n now (live n now (l_buckets l key))"
    using allow_met [OF assms(1) _ ok_sweep [OF assms(2)], of n now now] False by simp
  have "?b\<lparr>bk_lim := x, bk_seen := now\<rparr> = \<lparr>bk_lim = x, bk_seen = now, bk_perM = n\<rparr>" for x
    by (auto simp: fresh_bucket_def Let_def split: option.split)
  with False met show ?thesis
    by (simp add: AllowKey_def Let_def next_bucket_def split: prod.split)
qed

lemma next_bucket_ok:
  assumes "0 < n" "bucket_ok rp t (l_buckets l key)" "t \<le> now"
  shows "bucket_ok rp now (Some (next_bucket rp n now l key))"
  using assms
  by (auto simp: bucket_ok_def next_bucket_def asked_def live_def intro: used.intros split: option.splits)

text \<open>The two limiters, one that serves everyone and one that serves the key alone, agree on what
  is live of the key's bucket from \<open>t\<close> on.\<close>

definition agree :: "'lim rate_pkg \<Rightarrow> string \<Rightarrow> int \<Rightarrow> 'lim limiter \<Rightarrow> 'lim limiter \<Rightarrow> bool" where
  "agree rp k t l m \<longleftrightarrow>
     (\<forall>j. bucket_ok rp t (l_buckets l j)) \<and> bucket_ok rp t (l_buckets m k) \<and>
     (\<forall>n u. t \<le> u \<longrightarrow> live n u (l_buckets l k) = live n u (l_buckets m k))"

definition after :: "'lim rate_pkg \<Rightarrow> call \<Rightarrow> 'lim limiter \<Rightarrow> 'lim limiter" where
  "after rp c l = (case c of (key, n, now) \<Rightarrow>
     if n \<le> 0 then l
     else (maybeSweep now l)\<lparr>l_buckets :=
             (l_buckets (maybeSweep now l))(key \<mapsto> next_bucket rp n now l key)\<rparr>)"

lemma after_buckets_ok:
  assumes "bucket_ok rp t (l_buckets l j)" "bucket_ok rp t (l_buckets l key)" "t \<le> now"
  shows "bucket_ok rp now (l_buckets (after rp (key, n, now) l) j)"
  using next_bucket_ok [of n rp t l key now] ok_later [OF assms(1,3)]
    ok_later [OF ok_sweep [OF assms(1)] assms(3), of now] assms(2,3)
  by (auto simp: after_def)

lemma agree_other:
  assumes "agree rp k t l m" "key \<noteq> k" "t \<le> now"
  shows "agree rp k now (after rp (key, n, now) l) m"
  unfolding agree_def
proof (intro conjI allI impI)
  show "bucket_ok rp now (l_buckets (after rp (key, n, now) l) j)" for j
    using assms after_buckets_ok unfolding agree_def by blast
  show "bucket_ok rp now (l_buckets m k)"
    using assms ok_later unfolding agree_def by blast
  show "live i u (l_buckets (after rp (key, n, now) l) k) = live i u (l_buckets m k)"
    if "now \<le> u" for i u
    using assms that by (simp add: after_def agree_def)
qed

lemma agree_same:
  assumes "agree rp k t l m" "t \<le> now"
  shows "agree rp k now (after rp (k, n, now) l) (after rp (k, n, now) m)"
  unfolding agree_def
proof (intro conjI allI impI)
  show "bucket_ok rp now (l_buckets (after rp (k, n, now) l) j)" for j
    using assms after_buckets_ok unfolding agree_def by blast
  show "bucket_ok rp now (l_buckets (after rp (k, n, now) m) k)"
    using assms after_buckets_ok unfolding agree_def by blast
  show "live i u (l_buckets (after rp (k, n, now) l) k) = live i u (l_buckets (after rp (k, n, now) m) k)"
    if "now \<le> u" for i u
    using assms that by (simp add: after_def agree_def next_bucket_def)
qed

lemma answers_Cons:
  assumes "refills rp" "bucket_ok rp t (l_buckets l key)"
  shows "answers rp (Some l) ((key, n, now) # cs) =
    (key, n \<le> 0 \<or> snd (asked rp n now (live n now (l_buckets l key)))) #
      answers rp (Some (after rp (key, n, now) l)) cs"
  using AllowKey_eq [OF assms, of n now] by (simp add: after_def)

declare answers.simps(2) [simp del]

lemma isolated_from:
  assumes "refills rp" "agree rp k t l m" "sorted (t # map (snd \<circ> snd) cs)"
  shows "filter (\<lambda>a. fst a = k) (answers rp (Some l) cs) =
    answers rp (Some m) (filter (\<lambda>c. fst c = k) cs)"
  using assms(2,3)
proof (induction cs arbitrary: t l m)
  case (Cons c cs)
  obtain key n now where c: "c = (key, n, now)" by (cases c) auto
  from Cons.prems(2) have t: "t \<le> now" and cs: "sorted (now # map (snd \<circ> snd) cs)"
    by (auto simp: c comp_def)
  have ok: "bucket_ok rp t (l_buckets l key)" "bucket_ok rp t (l_buckets m k)"
    and live: "live n now (l_buckets l k) = live n now (l_buckets m k)"
    using Cons.prems(1) t by (auto simp: agree_def)
  show ?case
  proof (cases "key = k")
    case True
    with Cons.IH [OF agree_same [OF Cons.prems(1) t, of n] cs] ok live show ?thesis
      by (simp add: c answers_Cons [OF assms(1) ok(1) [unfolded True]] answers_Cons [OF assms(1) ok(2)])
  next
    case False
    with Cons.IH [OF agree_other [OF Cons.prems(1) False t, of n] cs] show ?thesis
      by (simp add: c answers_Cons [OF assms(1) ok(1)])
  qed
qed simp

text \<open>After a metered request at \<open>now\<close>, no bucket is kept that was last seen before the idle
  time and one sweep interval.\<close>

definition swept :: "int \<Rightarrow> 'lim limiter \<Rightarrow> bool" where
  "swept t l \<longleftrightarrow> l_lastSweep l \<le> t \<and>
     (\<forall>k b. l_buckets l k = Some b \<longrightarrow> l_lastSweep l - bk_seen b \<le> idleTTL)"

lemma AllowKey_Some: "\<exists>l1 ok. AllowKey rp key n now (Some l) = (Some l1, ok)"
  by (auto simp: AllowKey_def Let_def split_def)

lemma swept_step:
  assumes "swept t l" "t \<le> now" "AllowKey rp key n now (Some l) = (Some l1, ok)"
  shows "swept now l1 \<and>
    (0 < n \<longrightarrow> (\<forall>k b. l_buckets l1 k = Some b \<longrightarrow> now - bk_seen b < idleTTL + sweepEvery))"
proof (cases "n \<le> 0")
  case True
  with assms show ?thesis by (auto simp: swept_def AllowKey_def)
next
  case False
  have sw: "swept now (maybeSweep now l) \<and>
      (\<forall>k b. l_buckets (maybeSweep now l) k = Some b \<longrightarrow> now - bk_seen b < idleTTL + sweepEvery)"
  proof (cases "now - l_lastSweep l < sweepEvery")
    case True
    have "now - bk_seen b < idleTTL + sweepEvery" if "l_buckets l k = Some b" for k b
    proof -
      from assms(1) that have "l_lastSweep l - bk_seen b \<le> idleTTL" by (simp add: swept_def)
      with True show ?thesis by linarith
    qed
    with True assms(1,2) show ?thesis by (simp add: swept_def maybeSweep_def)
  next
    case False
    then show ?thesis
      by (auto simp: swept_def maybeSweep_def idle_def idleTTL_def sweepEvery_def
        split: option.splits if_splits)
  qed
  obtain b where l1: "l1 = (maybeSweep now l)\<lparr>l_buckets := (l_buckets (maybeSweep now l))(key \<mapsto> b)\<rparr>"
    "bk_seen b = now"
    using False assms(3) by (auto simp: AllowKey_def Let_def split: prod.splits)
  have "l_lastSweep (maybeSweep now l) \<le> now" using sw by (simp add: swept_def)
  with sw l1 show ?thesis by (auto simp: swept_def idleTTL_def sweepEvery_def)
qed

section \<open>Properties\<close>

text \<open>C37: Tenants are isolated: under a clock that does not go back, the answers a tenant gets
  among everyone's requests are the answers it would get alone, whoever else calls, however
  often, and whatever the sweeps drop.\<close>

theorem tenants_are_isolated:
  assumes "refills rp" "sorted (start # map (snd \<circ> snd) cs)"
  shows "filter (\<lambda>a. fst a = k) (answers rp (Some (new_limiter start)) cs) =
    answers rp (Some (new_limiter start)) (filter (\<lambda>c. fst c = k) cs)"
  by (rule isolated_from [OF assms(1) _ assms(2)]) (simp add: agree_def new_limiter_def bucket_ok_def)

text \<open>A concrete bucket in the documented manner: \<open>n\<close> tokens a minute, counted in sixtieths.\<close>

definition token_pkg :: "(int \<times> int \<times> int option) rate_pkg" where
  "token_pkg =
     \<lparr>new_lim = (\<lambda>n burst. (n, 60 * burst, None)),
      allow_one = (\<lambda>(n, tokens, last) now.
        let full = 60 * n;
            have_now = (case last of None \<Rightarrow> full | Some t \<Rightarrow> min full (tokens + n * (now - t)))
        in if 60 \<le> have_now then ((n, have_now - 60, Some now), True)
           else ((n, have_now, Some now), False))\<rparr>"

lemma token_used: "used token_pkg n l t \<Longrightarrow> 0 < n \<Longrightarrow> \<exists>x \<ge> 0. l = (n, x, Some t)"
  by (induction rule: used.induct)
    (auto simp: token_pkg_def Let_def split: if_splits)

lemma token_refills: "refills token_pkg"
  unfolding refills_def
proof (intro allI impI)
  fix n :: int and l t t'
  assume n: "0 < n" and l: "used token_pkg n l t" and i: "idleTTL < t' - t"
  from token_used [OF l n] obtain x where x: "0 \<le> x" "l = (n, x, Some t)" by auto
  have "60 * n \<le> (t' - t) * n" using n i by (intro mult_right_mono) (auto simp: idleTTL_def)
  with x have m: "min (60 * n) (x + n * (t' - t)) = 60 * n" by (simp add: algebra_simps)
  show "allow_one token_pkg l t' = allow_one token_pkg (new_lim token_pkg n n) t'"
    using m n min.cobounded2 [of "60 * n" "x + n * (t' - t)"]
    unfolding token_pkg_def x by (simp add: Let_def)
qed

definition sample_requests :: "call list" where
  "sample_requests = [(''a'', 1, 5), (''b'', 9, 6), (''a'', 1, 7), (''b'', 9, 1000), (''a'', 1, 1001)]"

theorem tenants_are_isolated_witness:
  "filter (\<lambda>a. fst a = ''a'') (answers token_pkg (Some (new_limiter 0)) sample_requests) =
    [(''a'', True), (''a'', False), (''a'', True)]"
proof -
  have "sorted (0 # map (snd \<circ> snd) sample_requests)" by (simp add: sample_requests_def)
  from tenants_are_isolated [OF token_refills this, of "''a''"]
  show ?thesis by (simp add: sample_requests_def answers.simps AllowKey_def new_limiter_def
      maybeSweep_def sweepEvery_def fresh_bucket_def token_pkg_def idle_def idleTTL_def)
qed

text \<open>Memory is bounded by recent use: after a metered request at \<open>now\<close>, every bucket kept
  belongs to a tenant seen less than the idle time plus one sweep interval ago.\<close>

theorem buckets_are_recent:
  assumes "sorted (start # map (snd \<circ> snd) cs @ [now])" "0 < n"
    and "fst (AllowKey rp key n now
          (foldl (\<lambda>lo (k, m, t). fst (AllowKey rp k m t lo)) (Some (new_limiter start)) cs)) = Some l"
  shows "\<forall>k b. l_buckets l k = Some b \<longrightarrow> now - bk_seen b < idleTTL + sweepEvery"
proof -
  have run: "\<exists>l1. foldl (\<lambda>lo (k, m, t). fst (AllowKey rp k m t lo)) (Some l) cs = Some l1 \<and> swept u l1"
    if "swept t l" "sorted (t # map (snd \<circ> snd) cs @ [u])" for t u l cs
    using that
  proof (induction cs arbitrary: t l)
    case Nil
    then show ?case by (auto simp: swept_def)
  next
    case (Cons c cs)
    obtain key m s where c: "c = (key, m, s)" by (cases c) auto
    obtain l1 ok where l1: "AllowKey rp key m s (Some l) = (Some l1, ok)"
      using AllowKey_Some by blast
    have "swept s l1" using swept_step [OF Cons.prems(1) _ l1] Cons.prems(2) by (simp add: c)
    from Cons.IH [OF this] Cons.prems(2) l1 show ?case by (simp add: c)
  qed
  have "swept start (new_limiter start :: 'a limiter)" by (simp add: swept_def new_limiter_def)
  from run [OF this, of cs now] assms(1) obtain l1 where
    l1: "foldl (\<lambda>lo (k, m, t). fst (AllowKey rp k m t lo)) (Some (new_limiter start)) cs = Some l1"
    "swept now l1" by auto
  obtain l2 ok where "AllowKey rp key n now (Some l1) = (Some l2, ok)"
    using AllowKey_Some by blast
  with swept_step [OF l1(2) order_refl this] assms(2,3) l1(1) show ?thesis by simp
qed

definition sample_limiter :: "(int \<times> int \<times> int option) limiter option" where
  "sample_limiter = fst (AllowKey token_pkg ''b'' 9 1000
     (foldl (\<lambda>lo (k, m, t). fst (AllowKey token_pkg k m t lo)) (Some (new_limiter 0)) [(''a'', 1, 5)]))"

theorem buckets_are_recent_witness:
  "\<exists>l. sample_limiter = Some l \<and>
     (\<forall>k b. l_buckets l k = Some b \<longrightarrow> 1000 - bk_seen b < idleTTL + sweepEvery)"
proof -
  have "case sample_limiter of None \<Rightarrow> False | Some l \<Rightarrow> True" by code_simp
  then obtain l where l: "sample_limiter = Some l" by (cases sample_limiter) auto
  from buckets_are_recent [OF _ _ l [unfolded sample_limiter_def]] l show ?thesis by auto
qed

end
