(* ===== verification/Jobs.thy ===== *)
theory Jobs
  imports Prelude
begin

text \<open>
  internal/jobs/jobs.go: the bounded worker pool. Every method and every lock section of a worker
  is one atomic step; goroutines, the queue and clients interleave as the steps of \<open>pool_step\<close>.
  What a job's function does is the outcome that the environment chooses; \<open>newID\<close> and the clock
  are arguments.
\<close>

section \<open>State\<close>

datatype status = Queued | Running | Done | Failed

datatype 'r outcome = Returned 'r | Erred string | Panicked string

record 'r job =
  j_id :: string
  j_tenant :: string
  j_kind :: string
  j_status :: status
  j_error :: string
  j_result :: "'r option"
  j_created :: int
  j_started :: "int option"
  j_finished :: "int option"

text \<open>A worker waits, has received a task, runs it, or has left its loop.\<close>

datatype worker = Waiting | Received string | Working string | Exited

record 'r pool =
  p_jobs :: "string \<rightharpoonup> 'r job"
  p_order :: "string list"
  p_ch :: "string list"
  p_cap :: nat
  p_retain :: nat
  p_closed :: bool
  p_workers :: "worker list"

datatype enqueue_error = ErrBusy | ErrShuttingDown

definition NewPool :: "int \<Rightarrow> int \<Rightarrow> int \<Rightarrow> 'r pool" where
  "NewPool workers queueSize retain =
     \<lparr>p_jobs = Map.empty, p_order = [], p_ch = [],
      p_cap = (if queueSize < 1 then 1 else nat queueSize),
      p_retain = (if retain < 1 then 1000 else nat retain),
      p_closed = False,
      p_workers = replicate (if workers < 1 then 1 else nat workers) Waiting\<rparr>"

section \<open>Operations\<close>

definition in_flight :: "'r job option \<Rightarrow> bool" where
  "in_flight jo = (case jo of None \<Rightarrow> False | Some j \<Rightarrow> j_status j = Queued \<or> j_status j = Running)"

fun prune_loop ::
  "nat \<Rightarrow> (string \<rightharpoonup> 'r job) \<Rightarrow> string list \<Rightarrow> (string \<rightharpoonup> 'r job) \<times> string list" where
  "prune_loop retain jobs [] = (jobs, [])"
| "prune_loop retain jobs (oldest # rest) =
     (if retain < length (oldest # rest) then
        (if in_flight (jobs oldest) then (jobs, oldest # rest)
         else prune_loop retain (jobs(oldest := None)) rest)
      else (jobs, oldest # rest))"

definition prune :: "'r pool \<Rightarrow> 'r pool" where
  "prune p = (let (js, ord) = prune_loop (p_retain p) (p_jobs p) (p_order p)
              in p\<lparr>p_jobs := js, p_order := ord\<rparr>)"

definition new_job :: "string \<Rightarrow> string \<Rightarrow> string \<Rightarrow> int \<Rightarrow> 'r job" where
  "new_job i kind tenantID now =
     \<lparr>j_id = i, j_tenant = tenantID, j_kind = kind, j_status = Queued, j_error = [],
      j_result = None, j_created = now, j_started = None, j_finished = None\<rparr>"

lemma new_job_simps [simp]:
  "j_id (new_job i kind tenantID now) = i" "j_status (new_job i kind tenantID now) = Queued"
  by (simp_all add: new_job_def)

text \<open>\<open>select\<close> with a default: the send succeeds exactly when the buffer has room.\<close>

definition Enqueue ::
  "string \<Rightarrow> string \<Rightarrow> string \<Rightarrow> int \<Rightarrow> 'r pool \<Rightarrow> 'r pool \<times> (enqueue_error + 'r job)" where
  "Enqueue kind tenantID i now p =
     (if p_closed p then (p, Inl ErrShuttingDown)
      else let j = new_job i kind tenantID now in
        if length (p_ch p) < p_cap p then
          (prune (p\<lparr>p_ch := p_ch p @ [i], p_jobs := (p_jobs p)(i \<mapsto> j), p_order := p_order p @ [i]\<rparr>),
           Inr j)
        else (p, Inl ErrBusy))"

definition update :: "string \<Rightarrow> ('r job \<Rightarrow> 'r job) \<Rightarrow> 'r pool \<Rightarrow> 'r pool" where
  "update i f p =
     (case p_jobs p i of None \<Rightarrow> p | Some j \<Rightarrow> p\<lparr>p_jobs := (p_jobs p)(i \<mapsto> f j)\<rparr>)"

text \<open>\<open>run\<close> turns a panic into an error.\<close>

definition run_result :: "'r outcome \<Rightarrow> string + 'r" where
  "run_result oc =
     (case oc of
        Returned r \<Rightarrow> Inr r | Erred e \<Rightarrow> Inl e | Panicked v \<Rightarrow> Inl (''job panicked: '' @ v))"

definition start_job :: "int \<Rightarrow> 'r job \<Rightarrow> 'r job" where
  "start_job now j = j\<lparr>j_status := Running, j_started := Some now\<rparr>"

definition finish_job :: "int \<Rightarrow> string + 'r \<Rightarrow> 'r job \<Rightarrow> 'r job" where
  "finish_job now res j =
     (case res of
        Inl e \<Rightarrow> j\<lparr>j_finished := Some now, j_status := Failed, j_error := e\<rparr>
      | Inr r \<Rightarrow> j\<lparr>j_finished := Some now, j_status := Done, j_result := Some r\<rparr>)"

definition Inflight :: "'r pool \<Rightarrow> nat" where
  "Inflight p = length (filter (\<lambda>i. in_flight (p_jobs p i)) (p_order p))"

definition Get :: "string \<Rightarrow> 'r pool \<Rightarrow> 'r job option" where
  "Get i p = p_jobs p i"

definition List_jobs :: "string \<Rightarrow> 'r pool \<Rightarrow> 'r job list" where
  "List_jobs tenantID p =
     sort_by (\<lambda>a b. j_created b < j_created a)
       (filter (\<lambda>j. j_tenant j = tenantID) (somes (map (p_jobs p) (p_order p))))"

definition close_pool :: "'r pool \<Rightarrow> 'r pool" where
  "close_pool p = p\<lparr>p_closed := True\<rparr>"

definition set_worker :: "nat \<Rightarrow> worker \<Rightarrow> 'r pool \<Rightarrow> 'r pool" where
  "set_worker w st p = p\<lparr>p_workers := (p_workers p)[w := st]\<rparr>"

text \<open>
  The steps: a client enqueues under a new id, or shuts the pool down; a waiting worker receives
  the head of the queue, marks the job running, and marks it finished with some outcome; a worker
  leaves when the closed queue is empty. The first component is the set of ids minted so far.
\<close>

type_synonym 'r pstate = "string set \<times> 'r pool"

inductive worker_step :: "'r pool \<Rightarrow> 'r pool \<Rightarrow> bool" where
  receive: "w < length (p_workers p) \<Longrightarrow> p_workers p ! w = Waiting \<Longrightarrow> p_ch p = i # q \<Longrightarrow>
    worker_step p (set_worker w (Received i) (p\<lparr>p_ch := q\<rparr>))"
| start: "w < length (p_workers p) \<Longrightarrow> p_workers p ! w = Received i \<Longrightarrow>
    worker_step p (set_worker w (Working i) (update i (start_job now) p))"
| finish: "w < length (p_workers p) \<Longrightarrow> p_workers p ! w = Working i \<Longrightarrow>
    worker_step p (set_worker w Waiting (update i (finish_job now (run_result oc)) p))"
| leave: "w < length (p_workers p) \<Longrightarrow> p_workers p ! w = Waiting \<Longrightarrow> p_closed p \<Longrightarrow> p_ch p = [] \<Longrightarrow>
    worker_step p (set_worker w Exited p)"

inductive pool_step :: "'r pstate \<Rightarrow> 'r pstate \<Rightarrow> bool" where
  enqueue: "i \<notin> used \<Longrightarrow> pool_step (used, p) (insert i used, fst (Enqueue kind tenantID i now p))"
| shutdown: "pool_step (used, p) (used, close_pool p)"
| work: "worker_step p p' \<Longrightarrow> pool_step (used, p) (used, p')"

inductive reachable :: "int \<Rightarrow> int \<Rightarrow> int \<Rightarrow> 'r pstate \<Rightarrow> bool" for workers queueSize retain where
  init: "reachable workers queueSize retain ({}, NewPool workers queueSize retain)"
| step: "reachable workers queueSize retain s \<Longrightarrow> pool_step s s' \<Longrightarrow>
    reachable workers queueSize retain s'"

inductive_cases worker_stepE: "worker_step p p'"
inductive_cases pool_stepE: "pool_step s s'"

inductive_simps pool_step_iff: "pool_step (used, p) (used', p')"

text \<open>An id is never given out twice: a step only adds to the ids in use, and an enqueue takes a fresh one.\<close>

lemma used_ids_grow: "pool_step (used, p) (used', p') \<Longrightarrow> used' = used \<or> (\<exists>i. i \<notin> used \<and> used' = insert i used)"
  by (auto simp: pool_step_iff)

section \<open>Where a job is\<close>

fun received_of :: "worker \<Rightarrow> string list" where
  "received_of (Received i) = [i]"
| "received_of w = []"

fun working_of :: "worker \<Rightarrow> string list" where
  "working_of (Working i) = [i]"
| "working_of w = []"

definition waiting_ids :: "'r pool \<Rightarrow> string multiset" where
  "waiting_ids p = mset (p_ch p) + mset (concat (map received_of (p_workers p)))"

definition running_ids :: "'r pool \<Rightarrow> string multiset" where
  "running_ids p = mset (concat (map working_of (p_workers p)))"

lemma tasks_update:
  "w < length ws \<Longrightarrow>
    mset (concat (map f (ws[w := x]))) + mset (f (ws ! w)) = mset (concat (map f ws)) + mset (f x)"
  by (induction ws arbitrary: w) (auto split: nat.split)

lemma tasks_le: "w < length ws \<Longrightarrow> mset (f (ws ! w)) \<subseteq># mset (concat (map f ws))"
  by (induction ws arbitrary: w) (auto split: nat.split simp: nth_Cons intro: subset_mset.add_increasing)

lemma set_worker_simps [simp]:
  "p_jobs (set_worker w x p) = p_jobs p" "p_order (set_worker w x p) = p_order p"
  "p_ch (set_worker w x p) = p_ch p" "p_cap (set_worker w x p) = p_cap p"
  "p_retain (set_worker w x p) = p_retain p" "p_closed (set_worker w x p) = p_closed p"
  "p_workers (set_worker w x p) = (p_workers p)[w := x]"
  by (simp_all add: set_worker_def)

lemma update_simps [simp]:
  "p_order (update i f p) = p_order p" "p_ch (update i f p) = p_ch p" "p_cap (update i f p) = p_cap p"
  "p_retain (update i f p) = p_retain p" "p_closed (update i f p) = p_closed p"
  "p_workers (update i f p) = p_workers p"
  "p_jobs (update i f p) k = (if k = i then map_option f (p_jobs p i) else p_jobs p k)"
  by (auto simp: update_def split: option.split)

text \<open>What pruning removes: the oldest entries, none of them in flight.\<close>

lemma prune_loop_spec:
  assumes "prune_loop retain jobs ord = (js, ord')" "distinct ord"
  shows "(\<exists>gone. ord = gone @ ord' \<and> js = jobs |` (- set gone) \<and>
      list_all (\<lambda>i. \<not> in_flight (jobs i)) gone) \<and>
    (length ord' \<le> retain \<or> in_flight (js (hd ord')))"
  using assms
proof (induction retain jobs ord rule: prune_loop.induct)
  case (2 retain jobs oldest rest)
  show ?case
  proof (cases "retain < length (oldest # rest) \<and> \<not> in_flight (jobs oldest)")
    case True
    then have big: "retain < length (oldest # rest)" and out: "\<not> in_flight (jobs oldest)" by simp_all
    with "2.prems"(1) have rec: "prune_loop retain (jobs(oldest := None)) rest = (js, ord')" by simp
    have "distinct rest" "oldest \<notin> set rest" using "2.prems"(2) by simp_all
    from "2.IH" [OF big out rec this(1)] obtain gone where gone: "rest = gone @ ord'" "js = jobs(oldest := None) |` (- set gone)"
      "list_all (\<lambda>i. \<not> in_flight ((jobs(oldest := None)) i)) gone"
      "length ord' \<le> retain \<or> in_flight (js (hd ord'))"
      by blast
    have "oldest \<notin> set gone" using \<open>oldest \<notin> set rest\<close> gone(1) by simp
    then have "js = jobs |` (- set (oldest # gone))"
      by (auto simp: gone(2) restrict_map_def fun_eq_iff)
    moreover have "list_all (\<lambda>i. \<not> in_flight (jobs i)) gone"
      using gone(3) \<open>oldest \<notin> set gone\<close> unfolding list_all_iff by (metis fun_upd_other)
    ultimately show ?thesis
      using gone(1,4) True by (intro conjI exI [of _ "oldest # gone"]) simp_all
  next
    case False
    with "2.prems"(1) show ?thesis
      by (intro conjI exI [of _ "[]"]) (auto split: if_splits)
  qed
qed auto

section \<open>The invariant\<close>

definition status_ok :: "'r pool \<Rightarrow> string \<Rightarrow> 'r job \<Rightarrow> bool" where
  "status_ok p i j \<longleftrightarrow>
     j_id j = i \<and> (j_status j = Queued \<longleftrightarrow> i \<in># waiting_ids p) \<and>
     (j_status j = Running \<longleftrightarrow> i \<in># running_ids p)"

definition pool_inv :: "'r pstate \<Rightarrow> bool" where
  "pool_inv s \<longleftrightarrow>
     (let (used, p) = s in
      (\<forall>i. count (waiting_ids p + running_ids p) i \<le> 1) \<and>
      distinct (p_order p) \<and> set (p_order p) = dom (p_jobs p) \<and> dom (p_jobs p) \<subseteq> used \<and>
      set_mset (waiting_ids p + running_ids p) \<subseteq> dom (p_jobs p) \<and>
      (\<forall>i j. p_jobs p i = Some j \<longrightarrow> status_ok p i j) \<and> length (p_ch p) \<le> p_cap p)"

text \<open>The moves of the two multisets with each step of a worker.\<close>

lemma receive_ids:
  assumes "w < length (p_workers p)" "p_workers p ! w = Waiting" "p_ch p = i # q"
  shows "waiting_ids (set_worker w (Received i) (p\<lparr>p_ch := q\<rparr>)) = waiting_ids p"
    and "running_ids (set_worker w (Received i) (p\<lparr>p_ch := q\<rparr>)) = running_ids p"
  using tasks_update [OF assms(1), of received_of "Received i"]
    tasks_update [OF assms(1), of working_of "Received i"] assms(2,3)
  by (simp_all add: waiting_ids_def running_ids_def)

lemma start_ids:
  assumes "w < length (p_workers p)" "p_workers p ! w = Received i"
  shows "add_mset i (waiting_ids (set_worker w (Working i) (update i f p))) = waiting_ids p"
    and "running_ids (set_worker w (Working i) (update i f p)) = add_mset i (running_ids p)"
  using tasks_update [OF assms(1), of received_of "Working i"]
    tasks_update [OF assms(1), of working_of "Working i"] assms(2)
  by (simp_all add: waiting_ids_def running_ids_def)

lemma finish_ids:
  assumes "w < length (p_workers p)" "p_workers p ! w = Working i"
  shows "waiting_ids (set_worker w Waiting (update i f p)) = waiting_ids p"
    and "add_mset i (running_ids (set_worker w Waiting (update i f p))) = running_ids p"
  using tasks_update [OF assms(1), of received_of Waiting]
    tasks_update [OF assms(1), of working_of Waiting] assms(2)
  by (simp_all add: waiting_ids_def running_ids_def)

lemma leave_ids:
  assumes "w < length (p_workers p)" "p_workers p ! w = Waiting"
  shows "waiting_ids (set_worker w Exited p) = waiting_ids p"
    and "running_ids (set_worker w Exited p) = running_ids p"
  using tasks_update [OF assms(1), of received_of Exited]
    tasks_update [OF assms(1), of working_of Exited] assms(2)
  by (simp_all add: waiting_ids_def running_ids_def)

text \<open>A change of one job's status goes with the move of its id.\<close>

lemma inv_move:
  assumes "pool_inv (used, p)" "p_jobs p i = Some j" "p_jobs p' = (p_jobs p)(i \<mapsto> j')"
    and "p_order p' = p_order p" "length (p_ch p') \<le> p_cap p'" "status_ok p' i j'"
    and "waiting_ids p' \<subseteq># waiting_ids p"
    and "\<And>k. k \<noteq> i \<Longrightarrow> count (waiting_ids p') k = count (waiting_ids p) k"
    and "\<And>k. k \<noteq> i \<Longrightarrow> count (running_ids p') k = count (running_ids p) k"
    and "count (waiting_ids p' + running_ids p') i \<le> 1"
  shows "pool_inv (used, p')"
proof -
  have k: "status_ok p' k jk" if "p_jobs p k = Some jk" "k \<noteq> i" for k jk
    using assms(1,8,9) that
    by (auto simp: pool_inv_def status_ok_def not_in_iff simp flip: count_greater_zero_iff)
  have c: "count (waiting_ids p' + running_ids p') k \<le> 1" for k
    using assms(1,8,9,10) by (cases "k = i") (auto simp: pool_inv_def)
  have d: "set_mset (waiting_ids p' + running_ids p') \<subseteq> dom (p_jobs p')"
  proof
    fix k
    assume a: "k \<in># waiting_ids p' + running_ids p'"
    show "k \<in> dom (p_jobs p')"
    proof (cases "k = i")
      case False
      with a assms(8,9) have "k \<in># waiting_ids p + running_ids p"
        by (simp flip: count_greater_zero_iff)
      with assms(1) have "k \<in> dom (p_jobs p)" by (auto simp: pool_inv_def)
      with False show ?thesis by (simp add: assms(3) domIff)
    qed (simp add: assms(3))
  qed
  have o: "distinct (p_order p')" "set (p_order p') = dom (p_jobs p')" "dom (p_jobs p') \<subseteq> used"
    using assms(1,2,3,4) by (auto simp: pool_inv_def)
  have s: "status_ok p' k jk" if "p_jobs p' k = Some jk" for k jk
    using that k assms(3,6) by (cases "k = i") auto
  show ?thesis using c d o s assms(5) by (simp add: pool_inv_def)
qed

lemma inv_same:
  assumes "pool_inv (used, p)" "p_jobs p' = p_jobs p" "p_order p' = p_order p"
    and "waiting_ids p' = waiting_ids p" "running_ids p' = running_ids p" "length (p_ch p') \<le> p_cap p'"
  shows "pool_inv (used, p')"
  using assms by (simp add: pool_inv_def status_ok_def)

lemma inv_has_job:
  assumes "pool_inv (used, p)" "i \<in># waiting_ids p + running_ids p"
  obtains j where "p_jobs p i = Some j" "j_id j = i"
proof -
  from assms have "i \<in> dom (p_jobs p)" unfolding pool_inv_def Let_def prod.case by blast
  then obtain j where "p_jobs p i = Some j" by blast
  with assms(1) that show ?thesis by (auto simp: pool_inv_def status_ok_def)
qed

lemma inv_once:
  assumes "pool_inv (used, p)"
  shows "count (waiting_ids p) i + count (running_ids p) i \<le> 1"
  using assms by (auto simp: pool_inv_def)

lemma inv_worker:
  assumes "worker_step p p'" "pool_inv (used, p)"
  shows "pool_inv (used, p')"
  using assms(1)
proof cases
  case (receive w i q)
  with assms(2) show ?thesis
    by (intro inv_same [OF assms(2)]) (simp_all add: receive_ids pool_inv_def)
next
  case (start w i now)
  note ids = start_ids [OF start(2,3), of "start_job now"]
  have m: "i \<in># waiting_ids p" by (simp flip: ids(1))
  then obtain j where j: "p_jobs p i = Some j" "j_id j = i"
    using inv_has_job [OF assms(2)] by auto
  have once: "count (waiting_ids p') i = 0" "count (running_ids p) i = 0"
    using inv_once [OF assms(2), of i] unfolding start(1) by (simp_all flip: ids(1))
  show ?thesis
  proof (rule inv_move [OF assms(2) j(1), of p' "start_job now j"])
    show "status_ok p' i (start_job now j)"
      using once(1) j(2) by (simp add: status_ok_def start_job_def start(1) ids(2) not_in_iff)
    show "waiting_ids p' \<subseteq># waiting_ids p" by (simp add: start(1) flip: ids(1))
    show "count (waiting_ids p' + running_ids p') i \<le> 1" using once by (simp add: start(1) ids(2))
    show "count (waiting_ids p') k = count (waiting_ids p) k" if "k \<noteq> i" for k
      using that by (simp add: start(1) flip: ids(1))
    show "count (running_ids p') k = count (running_ids p) k" if "k \<noteq> i" for k
      using that by (simp add: start(1) ids(2))
  qed (use assms(2) j(1) in \<open>auto simp: start(1) pool_inv_def fun_eq_iff\<close>)
next
  case (finish w i now oc)
  let ?f = "finish_job now (run_result oc) :: 'a job \<Rightarrow> 'a job"
  note ids = finish_ids [OF finish(2,3), of ?f]
  have m: "i \<in># running_ids p" by (simp flip: ids(2))
  then obtain j where j: "p_jobs p i = Some j" "j_id j = i"
    using inv_has_job [OF assms(2)] by auto
  have once: "count (running_ids p') i = 0" "count (waiting_ids p) i = 0"
    using inv_once [OF assms(2), of i] unfolding finish(1) by (simp_all flip: ids(2))
  show ?thesis
  proof (rule inv_move [OF assms(2) j(1), of p' "?f j"])
    show "status_ok p' i (?f j)"
      using once j(2) ids(1)
      by (cases "run_result oc") (simp_all add: status_ok_def finish_job_def finish(1) not_in_iff)
    show "waiting_ids p' \<subseteq># waiting_ids p" by (simp add: finish(1) ids(1))
    show "count (waiting_ids p' + running_ids p') i \<le> 1" using once by (simp add: finish(1) ids(1))
    show "count (waiting_ids p') k = count (waiting_ids p) k" if "k \<noteq> i" for k
      by (simp add: finish(1) ids(1))
    show "count (running_ids p') k = count (running_ids p) k" if "k \<noteq> i" for k
      using that by (simp add: finish(1) flip: ids(2))
  qed (use assms(2) j(1) in \<open>auto simp: finish(1) pool_inv_def fun_eq_iff\<close>)
next
  case (leave w)
  with assms(2) show ?thesis
    by (intro inv_same [OF assms(2)]) (simp_all add: leave_ids pool_inv_def)
qed

lemma prune_simps [simp]:
  "p_ch (prune p) = p_ch p" "p_cap (prune p) = p_cap p" "p_retain (prune p) = p_retain p"
  "p_closed (prune p) = p_closed p" "p_workers (prune p) = p_workers p"
  "waiting_ids (prune p) = waiting_ids p" "running_ids (prune p) = running_ids p"
  by (simp_all add: prune_def waiting_ids_def running_ids_def split: prod.split)

lemma prune_spec:
  assumes "distinct (p_order p)"
  shows "(\<exists>gone. p_order p = gone @ p_order (prune p) \<and>
      p_jobs (prune p) = p_jobs p |` (- set gone) \<and>
      list_all (\<lambda>i. \<not> in_flight (p_jobs p i)) gone) \<and>
    (length (p_order (prune p)) \<le> p_retain p \<or>
      in_flight (p_jobs (prune p) (hd (p_order (prune p)))))"
  using prune_loop_spec [OF _ assms, of "p_retain p" "p_jobs p"]
  by (cases "prune_loop (p_retain p) (p_jobs p) (p_order p)") (simp add: prune_def)

lemma inv_in_flight:
  assumes "pool_inv (used, p)" "p_jobs p i = Some j"
  shows "in_flight (Some j) \<longleftrightarrow> i \<in># waiting_ids p + running_ids p"
  using assms by (auto simp: pool_inv_def status_ok_def in_flight_def)

lemma inv_prune:
  assumes "pool_inv (used, p)"
  shows "pool_inv (used, prune p)"
proof -
  have d: "distinct (p_order p)" and o: "set (p_order p) = dom (p_jobs p)" "dom (p_jobs p) \<subseteq> used"
    and held: "set_mset (waiting_ids p + running_ids p) \<subseteq> dom (p_jobs p)"
    using assms by (auto simp: pool_inv_def)
  obtain gone where g: "p_order p = gone @ p_order (prune p)"
    "p_jobs (prune p) = p_jobs p |` (- set gone)" "list_all (\<lambda>i. \<not> in_flight (p_jobs p i)) gone"
    using prune_spec [OF d] by blast
  have "k \<notin> set gone" if k: "k \<in># waiting_ids p + running_ids p" for k
  proof -
    obtain j where "p_jobs p k = Some j" using inv_has_job [OF assms k] by blast
    with inv_in_flight [OF assms this] k g(3) show ?thesis by (auto simp: list_all_iff)
  qed
  with held have "set_mset (waiting_ids p + running_ids p) \<subseteq> dom (p_jobs (prune p))"
    by (auto simp: g(2))
  moreover have "set (p_order (prune p)) = dom (p_jobs (prune p))"
    using d o(1) unfolding g(1) by (auto simp: g(2))
  moreover have "distinct (p_order (prune p))" using d by (subst (asm) g(1)) simp
  moreover have "\<forall>i j. p_jobs (prune p) i = Some j \<longrightarrow> status_ok (prune p) i j"
    using assms by (auto simp: g(2) restrict_map_def pool_inv_def status_ok_def split: if_splits)
  ultimately show ?thesis
    using assms o(2) by (auto simp: pool_inv_def g(2))
qed

lemma inv_enqueue:
  assumes "pool_inv (used, p)" "i \<notin> used"
  shows "pool_inv (insert i used, fst (Enqueue kind tenantID i now p))"
proof -
  define q where "q = p\<lparr>p_ch := p_ch p @ [i],
    p_jobs := (p_jobs p)(i \<mapsto> new_job i kind tenantID now), p_order := p_order p @ [i]\<rparr>"
  have w: "waiting_ids q = add_mset i (waiting_ids p)" and r: "running_ids q = running_ids p"
    and sel: "p_jobs q = (p_jobs p)(i \<mapsto> new_job i kind tenantID now)"
    "p_order q = p_order p @ [i]" "p_ch q = p_ch p @ [i]" "p_cap q = p_cap p"
    by (simp_all add: q_def waiting_ids_def running_ids_def)
  have dom: "i \<notin> dom (p_jobs p)" using assms by (auto simp: pool_inv_def)
  have new: "count (waiting_ids p) i = 0" "count (running_ids p) i = 0"
    using inv_has_job [OF assms(1), of i] dom by (auto simp flip: not_in_iff)
  have st: "status_ok q k j" if "p_jobs q k = Some j" for k j
    using that assms(1) new dom
    by (cases "k = i") (auto simp: pool_inv_def status_ok_def w r sel not_in_iff)
  have q: "pool_inv (insert i used, q)" if "length (p_ch p) < p_cap p"
    using assms(1) that dom new st by (auto simp: pool_inv_def w r sel)
  have same: "pool_inv (insert i used, p)" using assms(1) by (auto simp: pool_inv_def)
  show ?thesis using inv_prune [OF q] same by (simp add: Enqueue_def Let_def q_def)
qed

lemma inv_new: "pool_inv ({}, NewPool workers queueSize retain)"
  by (simp add: pool_inv_def NewPool_def waiting_ids_def running_ids_def)

lemma reachable_inv: "reachable workers queueSize retain s \<Longrightarrow> pool_inv s"
proof (induction rule: reachable.induct)
  case init
  show ?case by (rule inv_new)
next
  case (step s s')
  from step(2,3) show ?case
  proof cases
    case (shutdown used p)
    with step(3) show ?thesis
      by (simp add: pool_inv_def status_ok_def close_pool_def waiting_ids_def running_ids_def)
  qed (auto intro: inv_enqueue inv_worker)
qed

text \<open>Workers leave only a pool that is closed and drained, and there is always a worker.\<close>

definition exit_inv :: "'r pool \<Rightarrow> bool" where
  "exit_inv p \<longleftrightarrow>
     p_workers p \<noteq> [] \<and> (Exited \<in> set (p_workers p) \<longrightarrow> p_closed p \<and> p_ch p = [])"

lemma exit_worker: "worker_step p p' \<Longrightarrow> exit_inv p \<Longrightarrow> exit_inv p'"
proof (induction rule: worker_step.induct)
qed (auto simp: exit_inv_def dest: set_update_subset_insert [THEN subsetD])

lemma reachable_exit: "reachable workers queueSize retain s \<Longrightarrow> exit_inv (snd s)"
proof (induction rule: reachable.induct)
  case init
  show ?case by (simp add: exit_inv_def NewPool_def)
next
  case (step s s')
  from step(2,3) show ?case
    by cases (auto simp: exit_inv_def Enqueue_def Let_def close_pool_def dest: exit_worker)
qed

section \<open>Draining\<close>

fun weight :: "worker \<Rightarrow> nat" where
  "weight Waiting = 1"
| "weight (Received i) = 4"
| "weight (Working i) = 3"
| "weight Exited = 0"

definition pending :: "'r pool \<Rightarrow> nat" where
  "pending p = 4 * length (p_ch p) + sum_list (map weight (p_workers p))"

lemma weight_update:
  "w < length ws \<Longrightarrow>
    sum_list (map weight (ws[w := x])) + weight (ws ! w) = sum_list (map weight ws) + weight x"
  by (induction ws arbitrary: w) (auto split: nat.split)

lemma worker_step_pending: "worker_step p p' \<Longrightarrow> pending p' < pending p"
proof (induction rule: worker_step.induct)
  case (receive w p i q)
  with weight_update [of w "p_workers p" "Received i"] show ?case by (simp add: pending_def)
next
  case (start w p i now)
  with weight_update [of w "p_workers p" "Working i"] show ?case by (simp add: pending_def)
next
  case (finish w p i now oc)
  with weight_update [of w "p_workers p" Waiting] show ?case by (simp add: pending_def)
next
  case (leave w p)
  with weight_update [of w "p_workers p" Exited] show ?case by (simp add: pending_def)
qed

lemma worker_can_step:
  assumes "p_closed p" "w < length (p_workers p)" "p_workers p ! w \<noteq> Exited"
  shows "\<exists>p'. worker_step p p'"
proof (cases "p_workers p ! w")
  case Waiting
  with assms show ?thesis by (cases "p_ch p") (blast intro: worker_step.intros)+
qed (use assms in \<open>blast intro: worker_step.intros\<close>)+

section \<open>Counting and histories\<close>

lemma size_once: "(\<And>i. count M i \<le> 1) \<Longrightarrow> size M = card (set_mset M)"
proof -
  assume c: "\<And>i. count M i \<le> 1"
  have "count M i = count (mset_set (set_mset M)) i" for i
  proof (cases "i \<in># M")
    case True
    with c [of i] show ?thesis by (simp flip: count_greater_zero_iff)
  qed (simp add: not_in_iff)
  then have "M = mset_set (set_mset M)" by (rule multiset_eqI)
  then show ?thesis by (metis finite_set_mset size_mset_set)
qed

definition busy :: "worker \<Rightarrow> bool" where
  "busy w \<longleftrightarrow> w \<noteq> Waiting \<and> w \<noteq> Exited"

lemma size_held:
  "size (waiting_ids p + running_ids p) = length (p_ch p) + length (filter busy (p_workers p))"
proof -
  have "length (concat (map received_of ws)) + length (concat (map working_of ws)) =
      length (filter busy ws)" for ws
  proof (induction ws)
    case (Cons w ws)
    then show ?case by (cases w) (simp_all add: busy_def)
  qed simp
  then show ?thesis by (simp add: waiting_ids_def running_ids_def)
qed

lemma inv_Inflight:
  assumes "pool_inv (used, p)"
  shows "Inflight p = length (p_ch p) + length (filter busy (p_workers p))"
proof -
  have o: "distinct (p_order p)" "set (p_order p) = dom (p_jobs p)"
    and held: "set_mset (waiting_ids p + running_ids p) \<subseteq> dom (p_jobs p)"
    using assms by (auto simp: pool_inv_def)
  have "{i \<in> dom (p_jobs p). in_flight (p_jobs p i)} = set_mset (waiting_ids p + running_ids p)"
    using held inv_in_flight [OF assms] by (auto simp: domIff)
  then have "Inflight p = card (set_mset (waiting_ids p + running_ids p))"
    unfolding Inflight_def using o by (simp add: distinct_card [symmetric])
  also have "\<dots> = size (waiting_ids p + running_ids p)"
    by (rule size_once [symmetric]) (use inv_once [OF assms] in simp)
  finally show ?thesis unfolding size_held .
qed

text \<open>The life of a job: from one step to the next it keeps its status or moves on; a finished job
  never changes, and only a finished job may be dropped.\<close>

definition moves_on :: "'r job \<Rightarrow> 'r job option \<Rightarrow> bool" where
  "moves_on j jo \<longleftrightarrow>
     (case j_status j of
        Queued \<Rightarrow> (\<exists>j'. jo = Some j' \<and> (j_status j' = Queued \<or> j_status j' = Running))
      | Running \<Rightarrow> (\<exists>j'. jo = Some j' \<and> j_status j' \<noteq> Queued)
      | _ \<Rightarrow> jo = Some j \<or> jo = None)"

lemma moves_same [simp]: "moves_on j (Some j)"
  by (simp add: moves_on_def split: status.split)

lemma moves_worker:
  assumes "worker_step p p'" "pool_inv (used, p)" "p_jobs p k = Some j"
  shows "moves_on j (p_jobs p' k)"
  using assms(1)
proof cases
  case (start w i now)
  have "i \<in># waiting_ids p" by (simp flip: start_ids(1) [OF start(2,3), of "start_job now"])
  with assms(2) have "j_status ji = Queued" if "p_jobs p i = Some ji" for ji
    using that by (simp add: pool_inv_def status_ok_def)
  then show ?thesis
    using assms(3) by (cases "k = i") (auto simp: start(1) moves_same [unfolded moves_on_def] moves_on_def start_job_def)
next
  case (finish w i now oc)
  let ?f = "finish_job now (run_result oc) :: 'a job \<Rightarrow> 'a job"
  have "i \<in># running_ids p" by (simp flip: finish_ids(2) [OF finish(2,3), of ?f])
  with assms(2) have "j_status ji = Running" if "p_jobs p i = Some ji" for ji
    using that by (simp add: pool_inv_def status_ok_def)
  then show ?thesis
    using assms(3) by (cases "k = i") (auto simp: finish(1) moves_same [unfolded moves_on_def] moves_on_def finish_job_def split: sum.split)
qed (use assms(3) in simp_all)

lemma moves_enqueue:
  assumes "pool_inv (used, p)" "i \<notin> used" "p_jobs p k = Some j"
  shows "moves_on j (p_jobs (fst (Enqueue kind tenantID i now p)) k)"
proof -
  define q where "q = p\<lparr>p_ch := p_ch p @ [i],
    p_jobs := (p_jobs p)(i \<mapsto> new_job i kind tenantID now), p_order := p_order p @ [i]\<rparr>"
  have i: "i \<notin> dom (p_jobs p)" and d: "distinct (p_order q)"
    using assms by (auto simp: pool_inv_def q_def)
  have k: "p_jobs q k = Some j" using assms(3) i by (auto simp: q_def)
  obtain gone where "p_jobs (prune q) = p_jobs q |` (- set gone)"
    "list_all (\<lambda>i. \<not> in_flight (p_jobs q i)) gone"
    using prune_spec [OF d] by blast
  with k have "moves_on j (p_jobs (prune q) k)"
    by (auto simp: restrict_map_def list_all_iff in_flight_def moves_on_def split: status.split)
  with assms(3) show ?thesis by (simp add: Enqueue_def Let_def q_def)
qed

section \<open>A deterministic driver\<close>

text \<open>Concrete schedules, for examples: each action is a step of the pool.\<close>

datatype action = Enq string | Take nat | Begin nat | End nat

fun act :: "'r pool \<Rightarrow> action \<Rightarrow> 'r pool" where
  "act p (Enq i) = fst (Enqueue [] [] i 0 p)"
| "act p (Take w) = (case p_ch p of [] \<Rightarrow> p | i # q \<Rightarrow> set_worker w (Received i) (p\<lparr>p_ch := q\<rparr>))"
| "act p (Begin w) = (case p_workers p ! w of
      Received i \<Rightarrow> set_worker w (Working i) (update i (start_job 0) p) | _ \<Rightarrow> p)"
| "act p (End w) = (case p_workers p ! w of
      Working i \<Rightarrow> set_worker w Waiting (update i (finish_job 0 (Inl [])) p) | _ \<Rightarrow> p)"

fun act_ok :: "string list \<Rightarrow> 'r pool \<Rightarrow> action \<Rightarrow> bool" where
  "act_ok used p (Enq i) = (i \<notin> set used)"
| "act_ok used p (Take w) = (w < length (p_workers p) \<and> p_workers p ! w = Waiting)"
| "act_ok used p (Begin w) = (w < length (p_workers p))"
| "act_ok used p (End w) = (w < length (p_workers p))"

fun minted :: "action \<Rightarrow> string list" where
  "minted (Enq i) = [i]" | "minted a = []"

fun acts_ok :: "string list \<Rightarrow> 'r pool \<Rightarrow> action list \<Rightarrow> bool" where
  "acts_ok used p [] = True"
| "acts_ok used p (a # as) = (act_ok used p a \<and> acts_ok (minted a @ used) (act p a) as)"

lemma act_step:
  assumes "act_ok used p a"
  shows "(set used, p) = (set (minted a @ used), act p a) \<or>
    pool_step (set used, p) (set (minted a @ used), act p a)"
proof (cases a)
  case (Enq i)
  with assms show ?thesis using pool_step.enqueue [of i "set used" p] by simp
next
  case (Take w)
  with assms show ?thesis
    by (cases "p_ch p") (auto intro: pool_step.work worker_step.receive)
next
  case (Begin w)
  with assms show ?thesis
    by (cases "p_workers p ! w") (auto intro: pool_step.work worker_step.start)
next
  case (End w)
  with assms show ?thesis
    using worker_step.finish [of w p _ 0 "Erred []"]
    by (cases "p_workers p ! w") (auto simp: run_result_def intro: pool_step.work)
qed

lemma acts_reachable:
  "reachable workers queueSize retain (set used, p) \<Longrightarrow> acts_ok used p as \<Longrightarrow>
    reachable workers queueSize retain (set (concat (rev (map minted as)) @ used), foldl act p as)"
proof (induction as arbitrary: used p)
  case (Cons a as)
  from Cons.prems(2) have "act_ok used p a" by simp
  from act_step [OF this]
  have "reachable workers queueSize retain (set (minted a @ used), act p a)"
  proof
    assume "(set used, p) = (set (minted a @ used), act p a)"
    with Cons.prems(1) show ?thesis by simp
  qed (rule reachable.step [OF Cons.prems(1)])
  from Cons.IH [OF this] Cons.prems(2) show ?case by simp
qed simp

section \<open>Properties\<close>

text \<open>C7: Every job in flight is in exactly one place: in every reachable state the number that
  \<open>Inflight\<close> reports is the length of the queue plus the number of busy workers, and the queue
  never exceeds its capacity.\<close>

theorem inflight_is_exact:
  assumes "reachable workers queueSize retain (used, p)"
  shows "Inflight p = length (p_ch p) + length (filter busy (p_workers p)) \<and>
    length (p_ch p) \<le> p_cap p"
  using inv_Inflight [OF reachable_inv [OF assms]] reachable_inv [OF assms]
  by (simp add: pool_inv_def)

definition sample_acts :: "action list" where
  "sample_acts =
     [Enq ''a'', Take 0, Begin 0, Enq ''b'', Take 1, Begin 1, End 1, Enq ''c'', Take 1, Begin 1, End 1,
      Enq ''d'', Take 1, Begin 1, End 1, Enq ''e'']"

definition sample_pool :: "nat pool" where
  "sample_pool = foldl act (NewPool 2 1 1) sample_acts"

lemma sample_reachable: "\<exists>used. reachable 2 1 1 (used, sample_pool)"
proof -
  have "acts_ok [] (NewPool 2 1 1 :: nat pool) sample_acts" by code_simp
  with acts_reachable [of 2 1 1 "[]" "NewPool 2 1 1 :: nat pool"] reachable.init [of 2 1 1]
  show ?thesis by (auto simp: sample_pool_def)
qed

theorem inflight_is_exact_witness: "Inflight sample_pool = 2"
proof -
  obtain used where "reachable 2 1 1 (used, sample_pool)" using sample_reachable by blast
  from inflight_is_exact [OF this]
  have "Inflight sample_pool = length (p_ch sample_pool) + length (filter busy (p_workers sample_pool))"
    by simp
  also have "\<dots> = 2" by code_simp
  finally show ?thesis .
qed

text \<open>A job moves only forward: in any step of the pool from a reachable state a queued job
  stays queued or starts, a running job stays or finishes, and neither is ever dropped; a finished
  job never changes, and is the only kind that pruning removes.\<close>

theorem job_lifecycle:
  assumes "reachable workers queueSize retain (used, p)" "pool_step (used, p) (used', p')"
    and "p_jobs p i = Some j"
  shows "moves_on j (p_jobs p' i)"
  using assms(2)
proof cases
  case (enqueue k kind tenantID now)
  with moves_enqueue [OF reachable_inv [OF assms(1)] _ assms(3)] show ?thesis by simp
next
  case shutdown
  with assms(3) show ?thesis by (simp add: close_pool_def)
next
  case work
  with moves_worker [OF _ reachable_inv [OF assms(1)] assms(3)] show ?thesis by simp
qed

theorem job_lifecycle_witness:
  "moves_on (new_job ''a'' [] [] 0)
     (p_jobs (fst (Enqueue [] [] ''b'' 0 (act (NewPool 1 5 1) (Enq ''a'')))) ''a'' :: nat job option)"
proof -
  let ?p = "act (NewPool 1 5 1) (Enq ''a'') :: nat pool"
  have "acts_ok [] (NewPool 1 5 1 :: nat pool) [Enq ''a'']" by code_simp
  with acts_reachable [OF reachable.init [of 1 5 1, folded set_simps(1) [where 'a = string]], of "[Enq ''a'']"]
  have r: "reachable 1 5 1 ({''a''}, ?p)" by (simp del: act.simps)
  have j: "p_jobs ?p ''a'' = Some (new_job ''a'' [] [] 0)"
    by (simp add: Enqueue_def NewPool_def prune_def Let_def)
  from job_lifecycle [OF r pool_step.enqueue j] show ?thesis by simp
qed

text \<open>C40: A closed pool drains: every worker step of a reachable closed pool decreases \<open>pending\<close>,
  a step is possible until all workers have left, and then no job is in flight.\<close>

theorem shutdown_drains:
  assumes "reachable workers queueSize retain (used, p)" "p_closed p"
  shows "(worker_step p p' \<longrightarrow> pending p' < pending p) \<and>
    ((\<nexists>p'. worker_step p p') \<longleftrightarrow> set (p_workers p) = {Exited}) \<and>
    (set (p_workers p) = {Exited} \<longrightarrow> Inflight p = 0)"
proof (intro conjI impI iffI)
  assume "worker_step p p'"
  then show "pending p' < pending p" by (rule worker_step_pending)
next
  assume "\<nexists>p'. worker_step p p'"
  then have "p_workers p ! w = Exited" if "w < length (p_workers p)" for w
    using worker_can_step [OF assms(2) that] by blast
  then have "set (p_workers p) \<subseteq> {Exited}" by (auto simp: in_set_conv_nth)
  moreover have "p_workers p \<noteq> []" using reachable_exit [OF assms(1)] by (simp add: exit_inv_def)
  ultimately show "set (p_workers p) = {Exited}" by (cases "p_workers p") auto
next
  assume e: "set (p_workers p) = {Exited}"
  then have "p_workers p ! w = Exited" if "w < length (p_workers p)" for w
    using that nth_mem by fastforce
  then show "\<nexists>p'. worker_step p p'" by (auto elim!: worker_stepE)
next
  assume e: "set (p_workers p) = {Exited}"
  then have "filter busy (p_workers p) = []" by (auto simp: filter_empty_conv busy_def)
  moreover have "p_ch p = []" using reachable_exit [OF assms(1)] e by (simp add: exit_inv_def)
  ultimately show "Inflight p = 0" using inv_Inflight [OF reachable_inv [OF assms(1)]] by simp
qed

theorem shutdown_drains_witness:
  "(\<exists>p'. worker_step (close_pool sample_pool) p') \<and> 0 < pending (close_pool sample_pool)"
proof -
  obtain used where "reachable 2 1 1 (used, sample_pool)" using sample_reachable by blast
  from reachable.step [OF this pool_step.shutdown]
  have r: "reachable 2 1 1 (used, close_pool sample_pool)" "p_closed (close_pool sample_pool)"
    by (simp_all add: close_pool_def)
  have "hd (p_workers (close_pool sample_pool)) = Working ''a''" by code_simp
  then have "set (p_workers (close_pool sample_pool)) \<noteq> {Exited}"
    by (cases "p_workers (close_pool sample_pool)") auto
  with shutdown_drains [OF r] obtain p' where "worker_step (close_pool sample_pool) p'" by blast
  with shutdown_drains [OF r, of p'] show ?thesis by auto
qed

text \<open>\<open>List\<close> returns exactly the tenant's recorded jobs, and no other tenant's, newest first.\<close>

theorem list_is_tenant_scoped:
  "mset (List_jobs tenantID p) =
     mset (filter (\<lambda>j. j_tenant j = tenantID) (somes (map (p_jobs p) (p_order p)))) \<and>
   sorted_wrt (\<lambda>a b. j_created b \<le> j_created a) (List_jobs tenantID p)"
proof -
  have "weak_order (\<lambda>a b :: 'a job. j_created b < j_created a)" by (auto simp: weak_order_def)
  from sorted_sort_by [OF this] show ?thesis
    by (simp add: List_jobs_def not_less)
qed

text \<open>The retention cap holds only while the oldest job is not in flight: there is a reachable
  state of a pool that is to retain one finished job, just after an accepted request, in which
  three finished jobs are kept behind a running one.\<close>

theorem retention_cap_exceeded:
  "\<exists>used. reachable 2 1 1 (used, sample_pool) \<and> p_retain sample_pool = 1 \<and>
     length (filter (\<lambda>i. \<not> in_flight (p_jobs sample_pool i)) (p_order sample_pool)) = 3"
proof -
  have "p_retain sample_pool = 1 \<and>
     length (filter (\<lambda>i. \<not> in_flight (p_jobs sample_pool i)) (p_order sample_pool)) = 3"
    by code_simp
  with sample_reachable show ?thesis by blast
qed

end
