(* ===== verification/FindingStore.thy ===== *)
theory FindingStore
  imports Prelude
begin

text \<open>
  internal/findingstore/store.go: the findings database that follows each finding through its
  lifecycle across scans. The Go map of records is an association list with distinct keys: a
  \<open>range\<close> over the map visits the list in its order, and the properties hold for every order.
  SHA-256 in hex is the argument \<open>h\<close>; times are integers in seconds. \<open>Save\<close> and \<open>Load\<close> are I/O.
\<close>

section \<open>Model\<close>

type_synonym status = string

abbreviation StatusOpen :: status where "StatusOpen \<equiv> ''open''"
abbreviation StatusFixed :: status where "StatusFixed \<equiv> ''fixed''"
abbreviation StatusVerified :: status where "StatusVerified \<equiv> ''verified''"
abbreviation StatusClosed :: status where "StatusClosed \<equiv> ''closed''"
abbreviation StatusReopened :: status where "StatusReopened \<equiv> ''reopened''"
abbreviation StatusAcceptedRisk :: status where "StatusAcceptedRisk \<equiv> ''accepted_risk''"

record event =
  ev_at :: int
  ev_from :: status
  ev_to :: status
  ev_note :: string

record frecord =
  r_id :: string
  r_title :: string
  r_severity :: string
  r_status :: status
  r_asset :: string
  r_endpoint :: string
  r_tool :: string
  r_owner :: string
  r_first :: int
  r_last :: int
  r_due :: int
  r_seen :: "string list"
  r_history :: "event list"

type_synonym store = "(string \<times> frecord) list"

record inbound =
  in_rule :: string
  in_title :: string
  in_severity :: string
  in_asset :: string
  in_endpoint :: string
  in_tool :: string

definition normEndpoint :: "string \<Rightarrow> string" where
  "normEndpoint e =
     (case index_byte e (CHR ''?'') of
        None \<Rightarrow> e
      | Some i \<Rightarrow>
          let base = take i e; q = drop (Suc i) e in
          (case index_byte q (CHR ''='') of
             Some eq \<Rightarrow> base @ ''?'' @ take (Suc eq) q
           | None \<Rightarrow> base @ ''?'' @ q))"

definition fingerprint :: "(string \<Rightarrow> string) \<Rightarrow> string \<Rightarrow> string \<Rightarrow> string \<Rightarrow> string" where
  "fingerprint h asset rule endpoint =
     ''F-'' @ take 12 (h (to_lower (trim_space asset @ ''|'' @ trim_space rule @ ''|'' @ normEndpoint endpoint)))"

definition day :: int where "day = 24 * 3600"

definition sla :: "string \<Rightarrow> int" where
  "sla sev =
     (let s = to_lower sev in
      if s = ''critical'' then 7 * day
      else if s = ''high'' then 30 * day
      else if s = ''medium'' then 90 * day
      else if s = ''low'' then 180 * day
      else if s = ''info'' then 365 * day
      else 90 * day)"

definition addSeen :: "string \<Rightarrow> frecord \<Rightarrow> frecord" where
  "addSeen scanID r = (if scanID = [] then r else r\<lparr>r_seen := add_once scanID (r_seen r)\<rparr>)"

definition transition :: "status \<Rightarrow> int \<Rightarrow> string \<Rightarrow> frecord \<Rightarrow> frecord" where
  "transition to now note r =
     (if r_status r = to then r
      else r\<lparr>r_history := r_history r @
               [\<lparr>ev_at = now, ev_from = r_status r, ev_to = to, ev_note = note\<rparr>],
             r_status := to\<rparr>)"

text \<open>\<open>s.Records[id]\<close>; the assignment to it is \<open>put\<close>.\<close>

abbreviation lookup :: "store \<Rightarrow> string \<Rightarrow> frecord option" where
  "lookup s k \<equiv> map_of s k"

definition fresh_record :: "string \<Rightarrow> string \<Rightarrow> int \<Rightarrow> inbound \<Rightarrow> frecord" where
  "fresh_record k scanID now f =
     \<lparr>r_id = k, r_title = in_title f, r_severity = to_lower (in_severity f), r_status = StatusOpen,
      r_asset = in_asset f, r_endpoint = in_endpoint f, r_tool = in_tool f, r_owner = [],
      r_first = now, r_last = now, r_due = now + sla (in_severity f), r_seen = [],
      r_history = [\<lparr>ev_at = now, ev_from = [], ev_to = StatusOpen, ev_note = ''first observed in '' @ scanID\<rparr>]\<rparr>"

definition reopens :: "frecord \<Rightarrow> bool" where
  "reopens r \<longleftrightarrow> r_status r = StatusFixed \<or> r_status r = StatusVerified"

definition seen_again :: "string \<Rightarrow> int \<Rightarrow> frecord \<Rightarrow> frecord" where
  "seen_again scanID now r0 =
     (let r = addSeen scanID (r0\<lparr>r_last := now\<rparr>) in
      if reopens r
      then (transition StatusReopened now (''reappeared in '' @ scanID) r)\<lparr>r_due := now + sla (r_severity r)\<rparr>
      else r)"

text \<open>The first loop of \<open>ingest\<close>: records, ids present, new and reopened counts.\<close>

fun observe ::
  "(string \<Rightarrow> string) \<Rightarrow> string \<Rightarrow> int \<Rightarrow> inbound list \<Rightarrow> store \<times> string list \<times> nat \<times> nat \<Rightarrow>
    store \<times> string list \<times> nat \<times> nat" where
  "observe h scanID now [] st = st"
| "observe h scanID now (f # fs) (s, present, newN, reopenN) =
     (let k = fingerprint h (in_asset f) (in_rule f) (in_endpoint f) in
      case lookup s k of
        None \<Rightarrow> observe h scanID now fs
                 (put k (addSeen scanID (fresh_record k scanID now f)) s, k # present, newN + 1, reopenN)
      | Some r \<Rightarrow> observe h scanID now fs
                 (put k (seen_again scanID now r) s, k # present, newN,
                  if reopens r then reopenN + 1 else reopenN))"

definition gone :: "string \<Rightarrow> string list \<Rightarrow> string \<times> frecord \<Rightarrow> bool" where
  "gone asset present kr \<longleftrightarrow>
     fst kr \<notin> set present \<and> r_asset (snd kr) = asset \<and>
     (r_status (snd kr) = StatusOpen \<or> r_status (snd kr) = StatusReopened)"

definition ingest ::
  "(string \<Rightarrow> string) \<Rightarrow> string \<Rightarrow> string \<Rightarrow> inbound list \<Rightarrow> int \<Rightarrow> store \<Rightarrow> store \<times> nat \<times> nat \<times> nat" where
  "ingest h scanID asset fs now s0 =
     (let (s, present, newN, reopenN) = observe h scanID now fs (s0, [], 0, 0) in
      (map (\<lambda>kr. if gone asset present kr
                 then (fst kr, transition StatusFixed now (''no longer observed in '' @ scanID) (snd kr))
                 else kr) s,
       newN, reopenN, length (filter (gone asset present) s)))"

record scan_finding =
  sf_rule :: string
  sf_title :: string
  sf_severity :: string
  sf_endpoint :: string
  sf_tool :: string

record scan_doc =
  sc_id :: string
  sc_target :: string
  sc_enriched :: "scan_finding list"
  sc_raw :: "scan_finding list"

definition IngestScan :: "(string \<Rightarrow> string) \<Rightarrow> scan_doc \<Rightarrow> int \<Rightarrow> store \<Rightarrow> store \<times> nat \<times> nat \<times> nat" where
  "IngestScan h sc now s =
     (let findings = (if sc_enriched sc = [] then sc_raw sc else sc_enriched sc);
          fs = map (\<lambda>f. \<lparr>in_rule = sf_rule f,
                 in_title = (if sf_title f = [] then sf_rule f else sf_title f),
                 in_severity = sf_severity f, in_asset = sc_target sc,
                 in_endpoint = sf_endpoint f, in_tool = sf_tool f\<rparr>) findings
      in ingest h (sc_id sc) (sc_target sc) fs now s)"

record evidence_finding =
  ef_severity :: string
  ef_class :: string
  ef_route :: string

record evidence_bundle =
  eb_target :: string
  eb_findings :: "evidence_finding list"
  eb_attestation :: "string option"

definition humanClass :: "string \<Rightarrow> string" where
  "humanClass c =
     (case map_of [(''sqli'', ''SQL Injection''), (''xss'', ''Cross-Site Scripting (XSS)''),
         (''open_redirect'', ''Open Redirect''), (''path_traversal'', ''Path Traversal / LFI''),
         (''command_injection'', ''OS Command Injection'')] (to_lower c) of
        None \<Rightarrow> c | Some t \<Rightarrow> t)"

definition scanIDFromBundle :: "evidence_bundle \<Rightarrow> string" where
  "scanIDFromBundle b =
     (case eb_attestation b of
        None \<Rightarrow> ''web-engagement''
      | Some sha \<Rightarrow> if sha = [] then ''web-engagement'' else ''web-'' @ take 8 sha)"

definition IngestWebEvidence :: "(string \<Rightarrow> string) \<Rightarrow> evidence_bundle \<Rightarrow> int \<Rightarrow> store \<Rightarrow> store \<times> nat \<times> nat \<times> nat" where
  "IngestWebEvidence h b now s =
     (let fs = map (\<lambda>ef. \<lparr>in_rule = ''webagent::'' @ ef_class ef, in_title = humanClass (ef_class ef),
                 in_severity = (if ef_severity ef = [] then ''high'' else ef_severity ef),
                 in_asset = eb_target b, in_endpoint = ef_route ef, in_tool = ''webagent''\<rparr>) (eb_findings b)
      in ingest h (scanIDFromBundle b) (eb_target b) fs now s)"

definition Transition :: "string \<Rightarrow> status \<Rightarrow> string \<Rightarrow> int \<Rightarrow> store \<Rightarrow> store \<times> bool" where
  "Transition k to note now s =
     (case lookup s k of None \<Rightarrow> (s, False) | Some r \<Rightarrow> (put k (transition to now note r) s, True))"

definition Assign :: "string \<Rightarrow> string \<Rightarrow> store \<Rightarrow> store \<times> bool" where
  "Assign k owner s =
     (case lookup s k of None \<Rightarrow> (s, False) | Some r \<Rightarrow> (put k (r\<lparr>r_owner := owner\<rparr>) s, True))"

record filter_spec =
  f_status :: status
  f_severity :: string
  f_asset :: string
  f_owner :: string
  f_openOnly :: bool

definition filter_match :: "filter_spec \<Rightarrow> frecord \<Rightarrow> bool" where
  "filter_match f r =
     (if f_status f \<noteq> [] \<and> r_status r \<noteq> f_status f then False
      else if f_openOnly f \<and> r_status r \<noteq> StatusOpen \<and> r_status r \<noteq> StatusReopened then False
      else if f_severity f \<noteq> [] \<and> r_severity r \<noteq> to_lower (f_severity f) then False
      else if f_asset f \<noteq> [] \<and> r_asset r \<noteq> f_asset f then False
      else if f_owner f \<noteq> [] \<and> r_owner r \<noteq> f_owner f then False
      else True)"

definition sevRank :: "string \<Rightarrow> nat" where
  "sevRank s =
     (case map_of [(''critical'', 0), (''high'', 1), (''medium'', 2), (''low'', 3), (''info'', 4)]
        (to_lower s) of None \<Rightarrow> 5 | Some r \<Rightarrow> r)"

definition rec_less :: "frecord \<Rightarrow> frecord \<Rightarrow> bool" where
  "rec_less a b =
     (if sevRank (r_severity a) \<noteq> sevRank (r_severity b) then sevRank (r_severity a) < sevRank (r_severity b)
      else r_first a < r_first b)"

definition List_records :: "filter_spec \<Rightarrow> store \<Rightarrow> frecord list" where
  "List_records f s = sort_by rec_less (filter (filter_match f) (map snd s))"

definition Overdue :: "int \<Rightarrow> store \<Rightarrow> frecord list" where
  "Overdue now s =
     filter (\<lambda>r. r_due r < now)
       (List_records \<lparr>f_status = [], f_severity = [], f_asset = [], f_owner = [], f_openOnly = True\<rparr> s)"

definition Counts :: "store \<Rightarrow> status \<Rightarrow> nat" where
  "Counts s st = length (filter (\<lambda>kr. r_status (snd kr) = st) s)"

section \<open>What an ingest does to a status\<close>

text \<open>
  The lifecycle, one record at a time: its status (if it is known), whether the scan observed it,
  and whether it belongs to the scanned asset.
\<close>

fun lifecycle :: "status option \<Rightarrow> bool \<Rightarrow> bool \<Rightarrow> status option" where
  "lifecycle None observed same = (if observed then Some StatusOpen else None)"
| "lifecycle (Some st) observed same =
     Some (if observed then (if st = StatusFixed \<or> st = StatusVerified then StatusReopened else st)
           else if same \<and> (st = StatusOpen \<or> st = StatusReopened) then StatusFixed else st)"

definition status_at :: "store \<Rightarrow> string \<Rightarrow> status option" where
  "status_at s k = map_option r_status (lookup s k)"

definition observed :: "(string \<Rightarrow> string) \<Rightarrow> inbound list \<Rightarrow> string set" where
  "observed h fs = (\<lambda>f. fingerprint h (in_asset f) (in_rule f) (in_endpoint f)) ` set fs"

lemma observed_Cons [simp]:
  "observed h [] = {}"
  "observed h (f # fs) = insert (fingerprint h (in_asset f) (in_rule f) (in_endpoint f)) (observed h fs)"
  by (simp_all add: observed_def)

lemma finite_observed [simp]: "finite (observed h fs)"
  by (simp add: observed_def)

lemma transition_simps [simp]:
  "r_status (transition to now note r) = to" "r_asset (transition to now note r) = r_asset r"
  "r_id (transition to now note r) = r_id r" "r_seen (transition to now note r) = r_seen r"
  by (auto simp: transition_def)

lemma addSeen_simps [simp]:
  "r_status (addSeen i r) = r_status r" "r_asset (addSeen i r) = r_asset r"
  "r_id (addSeen i r) = r_id r" "r_history (addSeen i r) = r_history r" "r_due (addSeen i r) = r_due r"
  "distinct (r_seen (addSeen i r)) = distinct (r_seen r)"
  by (auto simp: addSeen_def)

lemma reopens_cong [simp]: "reopens (addSeen i (r\<lparr>r_last := now\<rparr>)) = reopens r"
  by (simp add: reopens_def)

lemma seen_again_simps [simp]:
  "r_status (seen_again i now r) = (if reopens r then StatusReopened else r_status r)"
  "r_asset (seen_again i now r) = r_asset r" "r_id (seen_again i now r) = r_id r"
  "distinct (r_seen (seen_again i now r)) = distinct (r_seen r)"
  "\<not> reopens (seen_again i now r)"
  by (auto simp: seen_again_def Let_def) (auto simp: reopens_def)

lemma fresh_simps [simp]:
  "r_status (fresh_record k i now f) = StatusOpen" "r_id (fresh_record k i now f) = k"
  "r_seen (fresh_record k i now f) = []" "\<not> reopens (addSeen j (fresh_record k i now f))"
  by (simp_all add: fresh_record_def reopens_def)

text \<open>The first loop, record by record and with its two counts.\<close>

lemma observe_spec:
  assumes "observe h scanID now fs (s, present, newN, reopenN) = (s', present', newN', reopenN')"
  shows "set present' = set present \<union> observed h fs \<and>
    newN' = newN + card {k \<in> observed h fs. lookup s k = None} \<and>
    reopenN' = reopenN + card {k \<in> observed h fs. \<exists>r. lookup s k = Some r \<and> reopens r} \<and>
    (\<forall>k. k \<notin> observed h fs \<longrightarrow> lookup s' k = lookup s k) \<and>
    (\<forall>k \<in> observed h fs. status_at s' k = lifecycle (status_at s k) True same)"
  using assms
proof (induction fs arbitrary: s present newN reopenN)
  case (Cons f fs)
  define k where "k = fingerprint h (in_asset f) (in_rule f) (in_endpoint f)"
  define r1 where "r1 = (case lookup s k of None \<Rightarrow> addSeen scanID (fresh_record k scanID now f)
    | Some r \<Rightarrow> seen_again scanID now r)"
  define n1 where "n1 = (if lookup s k = None then 1 else 0 :: nat)"
  define m1 where "m1 = (if \<exists>r. lookup s k = Some r \<and> reopens r then 1 else 0 :: nat)"
  let ?O = "observed h fs"
  have "observe h scanID now fs (put k r1 s, k # present, newN + n1, reopenN + m1) =
      (s', present', newN', reopenN')"
    using Cons.prems by (auto simp: k_def [symmetric] r1_def n1_def m1_def Let_def split: option.splits)
  note IH = Cons.IH [OF this]
  have r1: "\<not> reopens r1" "Some (r_status r1) = lifecycle (status_at s k) True same"
    "lifecycle (Some (r_status r1)) True same = Some (r_status r1)"
    by (auto simp: r1_def status_at_def reopens_def split: option.split)
  have new: "card {j \<in> insert k ?O. lookup s j = None} = n1 + card {j \<in> ?O. lookup (put k r1 s) j = None}"
  proof -
    have "{j \<in> insert k ?O. lookup s j = None} =
        (if lookup s k = None then insert k else id) {j \<in> ?O. lookup (put k r1 s) j = None}"
      by auto
    then show ?thesis by (simp add: n1_def)
  qed
  have re: "card {j \<in> insert k ?O. \<exists>r. lookup s j = Some r \<and> reopens r} =
      m1 + card {j \<in> ?O. \<exists>r. lookup (put k r1 s) j = Some r \<and> reopens r}"
  proof -
    have "{j \<in> insert k ?O. \<exists>r. lookup s j = Some r \<and> reopens r} =
        (if \<exists>r. lookup s k = Some r \<and> reopens r then insert k else id)
          {j \<in> ?O. \<exists>r. lookup (put k r1 s) j = Some r \<and> reopens r}"
      using r1(1) by (auto split: if_splits)
    then show ?thesis using r1(1) by (simp add: m1_def)
  qed
  have st: "status_at s' k = lifecycle (status_at s k) True same"
  proof (cases "k \<in> ?O")
    case True
    then have "status_at s' k = lifecycle (status_at (put k r1 s) k) True same" using IH by blast
    then show ?thesis using r1(2,3) by (simp add: status_at_def)
  next
    case False
    then have "lookup s' k = Some r1" using IH by simp
    then show ?thesis using r1(2) by (simp add: status_at_def)
  qed
  have other: "status_at s' j = lifecycle (status_at s j) True same" if "j \<in> ?O" "j \<noteq> k" for j
    using IH that by (auto simp: status_at_def)
  have all: "\<forall>j \<in> insert k ?O. status_at s' j = lifecycle (status_at s j) True same"
    using st other by blast
  have un: "\<forall>j. j \<notin> insert k ?O \<longrightarrow> lookup s' j = lookup s j" using IH by simp
  show ?case
    unfolding observed_Cons k_def [symmetric] new re
    by (intro conjI all un) (use IH in simp_all)
qed simp

lemma lookup_map: "lookup (map (\<lambda>kr. if P kr then (fst kr, F (snd kr)) else kr) s) k =
    map_option (\<lambda>r. if P (k, r) then F r else r) (lookup s k)"
  by (induction s) auto

definition same_asset :: "store \<Rightarrow> string \<Rightarrow> string \<Rightarrow> bool" where
  "same_asset s asset k \<longleftrightarrow> (\<exists>r. lookup s k = Some r \<and> r_asset r = asset)"

text \<open>\<open>ingest\<close> in terms of its two loops.\<close>

lemma ingest_loops:
  assumes "ingest h scanID asset fs now s = (s', newN, reopenN, fixedN)"
  obtains s1 present where
    "observe h scanID now fs (s, [], 0, 0) = (s1, present, newN, reopenN)"
    "s' = map (\<lambda>kr. if gone asset present kr
       then (fst kr, transition StatusFixed now (''no longer observed in '' @ scanID) (snd kr)) else kr) s1"
    "fixedN = length (filter (gone asset present) s1)"
    "set present = observed h fs"
proof -
  obtain s1 present n m where o: "observe h scanID now fs (s, [], 0, 0) = (s1, present, n, m)"
    by (cases "observe h scanID now fs (s, [], 0, 0)") auto
  with assms observe_spec [OF o] show ?thesis by (intro that [of s1 present]) (auto simp: ingest_def)
qed

lemma ingest_status:
  assumes "ingest h scanID asset fs now s = (s', newN, reopenN, fixedN)"
  shows "status_at s' k = lifecycle (status_at s k) (k \<in> observed h fs) (same_asset s asset k)"
proof -
  obtain s1 present where l: "observe h scanID now fs (s, [], 0, 0) = (s1, present, newN, reopenN)"
    "s' = map (\<lambda>kr. if gone asset present kr
       then (fst kr, transition StatusFixed now (''no longer observed in '' @ scanID) (snd kr)) else kr) s1"
    "set present = observed h fs"
    by (rule ingest_loops [OF assms])
  note o = observe_spec [OF l(1), of "same_asset s asset k"]
  have s': "lookup s' k = map_option (\<lambda>r. if gone asset present (k, r)
      then transition StatusFixed now (''no longer observed in '' @ scanID) r else r) (lookup s1 k)"
    by (simp add: l(2) lookup_map)
  show ?thesis
  proof (cases "k \<in> observed h fs")
    case True
    then have "status_at s1 k = lifecycle (status_at s k) True (same_asset s asset k)" using o by blast
    with True s' show ?thesis by (simp add: status_at_def gone_def l(3) option.map_ident)
  next
    case False
    then have "lookup s1 k = lookup s k" using o by blast
    with False s' show ?thesis
      by (cases "lookup s k") (auto simp: l(3) status_at_def gone_def same_asset_def)
  qed
qed

section \<open>The audit trail\<close>

text \<open>The events lead from one status to the next, each a real change, and end in the last.\<close>

fun trail :: "status \<Rightarrow> event list \<Rightarrow> status \<Rightarrow> bool" where
  "trail st [] last_st = (st = last_st)"
| "trail st (e # es) last_st = (ev_from e = st \<and> ev_to e \<noteq> st \<and> trail (ev_to e) es last_st)"

lemma trail_snoc: "trail st es b \<Longrightarrow> b \<noteq> c \<Longrightarrow> ev_from e = b \<Longrightarrow> ev_to e = c \<Longrightarrow> trail st (es @ [e]) c"
  by (induction es arbitrary: st) auto

definition record_ok :: "string \<Rightarrow> frecord \<Rightarrow> bool" where
  "record_ok k r \<longleftrightarrow>
     r_id r = k \<and> r_history r \<noteq> [] \<and> ev_to (hd (r_history r)) = StatusOpen \<and>
     trail [] (r_history r) (r_status r) \<and> distinct (r_seen r)"

lemma record_ok_transition [simp]: "record_ok k r \<Longrightarrow> record_ok k (transition to now note r)"
  by (auto simp: record_ok_def transition_def intro: trail_snoc)

lemma record_ok_cong:
  "r_id r' = r_id r \<Longrightarrow> r_history r' = r_history r \<Longrightarrow> r_status r' = r_status r \<Longrightarrow>
    distinct (r_seen r') = distinct (r_seen r) \<Longrightarrow> record_ok k r' = record_ok k r"
  by (simp add: record_ok_def)

lemma record_ok_fresh: "record_ok k (addSeen i (fresh_record k i now f))"
  by (simp add: record_ok_def fresh_record_def)

lemma record_ok_seen_again: "record_ok k r \<Longrightarrow> record_ok k (seen_again i now r)"
proof -
  assume "record_ok k r"
  then have a: "record_ok k (addSeen i (r\<lparr>r_last := now\<rparr>))"
    by (subst record_ok_cong [of _ r]) simp_all
  then have "record_ok k ((transition to now msg (addSeen i (r\<lparr>r_last := now\<rparr>)))\<lparr>r_due := d\<rparr>)" for to msg d
    by (subst record_ok_cong [of _ "transition to now msg (addSeen i (r\<lparr>r_last := now\<rparr>))"]) simp_all
  with a show ?thesis by (simp add: seen_again_def Let_def)
qed

definition store_ok :: "store \<Rightarrow> bool" where
  "store_ok s \<longleftrightarrow> distinct (map fst s) \<and> list_all (\<lambda>(k, r). record_ok k r) s"

lemma store_ok_put: "store_ok s \<Longrightarrow> record_ok k r \<Longrightarrow> store_ok (put k r s)"
  unfolding store_ok_def
  by (auto simp: keys_put list_all_iff image_iff dest!: set_put)

lemma store_ok_lookup: "store_ok s \<Longrightarrow> lookup s k = Some r \<Longrightarrow> record_ok k r"
  by (auto simp: store_ok_def list_all_iff dest: map_of_SomeD)

lemma store_ok_observe:
  "store_ok s \<Longrightarrow> store_ok (fst (observe h scanID now fs (s, present, newN, reopenN)))"
proof (induction fs arbitrary: s present newN reopenN)
  case (Cons f fs)
  then show ?case
    by (auto simp: Let_def store_ok_put record_ok_fresh record_ok_seen_again store_ok_lookup
        split: option.split)
qed simp

lemma store_ok_ingest: "store_ok s \<Longrightarrow> store_ok (fst (ingest h scanID asset fs now s))"
  using store_ok_observe [of s h scanID now fs "[]" 0 0]
  by (auto simp: ingest_def store_ok_def list_all_iff comp_def if_distrib [of fst] split: prod.splits cong: if_cong)

text \<open>The operations that change a store, as one machine.\<close>

datatype op =
    OScan scan_doc int | OWeb evidence_bundle int | OTransition string status string int
  | OAssign string string

fun apply_op :: "(string \<Rightarrow> string) \<Rightarrow> store \<Rightarrow> op \<Rightarrow> store" where
  "apply_op h s (OScan sc now) = fst (IngestScan h sc now s)"
| "apply_op h s (OWeb b now) = fst (IngestWebEvidence h b now s)"
| "apply_op h s (OTransition k to note now) = fst (Transition k to note now s)"
| "apply_op h s (OAssign k owner) = fst (Assign k owner s)"

interpretation findings: machine "apply_op h" store_ok
proof
  fix s e
  assume s: "store_ok s"
  have "record_ok k (r\<lparr>r_owner := owner\<rparr>)" if "record_ok k r" for k r owner
    using that by (subst record_ok_cong [of _ r]) simp_all
  with s show "store_ok (apply_op h s e)"
    by (cases e) (auto simp: IngestScan_def IngestWebEvidence_def Transition_def Assign_def Let_def
        store_ok_ingest store_ok_put store_ok_lookup split: option.split)
qed

text \<open>A scan, as opposed to a decision of an analyst.\<close>

fun is_scan :: "op \<Rightarrow> bool" where
  "is_scan (OScan sc now) = True" | "is_scan (OWeb b now) = True" | "is_scan e = False"

lemma status_apply_scan:
  assumes "is_scan e" "status_at s k = Some st" "st \<in> {StatusClosed, StatusAcceptedRisk}"
  shows "status_at (apply_op h s e) k = Some st"
proof -
  have "status_at (fst (ingest h scanID asset fs now s)) k = Some st" for scanID asset fs now
    using assms(2,3) ingest_status [of h scanID asset fs now s _ _ _ _ k]
    by (cases "ingest h scanID asset fs now s") auto
  with assms(1) show ?thesis
    by (cases e) (simp_all add: IngestScan_def IngestWebEvidence_def Let_def)
qed

lemma distinct_observe:
  "distinct (map fst (fst st)) \<Longrightarrow> distinct (map fst (fst (observe h scanID now fs st)))"
proof (induction fs arbitrary: st)
  case (Cons f fs)
  obtain s p n m where "st = (s, p, n, m)" by (cases st) auto
  with Cons show ?case by (auto simp: Let_def keys_put split: option.split)
qed simp

definition record_now :: "string \<Rightarrow> int \<Rightarrow> inbound \<Rightarrow> string \<Rightarrow> store \<Rightarrow> frecord" where
  "record_now scanID now f k s =
     (case lookup s k of None \<Rightarrow> addSeen scanID (fresh_record k scanID now f)
      | Some r \<Rightarrow> seen_again scanID now r)"

lemma observe_Cons:
  "observe h scanID now (f # fs) (s, p, n, m) =
     (observe h scanID now fs
       (put (fingerprint h (in_asset f) (in_rule f) (in_endpoint f))
          (record_now scanID now f (fingerprint h (in_asset f) (in_rule f) (in_endpoint f)) s) s,
        fingerprint h (in_asset f) (in_rule f) (in_endpoint f) # p,
        (if lookup s (fingerprint h (in_asset f) (in_rule f) (in_endpoint f)) = None then n + 1 else n),
        (if \<exists>r. lookup s (fingerprint h (in_asset f) (in_rule f) (in_endpoint f)) = Some r \<and> reopens r
         then m + 1 else m)))"
  by (auto simp: Let_def record_now_def split: option.split)

lemma keys_observe:
  "kr \<in> set (fst (observe h scanID now fs st)) \<Longrightarrow> kr \<in> set (fst st) \<or> fst kr \<in> observed h fs"
proof (induction fs arbitrary: st)
  case (Cons f fs)
  obtain s p n m where st: "st = (s, p, n, m)" by (cases st) auto
  define k where "k = fingerprint h (in_asset f) (in_rule f) (in_endpoint f)"
  obtain q n' m' where
    step: "observe h scanID now (f # fs) st = observe h scanID now fs (put k (record_now scanID now f k s) s, q, n', m')"
    by (rule that [OF observe_Cons [of h scanID now f fs s p n m, folded k_def st]])
  with Cons.prems have "kr \<in> set (put k (record_now scanID now f k s) s) \<or> fst kr \<in> observed h fs"
    using Cons.IH [of "(put k (record_now scanID now f k s) s, q, n', m')"] by simp
  then show ?case by (auto simp: st k_def dest: set_put)
qed simp

lemma card_gone:
  assumes "distinct (map fst s)"
  shows "length (filter (gone asset present) s) = card {k. \<exists>r. lookup s k = Some r \<and> gone asset present (k, r)}"
proof -
  have "distinct (map fst (filter (gone asset present) s))"
    using assms by (rule distinct_map_filter)
  then have "length (filter (gone asset present) s) = card (fst ` set (filter (gone asset present) s))"
    by (metis distinct_card length_map set_map)
  also have "fst ` set (filter (gone asset present) s) = {k. \<exists>r. lookup s k = Some r \<and> gone asset present (k, r)}"
    using assms by (force simp: image_iff dest: map_of_SomeD)
  finally show ?thesis .
qed

section \<open>Properties\<close>

text \<open>C5: One ingest moves every record along the lifecycle and reports it: an unknown finding that
  is observed opens, a fixed or verified one that is observed reopens, an open or reopened one of
  the scanned asset that is not observed becomes fixed, every other status stays; the counts are
  the numbers of distinct findings that opened, reopened and were fixed.\<close>

theorem ingest_lifecycle:
  assumes "ingest h scanID asset fs now s = (s', newN, reopenN, fixedN)" "distinct (map fst s)"
  shows "status_at s' k = lifecycle (status_at s k) (k \<in> observed h fs) (same_asset s asset k) \<and>
    newN = card {k \<in> observed h fs. lookup s k = None} \<and>
    reopenN = card {k \<in> observed h fs. \<exists>r. lookup s k = Some r \<and> reopens r} \<and>
    fixedN = card {k. k \<notin> observed h fs \<and> same_asset s asset k \<and>
      (status_at s k = Some StatusOpen \<or> status_at s k = Some StatusReopened)}"
proof -
  obtain s1 present where l: "observe h scanID now fs (s, [], 0, 0) = (s1, present, newN, reopenN)"
    "fixedN = length (filter (gone asset present) s1)" "set present = observed h fs"
    by (rule ingest_loops [OF assms(1)])
  note o = observe_spec [OF l(1)]
  have "distinct (map fst s1)" using distinct_observe [of "(s, [], 0, 0)" h scanID now fs] assms(2) l(1) by simp
  then have "fixedN = card {k. \<exists>r. lookup s1 k = Some r \<and> gone asset present (k, r)}"
    by (simp only: l(2) card_gone)
  also have "{k. \<exists>r. lookup s1 k = Some r \<and> gone asset present (k, r)} =
      {k. k \<notin> observed h fs \<and> same_asset s asset k \<and>
        (status_at s k = Some StatusOpen \<or> status_at s k = Some StatusReopened)}"
    using o by (auto simp: gone_def l(3) same_asset_def status_at_def)
  finally show ?thesis using o ingest_status [OF assms(1)] by simp
qed

definition sample_inbound :: "string \<Rightarrow> inbound" where
  "sample_inbound rule =
     \<lparr>in_rule = rule, in_title = ''t'', in_severity = ''high'', in_asset = ''a'', in_endpoint = ''/x'', in_tool = []\<rparr>"

definition sample_store :: store where
  "sample_store = fst (ingest (\<lambda>x. x) ''s1'' ''a'' [sample_inbound ''r1'', sample_inbound ''r2''] 0 [])"

theorem ingest_lifecycle_witness:
  "status_at (fst (ingest (\<lambda>x. x) ''s2'' ''a'' [sample_inbound ''r1''] 9 sample_store)) ''F-a|r2|/x''
     = Some StatusFixed"
proof -
  have d: "distinct (map fst sample_store)" by code_simp
  have "status_at sample_store ''F-a|r2|/x'' = Some StatusOpen" by code_simp
  moreover have "fingerprint (\<lambda>x. x) ''a'' ''r1'' ''/x'' \<noteq> ''F-a|r2|/x''" by code_simp
  moreover have "map_option r_asset (lookup sample_store ''F-a|r2|/x'') = Some ''a''" by code_simp
  ultimately show ?thesis
    using ingest_lifecycle [OF _ d, of "\<lambda>x. x" "''s2''" "''a''" "[sample_inbound ''r1'']" 9 _ _ _ _ "''F-a|r2|/x''"]
    by (cases "ingest (\<lambda>x. x) ''s2'' ''a'' [sample_inbound ''r1''] 9 sample_store")
      (auto simp: sample_inbound_def same_asset_def)
qed

text \<open>Ingesting the same observations of an asset twice changes nothing the second time: no
  finding is new, reopened or fixed, and every status stays.\<close>

theorem ingest_idempotent:
  "snd (ingest h scanID2 asset fs now2 (fst (ingest h scanID asset fs now s))) = (0, 0, 0) \<and>
   (\<forall>k. status_at (fst (ingest h scanID2 asset fs now2 (fst (ingest h scanID asset fs now s)))) k =
      status_at (fst (ingest h scanID asset fs now s)) k)"
proof -
  obtain s1 a b c where 1: "ingest h scanID asset fs now s = (s1, a, b, c)"
    by (cases "ingest h scanID asset fs now s")
  obtain s2 a2 b2 c2 where 2: "ingest h scanID2 asset fs now2 s1 = (s2, a2, b2, c2)"
    by (cases "ingest h scanID2 asset fs now2 s1")
  obtain s0 p0 where l1: "s1 = map (\<lambda>kr. if gone asset p0 kr
       then (fst kr, transition StatusFixed now (''no longer observed in '' @ scanID) (snd kr)) else kr) s0"
    "set p0 = observed h fs"
    by (rule ingest_loops [OF 1])
  obtain t present where l2: "observe h scanID2 now2 fs (s1, [], 0, 0) = (t, present, a2, b2)"
    "c2 = length (filter (gone asset present) t)" "set present = observed h fs"
    by (rule ingest_loops [OF 2])
  note st1 = ingest_status [OF 1] and st2 = ingest_status [OF 2]
  have known: "lookup s1 k \<noteq> None \<and> (\<forall>r. lookup s1 k = Some r \<longrightarrow> \<not> reopens r)" if "k \<in> observed h fs" for k
    using st1 [of k] that
    by (cases "status_at s k") (auto simp: status_at_def reopens_def split: if_splits)
  then have "{k \<in> observed h fs. lookup s1 k = None} = {}"
    "{k \<in> observed h fs. \<exists>r. lookup s1 k = Some r \<and> reopens r} = {}"
    by blast+
  then have n: "a2 = 0" "b2 = 0" using observe_spec [OF l2(1)] by simp_all
  have quiet: "\<not> gone asset present kr" if "kr \<in> set s1" for kr
    using that by (auto simp: l1 gone_def l2(3) split: if_splits)
  have "\<not> gone asset present kr" if "kr \<in> set t" for kr
    using keys_observe [of kr h scanID2 now2 fs "(s1, [], 0, 0)"] that l2(1) quiet [of kr]
    by (auto simp: gone_def l2(3))
  then have "c2 = 0" by (simp add: l2(2) filter_empty_conv)
  moreover have "status_at s2 k = status_at s1 k" for k
  proof (cases "k \<in> observed h fs")
    case True
    with st2 [of k] known [of k] show ?thesis by (auto simp: status_at_def reopens_def)
  next
    case False
    show ?thesis
    proof (cases "lookup s1 k")
      case (Some r)
      then have "\<not> gone asset present (k, r)" using quiet map_of_SomeD by fastforce
      with Some False st2 [of k] show ?thesis by (auto simp: status_at_def gone_def l2(3) same_asset_def)
    qed (use False st2 [of k] in \<open>simp add: status_at_def\<close>)
  qed
  ultimately show ?thesis using n by (simp add: 1 2)
qed

text \<open>The audit trail explains the status: after any operations on a new store, keys are
  unique, and each record's history starts with its opening, chains every status to the next
  with a real change, and ends in the current status.\<close>

theorem audit_trail_complete:
  "store_ok (foldl (apply_op h) [] ops)"
  by (rule findings.run_inv) (simp add: store_ok_def)

text \<open>Scans never overturn a decision: a record that an analyst closed or whose risk was
  accepted keeps that status through any scans.\<close>

theorem scans_respect_decisions:
  assumes "list_all is_scan ops" "status_at s k = Some st" "st \<in> {StatusClosed, StatusAcceptedRisk}"
  shows "status_at (foldl (apply_op h) s ops) k = Some st"
  using assms by (induction ops arbitrary: s) (simp_all add: status_apply_scan)

theorem scans_respect_decisions_witness:
  "status_at (foldl (apply_op (\<lambda>x. x)) (fst (Transition ''F-a|r2|/x'' StatusClosed [] 5 sample_store))
     [OScan \<lparr>sc_id = ''s3'', sc_target = ''a'', sc_enriched = [], sc_raw = []\<rparr> 9]) ''F-a|r2|/x'' = Some StatusClosed"
  by (rule scans_respect_decisions) (simp, code_simp, simp)

text \<open>\<open>Overdue\<close> returns exactly the open or reopened records past their due date, most severe
  first.\<close>

theorem overdue_is_exact:
  "mset (Overdue now s) =
     mset (filter (\<lambda>r. (r_status r = StatusOpen \<or> r_status r = StatusReopened) \<and> r_due r < now) (map snd s)) \<and>
   sorted_wrt (\<lambda>a b. sevRank (r_severity a) \<le> sevRank (r_severity b)) (Overdue now s)"
proof -
  have w: "weak_order rec_less"
    unfolding weak_order_def rec_less_def by (auto split: if_splits)
  have "sorted_wrt (\<lambda>a b. sevRank (r_severity a) \<le> sevRank (r_severity b)) (List_records f s)" for f
    using sorted_sort_by [OF w, of "filter (filter_match f) (map snd s)"] unfolding List_records_def
    by (rule sorted_wrt_mono_rel [rotated]) (auto simp: rec_less_def split: if_splits)
  moreover have "mset (Overdue now s) =
      mset (filter (\<lambda>r. (r_status r = StatusOpen \<or> r_status r = StatusReopened) \<and> r_due r < now) (map snd s))"
    by (simp add: Overdue_def List_records_def filter_match_def filter_filter_mset)
      (auto intro!: filter_mset_cong)
  ultimately show ?thesis by (simp add: Overdue_def sorted_wrt_filter)
qed

text \<open>Two spellings of one asset share a fingerprint but not the fixed sweep: a finding opened
  under one spelling is recognised by a scan under another, and yet that scan's clean successor
  does not mark it fixed.\<close>

theorem respelled_asset_never_fixed:
  "let finding = \<lparr>sf_rule = ''r'', sf_title = [], sf_severity = ''high'', sf_endpoint = ''/'', sf_tool = []\<rparr>;
       scan = (\<lambda>i t fs. \<lparr>sc_id = i, sc_target = t, sc_enriched = fs, sc_raw = []\<rparr>);
       s1 = fst (IngestScan (\<lambda>x. x) (scan ''1'' ''Ex.io'' [finding]) 0 []);
       (s2, n2) = IngestScan (\<lambda>x. x) (scan ''2'' ''ex.io'' [finding]) 1 s1;
       (s3, n3) = IngestScan (\<lambda>x. x) (scan ''3'' ''ex.io'' []) 2 s2
   in n2 = (0, 0, 0) \<and> n3 = (0, 0, 0) \<and> Counts s3 StatusOpen = 1"
  by code_simp

end
