(* ===== verification/Waves.thy ===== *)
theory Waves
  imports Prelude
begin

text \<open>
  internal/orchestrator/deps.go: the layering of a dispatch batch into waves, so that a tool whose
  input is another tool's side effect never runs beside it. The inner Go map of a dependency table
  is a list, in the order a \<open>range\<close> visits it.
\<close>

section \<open>Model\<close>

type_synonym deps = "(string \<times> string list) list"

definition toolDependencies :: deps where
  "toolDependencies =
     [(''nuclei'', [''seed_auth'']),
      (''dalfox'', [''seed_auth'']),
      (''sqlmap'', [''seed_auth'']),
      (''httpx'', [''seed_auth'']),
      (''scan_idor'', [''seed_auth'', ''scan_auth_flow'']),
      (''scan_business_logic'', [''seed_auth'', ''scan_auth_flow'']),
      (''verify_finding'', [''nuclei'', ''dalfox'', ''sqlmap'', ''scan_idor'', ''scan_auth_flow''])]"

definition deps_of :: "deps \<Rightarrow> string \<Rightarrow> string list" where
  "deps_of T name = (case map_of T name of None \<Rightarrow> [] | Some ds \<Rightarrow> ds)"

lemma deps_of_key: "d \<in> set (deps_of T name) \<Longrightarrow> name \<in> fst ` set T"
  by (cases "map_of T name") (force simp: deps_of_def dest: map_of_SomeD)+

text \<open>
  The closure \<open>compute\<close>, with the memo \<open>level\<close> threaded through and the names on the stack; and
  its loop over the dependencies that are present in the batch.
\<close>

function (sequential)
  compute :: "deps \<Rightarrow> string set \<Rightarrow> string \<Rightarrow> string list \<Rightarrow> (string \<rightharpoonup> int) \<Rightarrow> int \<times> (string \<rightharpoonup> int)"
and
  dep_loop :: "deps \<Rightarrow> string set \<Rightarrow> string \<Rightarrow> string list \<Rightarrow> string list \<Rightarrow> (string \<rightharpoonup> int) \<Rightarrow> int \<Rightarrow>
    int \<times> (string \<rightharpoonup> int)"
where
  "compute T present name stack level =
     (case level name of
        Some l \<Rightarrow> (l, level)
      | None \<Rightarrow>
          if name \<in> set stack then (0, level)
          else let (maxDep, level1) = dep_loop T present name (deps_of T name) stack level (-1);
                   l = maxDep + 1
               in (l, level1(name \<mapsto> l)))"
| "dep_loop T present name [] stack level maxDep = (maxDep, level)"
| "dep_loop T present name (d # ds) stack level maxDep =
     (if d \<noteq> name \<and> d \<in> present \<and> name \<in> fst ` set T - set stack then
        let (dl, level1) = compute T present d (name # stack) level
        in dep_loop T present name ds stack level1 (max dl maxDep)
      else dep_loop T present name ds stack level maxDep)"
  by pat_completeness auto
termination
proof (relation "measures [\<lambda>x. case x of Inl (T, p, n, st, l) \<Rightarrow> 2 * card (fst ` set T - set st) + 1
    | Inr (T, p, n, ds, st, l, m) \<Rightarrow> 2 * card (fst ` set T - set st),
    \<lambda>x. case x of Inl _ \<Rightarrow> 0 | Inr (T, p, n, ds, st, l, m) \<Rightarrow> length ds]", goal_cases)
  case (3 T present name d ds stack level maxDep)
  then have "card (fst ` set T - set (name # stack)) < card (fst ` set T - set stack)"
    by (intro psubset_card_mono) auto
  then show ?case by simp
qed auto

declare compute.simps [simp del] dep_loop.simps(2) [simp del]

text \<open>The last test of the loop is redundant in a call from \<open>compute\<close>, whose name is a key of the
  table (it has a dependency) and not on the stack.\<close>

lemma dep_loop_called:
  assumes "name \<notin> set stack" "d \<in> set (deps_of T name)"
  shows "dep_loop T present name (d # ds) stack level maxDep =
     (if d \<noteq> name \<and> d \<in> present then
        let (dl, level1) = compute T present d (name # stack) level
        in dep_loop T present name ds stack level1 (max dl maxDep)
      else dep_loop T present name ds stack level maxDep)"
  using assms deps_of_key by (auto simp: dep_loop.simps(2))

definition compute_levels :: "deps \<Rightarrow> string set \<Rightarrow> string list \<Rightarrow> (string \<rightharpoonup> int) \<times> int" where
  "compute_levels T present names =
     fold (\<lambda>n (level, maxLevel). let (l, level1) = compute T present n [] level in (level1, max l maxLevel))
       names (Map.empty, 0)"

definition partition_waves :: "deps \<Rightarrow> ('d \<Rightarrow> string) \<Rightarrow> 'd list \<Rightarrow> 'd list list" where
  "partition_waves T tool_name dispatches =
     (if length dispatches \<le> 1 then [dispatches]
      else
        let names = map tool_name dispatches;
            (level, maxLevel) = compute_levels T (set names) names;
            buckets = map (\<lambda>l. filter (\<lambda>d. level (tool_name d) = Some l) dispatches) [0..maxLevel]
        in filter (\<lambda>b. b \<noteq> []) buckets)"

definition partitionWaves :: "('d \<Rightarrow> string) \<Rightarrow> 'd list \<Rightarrow> 'd list list" where
  "partitionWaves tool_name dispatches = partition_waves toolDependencies tool_name dispatches"

section \<open>Levels of an acyclic table\<close>

text \<open>A rank that every dependency lowers.\<close>

definition ranked :: "deps \<Rightarrow> (string \<Rightarrow> nat) \<Rightarrow> bool" where
  "ranked T r \<longleftrightarrow> (\<forall>n. \<forall>d \<in> set (deps_of T n). r d < r n)"

text \<open>
  A memo is right when each level lies just above the highest level of the dependencies in the
  batch, all of which it knows.
\<close>

definition in_batch :: "deps \<Rightarrow> string set \<Rightarrow> string \<Rightarrow> string set" where
  "in_batch T present n = {d \<in> set (deps_of T n). d \<in> present}"

definition level_ok :: "deps \<Rightarrow> string set \<Rightarrow> (string \<rightharpoonup> int) \<Rightarrow> string \<Rightarrow> int \<Rightarrow> bool" where
  "level_ok T present level n l \<longleftrightarrow>
     0 \<le> l \<and>
     (\<forall>d \<in> in_batch T present n. \<exists>k. level d = Some k \<and> k < l) \<and>
     (l = 0 \<or> (\<exists>d \<in> in_batch T present n. level d = Some (l - 1)))"

definition memo_ok :: "deps \<Rightarrow> string set \<Rightarrow> (string \<rightharpoonup> int) \<Rightarrow> bool" where
  "memo_ok T present level \<longleftrightarrow> (\<forall>n l. level n = Some l \<longrightarrow> level_ok T present level n l)"

lemma level_ok_mono: "level_ok T present level n l \<Longrightarrow> level \<subseteq>\<^sub>m level' \<Longrightarrow> level_ok T present level' n l"
  unfolding level_ok_def map_le_def by (metis domI)

lemma memo_ok_upd:
  assumes "memo_ok T present level" "level n = None" "level_ok T present level n l"
  shows "memo_ok T present (level(n \<mapsto> l))"
proof -
  have m: "level \<subseteq>\<^sub>m level(n \<mapsto> l)" using assms(2) by (auto simp: map_le_def)
  show ?thesis
    unfolding memo_ok_def
    using assms level_ok_mono [OF _ m] by (auto simp: memo_ok_def split: if_splits)
qed

text \<open>What the loop has seen so far: the highest level among \<open>D\<close>, the dependencies done.\<close>

definition seen_max :: "(string \<rightharpoonup> int) \<Rightarrow> string set \<Rightarrow> int \<Rightarrow> bool" where
  "seen_max level D m \<longleftrightarrow>
     -1 \<le> m \<and> (\<forall>d \<in> D. \<exists>k. level d = Some k \<and> k \<le> m) \<and> (m = -1 \<or> (\<exists>d \<in> D. level d = Some m))"

lemma seen_max_step:
  assumes "seen_max level D m" "level \<subseteq>\<^sub>m level'" "level' d = Some l" "0 \<le> l"
  shows "seen_max level' (insert d D) (max l m)"
proof -
  have up: "level' e = Some k" if "level e = Some k" for e k
    using assms(2) that by (metis domI map_le_def)
  show ?thesis
    using assms(1,3,4) up unfolding seen_max_def
    by (auto simp: max_def) (force+)?
qed

lemma compute_correct:
  shows "ranked T r \<Longrightarrow> memo_ok T present level \<Longrightarrow> (\<forall>s \<in> set stack. r name < r s) \<Longrightarrow>
      (case compute T present name stack level of (l, level') \<Rightarrow>
        memo_ok T present level' \<and> level \<subseteq>\<^sub>m level' \<and> level' name = Some l \<and>
        (\<forall>n. r name < r n \<longrightarrow> level' n = level n))"
    and "ranked T r \<Longrightarrow> memo_ok T present level \<Longrightarrow> (\<forall>s \<in> set stack. r name < r s) \<Longrightarrow> set ds \<subseteq> set (deps_of T name) \<Longrightarrow>
      seen_max level D maxDep \<Longrightarrow>
      (case dep_loop T present name ds stack level maxDep of (m, level') \<Rightarrow>
        memo_ok T present level' \<and> level \<subseteq>\<^sub>m level' \<and>
        seen_max level' (D \<union> {d \<in> set ds. d \<in> present}) m \<and>
        (\<forall>n. r name \<le> r n \<longrightarrow> level' n = level n))"
proof (induction T present name stack level and T present name ds stack level maxDep
    arbitrary: and D rule: compute_dep_loop.induct)
  case (1 T present name stack level)
  show ?case
  proof (cases "level name")
    case (Some l)
    with "1.prems" show ?thesis by (simp add: compute.simps)
  next
    case None
    have out: "name \<notin> set stack" using "1.prems"(3) by blast
    obtain m level1 where loop: "dep_loop T present name (deps_of T name) stack level (-1) = (m, level1)"
      by fastforce
    have "seen_max level {} (-1)" by (simp add: seen_max_def)
    from "1.IH" [OF None out "1.prems" order_refl this] have
      l1: "memo_ok T present level1" "level \<subseteq>\<^sub>m level1" "seen_max level1 (in_batch T present name) m"
      "\<And>n. r name \<le> r n \<Longrightarrow> level1 n = level n"
      by (simp_all add: loop in_batch_def)
    have "level_ok T present level1 name (m + 1)"
      using l1(3) by (fastforce simp: seen_max_def level_ok_def)
    from memo_ok_upd [OF l1(1) _ this] l1(4) [of name] None
    have "memo_ok T present (level1(name \<mapsto> m + 1))" by simp
    moreover have "level \<subseteq>\<^sub>m level1(name \<mapsto> m + 1)"
      using l1(2) None by (auto simp: map_le_def)
    moreover have "(level1(name \<mapsto> m + 1)) n = level n" if "r name < r n" for n
      using l1(4) [of n] that by auto
    ultimately show ?thesis using None out by (simp add: compute.simps loop Let_def)
  qed
next
  case (2 T present name stack level maxDep)
  then show ?case by simp
next
  case (3 T present name d ds stack level maxDep)
  have d: "d \<in> set (deps_of T name)" and rank: "r d < r name"
    using "3.prems" by (auto simp: ranked_def)
  have out: "name \<notin> set stack" using "3.prems"(3) by blast
  have sub: "set ds \<subseteq> set (deps_of T name)" using "3.prems"(4) by simp
  show ?case
  proof (cases "d \<in> present")
    case True
    then have c: "d \<noteq> name \<and> d \<in> present \<and> name \<in> fst ` set T - set stack"
      using rank out deps_of_key [OF d] by auto
    obtain dl level1 where comp: "compute T present d (name # stack) level = (dl, level1)" by fastforce
    have "\<forall>s \<in> set (name # stack). r d < r s" using rank "3.prems"(3) by auto
    from "3.IH"(1) [OF c "3.prems"(1,2) this] have
      l1: "memo_ok T present level1" "level \<subseteq>\<^sub>m level1" "level1 d = Some dl"
      "\<And>n. r d < r n \<Longrightarrow> level1 n = level n"
      by (simp_all add: comp)
    have "0 \<le> dl" using l1(1,3) by (simp add: memo_ok_def level_ok_def)
    from seen_max_step [OF "3.prems"(5) l1(2,3) this]
    have "seen_max level1 (insert d D) (max dl maxDep)" .
    note IH = "3.IH"(2) [OF c comp [symmetric] refl "3.prems"(1) l1(1) "3.prems"(3) sub this]
    obtain m level2 where loop: "dep_loop T present name ds stack level1 (max dl maxDep) = (m, level2)"
      by fastforce
    have D: "insert d D \<union> {e \<in> set ds. e \<in> present} = D \<union> {e \<in> set (d # ds). e \<in> present}"
      using True by auto
    have l2: "memo_ok T present level2" "level1 \<subseteq>\<^sub>m level2" "seen_max level2 (D \<union> {e \<in> set (d # ds). e \<in> present}) m"
      "\<And>n. r name \<le> r n \<Longrightarrow> level2 n = level1 n"
      using IH unfolding D by (simp_all add: loop)
    have "dep_loop T present name (d # ds) stack level maxDep = (m, level2)"
      using dep_loop_called [OF out d] c by (simp add: comp loop)
    with l2 map_le_trans [OF l1(2) l2(2)] l1(4) rank show ?thesis by simp
  next
    case False
    then have "{e \<in> set (d # ds). e \<in> present} = {e \<in> set ds. e \<in> present}" by auto
    with False "3.IH"(3) [OF _ "3.prems"(1,2,3) sub "3.prems"(5)] show ?thesis
      by (simp add: dep_loop.simps(2))
  qed
qed

lemma compute_levels_correct:
  assumes "ranked T r"
  shows "case compute_levels T present names of (level, maxLevel) \<Rightarrow>
    memo_ok T present level \<and> (\<forall>n \<in> set names. \<exists>l. level n = Some l \<and> l \<le> maxLevel)"
proof -
  have "memo_ok T present (fst st) \<Longrightarrow>
      (case fold (\<lambda>n (level, maxLevel). let (l, level1) = compute T present n [] level in (level1, max l maxLevel))
          ns st of
        (level, maxLevel) \<Rightarrow>
          memo_ok T present level \<and> fst st \<subseteq>\<^sub>m level \<and> snd st \<le> maxLevel \<and>
          (\<forall>n \<in> set ns. \<exists>l. level n = Some l \<and> l \<le> maxLevel))" for ns st
  proof (induction ns arbitrary: st)
    case (Cons n ns)
    obtain level maxLevel where st: "st = (level, maxLevel)" by (cases st)
    obtain l level1 where c: "compute T present n [] level = (l, level1)" by fastforce
    have l1: "memo_ok T present level1" "level \<subseteq>\<^sub>m level1" "level1 n = Some l"
      using compute_correct(1) [OF assms, of present level "[]" n] Cons.prems by (simp_all add: st c)
    from Cons.IH [of "(level1, max l maxLevel)"] l1 show ?case
      by (auto simp: st c split: prod.splits intro: map_le_trans dest: map_le_trans)
        (metis domI map_le_def)
  qed (auto split: prod.split)
  from this [of "(Map.empty, 0)" names] show ?thesis
    by (auto simp: compute_levels_def memo_ok_def split: prod.splits)
qed

section \<open>Waves\<close>

text \<open>The position of a dispatch among the waves is its level, less the empty buckets before it.\<close>

lemma mset_buckets:
  assumes "\<And>d. d \<in> set ds \<Longrightarrow> \<exists>l \<in> set ls. f d = Some l" "distinct ls"
  shows "mset (concat (map (\<lambda>l. filter (\<lambda>d. f d = Some l) ds) ls)) = mset ds"
  using assms(1)
proof (induction ds)
  case Nil
  then show ?case by (induction ls) auto
next
  case (Cons d ds)
  then obtain l where l: "l \<in> set ls" "f d = Some l" by auto
  have split: "mset (concat (map (\<lambda>l. filter (\<lambda>d. f d = Some l) (d # ds)) ks)) =
      mset (concat (map (\<lambda>l. filter (\<lambda>d. f d = Some l) ds) ks)) + (if l \<in> set ks then {#d#} else {#})"
    if "distinct ks" for ks
    using that l(2) by (induction ks) auto
  from split [OF assms(2)] l(1) Cons show ?case by simp
qed

lemma concat_nonempty: "concat (filter (\<lambda>b. b \<noteq> []) bs) = concat bs"
  by (induction bs) auto

text \<open>Every occurrence in one of the listed waves comes before every one in a later wave.\<close>

definition before_waves :: "('d \<Rightarrow> 'd \<Rightarrow> bool) \<Rightarrow> 'd list list \<Rightarrow> bool" where
  "before_waves dep ws \<longleftrightarrow>
     sorted_wrt (\<lambda>v w. \<forall>x \<in> set v. \<forall>y \<in> set w. \<not> dep x y) ws \<and>
     list_all (\<lambda>w. \<forall>x \<in> set w. \<forall>y \<in> set w. \<not> dep x y) ws"

definition needs :: "deps \<Rightarrow> ('d \<Rightarrow> string) \<Rightarrow> 'd \<Rightarrow> 'd \<Rightarrow> bool" where
  "needs T tool_name x y \<longleftrightarrow> tool_name y \<in> set (deps_of T (tool_name x))"

lemma partition_correct:
  assumes "ranked T r"
  shows "mset (concat (partition_waves T tool_name ds)) = mset ds \<and>
    before_waves (needs T tool_name) (partition_waves T tool_name ds)"
proof (cases "length ds \<le> 1")
  case True
  moreover have "\<not> needs T tool_name x x" for x
    using assms by (auto simp: needs_def ranked_def)
  ultimately show ?thesis
    by (cases ds) (auto simp: partition_waves_def before_waves_def)
next
  case False
  obtain level maxLevel where c: "compute_levels T (set (map tool_name ds)) (map tool_name ds) = (level, maxLevel)"
    by fastforce
  have m: "memo_ok T (set (map tool_name ds)) level"
    and known: "\<And>d. d \<in> set ds \<Longrightarrow> \<exists>l. level (tool_name d) = Some l \<and> l \<le> maxLevel"
    using compute_levels_correct [OF assms, of "set (map tool_name ds)" "map tool_name ds", unfolded c]
    by simp_all
  define f where "f = (\<lambda>d. level (tool_name d))"
  define bs where "bs = map (\<lambda>l. filter (\<lambda>d. f d = Some l) ds) [0..maxLevel]"
  have w: "partition_waves T tool_name ds = filter (\<lambda>b. b \<noteq> []) bs"
    using False c by (simp add: partition_waves_def bs_def f_def)
  have nonneg: "0 \<le> l" if "f d = Some l" for d l
    using m that by (simp add: f_def memo_ok_def level_ok_def)
  have lower: "\<exists>k < l. f y = Some k"
    if "needs T tool_name x y" "f x = Some l" "y \<in> set ds" for x y l
    using m that by (fastforce simp: f_def memo_ok_def level_ok_def needs_def in_batch_def)
  have "mset (concat bs) = mset ds"
    unfolding bs_def
    by (rule mset_buckets) (use known nonneg in \<open>fastforce simp: f_def\<close>, simp)
  moreover have "before_waves (needs T tool_name) bs"
    unfolding before_waves_def bs_def sorted_wrt_map list_all_iff
    using lower
    by (auto intro!: sorted_wrt_mono_rel [OF _ sorted_wrt_upto] dest!: lower)
  ultimately show ?thesis
    by (auto simp: w concat_nonempty before_waves_def list_all_iff intro: sorted_wrt_filter)
qed

definition tool_rank :: "string \<Rightarrow> nat" where
  "tool_rank n = (if n = ''verify_finding'' then 2 else if n \<in> fst ` set toolDependencies then 1 else 0)"

lemma tools_ranked: "ranked toolDependencies tool_rank"
proof -
  have "list_all (\<lambda>n. list_all (\<lambda>d. tool_rank d < tool_rank n) (deps_of toolDependencies n))
      (map fst toolDependencies)"
    by code_simp
  then show ?thesis
    using deps_of_key [of _ toolDependencies] by (fastforce simp: ranked_def list_all_iff)
qed

lemma independent_levels:
  assumes "ranked T r" "\<And>x y. x \<in> set ds \<Longrightarrow> y \<in> set ds \<Longrightarrow> \<not> needs T tool_name x y"
  shows "partition_waves T tool_name ds = [ds]"
proof (cases "length ds \<le> 1")
  case False
  obtain level M where c: "compute_levels T (set (map tool_name ds)) (map tool_name ds) = (level, M)"
    by fastforce
  have m: "memo_ok T (set (map tool_name ds)) level"
    and known: "\<And>d. d \<in> set ds \<Longrightarrow> \<exists>l. level (tool_name d) = Some l \<and> l \<le> M"
    using compute_levels_correct [OF assms(1), of "set (map tool_name ds)" "map tool_name ds", unfolded c]
    by simp_all
  have zero: "level (tool_name d) = Some 0" if d: "d \<in> set ds" for d
  proof -
    have "in_batch T (set (map tool_name ds)) (tool_name d) = {}"
      using assms(2) [OF d] by (auto simp: in_batch_def needs_def)
    with m known [OF d] show ?thesis by (auto simp: memo_ok_def level_ok_def)
  qed
  obtain d where d: "d \<in> set ds" using False by (cases ds) auto
  have M: "0 \<le> M" using known [OF d] zero [OF d] by auto
  have ls: "[0..M] = 0 # [1..M]" using M by (simp add: upto_rec1)
  have one: "filter (\<lambda>d. level (tool_name d) = Some 0) ds = ds" using zero by simp
  have rest: "filter (\<lambda>d. level (tool_name d) = Some l) ds = []" if "l \<in> set [1..M]" for l
    using zero that by (auto simp: filter_empty_conv)
  have none: "filter (\<lambda>b. b \<noteq> []) (map (\<lambda>l. filter (\<lambda>d. level (tool_name d) = Some l) ds) [1..M]) = []"
    using rest by (auto simp: filter_empty_conv)
  have "partition_waves T tool_name ds =
      filter (\<lambda>b. b \<noteq> []) (map (\<lambda>l. filter (\<lambda>d. level (tool_name d) = Some l) ds) (0 # [1..M]))"
    using False c by (simp add: partition_waves_def ls)
  also have "\<dots> = [ds]" using False none by (simp add: one) auto
  finally show ?thesis .
qed (simp add: partition_waves_def)

section \<open>Properties\<close>

text \<open>C9: Waves are a safe schedule: every dispatch of the batch is in exactly one wave, and a
  dispatch never stands in the same wave as, or an earlier wave than, one whose tool its own tool
  depends on.\<close>

theorem waves_respect_dependencies:
  "mset (concat (partitionWaves tool_name ds)) = mset ds \<and>
   before_waves (needs toolDependencies tool_name) (partitionWaves tool_name ds)"
  unfolding partitionWaves_def by (rule partition_correct [OF tools_ranked])

text \<open>A batch of independent tools is not slowed down: it stays one wave, in its order.\<close>

theorem independent_batch_is_one_wave:
  assumes "\<And>x y. x \<in> set ds \<Longrightarrow> y \<in> set ds \<Longrightarrow> \<not> needs toolDependencies tool_name x y"
  shows "partitionWaves tool_name ds = [ds]"
  unfolding partitionWaves_def using tools_ranked assms by (rule independent_levels)

theorem independent_batch_is_one_wave_witness:
  "partitionWaves (\<lambda>s. s) [''nuclei'', ''dalfox'', ''nuclei''] = [[''nuclei'', ''dalfox'', ''nuclei'']]"
proof (rule independent_batch_is_one_wave)
  fix x y
  assume "x \<in> set [''nuclei'', ''dalfox'', ''nuclei'']" "y \<in> set [''nuclei'', ''dalfox'', ''nuclei'']"
  moreover have "list_all (\<lambda>x. list_all (\<lambda>y. y \<notin> set (deps_of toolDependencies x)) [''nuclei'', ''dalfox''])
      [''nuclei'', ''dalfox'']"
    by code_simp
  ultimately show "\<not> needs toolDependencies (\<lambda>s. s) x y" by (auto simp: needs_def)
qed

end
