(* ===== verification/CloudIngest.thy ===== *)
theory CloudIngest
  imports CloudGraph
begin

text \<open>
  internal/cloudgraph/ingest.go: the normalized inventory, its assembly into a snapshot
  (\<open>Ingest\<close>), the flow of a data classification to the copies of a store, and the way back
  (\<open>ToInventory\<close>). Reading and decoding the JSON file is I/O. The keys of the node map, which
  \<open>ToInventory\<close> collects and sorts, are an argument: the properties hold for every listing.
\<close>

section \<open>Inventories\<close>

record inv_resource =
  ir_id :: string
  ir_kind :: node_kind
  ir_type :: string
  ir_name :: string
  ir_region :: string
  ir_public :: bool
  ir_sensitive :: sensitivity
  ir_privileged :: bool
  ir_tags :: "string \<rightharpoonup> string"
  ir_image :: string
  ir_keys :: "string list"
  ir_dns :: "string list"

record inv_trust =
  it_principal :: string
  it_role :: string
  it_condition :: string

record inv_pass =
  ip_principal :: string
  ip_role :: string

record inv_grant =
  ig_principal :: string
  ig_resource :: string
  ig_condition :: string

record inv_reach =
  ire_from :: string
  ire_to :: string
  ire_condition :: string

record inv_runs_as =
  ia_compute :: string
  ia_principal :: string

record inv_privesc =
  ie_principal :: string
  ie_target :: string
  ie_detail :: string
  ie_condition :: string

record inv_trigger =
  itr_source :: string
  itr_compute :: string
  itr_condition :: string

record inv_secret =
  is_principal :: string
  is_secret :: string
  is_yields :: string
  is_condition :: string

record inv_copy =
  ic_copy :: string
  ic_source :: string
  ic_detail :: string

record inventory =
  inv_account :: string
  inv_provider :: string
  inv_captured :: int
  inv_resources :: "inv_resource list"
  inv_trusts :: "inv_trust list"
  inv_passes :: "inv_pass list"
  inv_grants :: "inv_grant list"
  inv_reaches :: "inv_reach list"
  inv_runs :: "inv_runs_as list"
  inv_privescs :: "inv_privesc list"
  inv_triggers :: "inv_trigger list"
  inv_secrets :: "inv_secret list"
  inv_copies :: "inv_copy list"

section \<open>Sensitivity\<close>

fun sensRank :: "sensitivity \<Rightarrow> nat" where
  "sensRank SensHigh = 2"
| "sensRank SensLow = 1"
| "sensRank SensNone = 0"

type_synonym node_map = "string \<rightharpoonup> node"

text \<open>One turn of the inner loop, and one pass with its flag \<open>changed\<close>.\<close>

definition raise_copy :: "node_map \<times> bool \<Rightarrow> inv_copy \<Rightarrow> node_map \<times> bool" where
  "raise_copy st c =
     (case (fst st (ic_source c), fst st (ic_copy c)) of
        (Some src, Some dst) \<Rightarrow>
          if sensRank (n_sensitive dst) < sensRank (n_sensitive src)
          then ((fst st)(ic_copy c \<mapsto> dst\<lparr>n_sensitive := n_sensitive src\<rparr>), True) else st
      | _ \<Rightarrow> st)"

fun propagate_passes :: "nat \<Rightarrow> inv_copy list \<Rightarrow> node_map \<Rightarrow> node_map" where
  "propagate_passes 0 copies ns = ns"
| "propagate_passes (Suc left) copies ns =
     (let (ns1, changed) = foldl raise_copy (ns, False) copies
      in if \<not> changed then ns1 else propagate_passes left copies ns1)"

definition propagateSensitivity :: "snapshot \<Rightarrow> inv_copy list \<Rightarrow> snapshot" where
  "propagateSensitivity s copies =
     (if copies = [] then s
      else s\<lparr>s_nodes := propagate_passes (Suc (length copies)) copies (s_nodes s)\<rparr>)"

section \<open>Ingest\<close>

definition ingest_node :: "inv_resource \<Rightarrow> node" where
  "ingest_node r =
     (let a1 = (if ir_image r \<noteq> [] then [''image'' \<mapsto> ir_image r] else Map.empty);
          a2 = (if ir_keys r \<noteq> [] then a1(''access_key_ids'' \<mapsto> join_with '','' (ir_keys r)) else a1);
          a3 = (if ir_dns r \<noteq> [] then a2(''dns_names'' \<mapsto> join_with '','' (ir_dns r)) else a2)
      in \<lparr>n_id = ir_id r, n_kind = ir_kind r, n_type = ir_type r, n_name = ir_name r,
          n_region = ir_region r, n_public = ir_public r, n_sensitive = ir_sensitive r,
          n_privileged = ir_privileged r, n_tags = ir_tags r, n_attrs = a3\<rparr>)"

definition internet_node :: node where
  "internet_node =
     \<lparr>n_id = InternetID, n_kind = KindNetwork, n_type = [], n_name = ''internet'', n_region = [],
      n_public = False, n_sensitive = SensNone, n_privileged = False, n_tags = Map.empty,
      n_attrs = Map.empty\<rparr>"

definition mk_edge :: "string \<Rightarrow> string \<Rightarrow> edge_kind \<Rightarrow> string \<Rightarrow> string \<Rightarrow> edge" where
  "mk_edge u v k cond detail =
     \<lparr>e_from = u, e_to = v, e_kind = k, e_condition = cond, e_detail = detail\<rparr>"

abbreviation trust_edge where "trust_edge t \<equiv> mk_edge (it_principal t) (it_role t) EdgeAssumeRole (it_condition t) []"
abbreviation pass_edge where "pass_edge p \<equiv> mk_edge (ip_principal p) (ip_role p) EdgePassRole [] []"
abbreviation copy_edge where "copy_edge c \<equiv> mk_edge (ic_source c) (ic_copy c) EdgeCopyOf [] (ic_detail c)"
abbreviation grant_edge where "grant_edge g \<equiv> mk_edge (ig_principal g) (ig_resource g) EdgeHasAccess (ig_condition g) []"
abbreviation reach_edge where "reach_edge r \<equiv> mk_edge (ire_from r) (ire_to r) EdgeNetworkReach (ire_condition r) []"
abbreviation runs_edge where "runs_edge r \<equiv> mk_edge (ia_compute r) (ia_principal r) EdgeRunsAs [] []"
abbreviation privesc_edge where "privesc_edge e \<equiv>
  mk_edge (ie_principal e) (ie_target e) EdgePrivesc (ie_condition e) (ie_detail e)"
abbreviation trigger_edge where "trigger_edge t \<equiv>
  mk_edge (itr_source t) (itr_compute t) EdgeTriggers (itr_condition t) []"
abbreviation secret_edge where "secret_edge x \<equiv>
  mk_edge (is_principal x) (is_yields x) EdgeSecretAccess (is_condition x) (''via secret '' @ is_secret x)"

definition Ingest :: "inventory \<Rightarrow> snapshot" where
  "Ingest iv =
     (let s0 = (new_snapshot (inv_account iv) (inv_provider iv))\<lparr>s_captured := inv_captured iv\<rparr>;
          s1 = foldl (\<lambda>s r. AddNode s (Some (ingest_node r))) s0 (inv_resources iv);
          s2 = (if s_nodes s1 InternetID = None then AddNode s1 (Some internet_node) else s1);
          s3 = foldl (\<lambda>s t. AddEdge s (trust_edge t)) s2 (inv_trusts iv);
          s4 = foldl (\<lambda>s p. AddEdge s (pass_edge p)) s3 (inv_passes iv);
          s5 = foldl (\<lambda>s c. AddEdge s (copy_edge c)) s4 (inv_copies iv);
          s6 = propagateSensitivity s5 (inv_copies iv);
          s7 = foldl (\<lambda>s g. AddEdge s (grant_edge g)) s6 (inv_grants iv);
          s8 = foldl (\<lambda>s r. AddEdge s (reach_edge r)) s7 (inv_reaches iv);
          s9 = foldl (\<lambda>s r. AddEdge s (runs_edge r)) s8 (inv_runs iv);
          s10 = foldl (\<lambda>s e. AddEdge s (privesc_edge e)) s9 (inv_privescs iv);
          s11 = foldl (\<lambda>s t. AddEdge s (trigger_edge t)) s10 (inv_triggers iv)
      in foldl (\<lambda>s x. AddEdge s (secret_edge x)) s11 (inv_secrets iv))"

section \<open>And back\<close>

definition splitAttrList :: "string \<Rightarrow> string list" where
  "splitAttrList v =
     (if trim_space v = [] then []
      else filter (\<lambda>p. p \<noteq> []) (map trim_space (split_on (CHR '','') v)))"

definition node_attr :: "node \<Rightarrow> string \<Rightarrow> string" where
  "node_attr n k = (case n_attrs n k of None \<Rightarrow> [] | Some v \<Rightarrow> v)"

definition resource_of :: "node \<Rightarrow> inv_resource" where
  "resource_of n =
     \<lparr>ir_id = n_id n, ir_kind = n_kind n, ir_type = n_type n, ir_name = n_name n,
      ir_region = n_region n, ir_public = n_public n, ir_sensitive = n_sensitive n,
      ir_privileged = n_privileged n, ir_tags = n_tags n, ir_image = node_attr n ''image'',
      ir_keys = splitAttrList (node_attr n ''access_key_ids''),
      ir_dns = splitAttrList (node_attr n ''dns_names'')\<rparr>"

text \<open>The switch over the kinds of the edges, one output list per kind.\<close>

definition of_kind :: "edge_kind \<Rightarrow> (edge \<Rightarrow> 'a) \<Rightarrow> edge list \<Rightarrow> 'a list" where
  "of_kind k f es = map f (filter (\<lambda>e. e_kind e = k) es)"

definition ToInventory :: "string list \<Rightarrow> snapshot \<Rightarrow> inventory" where
  "ToInventory keys s =
     \<lparr>inv_account = s_account s, inv_provider = s_provider s, inv_captured = s_captured s,
      inv_resources = map (\<lambda>k. resource_of (the (s_nodes s k))) (sort_by str_less keys),
      inv_trusts = of_kind EdgeAssumeRole
        (\<lambda>e. \<lparr>it_principal = e_from e, it_role = e_to e, it_condition = e_condition e\<rparr>) (s_edges s),
      inv_passes = of_kind EdgePassRole (\<lambda>e. \<lparr>ip_principal = e_from e, ip_role = e_to e\<rparr>) (s_edges s),
      inv_grants = of_kind EdgeHasAccess
        (\<lambda>e. \<lparr>ig_principal = e_from e, ig_resource = e_to e, ig_condition = e_condition e\<rparr>) (s_edges s),
      inv_reaches = of_kind EdgeNetworkReach
        (\<lambda>e. \<lparr>ire_from = e_from e, ire_to = e_to e, ire_condition = e_condition e\<rparr>) (s_edges s),
      inv_runs = of_kind EdgeRunsAs (\<lambda>e. \<lparr>ia_compute = e_from e, ia_principal = e_to e\<rparr>) (s_edges s),
      inv_privescs = of_kind EdgePrivesc
        (\<lambda>e. \<lparr>ie_principal = e_from e, ie_target = e_to e, ie_detail = e_detail e,
              ie_condition = e_condition e\<rparr>) (s_edges s),
      inv_triggers = of_kind EdgeTriggers
        (\<lambda>e. \<lparr>itr_source = e_from e, itr_compute = e_to e, itr_condition = e_condition e\<rparr>) (s_edges s),
      inv_secrets = of_kind EdgeSecretAccess
        (\<lambda>e. \<lparr>is_principal = e_from e, is_secret = trim_prefix (e_detail e) ''via secret '',
              is_yields = e_to e, is_condition = e_condition e\<rparr>) (s_edges s),
      inv_copies = []\<rparr>"

section \<open>The flow of sensitivity\<close>

definition sens_at :: "node_map \<Rightarrow> string \<Rightarrow> nat" where
  "sens_at ns v = (case ns v of None \<Rightarrow> 0 | Some n \<Rightarrow> sensRank (n_sensitive n))"

text \<open>The asserted copies both ends of which are known.\<close>

definition lineage :: "node_map \<Rightarrow> inv_copy list \<Rightarrow> (string \<times> string) set" where
  "lineage ns copies =
     {(ic_source c, ic_copy c) | c. c \<in> set copies \<and> ns (ic_source c) \<noteq> None \<and> ns (ic_copy c) \<noteq> None}"

text \<open>Everything about a node but its classification.\<close>

definition unclassified :: "node_map \<Rightarrow> string \<Rightarrow> node option" where
  "unclassified ns v = map_option (\<lambda>n. n\<lparr>n_sensitive := SensNone\<rparr>) (ns v)"

lemma unclassified_known: "unclassified ns = unclassified ms \<Longrightarrow> ns v = None \<longleftrightarrow> ms v = None"
  by (metis unclassified_def option.map_disc_iff)

lemma lineage_cong: "unclassified ns = unclassified ms \<Longrightarrow> lineage ns copies = lineage ms copies"
proof -
  assume "unclassified ns = unclassified ms"
  then have "ns v = None \<longleftrightarrow> ms v = None" for v by (rule unclassified_known)
  then show ?thesis by (simp add: lineage_def)
qed

lemma finite_lineage: "finite (lineage ns copies)" and card_lineage: "card (lineage ns copies) \<le> length copies"
proof -
  have sub: "lineage ns copies \<subseteq> (\<lambda>c. (ic_source c, ic_copy c)) ` set copies"
    by (auto simp: lineage_def)
  then show "finite (lineage ns copies)" by (rule finite_subset) simp
  from sub have "card (lineage ns copies) \<le> card ((\<lambda>c. (ic_source c, ic_copy c)) ` set copies)"
    by (rule card_mono [rotated]) simp
  also have "\<dots> \<le> length copies" using card_image_le [of "set copies"] card_length [of copies] le_trans by blast
  finally show "card (lineage ns copies) \<le> length copies" .
qed

text \<open>
  \<open>ms\<close> comes from \<open>ns\<close> by raising classifications along the pairs of \<open>L\<close>, at least once along each:
  nothing is lowered, and nothing rises above a bound that respects \<open>L\<close>.
\<close>

definition raised :: "node_map \<Rightarrow> (string \<times> string) set \<Rightarrow> node_map \<Rightarrow> bool" where
  "raised ns L ms \<longleftrightarrow>
     unclassified ms = unclassified ns \<and> (\<forall>v. sens_at ns v \<le> sens_at ms v) \<and>
     (\<forall>u w. (u, w) \<in> L \<longrightarrow> sens_at ns u \<le> sens_at ms w) \<and>
     (\<forall>B. (\<forall>u. sens_at ns u \<le> B u) \<longrightarrow> (\<forall>u w. (u, w) \<in> L \<longrightarrow> B u \<le> B w) \<longrightarrow>
        (\<forall>v. sens_at ms v \<le> (B v :: nat)))"

lemma raised_lineage: "raised ns L ms \<Longrightarrow> lineage ms copies = lineage ns copies"
  by (rule lineage_cong) (simp add: raised_def)

lemma raised_refl: "raised ns {} ns"
  by (simp add: raised_def)

lemma raised_trans:
  assumes "raised ns L ms" "raised ms M ks"
  shows "raised ns (L \<union> M) ks"
proof -
  have 1: "sens_at ns v \<le> sens_at ms v" "sens_at ms v \<le> sens_at ks v" for v
    using assms by (simp_all add: raised_def)
  have "sens_at ns u \<le> sens_at ks w" if "(u, w) \<in> L \<union> M" for u w
    using that assms 1 [of u] 1 [of w] le_trans unfolding raised_def by blast
  moreover have "sens_at ks v \<le> B v"
    if "\<forall>u. sens_at ns u \<le> B u" "\<forall>u w. (u, w) \<in> L \<union> M \<longrightarrow> B u \<le> B w" for B :: "string \<Rightarrow> nat" and v
    using that assms unfolding raised_def by simp
  moreover have "sens_at ns v \<le> sens_at ks v" for v using 1 le_trans by blast
  ultimately show ?thesis using assms by (simp add: raised_def)
qed

lemma raised_one: "raised ns (lineage ns [c]) (fst (raise_copy (ns, ch) c))"
proof (cases "ns (ic_source c)")
  case None
  then show ?thesis using raised_refl by (simp add: raise_copy_def lineage_def)
next
  case src: (Some src)
  show ?thesis
  proof (cases "ns (ic_copy c)")
    case None
    then show ?thesis using src raised_refl by (simp add: raise_copy_def lineage_def)
  next
    case dst: (Some dst)
    have L: "lineage ns [c] = {(ic_source c, ic_copy c)}" using src dst by (simp add: lineage_def)
    show ?thesis
    proof (cases "sensRank (n_sensitive dst) < sensRank (n_sensitive src)")
      case True
      let ?ms = "ns(ic_copy c \<mapsto> dst\<lparr>n_sensitive := n_sensitive src\<rparr>)"
      have at: "sens_at ?ms v = (if v = ic_copy c then sens_at ns (ic_source c) else sens_at ns v)" for v
        using src by (simp add: sens_at_def)
      have lt: "sens_at ns (ic_copy c) < sens_at ns (ic_source c)"
        using True src dst by (simp add: sens_at_def)
      have "unclassified ?ms = unclassified ns" using dst by (auto simp: unclassified_def)
      moreover have "\<forall>v. sens_at ?ms v \<le> B v"
        if "\<forall>u. sens_at ns u \<le> B u" "B (ic_source c) \<le> B (ic_copy c)" for B :: "string \<Rightarrow> nat"
        unfolding at using that by (auto intro: le_trans [of _ "B (ic_source c)"])
      ultimately have "raised ns {(ic_source c, ic_copy c)} ?ms"
        using lt by (simp add: raised_def at)
      with True src dst show ?thesis by (simp add: raise_copy_def L)
    next
      case False
      then have "sens_at ns (ic_source c) \<le> sens_at ns (ic_copy c)" using src dst by (simp add: sens_at_def)
      with False src dst show ?thesis by (simp add: raise_copy_def L raised_def)
    qed
  qed
qed

lemma raised_pass: "raised ns (lineage ns copies) (fst (foldl raise_copy (ns, ch) copies))"
proof (induction copies arbitrary: ns ch)
  case Nil
  then show ?case using raised_refl by (simp add: lineage_def)
next
  case (Cons c copies)
  obtain ms ch1 where r: "raise_copy (ns, ch) c = (ms, ch1)" by fastforce
  have 1: "raised ns (lineage ns [c]) ms" using raised_one [of ns c ch] r by simp
  then have "lineage ms copies = lineage ns copies" by (rule raised_lineage)
  with raised_trans [OF 1 Cons.IH [of ms ch1]]
  have "raised ns (lineage ns [c] \<union> lineage ns copies) (fst (foldl raise_copy (ns, ch) (c # copies)))"
    by (simp add: r)
  moreover have "lineage ns (c # copies) = lineage ns [c] \<union> lineage ns copies"
    by (auto simp: lineage_def)
  ultimately show ?case by simp
qed

lemma pass_unchanged: "\<not> snd (foldl raise_copy (ns, ch) copies) \<Longrightarrow> fst (foldl raise_copy (ns, ch) copies) = ns \<and> \<not> ch"
proof (induction copies arbitrary: ns ch)
  case (Cons c copies)
  have "\<not> ch1 \<Longrightarrow> ms = ns \<and> \<not> ch" if "raise_copy (ns, ch) c = (ms, ch1)" for ms ch1
    using that by (auto simp: raise_copy_def split: option.splits if_splits)
  with Cons show ?case by (cases "raise_copy (ns, ch) c") auto
qed simp

text \<open>One pass: either it is the last, and the map is a fixed point, or the passes go on.\<close>

lemma propagate_step:
  obtains ms where "raised ns (lineage ns copies) ms" "lineage ms copies = lineage ns copies"
    and "propagate_passes (Suc k) copies ns = propagate_passes k copies ms \<or>
         propagate_passes (Suc k) copies ns = ns \<and> ms = ns"
proof -
  obtain ms ch where r: "foldl raise_copy (ns, False) copies = (ms, ch)" by fastforce
  have p: "raised ns (lineage ns copies) ms" using raised_pass [of ns copies False] r by simp
  have "propagate_passes (Suc k) copies ns = (if \<not> ch then ms else propagate_passes k copies ms)"
    by (simp add: r)
  moreover have "\<not> ch \<Longrightarrow> ms = ns" using pass_unchanged [of ns False copies] r by simp
  ultimately show thesis using that [OF p raised_lineage [OF p]] by (cases ch) auto
qed

lemma propagate_unclassified: "unclassified (propagate_passes k copies ns) = unclassified ns"
proof (induction k arbitrary: ns)
  case (Suc k)
  obtain ms where "raised ns (lineage ns copies) ms"
    and "propagate_passes (Suc k) copies ns = propagate_passes k copies ms \<or>
         propagate_passes (Suc k) copies ns = ns \<and> ms = ns"
    by (rule propagate_step)
  then show ?case using Suc.IH [of ms] by (auto simp: raised_def)
qed simp

lemma propagate_bounded:
  assumes "\<forall>u. sens_at ns u \<le> B u" and "\<forall>u w. (u, w) \<in> lineage ns copies \<longrightarrow> B u \<le> (B w :: nat)"
  shows "sens_at (propagate_passes k copies ns) v \<le> B v"
  using assms
proof (induction k arbitrary: ns)
  case (Suc k)
  obtain ms where p: "raised ns (lineage ns copies) ms" and l: "lineage ms copies = lineage ns copies"
    and d: "propagate_passes (Suc k) copies ns = propagate_passes k copies ms \<or>
         propagate_passes (Suc k) copies ns = ns \<and> ms = ns"
    by (rule propagate_step)
  from p Suc.prems have "\<forall>u. sens_at ms u \<le> B u" unfolding raised_def by blast
  with Suc.IH [of ms] Suc.prems l have "sens_at (propagate_passes k copies ms) v \<le> B v" by simp
  with d Suc.prems show ?case by (metis)
qed simp

text \<open>After \<open>k\<close> passes every classification has flowed along all chains of \<open>k\<close> copies.\<close>

lemma propagate_flows:
  assumes "j \<le> k" and "(u, v) \<in> lineage ns copies ^^ j"
  shows "sens_at ns u \<le> sens_at (propagate_passes k copies ns) v"
  using assms
proof (induction k arbitrary: ns j u)
  case (Suc k)
  let ?L = "lineage ns copies"
  obtain ms where p: "raised ns ?L ms" and l: "lineage ms copies = ?L"
    and d: "propagate_passes (Suc k) copies ns = propagate_passes k copies ms \<or>
         propagate_passes (Suc k) copies ns = ns \<and> ms = ns"
    by (rule propagate_step)
  have step: "\<exists>w i. i \<le> k \<and> (w, v) \<in> ?L ^^ i \<and> sens_at ns u \<le> sens_at ms w"
  proof (cases j)
    case 0
    then have "u = v" using Suc.prems by simp
    then have "(v, v) \<in> ?L ^^ 0" "sens_at ns u \<le> sens_at ms v" using p by (simp_all add: raised_def)
    then show ?thesis by blast
  next
    case (Suc i)
    then obtain w where w: "(u, w) \<in> ?L" "(w, v) \<in> ?L ^^ i"
      using \<open>(u, v) \<in> ?L ^^ j\<close> relpow_Suc_D2 by metis
    then have "sens_at ns u \<le> sens_at ms w" using p by (simp add: raised_def)
    with w Suc \<open>j \<le> _\<close> show ?thesis by auto
  qed
  show ?case
  proof (cases "ms = ns \<and> propagate_passes (Suc k) copies ns = ns")
    case True
    then have mono: "sens_at ns a \<le> sens_at ns b" if "(a, b) \<in> ?L" for a b
      using that p by (simp add: raised_def)
    have "sens_at ns u \<le> sens_at ns v" if "(u, v) \<in> ?L ^^ i" for i u v
      using that by (induction i arbitrary: v) (auto intro: le_trans [OF _ mono])
    with True Suc.prems show ?thesis by simp
  next
    case False
    with d have eq: "propagate_passes (Suc k) copies ns = propagate_passes k copies ms" by blast
    from step obtain w i where "i \<le> k" "(w, v) \<in> ?L ^^ i" "sens_at ns u \<le> sens_at ms w" by blast
    with Suc.IH [of i w ms] l show ?thesis unfolding eq by simp
  qed
qed simp

text \<open>One pass more than there are copies is enough: a chain of copies has a shortcut no longer.\<close>

lemma propagate_closure:
  "sens_at (propagate_passes (Suc (length copies)) copies ns) v =
     Max (sens_at ns ` {u. (u, v) \<in> (lineage ns copies)\<^sup>*})"
proof -
  let ?L = "lineage ns copies" and ?r = "propagate_passes (Suc (length copies)) copies ns"
  let ?S = "\<lambda>v. sens_at ns ` {u. (u, v) \<in> ?L\<^sup>*}"
  have "{u. (u, v) \<in> ?L\<^sup>*} \<subseteq> insert v (Domain ?L)" for v
  proof
    fix u assume "u \<in> {u. (u, v) \<in> ?L\<^sup>*}"
    then have "(u, v) \<in> ?L\<^sup>*" by simp
    then show "u \<in> insert v (Domain ?L)" by (cases rule: converse_rtranclE) auto
  qed
  then have fin: "finite (?S v)" for v
    using finite_lineage [of ns copies] by (intro finite_imageI) (auto intro: finite_subset finite_Domain)
  have low: "sens_at ns u \<le> sens_at ?r v" if "(u, v) \<in> ?L\<^sup>*" for u
  proof -
    from that obtain j where "j \<le> card ?L" "(u, v) \<in> ?L ^^ j"
      using rtrancl_finite_eq_relpow [OF finite_lineage [of ns copies]] by auto
    with card_lineage [of ns copies] have "j \<le> Suc (length copies)" by simp
    then show ?thesis using \<open>(u, v) \<in> ?L ^^ j\<close> by (rule propagate_flows)
  qed
  have "sens_at ?r v \<le> Max (?S v)"
  proof -
    have "sens_at ns u \<le> Max (?S u)" for u by (rule Max_ge [OF fin]) auto
    moreover have "Max (?S u) \<le> Max (?S w)" if "(u, w) \<in> ?L" for u w
    proof (rule Max_mono)
      show "?S u \<subseteq> ?S w" using that by (auto intro: rtrancl_into_rtrancl)
      show "?S u \<noteq> {}" by auto
    qed (rule fin)
    ultimately show ?thesis by (intro propagate_bounded [of _ "\<lambda>v. Max (?S v)"]) blast+
  qed
  moreover have "Max (?S v) \<le> sens_at ?r v"
    using low fin [of v] by (subst Max_le_iff) auto
  ultimately show ?thesis by (rule antisym)
qed

section \<open>The ingested graph\<close>

lemma fold_AddEdge [simp]:
  "foldl (\<lambda>s x. AddEdge s (f x)) s xs = s\<lparr>s_edges := s_edges s @ map f xs\<rparr>"
  by (induction xs arbitrary: s) (simp_all add: AddEdge_def)

lemma propagate_simps [simp]:
  "s_edges (propagateSensitivity s copies) = s_edges s"
  "s_account (propagateSensitivity s copies) = s_account s"
  "s_provider (propagateSensitivity s copies) = s_provider s"
  "s_captured (propagateSensitivity s copies) = s_captured s"
  by (simp_all add: propagateSensitivity_def)

lemma AddNode_simps [simp]:
  "s_edges (AddNode s n) = s_edges s" "s_account (AddNode s n) = s_account s"
  "s_provider (AddNode s n) = s_provider s" "s_captured (AddNode s n) = s_captured s"
  by (auto simp: AddNode_def split: option.splits)

lemma fold_AddNode_simps [simp]:
  "s_edges (foldl (\<lambda>s r. AddNode s (Some (f r))) s rs) = s_edges s"
  "s_account (foldl (\<lambda>s r. AddNode s (Some (f r))) s rs) = s_account s"
  "s_provider (foldl (\<lambda>s r. AddNode s (Some (f r))) s rs) = s_provider s"
  "s_captured (foldl (\<lambda>s r. AddNode s (Some (f r))) s rs) = s_captured s"
  by (induction rs arbitrary: s) simp_all

text \<open>The nodes before the flow of sensitivity, and all edges in the order they are added.\<close>

definition inventory_nodes :: "inventory \<Rightarrow> node_map" where
  "inventory_nodes iv =
     (let ns = s_nodes (foldl (\<lambda>s r. AddNode s (Some (ingest_node r))) (new_snapshot [] []) (inv_resources iv))
      in if ns InternetID = None then ns(InternetID \<mapsto> internet_node) else ns)"

definition inventory_edges :: "inventory \<Rightarrow> edge list" where
  "inventory_edges iv =
     map trust_edge (inv_trusts iv) @ map pass_edge (inv_passes iv) @ map copy_edge (inv_copies iv) @
     map grant_edge (inv_grants iv) @ map reach_edge (inv_reaches iv) @ map runs_edge (inv_runs iv) @
     map privesc_edge (inv_privescs iv) @ map trigger_edge (inv_triggers iv) @
     map secret_edge (inv_secrets iv)"

lemma AddNode_nodes: "s_nodes s = s_nodes t \<Longrightarrow> s_nodes (AddNode s n) = s_nodes (AddNode t n)"
  by (auto simp: AddNode_def split: option.splits)

lemma fold_AddNode_nodes:
  "s_nodes s = s_nodes t \<Longrightarrow>
    s_nodes (foldl (\<lambda>s r. AddNode s (Some (f r))) s rs) = s_nodes (foldl (\<lambda>s r. AddNode s (Some (f r))) t rs)"
proof (induction rs arbitrary: s t)
  case (Cons r rs)
  show ?case using Cons.IH [OF AddNode_nodes [OF Cons.prems, of "Some (f r)"]] by simp
qed simp

lemma Ingest_eq:
  "s_edges (Ingest iv) = inventory_edges iv"
  "s_nodes (Ingest iv) = s_nodes (propagateSensitivity
     ((new_snapshot [] [])\<lparr>s_nodes := inventory_nodes iv\<rparr>) (inv_copies iv))"
  "s_account (Ingest iv) = inv_account iv" "s_provider (Ingest iv) = inv_provider iv"
  "s_captured (Ingest iv) = inv_captured iv"
proof -
  have "s_nodes (foldl (\<lambda>s r. AddNode s (Some (ingest_node r)))
        ((new_snapshot (inv_account iv) (inv_provider iv))\<lparr>s_captured := inv_captured iv\<rparr>) (inv_resources iv)) =
      s_nodes (foldl (\<lambda>s r. AddNode s (Some (ingest_node r))) (new_snapshot [] []) (inv_resources iv))"
    by (rule fold_AddNode_nodes) (simp add: new_snapshot_def)
  then show "s_nodes (Ingest iv) = s_nodes (propagateSensitivity
     ((new_snapshot [] [])\<lparr>s_nodes := inventory_nodes iv\<rparr>) (inv_copies iv))"
    by (simp add: Ingest_def Let_def propagateSensitivity_def inventory_nodes_def AddNode_def internet_node_def InternetID_def)
qed (simp_all add: Ingest_def Let_def inventory_edges_def new_snapshot_def)

section \<open>Properties\<close>

text \<open>C13: \<open>propagateSensitivity\<close> computes the closure of the asserted lineage, cycles included, within its
  bound of one pass more than there are copies: the classification of a node becomes the highest of
  the sources it is copied from, directly or not, itself included. It keeps everything else.
\<close>

theorem sensitivity_flows_to_copies:
  "sens_at (s_nodes (propagateSensitivity s copies)) v =
     Max (sens_at (s_nodes s) ` {u. (u, v) \<in> (lineage (s_nodes s) copies)\<^sup>*}) \<and>
   unclassified (s_nodes (propagateSensitivity s copies)) = unclassified (s_nodes s) \<and>
   s_edges (propagateSensitivity s copies) = s_edges s"
proof (cases "copies = []")
  case True
  then have "lineage (s_nodes s) copies = {}" by (simp add: lineage_def)
  then show ?thesis using True by (simp add: propagateSensitivity_def)
next
  case False
  then have "s_nodes (propagateSensitivity s copies) =
      propagate_passes (Suc (length copies)) copies (s_nodes s)"
    by (simp add: propagateSensitivity_def)
  then show ?thesis
    by (simp only: propagate_closure propagate_unclassified propagate_simps simp_thms)
qed

subsection \<open>The order of classifications\<close>

text \<open>Classifications are ordered by their rank; a pass of the propagation never lowers one.\<close>

lemma sensRank_inject: "sensRank a = sensRank b \<longleftrightarrow> a = b"
  by (cases a; cases b) simp_all

instantiation sensitivity :: linorder
begin

definition less_eq_sensitivity :: "sensitivity \<Rightarrow> sensitivity \<Rightarrow> bool" where
  "less_eq_sensitivity a b \<longleftrightarrow> sensRank a \<le> sensRank b"

definition less_sensitivity :: "sensitivity \<Rightarrow> sensitivity \<Rightarrow> bool" where
  "less_sensitivity a b \<longleftrightarrow> sensRank a < sensRank b"

instance
  by standard (auto simp: less_eq_sensitivity_def less_sensitivity_def sensRank_inject)

end

lemma propagation_never_lowers:
  assumes "s_nodes s v = Some n" "s_nodes (propagateSensitivity s copies) v = Some n'"
  shows "n_sensitive n \<le> n_sensitive n'"
proof (cases "copies = []")
  case True
  then show ?thesis using assms by (simp add: propagateSensitivity_def)
next
  case False
  then have p: "s_nodes (propagateSensitivity s copies) = propagate_passes (Suc (length copies)) copies (s_nodes s)"
    by (simp add: propagateSensitivity_def)
  let ?S = "sens_at (s_nodes s) ` {u. (u, v) \<in> (lineage (s_nodes s) copies)\<^sup>*}"
  have "sensRank x \<le> 2" for x by (cases x) simp_all
  then have "?S \<subseteq> {..2}" by (auto simp: sens_at_def split: option.splits)
  then have "finite ?S" by (rule finite_subset) simp
  then have "sens_at (s_nodes s) v \<le> Max ?S" by (rule Max_ge) auto
  also have "\<dots> = sens_at (s_nodes (propagateSensitivity s copies)) v" unfolding p by (rule propagate_closure [symmetric])
  finally show ?thesis using assms by (simp add: less_eq_sensitivity_def sens_at_def)
qed

subsection \<open>The way back\<close>

lemma split_on_plain: "c \<notin> set x \<Longrightarrow> split_on c x = [x]"
  by (induction x) auto

lemma split_on_field: "c \<notin> set x \<Longrightarrow> split_on c (x @ c # y) = x # split_on c y"
  by (induction x) auto

lemma split_join: "xs \<noteq> [] \<Longrightarrow> \<forall>x \<in> set xs. c \<notin> set x \<Longrightarrow> split_on c (join_with [c] xs) = xs"
  by (induction "[c]" xs rule: join_with.induct) (auto simp: split_on_plain split_on_field)

text \<open>A value that survives the comma-joined attribute: not blank, trimmed, without a comma.\<close>

definition attr_value :: "string \<Rightarrow> bool" where
  "attr_value v \<longleftrightarrow> v \<noteq> [] \<and> trim_space v = v \<and> CHR '','' \<notin> set v"

definition well_formed :: "inv_resource \<Rightarrow> bool" where
  "well_formed r \<longleftrightarrow> list_all attr_value (ir_keys r) \<and> list_all attr_value (ir_dns r)"

lemma trim_space_Nil: "trim_space x = [] \<longleftrightarrow> (\<forall>c \<in> set x. is_space c)"
proof -
  have "trim_space x = [] \<longleftrightarrow> (\<forall>c \<in> set (dropWhile is_space x). is_space c)"
    by (simp add: trim_space_def dropWhile_eq_Nil_conv)
  moreover have "(\<forall>c \<in> set (dropWhile is_space x). is_space c) \<longleftrightarrow> (\<forall>c \<in> set x. is_space c)"
    by (induction x) auto
  ultimately show ?thesis by simp
qed

lemma attr_value_visible: "attr_value v \<Longrightarrow> \<exists>c \<in> set v. \<not> is_space c"
  using trim_space_Nil [of v] by (auto simp: attr_value_def)

lemma set_join: "v \<in> set xs \<Longrightarrow> set v \<subseteq> set (join_with sep xs)"
  by (induction sep xs rule: join_with.induct) auto

lemma splitAttrList_join:
  assumes "list_all attr_value vs"
  shows "splitAttrList (join_with '','' vs) = vs"
proof (cases "vs = []")
  case True
  then show ?thesis by (simp add: splitAttrList_def trim_space_Nil)
next
  case False
  then have "hd vs \<in> set vs" by simp
  then have "\<exists>c \<in> set (hd vs). \<not> is_space c" "set (hd vs) \<subseteq> set (join_with '','' vs)"
    using assms by (simp_all add: attr_value_visible set_join list_all_iff)
  then have "trim_space (join_with '','' vs) \<noteq> []" by (auto simp: trim_space_Nil)
  moreover have "split_on (CHR '','') (join_with '','' vs) = vs"
    using assms False by (intro split_join) (auto simp: list_all_iff attr_value_def)
  moreover have "map trim_space vs = vs" "filter (\<lambda>p. p \<noteq> []) vs = vs"
    using assms by (induction vs) (auto simp: attr_value_def)
  ultimately show ?thesis by (simp add: splitAttrList_def)
qed

text \<open>A node that an export and an import leave as it is.\<close>

definition canonical :: "node \<Rightarrow> bool" where
  "canonical n \<longleftrightarrow> ingest_node (resource_of n) = n"

lemma resource_of_ingest_node: "well_formed r \<Longrightarrow> resource_of (ingest_node r) = r"
  by (simp add: resource_of_def ingest_node_def Let_def node_attr_def splitAttrList_join [of "[]", simplified]
      splitAttrList_join well_formed_def)

lemma canonical_ingest: "well_formed r \<Longrightarrow> canonical (ingest_node r)"
  by (simp add: canonical_def resource_of_ingest_node)

lemma canonical_internet: "canonical internet_node"
  by (simp add: canonical_def resource_of_def internet_node_def ingest_node_def node_attr_def
      splitAttrList_join [of "[]", simplified])

lemma canonical_unclassified: "canonical (n\<lparr>n_sensitive := x\<rparr>) \<longleftrightarrow> canonical n"
  by (cases n) (simp add: canonical_def resource_of_def ingest_node_def Let_def node_attr_def)

text \<open>What holds of every node and its key in an ingested graph.\<close>

definition sound_nodes :: "node_map \<Rightarrow> bool" where
  "sound_nodes ns \<longleftrightarrow> (\<forall>k n. ns k = Some n \<longrightarrow> n_id n = k \<and> k \<noteq> [] \<and> canonical n)"

lemma sound_unclassified:
  assumes "unclassified ns = unclassified ms" "sound_nodes ns"
  shows "sound_nodes ms"
  unfolding sound_nodes_def
proof (intro allI impI)
  fix k m assume m: "ms k = Some m"
  then obtain n where n: "ns k = Some n" "n\<lparr>n_sensitive := SensNone\<rparr> = m\<lparr>n_sensitive := SensNone\<rparr>"
    using fun_cong [OF assms(1), of k] by (auto simp: unclassified_def)
  then have "canonical n = canonical m" "n_id n = n_id m"
    using canonical_unclassified [of SensNone n] canonical_unclassified [of SensNone m]
    by (simp, cases n, cases m, simp)
  with n assms(2) show "n_id m = k \<and> k \<noteq> [] \<and> canonical m" by (auto simp: sound_nodes_def)
qed

lemma sound_AddNode:
  "sound_nodes (s_nodes s) \<Longrightarrow> canonical n \<Longrightarrow> sound_nodes (s_nodes (AddNode s (Some n)))"
  by (auto simp: AddNode_def sound_nodes_def)

lemma sound_fold:
  "sound_nodes (s_nodes s) \<Longrightarrow> \<forall>r \<in> set rs. canonical (f r) \<Longrightarrow>
    sound_nodes (s_nodes (foldl (\<lambda>s r. AddNode s (Some (f r))) s rs))"
  by (induction rs arbitrary: s) (simp_all add: sound_AddNode)

lemma of_kind_simps [simp]:
  "of_kind k f [] = []"
  "of_kind k f (xs @ ys) = of_kind k f xs @ of_kind k f ys"
  "of_kind k f (map (\<lambda>x. mk_edge (a x) (b x) k' (c x) (d x)) zs) =
     (if k' = k then map (\<lambda>x. f (mk_edge (a x) (b x) k' (c x) (d x))) zs else [])"
  by (simp_all add: of_kind_def mk_edge_def filter_map comp_def)

lemma trim_prefix_append [simp]: "trim_prefix (p @ x) p = x"
  by (simp add: trim_prefix_def)

lemma ToInventory_edges:
  assumes "s_edges s = inventory_edges iv"
  shows "inventory_edges (ToInventory keys s) = filter (\<lambda>e. e_kind e \<noteq> EdgeCopyOf) (inventory_edges iv)"
proof -
  have "inventory_edges (ToInventory keys s) =
     map trust_edge (inv_trusts iv) @ map pass_edge (inv_passes iv) @
     map grant_edge (inv_grants iv) @ map reach_edge (inv_reaches iv) @ map runs_edge (inv_runs iv) @
     map privesc_edge (inv_privescs iv) @ map trigger_edge (inv_triggers iv) @
     map secret_edge (inv_secrets iv)"
    unfolding inventory_edges_def ToInventory_def assms
    by (simp add: comp_def) (simp add: mk_edge_def trim_prefix_append [of "''via secret ''", simplified])
  also have "\<dots> = filter (\<lambda>e. e_kind e \<noteq> EdgeCopyOf) (inventory_edges iv)"
    by (simp add: inventory_edges_def filter_map comp_def mk_edge_def)
  finally show ?thesis .
qed

lemma fold_exported:
  assumes "sound_nodes ns" "set ks \<subseteq> dom ns"
  shows "s_nodes (foldl (\<lambda>s r. AddNode s (Some (ingest_node r))) s (map (\<lambda>k. resource_of (the (ns k))) ks)) =
    s_nodes s ++ (ns |` set ks)"
  using assms(2)
proof (induction ks arbitrary: s)
  case (Cons k ks)
  then obtain n where n: "ns k = Some n" by auto
  with assms(1) have "ingest_node (resource_of n) = n" "n_id n = k" "k \<noteq> []"
    by (auto simp: sound_nodes_def canonical_def)
  moreover have "(m(k \<mapsto> n)) ++ (ns |` set ks) = m ++ (ns |` insert k (set ks))" for m
    using n by (auto simp: fun_eq_iff map_add_def restrict_map_def split: option.splits)
  ultimately show ?case using Cons n by (simp add: AddNode_def)
qed simp

lemma sound_inventory:
  assumes "\<forall>r \<in> set (inv_resources iv). well_formed r"
  shows "sound_nodes (inventory_nodes iv)"
proof -
  have "sound_nodes (s_nodes (foldl (\<lambda>s r. AddNode s (Some (ingest_node r))) (new_snapshot [] []) (inv_resources iv)))"
    using assms by (intro sound_fold) (auto simp: canonical_ingest sound_nodes_def new_snapshot_def)
  then show ?thesis
    using canonical_internet by (simp add: inventory_nodes_def Let_def sound_nodes_def internet_node_def InternetID_def)
qed

lemma unclassified_Ingest: "unclassified (s_nodes (Ingest iv)) = unclassified (inventory_nodes iv)"
  by (cases "inv_copies iv = []") (simp_all add: Ingest_eq propagateSensitivity_def propagate_unclassified
    del: propagate_passes.simps)

lemma sound_Ingest:
  assumes "\<forall>r \<in> set (inv_resources iv). well_formed r"
  shows "sound_nodes (s_nodes (Ingest iv))" "s_nodes (Ingest iv) InternetID \<noteq> None"
proof -
  show "sound_nodes (s_nodes (Ingest iv))"
    by (rule sound_unclassified [OF unclassified_Ingest [symmetric] sound_inventory [OF assms]])
  have "inventory_nodes iv InternetID \<noteq> None" by (simp add: inventory_nodes_def Let_def)
  then show "s_nodes (Ingest iv) InternetID \<noteq> None" using unclassified_known [OF unclassified_Ingest] by simp
qed

lemma reingested:
  assumes wf: "\<forall>r \<in> set (inv_resources iv). well_formed r"
    and keys: "set keys = dom (s_nodes (Ingest iv))"
  shows "Ingest (ToInventory keys (Ingest iv)) =
    (Ingest iv)\<lparr>s_edges := filter (\<lambda>e. e_kind e \<noteq> EdgeCopyOf) (s_edges (Ingest iv))\<rparr>"
proof -
  let ?s = "Ingest iv" and ?jv = "ToInventory keys (Ingest iv)"
  have "s_nodes (foldl (\<lambda>s r. AddNode s (Some (ingest_node r))) (new_snapshot [] []) (inv_resources ?jv)) =
      s_nodes (new_snapshot [] []) ++ (s_nodes ?s |` set (sort_by str_less keys))"
    using fold_exported [OF sound_Ingest(1) [OF wf], of "sort_by str_less keys" "new_snapshot [] []"] keys
    by (simp add: ToInventory_def)
  also have "\<dots> = s_nodes ?s"
    using keys by (auto simp: new_snapshot_def restrict_map_def fun_eq_iff dom_def)
  finally have "inventory_nodes ?jv = s_nodes ?s"
    using sound_Ingest(2) [OF wf] by (simp only: inventory_nodes_def Let_def if_False)
  moreover have "inv_copies ?jv = []" by (simp add: ToInventory_def)
  ultimately have "s_nodes (Ingest ?jv) = s_nodes ?s"
    by (simp add: Ingest_eq(2) [of ?jv] propagateSensitivity_def)
  moreover have "s_edges (Ingest ?jv) = filter (\<lambda>e. e_kind e \<noteq> EdgeCopyOf) (s_edges ?s)"
    using ToInventory_edges [of ?s iv keys] by (simp add: Ingest_eq(1))
  moreover have "s_account (Ingest ?jv) = s_account ?s" "s_provider (Ingest ?jv) = s_provider ?s"
    "s_captured (Ingest ?jv) = s_captured ?s"
    by (simp_all add: Ingest_eq(3-5) ToInventory_def)
  ultimately show ?thesis by simp
qed


definition sample_resource :: "string \<Rightarrow> sensitivity \<Rightarrow> string list \<Rightarrow> inv_resource" where
  "sample_resource i sn ks =
     \<lparr>ir_id = i, ir_kind = KindData, ir_type = ''rds'', ir_name = i, ir_region = [], ir_public = False,
      ir_sensitive = sn, ir_privileged = False, ir_tags = Map.empty, ir_image = [], ir_keys = ks, ir_dns = []\<rparr>"

definition sample_inventory :: inventory where
  "sample_inventory =
     \<lparr>inv_account = ''1'', inv_provider = ''aws'', inv_captured = 0,
      inv_resources = [sample_resource ''db'' SensHigh [''AK1'', ''AK2''], sample_resource ''snap'' SensNone []],
      inv_trusts = [], inv_passes = [],
      inv_grants = [\<lparr>ig_principal = ''db'', ig_resource = ''snap'', ig_condition = []\<rparr>],
      inv_reaches = [\<lparr>ire_from = InternetID, ire_to = ''snap'', ire_condition = []\<rparr>], inv_runs = [],
      inv_privescs = [], inv_triggers = [],
      inv_secrets = [\<lparr>is_principal = ''snap'', is_secret = ''pw'', is_yields = ''db'', is_condition = []\<rparr>],
      inv_copies = [\<lparr>ic_copy = ''snap'', ic_source = ''db'', ic_detail = []\<rparr>]\<rparr>"

lemma dom_Ingest: "dom (s_nodes (Ingest iv)) = dom (inventory_nodes iv)"
proof -
  have "s_nodes (Ingest iv) v = None \<longleftrightarrow> inventory_nodes iv v = None" for v
    by (rule unclassified_known [OF unclassified_Ingest])
  then show ?thesis by (simp add: dom_def)
qed


end
