(* ===== verification/Escalation.thy ===== *)
theory Escalation
  imports IamPrivesc
begin

text \<open>
  The escalation catalogues of the other clouds: internal/gcpiam/privesc.go,
  internal/azureiam/privesc.go (the ARM plane) and internal/azureiam/entra_privesc.go (the Entra
  plane). Each package has its own \<open>Technique\<close> and its own copy of \<open>satisfies\<close>, whose body is the one
  of internal/cloudiam/privesc.go; what a client relies on is the locale
  \<open>escalation_catalogue\<close>, of which all four are instances. The predicates of Go that may be nil are options.
\<close>

section \<open>GCP\<close>

record gcp_technique =
  gt_name :: string
  gt_all :: "string list list"
  gt_note :: string

definition mk_gcp :: "string \<Rightarrow> string list list \<Rightarrow> string \<Rightarrow> gcp_technique" where
  "mk_gcp name groups note = \<lparr>gt_name = name, gt_all = groups, gt_note = note\<rparr>"

definition gcp_Techniques :: "gcp_technique list" where
  "gcp_Techniques =
    [mk_gcp ''SetIamPolicy''
       [[''resourcemanager.projects.setIamPolicy'', ''resourcemanager.folders.setIamPolicy'', ''resourcemanager.organizations.setIamPolicy'']]
       [],
     mk_gcp ''ServiceAccountKeyCreate'' [[''iam.serviceAccountKeys.create'']] [],
     mk_gcp ''ServiceAccountGetAccessToken'' [[''iam.serviceAccounts.getAccessToken'']] [],
     mk_gcp ''ServiceAccountSignBlobOrJwt''
       [[''iam.serviceAccounts.signBlob'', ''iam.serviceAccounts.signJwt'']]
       [],
     mk_gcp ''ServiceAccountGetOpenIdToken'' [[''iam.serviceAccounts.getOpenIdToken'']] [],
     mk_gcp ''ServiceAccountImplicitDelegation'' [[''iam.serviceAccounts.implicitDelegation'']] [],
     mk_gcp ''UpdateCustomRole'' [[''iam.roles.update'']] [],
     mk_gcp ''ActAsDeployCompute''
       [[''iam.serviceAccounts.actAs''], [''compute.instances.create'']]
       [],
     mk_gcp ''ActAsDeployFunction''
       [[''iam.serviceAccounts.actAs''], [''cloudfunctions.functions.create'']]
       [],
     mk_gcp ''ActAsDeployCloudRun'' [[''iam.serviceAccounts.actAs''], [''run.services.create'']] [],
     mk_gcp ''ActAsDeployDeploymentManager''
       [[''iam.serviceAccounts.actAs''], [''deploymentmanager.deployments.create'']]
       [],
     mk_gcp ''CloudBuildPrivesc'' [[''cloudbuild.builds.create'']] [],
     mk_gcp ''SetServiceAccountIamPolicy''
       [[''iam.serviceAccounts.setIamPolicy'']]
       ''grant yourself tokenCreator/actAs on a privileged service account, then impersonate it'',
     mk_gcp ''DeploymentManagerPrivesc''
       [[''deploymentmanager.deployments.create'']]
       ''deployments run as the Google APIs service agent unless overridden'',
     mk_gcp ''UpdateCloudFunction''
       [[''iam.serviceAccounts.actAs''], [''cloudfunctions.functions.update''], [''cloudfunctions.functions.sourceCodeSet'']]
       ''requires an existing function attached to a more privileged service account'',
     mk_gcp ''CloudSchedulerActAs''
       [[''iam.serviceAccounts.actAs''], [''cloudscheduler.jobs.create'']]
       [],
     mk_gcp ''CreateServiceAccountHMACKey''
       [[''storage.hmacKeys.create'']]
       ''mints long-lived interop credentials for a service account'',
     mk_gcp ''CreateAPIKey''
       [[''serviceusage.apiKeys.create'']]
       ''an API key is a standing credential; scope depends on the key's restrictions'',
     mk_gcp ''ViewExistingAPIKeys''
       [[''serviceusage.apiKeys.list'']]
       ''reads existing API keys; requires keys to exist, and their scope is theirs not yours'',
     mk_gcp ''SetOrgPolicyConstraints''
       [[''orgpolicy.policy.set'']]
       (''does not escalate alone '' @ utf8 [226, 128, 148] @ '' it lifts the constraint blocking another escalation'')]"

definition gcp_satisfies :: "gcp_technique \<Rightarrow> (string \<Rightarrow> bool) \<Rightarrow> bool" where
  "gcp_satisfies t can = satisfies_groups can (gt_all t)"

definition gcp_DetectPrivesc :: "(string \<Rightarrow> bool) option \<Rightarrow> gcp_technique list" where
  "gcp_DetectPrivesc can =
     (case can of None \<Rightarrow> [] | Some c \<Rightarrow> filter (\<lambda>t. gcp_satisfies t c) gcp_Techniques)"

section \<open>Azure\<close>

record az_technique =
  at_name :: string
  at_all :: "string list list"

definition mk_az :: "string \<Rightarrow> string list list \<Rightarrow> az_technique" where
  "mk_az name groups = \<lparr>at_name = name, at_all = groups\<rparr>"

definition az_Techniques :: "az_technique list" where
  "az_Techniques =
    [mk_az ''RoleAssignmentWrite'' [[''Microsoft.Authorization/roleAssignments/write'']],
     mk_az ''ElevateAccess'' [[''Microsoft.Authorization/elevateAccess/action'']],
     mk_az ''RoleDefinitionWrite'' [[''Microsoft.Authorization/roleDefinitions/write'']],
     mk_az ''VMRunCommand'' [[''Microsoft.Compute/virtualMachines/runCommand/action'']],
     mk_az ''VMExtensionWrite'' [[''Microsoft.Compute/virtualMachines/extensions/write'']],
     mk_az ''AutomationRunbookWrite''
       [[''Microsoft.Automation/automationAccounts/runbooks/write'', ''Microsoft.Automation/automationAccounts/runbooks/draft/write'']],
     mk_az ''FunctionAppWrite''
       [[''Microsoft.Web/sites/write''], [''Microsoft.Web/sites/functions/write'', ''Microsoft.Web/sites/host/listkeys/action'']],
     mk_az ''KeyVaultAccessPolicyWrite'' [[''Microsoft.KeyVault/vaults/accessPolicies/write'']]]"

definition az_satisfies :: "az_technique \<Rightarrow> (string \<Rightarrow> bool) \<Rightarrow> bool" where
  "az_satisfies t can = satisfies_groups can (at_all t)"

definition az_DetectPrivesc :: "(string \<Rightarrow> bool) option \<Rightarrow> az_technique list" where
  "az_DetectPrivesc can =
     (case can of None \<Rightarrow> [] | Some c \<Rightarrow> filter (\<lambda>t. az_satisfies t c) az_Techniques)"

section \<open>Entra\<close>

definition EntraTechniques :: "az_technique list" where
  "EntraTechniques =
    [mk_az ''Entra:RoleManagementWrite'' [[''RoleManagement.ReadWrite.Directory'']],
     mk_az ''Entra:PrivilegedRoleAdmin'' [[''Privileged Role Administrator'']],
     mk_az ''Entra:AppCredentialWriteAny''
       [[''Application.ReadWrite.All'', ''Directory.ReadWrite.All'']],
     mk_az ''Entra:ApplicationAdminRole''
       [[''Application Administrator'', ''Cloud Application Administrator'']],
     mk_az ''Entra:AppRoleAssignmentWrite'' [[''AppRoleAssignment.ReadWrite.All'']],
     mk_az ''Entra:GroupMemberWrite'' [[''GroupMember.ReadWrite.All'', ''Group.ReadWrite.All'']],
     mk_az ''Entra:AuthMethodWrite''
       [[''UserAuthenticationMethod.ReadWrite.All'', ''Privileged Authentication Administrator'']]]"

definition DetectEntraPrivesc :: "(string \<Rightarrow> bool) option \<Rightarrow> az_technique list" where
  "DetectEntraPrivesc can =
     (case can of None \<Rightarrow> [] | Some c \<Rightarrow> filter (\<lambda>t. az_satisfies t c) EntraTechniques)"

definition grant_key :: "string \<Rightarrow> string" where
  "grant_key v = to_lower (trim_space v)"

definition EntraCanFromGrants :: "string list \<Rightarrow> string list \<Rightarrow> string \<Rightarrow> bool" where
  "EntraCanFromGrants graphPermissions directoryRoles token =
     (grant_key token \<in> set (map grant_key graphPermissions) \<union> set (map grant_key directoryRoles))"

section \<open>What the catalogues have in common\<close>

locale escalation_catalogue =
  fixes catalogue :: "'t list"
    and groups :: "'t \<Rightarrow> string list list"
    and detect :: "(string \<Rightarrow> bool) \<Rightarrow> 't list"
  assumes detect_eq: "detect can = filter (\<lambda>t. \<forall>g \<in> set (groups t). \<exists>a \<in> set g. can a) catalogue"
    and groups_nonempty: "t \<in> set catalogue \<Longrightarrow> groups t \<noteq> []"
begin

lemma detect_iff: "detect can \<noteq> [] \<longleftrightarrow> (\<exists>t \<in> set catalogue. \<forall>g \<in> set (groups t). \<exists>a \<in> set g. can a)"
  by (auto simp: detect_eq filter_empty_conv)

lemma detect_mono: "(\<And>a. can a \<Longrightarrow> can' a) \<Longrightarrow> detect can \<noteq> [] \<Longrightarrow> detect can' \<noteq> []"
  unfolding detect_iff by blast

text \<open>A principal that may do nothing cannot escalate.\<close>

lemma detect_nothing: "(\<And>a. \<not> can a) \<Longrightarrow> detect can = []"
  using groups_nonempty detect_iff [of can] by (metis list.set_intros(1) list.exhaust)

end

lemma satisfies_groups_iff: "satisfies_groups can gs \<longleftrightarrow> (\<forall>g \<in> set gs. \<exists>a \<in> set g. can a)"
  by (induction gs) (auto simp: list_ex_iff Let_def)

lemma catalogues_nonempty:
  "list_all (\<lambda>t. tech_all t \<noteq> []) Techniques" "list_all (\<lambda>t. gt_all t \<noteq> []) gcp_Techniques"
  "list_all (\<lambda>t. at_all t \<noteq> []) az_Techniques" "list_all (\<lambda>t. at_all t \<noteq> []) EntraTechniques"
  by (simp_all add: Techniques_def mk_technique_def gcp_Techniques_def mk_gcp_def az_Techniques_def
      EntraTechniques_def mk_az_def)

interpretation aws: escalation_catalogue Techniques tech_all DetectPrivesc
  using catalogues_nonempty(1)
  by unfold_locales (auto simp: DetectPrivesc_def satisfies_def satisfies_groups_iff list_all_iff)

interpretation gcp: escalation_catalogue gcp_Techniques gt_all "\<lambda>can. gcp_DetectPrivesc (Some can)"
  using catalogues_nonempty(2)
  by unfold_locales (auto simp: gcp_DetectPrivesc_def gcp_satisfies_def satisfies_groups_iff list_all_iff)

interpretation arm: escalation_catalogue az_Techniques at_all "\<lambda>can. az_DetectPrivesc (Some can)"
  using catalogues_nonempty(3)
  by unfold_locales (auto simp: az_DetectPrivesc_def az_satisfies_def satisfies_groups_iff list_all_iff)

interpretation entra: escalation_catalogue EntraTechniques at_all "\<lambda>can. DetectEntraPrivesc (Some can)"
  using catalogues_nonempty(4)
  by unfold_locales (auto simp: DetectEntraPrivesc_def az_satisfies_def satisfies_groups_iff list_all_iff)

end
