(* ===== verification/IamBridge.thy ===== *)
theory IamBridge
  imports Escalation CloudIngest
begin

text \<open>
  internal/cloudgraph/iam_bridge.go: how effective permissions become edges of the attack graph. Each
  principal that can run an escalation technique gets an edge to the synthetic node \<open>admin\<close>, marked
  conditional when every technique rests on a condition that could not be resolved. A Go map is the
  list of its entries; the loops visit its keys in sorted order.
\<close>

section \<open>The synthetic administrator\<close>

definition AdminID :: string where
  "AdminID = ''admin''"

definition admin_node :: node where
  "admin_node =
     \<lparr>n_id = AdminID, n_kind = KindPrincipal, n_type = [], n_name = ''effective-admin'', n_region = [],
      n_public = False, n_sensitive = SensNone, n_privileged = True, n_tags = Map.empty,
      n_attrs = Map.empty\<rparr>"

definition condGated :: string where
  "condGated = ''iam-condition-gated escalation (config-possible; validate live)''"

text \<open>The guarded \<open>AddNode\<close>; \<open>added\<close> is the flag of the loops.\<close>

definition ensure_admin :: "snapshot \<Rightarrow> snapshot" where
  "ensure_admin s = (if s_nodes s AdminID = None then AddNode s (Some admin_node) else s)"

definition ensure_once :: "bool \<Rightarrow> snapshot \<Rightarrow> snapshot" where
  "ensure_once added s = (if \<not> added then ensure_admin s else s)"

section \<open>AWS\<close>

record principal_policies =
  pp_identity :: "document option list"
  pp_boundary :: "document option"

definition techNames :: "technique list \<Rightarrow> string" where
  "techNames ts = join_with '','' (map tech_name ts)"

definition bridge_policy_set :: "principal_policies \<Rightarrow> policy_set" where
  "bridge_policy_set pp =
     \<lparr>Identity = pp_identity pp, Boundary = pp_boundary pp, SCPs = [], ResourcePolicy = None,
      SameAccount = True\<rparr>"

definition bridge_can :: "iam_env \<Rightarrow> string \<Rightarrow> policy_set \<Rightarrow> string \<Rightarrow> bool" where
  "bridge_can env pid ps a = (let (dec, _) = Authorize env (request_on pid a ''*'') ps in dec = Allow)"

definition bridge_can_firm :: "iam_env \<Rightarrow> string \<Rightarrow> policy_set \<Rightarrow> string \<Rightarrow> bool" where
  "bridge_can_firm env pid ps a =
     (let (dec, cond) = Authorize env (request_on pid a ''*'') ps in dec = Allow \<and> \<not> cond)"

definition aws_step ::
  "iam_env \<Rightarrow> (string \<times> principal_policies) list \<Rightarrow> snapshot \<times> bool \<Rightarrow> string \<Rightarrow> snapshot \<times> bool" where
  "aws_step env policies st pid =
     (let pp = the (map_of policies pid)
      in if pp_identity pp = [] then st
         else let ps = bridge_policy_set pp; techs = DetectPrivesc (bridge_can env pid ps)
              in if techs = [] then st
                 else let s1 = ensure_once (snd st) (fst st);
                          condition = (if DetectPrivesc (bridge_can_firm env pid ps) = [] then condGated else [])
                      in (AddEdge s1 (mk_edge pid AdminID EdgePrivesc condition (techNames techs)), True))"

definition AddPrivescEdgesWithBoundaries ::
  "iam_env \<Rightarrow> (string \<times> principal_policies) list \<Rightarrow> snapshot \<Rightarrow> snapshot" where
  "AddPrivescEdgesWithBoundaries env policies s =
     fst (foldl (aws_step env policies) (s, False) (sort_by str_less (map fst policies)))"

definition AddPrivescEdges ::
  "iam_env \<Rightarrow> (string \<times> document option list) list \<Rightarrow> snapshot \<Rightarrow> snapshot" where
  "AddPrivescEdges env policies s =
     AddPrivescEdgesWithBoundaries env
       (map (\<lambda>(pid, docs). (pid, \<lparr>pp_identity = docs, pp_boundary = None\<rparr>)) policies) s"

section \<open>GCP, Azure and Entra\<close>

type_synonym permit_func = "string \<Rightarrow> bool \<times> bool"

definition Unconditional :: "(string \<Rightarrow> bool) \<Rightarrow> permit_func" where
  "Unconditional f = (\<lambda>a. (f a, False))"

definition split_permit :: "permit_func option \<Rightarrow> (string \<Rightarrow> bool) \<times> (string \<Rightarrow> bool)" where
  "split_permit p =
     (case p of
        None \<Rightarrow> (\<lambda>_. False, \<lambda>_. False)
      | Some f \<Rightarrow> (\<lambda>a. let (allowed, _) = f a in allowed, \<lambda>a. let (allowed, cond) = f a in allowed \<and> \<not> cond))"

definition gcpTechNames :: "gcp_technique list \<Rightarrow> string" where
  "gcpTechNames ts = join_with '','' (map gt_name ts)"

definition azureTechNames :: "az_technique list \<Rightarrow> string" where
  "azureTechNames ts = join_with '','' (map at_name ts)"

text \<open>The body of the three loops, which differ in the catalogue and in the names only.\<close>

definition permit_step ::
  "((string \<Rightarrow> bool) option \<Rightarrow> 't list) \<Rightarrow> ('t list \<Rightarrow> string) \<Rightarrow> (string \<times> permit_func option) list \<Rightarrow>
    snapshot \<times> bool \<Rightarrow> string \<Rightarrow> snapshot \<times> bool" where
  "permit_step detect names can st pid =
     (let (permits, firm) = split_permit (the (map_of can pid));
          techs = detect (Some permits);
          condition = (if detect (Some firm) = [] then condGated else [])
      in if techs = [] then st
         else (AddEdge (ensure_once (snd st) (fst st))
                 (mk_edge pid AdminID EdgePrivesc condition (names techs)), True))"

definition AddGCPPrivescEdges :: "(string \<times> permit_func option) list \<Rightarrow> snapshot \<Rightarrow> snapshot" where
  "AddGCPPrivescEdges can s =
     fst (foldl (permit_step gcp_DetectPrivesc gcpTechNames can) (s, False) (sort_by str_less (map fst can)))"

definition AddAzurePrivescEdges :: "(string \<times> permit_func option) list \<Rightarrow> snapshot \<Rightarrow> snapshot" where
  "AddAzurePrivescEdges can s =
     fst (foldl (permit_step az_DetectPrivesc azureTechNames can) (s, False) (sort_by str_less (map fst can)))"

definition AddAzureEntraPrivescEdges :: "(string \<times> permit_func option) list \<Rightarrow> snapshot \<Rightarrow> snapshot" where
  "AddAzureEntraPrivescEdges can s =
     fst (foldl (permit_step DetectEntraPrivesc azureTechNames can) (s, False) (sort_by str_less (map fst can)))"

section \<open>Ownership\<close>

definition escalates :: "snapshot \<Rightarrow> string set" where
  "escalates s = set (map e_from (filter (\<lambda>e. e_kind e = EdgePrivesc \<and> e_to e = AdminID) (s_edges s)))"

definition own_step :: "string set \<Rightarrow> string \<Rightarrow> snapshot \<Rightarrow> string \<Rightarrow> snapshot" where
  "own_step esc owner s sp =
     (if sp = owner then s
      else let privileged = (PrivilegedIdentity (s_nodes s sp) \<or> sp \<in> esc)
           in if \<not> privileged then s
              else AddEdge (ensure_admin s)
                     (mk_edge owner AdminID EdgePrivesc [] (''Entra:OwnerOfPrivilegedSP('' @ sp @ '')'')))"

definition AddEntraOwnershipEdges :: "(string \<times> string list) list \<Rightarrow> snapshot \<Rightarrow> snapshot" where
  "AddEntraOwnershipEdges ownerships s =
     (let esc = escalates s
      in foldl (\<lambda>s owner. foldl (own_step esc owner) s (sort_by str_less (the (map_of ownerships owner))))
           s (sort_by str_less (map fst ownerships)))"

definition HasAccess :: "iam_env \<Rightarrow> string \<Rightarrow> string \<Rightarrow> document option list \<Rightarrow> bool \<times> bool" where
  "HasAccess env action res docs = Allows env action res docs"

section \<open>What the loops leave behind\<close>

text \<open>
  A verdict on a principal: the condition and the detail of its edge, when it gets one. \<open>bridged\<close> is
  the snapshot with the edges of the given verdicts.
\<close>

type_synonym edge_verdict = "string \<Rightarrow> (string \<times> string) option"

definition edge_of :: "edge_verdict \<Rightarrow> string \<Rightarrow> edge option" where
  "edge_of vd pid = map_option (\<lambda>(c, d). mk_edge pid AdminID EdgePrivesc c d) (vd pid)"

definition with_admin :: "node_map \<Rightarrow> node_map" where
  "with_admin ns = (if ns AdminID = None then ns(AdminID \<mapsto> admin_node) else ns)"

definition bridged :: "edge_verdict \<Rightarrow> string list \<Rightarrow> snapshot \<Rightarrow> snapshot" where
  "bridged vd ids s =
     (let es = List.map_filter (edge_of vd) ids
      in if es = [] then s else s\<lparr>s_nodes := with_admin (s_nodes s), s_edges := s_edges s @ es\<rparr>)"

lemma ensure_admin_eq: "ensure_admin s = s\<lparr>s_nodes := with_admin (s_nodes s)\<rparr>"
  by (simp add: ensure_admin_def with_admin_def AddNode_def admin_node_def AdminID_def)

lemma with_admin_known [simp]: "with_admin ns AdminID \<noteq> None" "with_admin (with_admin ns) = with_admin ns"
  by (auto simp: with_admin_def)

text \<open>One fold for all loops: a step that follows a verdict.\<close>

lemma bridge_fold:
  assumes "\<And>st pid. pid \<in> set ids \<Longrightarrow> step st pid =
    (case vd pid of None \<Rightarrow> st
     | Some (c, d) \<Rightarrow> (AddEdge (ensure_once (snd st) (fst st)) (mk_edge pid AdminID EdgePrivesc c d), True))"
    and "added \<longrightarrow> with_admin (s_nodes s) = s_nodes s"
  shows "fst (foldl step (s, added) ids) = bridged vd ids s"
  using assms
proof (induction ids arbitrary: s added)
  case Nil
  then show ?case by (simp add: bridged_def map_filter_simps)
next
  case (Cons pid ids)
  have IH: "fst (foldl step (t, ad) ids) = bridged vd ids t" if "ad \<longrightarrow> with_admin (s_nodes t) = s_nodes t" for t ad
    using Cons.IH [OF _ that] Cons.prems(1) by simp
  show ?case
  proof (cases "vd pid")
    case None
    then show ?thesis using IH [OF Cons.prems(2)] Cons.prems(1) [of pid]
      by (simp add: bridged_def edge_of_def map_filter_simps)
  next
    case (Some cd)
    obtain c d where cd: "cd = (c, d)" by fastforce
    have "ensure_once added s = s\<lparr>s_nodes := with_admin (s_nodes s)\<rparr>"
      using Cons.prems(2) by (auto simp: ensure_once_def ensure_admin_eq)
    then have "step (s, added) pid =
        (s\<lparr>s_nodes := with_admin (s_nodes s), s_edges := s_edges s @ [mk_edge pid AdminID EdgePrivesc c d]\<rparr>, True)"
      using Cons.prems(1) [of pid "(s, added)"] Some cd by (simp add: AddEdge_def)
    then show ?thesis using Some cd
      by (simp add: IH bridged_def edge_of_def map_filter_simps Let_def)
  qed
qed

definition aws_verdict :: "iam_env \<Rightarrow> (string \<times> principal_policies) list \<Rightarrow> edge_verdict" where
  "aws_verdict env policies pid =
     (let pp = the (map_of policies pid); ps = bridge_policy_set pp;
          techs = DetectPrivesc (bridge_can env pid ps)
      in if pp_identity pp = [] \<or> techs = [] then None
         else Some (if DetectPrivesc (bridge_can_firm env pid ps) = [] then condGated else [], techNames techs))"

definition permit_verdict ::
  "((string \<Rightarrow> bool) option \<Rightarrow> 't list) \<Rightarrow> ('t list \<Rightarrow> string) \<Rightarrow> (string \<times> permit_func option) list \<Rightarrow> edge_verdict" where
  "permit_verdict detect names can pid =
     (let (permits, firm) = split_permit (the (map_of can pid)); techs = detect (Some permits)
      in if techs = [] then None
         else Some (if detect (Some firm) = [] then condGated else [], names techs))"

lemma aws_bridged:
  "AddPrivescEdgesWithBoundaries env policies s =
     bridged (aws_verdict env policies) (sort_by str_less (map fst policies)) s"
  unfolding AddPrivescEdgesWithBoundaries_def
  by (rule bridge_fold) (simp_all add: aws_step_def aws_verdict_def Let_def)

lemma permit_bridged:
  "fst (foldl (permit_step detect names can) (s, False) (sort_by str_less (map fst can))) =
     bridged (permit_verdict detect names can) (sort_by str_less (map fst can)) s"
  by (rule bridge_fold) (simp_all add: permit_step_def permit_verdict_def Let_def split_beta)

section \<open>Paths to the administrator\<close>

lemma visited_snoc: "visited v (pre @ [ed]) = visited v pre @ [e_to ed]"
  by (simp add: visited_def)

lemma walk_snoc: "walk v (pre @ [ed]) \<longleftrightarrow> walk v pre \<and> e_from ed = last (visited v pre)"
  by (induction pre arbitrary: v) (auto simp: visited_def)

lemma bridged_nodes:
  "pid \<noteq> AdminID \<Longrightarrow> s_nodes (bridged vd ids s) pid = s_nodes s pid"
  by (simp add: bridged_def with_admin_def Let_def)

lemma bridged_edges: "s_edges (bridged vd ids s) = s_edges s @ List.map_filter (edge_of vd) ids"
  by (simp add: bridged_def Let_def)

lemma set_bridged_edges:
  "set (s_edges (bridged vd ids s)) = set (s_edges s) \<union> {ed. \<exists>pid \<in> set ids. edge_of vd pid = Some ed}"
proof -
  have "set (List.map_filter f xs) = {y. \<exists>x \<in> set xs. f x = Some y}" for f :: "string \<Rightarrow> edge option" and xs
    by (induction xs) (auto simp: map_filter_simps split: option.splits)
  then show ?thesis by (simp add: bridged_edges)
qed

lemma edge_of_fields: "edge_of vd pid = Some ed \<Longrightarrow> e_from ed = pid \<and> e_to ed = AdminID \<and> e_kind ed = EdgePrivesc"
  by (auto simp: edge_of_def mk_edge_def)

lemma bridged_admin:
  assumes "s_nodes s AdminID = None" "pid \<in> set ids" "edge_of vd pid = Some ed"
  shows "s_nodes (bridged vd ids s) AdminID = Some admin_node"
proof -
  have "List.map_filter (edge_of vd) ids \<noteq> []"
    using assms(2,3) by (auto simp: map_filter_def filter_empty_conv)
  then show ?thesis using assms(1) by (simp add: bridged_def with_admin_def Let_def)
qed

text \<open>A path to the administrator is a path of the old graph to a principal, and that principal's edge.\<close>

lemma bridged_paths:
  assumes fresh: "s_nodes s AdminID = None" "\<forall>e \<in> set (s_edges s). e_to e \<noteq> AdminID"
    and allow: "allow EdgePrivesc" and v: "v \<noteq> AdminID"
  shows "attack_path (bridged vd ids s) target allow v es \<and> last (visited v es) = AdminID \<longleftrightarrow>
    target admin_node \<and>
    (\<exists>pid \<in> set ids. \<exists>ed pre. edge_of vd pid = Some ed \<and> es = pre @ [ed] \<and> last (visited v pre) = pid \<and>
       (pre = [] \<or> attack_path s (\<lambda>_. True) allow v pre))"
    (is "?L \<longleftrightarrow> target admin_node \<and> ?R")
proof
  let ?t = "bridged vd ids s"
  assume L: ?L
  then have es: "es \<noteq> []" "walk v es" "distinct (visited v es)" "last (visited v es) = AdminID"
    and ok: "\<forall>e \<in> set es. e \<in> set (s_edges ?t) \<and> allow (e_kind e) \<and> s_nodes ?t (e_to e) \<noteq> None"
    and tgt: "\<exists>nd. s_nodes ?t AdminID = Some nd \<and> target nd"
    by (auto simp: attack_path_def)
  obtain pre ed where e: "es = pre @ [ed]" using es(1) by (cases es rule: rev_cases) auto
  from es e have w: "walk v pre" "e_from ed = last (visited v pre)" "distinct (visited v pre)"
      "e_to ed = AdminID" "AdminID \<notin> set (visited v pre)"
    by (auto simp: walk_snoc visited_snoc)
  with ok e fresh(2) obtain pid where pid: "pid \<in> set ids" "edge_of vd pid = Some ed"
    by (auto simp: set_bridged_edges)
  then have from_pid: "last (visited v pre) = pid" using w(2) edge_of_fields by simp
  have "e \<in> set (s_edges s) \<and> allow (e_kind e) \<and> s_nodes s (e_to e) \<noteq> None" if "e \<in> set pre" for e
  proof -
    have ne: "e_to e \<noteq> AdminID" using w(5) that by (metis imageI set_subset_Cons set_map subsetD visited_def)
    have "e \<in> set (s_edges ?t)" "allow (e_kind e)" "s_nodes ?t (e_to e) \<noteq> None" using ok that e by auto
    then show ?thesis
      using ne edge_of_fields by (auto simp: bridged_nodes [OF ne] set_bridged_edges)
  qed
  then have "attack_path s (\<lambda>_. True) allow v pre" if "pre \<noteq> []"
    using w that last_in_set [of "map e_to pre"] by (fastforce simp: attack_path_def visited_def)
  moreover have "target admin_node" using tgt bridged_admin [OF fresh(1) pid] by simp
  ultimately show "target admin_node \<and> ?R" using pid e from_pid by blast
next
  let ?t = "bridged vd ids s"
  assume R: "target admin_node \<and> ?R"
  then obtain pid ed pre where pid: "pid \<in> set ids" "edge_of vd pid = Some ed" and e: "es = pre @ [ed]"
    and l: "last (visited v pre) = pid" and p: "pre = [] \<or> attack_path s (\<lambda>_. True) allow v pre"
    by blast
  have f: "e_from ed = pid" "e_to ed = AdminID" "e_kind ed = EdgePrivesc"
    using edge_of_fields [OF pid(2)] by simp_all
  have adm: "s_nodes ?t AdminID = Some admin_node" by (rule bridged_admin [OF fresh(1) pid])
  have pre: "walk v pre" "distinct (visited v pre)"
    "\<forall>e \<in> set pre. e \<in> set (s_edges s) \<and> allow (e_kind e) \<and> s_nodes s (e_to e) \<noteq> None"
    using p by (auto simp: attack_path_def visited_def)
  then have "AdminID \<notin> e_to ` set pre" using fresh(2) by (metis imageE)
  then have "AdminID \<notin> set (visited v pre)" using v by (simp add: visited_def)
  moreover have "\<forall>e \<in> set es. e \<in> set (s_edges ?t) \<and> allow (e_kind e) \<and> s_nodes ?t (e_to e) \<noteq> None"
  proof
    fix e assume "e \<in> set es"
    then consider "e = ed" | "e \<in> set pre" using \<open>es = pre @ [ed]\<close> by auto
    then show "e \<in> set (s_edges ?t) \<and> allow (e_kind e) \<and> s_nodes ?t (e_to e) \<noteq> None"
    proof cases
      case 1
      then show ?thesis using pid f allow adm by (auto simp: set_bridged_edges)
    next
      case 2
      then have "e_to e \<noteq> AdminID" using fresh(2) pre(3) by blast
      then show ?thesis using 2 pre(3) by (simp add: bridged_nodes set_bridged_edges)
    qed
  qed
  ultimately show ?L
    using e pre l f adm R by (simp add: attack_path_def visited_snoc walk_snoc)
qed

section \<open>Properties\<close>

lemma edge_of_aws:
  "edge_of (aws_verdict env policies) pid = Some ed \<longleftrightarrow>
    (let pp = the (map_of policies pid); ps = bridge_policy_set pp
     in pp_identity pp \<noteq> [] \<and> DetectPrivesc (bridge_can env pid ps) \<noteq> [] \<and>
        ed = mk_edge pid AdminID EdgePrivesc (if DetectPrivesc (bridge_can_firm env pid ps) \<noteq> [] then [] else condGated)
          (techNames (DetectPrivesc (bridge_can env pid ps))))"
  by (auto simp: edge_of_def aws_verdict_def Let_def)

lemma sorted_keys: "pid \<in> set (sort_by str_less (map fst m)) \<longleftrightarrow> (\<exists>x. map_of m pid = Some x)"
  by (metis map_of_eq_None_iff not_None_eq set_map set_sort_by)


text \<open>A principal of \<open>can\<close> whose answers cover a technique, and one whose unconditional answers do.\<close>

definition may_escalate :: "(string \<Rightarrow> bool \<times> bool) \<Rightarrow> string list list set \<Rightarrow> bool" where
  "may_escalate f cat \<longleftrightarrow> (\<exists>gs \<in> cat. \<forall>g \<in> set gs. \<exists>a \<in> set g. fst (f a))"

definition surely_escalates :: "(string \<Rightarrow> bool \<times> bool) \<Rightarrow> string list list set \<Rightarrow> bool" where
  "surely_escalates f cat \<longleftrightarrow> (\<exists>gs \<in> cat. \<forall>g \<in> set gs. \<exists>a \<in> set g. f a = (True, False))"

definition escalation_edge :: "(string \<Rightarrow> bool \<times> bool) \<Rightarrow> string list list set \<Rightarrow> string \<Rightarrow> string \<Rightarrow> edge" where
  "escalation_edge f cat pid names =
     mk_edge pid AdminID EdgePrivesc (if surely_escalates f cat then [] else condGated) names"

context escalation_catalogue
begin

lemma permit_edges:
  assumes "\<And>c. det (Some c) = detect c"
  shows "set (s_edges (bridged (permit_verdict det names can) (sort_by str_less (map fst can)) s)) =
    set (s_edges s) \<union>
      {escalation_edge f (groups ` set catalogue) pid (names (detect (\<lambda>a. fst (f a)))) | pid f.
         map_of can pid = Some (Some f) \<and> may_escalate f (groups ` set catalogue)}"
proof -
  have none: "edge_of (permit_verdict det names can) pid = None" if "map_of can pid = Some None" for pid
    using that by (simp add: edge_of_def permit_verdict_def split_permit_def assms detect_nothing)
  have some: "edge_of (permit_verdict det names can) pid =
      (if may_escalate f (groups ` set catalogue)
       then Some (escalation_edge f (groups ` set catalogue) pid (names (detect (\<lambda>a. fst (f a))))) else None)"
    if "map_of can pid = Some (Some f)" for pid f
  proof -
    have "(let (allowed, cond) = f a in allowed \<and> \<not> cond) \<longleftrightarrow> f a = (True, False)" for a
      by (cases "f a") auto
    then have "surely_escalates f (groups ` set catalogue) \<longleftrightarrow>
        detect (\<lambda>a. let (allowed, cond) = f a in allowed \<and> \<not> cond) \<noteq> []"
      by (simp add: detect_iff surely_escalates_def)
    moreover have "may_escalate f (groups ` set catalogue) \<longleftrightarrow> detect (\<lambda>a. fst (f a)) \<noteq> []"
      by (simp add: detect_iff may_escalate_def)
    moreover have "(\<lambda>a. let (allowed, _) = f a in allowed) = (\<lambda>a. fst (f a))"
      by (simp add: fun_eq_iff split_beta)
    ultimately show ?thesis using that
      by (simp add: edge_of_def permit_verdict_def split_permit_def escalation_edge_def assms Let_def)
  qed
  have "(\<exists>pid \<in> set (sort_by str_less (map fst can)). edge_of (permit_verdict det names can) pid = Some ed) \<longleftrightarrow>
      (\<exists>pid f. map_of can pid = Some (Some f) \<and> may_escalate f (groups ` set catalogue) \<and>
        ed = escalation_edge f (groups ` set catalogue) pid (names (detect (\<lambda>a. fst (f a)))))" (is "?l \<longleftrightarrow> ?r") for ed
  proof
    assume ?l
    then obtain pid x where x: "map_of can pid = Some x" "edge_of (permit_verdict det names can) pid = Some ed"
      unfolding Bex_def sorted_keys by blast
    then obtain f where "x = Some f" using none [of pid] by (cases x) auto
    with x some [of pid f] show ?r by (auto split: if_splits)
  next
    assume ?r
    with some show ?l unfolding Bex_def sorted_keys by fastforce
  qed
  then show ?thesis unfolding set_bridged_edges by blast
qed

end

text \<open>On GCP, on the ARM plane of Azure and on the Entra plane the edges added are exactly one for each
  principal whose predicate covers every group of some technique of that plane's catalogue. The
  edge is unconditional exactly when the answers without a condition cover one; a principal whose
  predicate is nil, or answers no, gets none; no edge is removed.
\<close>

theorem multicloud_escalation_edges:
  "set (s_edges (AddGCPPrivescEdges can s)) = set (s_edges s) \<union>
     {escalation_edge f (gt_all ` set gcp_Techniques) pid
        (gcpTechNames (gcp_DetectPrivesc (Some (\<lambda>a. fst (f a))))) | pid f.
        map_of can pid = Some (Some f) \<and> may_escalate f (gt_all ` set gcp_Techniques)} \<and>
   set (s_edges (AddAzurePrivescEdges can s)) = set (s_edges s) \<union>
     {escalation_edge f (at_all ` set az_Techniques) pid
        (azureTechNames (az_DetectPrivesc (Some (\<lambda>a. fst (f a))))) | pid f.
        map_of can pid = Some (Some f) \<and> may_escalate f (at_all ` set az_Techniques)} \<and>
   set (s_edges (AddAzureEntraPrivescEdges can s)) = set (s_edges s) \<union>
     {escalation_edge f (at_all ` set EntraTechniques) pid
        (azureTechNames (DetectEntraPrivesc (Some (\<lambda>a. fst (f a))))) | pid f.
        map_of can pid = Some (Some f) \<and> may_escalate f (at_all ` set EntraTechniques)}"
  unfolding AddGCPPrivescEdges_def AddAzurePrivescEdges_def AddAzureEntraPrivescEdges_def permit_bridged
  by (intro conjI gcp.permit_edges arm.permit_edges entra.permit_edges refl)

section \<open>Ownership edges\<close>

definition ownership_edge :: "string \<Rightarrow> string \<Rightarrow> edge" where
  "ownership_edge owner sp =
     mk_edge owner AdminID EdgePrivesc [] (''Entra:OwnerOfPrivilegedSP('' @ sp @ '')'')"

text \<open>What an owner inherits: a privileged node, or one with an escalation edge of its own.\<close>

definition worth_owning :: "snapshot \<Rightarrow> string \<Rightarrow> bool" where
  "worth_owning s sp \<longleftrightarrow>
     PrivilegedIdentity (s_nodes s sp) \<or>
     (\<exists>e \<in> set (s_edges s). e_kind e = EdgePrivesc \<and> e_from e = sp \<and> e_to e = AdminID)"

lemma worth_owning_eq: "worth_owning s sp \<longleftrightarrow> PrivilegedIdentity (s_nodes s sp) \<or> sp \<in> escalates s"
  by (auto simp: worth_owning_def escalates_def)

text \<open>The nodes may only change at the administrator while the loops run.\<close>

definition same_but_admin :: "node_map \<Rightarrow> node_map \<Rightarrow> bool" where
  "same_but_admin ns ms \<longleftrightarrow> ms = ns \<or> ms = with_admin ns"

lemma same_but_admin_step: "same_but_admin ns ms \<Longrightarrow> same_but_admin ns (with_admin ms)"
  by (auto simp: same_but_admin_def)

lemma same_but_admin_privileged:
  "same_but_admin ns ms \<Longrightarrow> sp = AdminID \<longrightarrow> ns AdminID \<noteq> None \<Longrightarrow> ms sp = ns sp"
  by (auto simp: same_but_admin_def with_admin_def)

lemma own_loop:
  assumes "same_but_admin ns (s_nodes t)" and "\<forall>sp \<in> set sps. sp = AdminID \<longrightarrow> ns AdminID \<noteq> None"
  shows "same_but_admin ns (s_nodes (foldl (own_step esc owner) t sps)) \<and>
    set (s_edges (foldl (own_step esc owner) t sps)) = set (s_edges t) \<union>
      {ownership_edge owner sp | sp. sp \<in> set sps \<and> sp \<noteq> owner \<and> (PrivilegedIdentity (ns sp) \<or> sp \<in> esc)}"
  using assms
proof (induction sps arbitrary: t)
  case (Cons sp sps)
  have ns: "s_nodes t sp = ns sp" by (rule same_but_admin_privileged [OF Cons.prems(1)]) (use Cons.prems(2) in simp)
  define u where "u = own_step esc owner t sp"
  have "same_but_admin ns (s_nodes u)"
    using Cons.prems(1) same_but_admin_step by (simp add: u_def own_step_def ensure_admin_eq AddEdge_def Let_def)
  moreover have "set (s_edges u) = set (s_edges t) \<union>
      (if sp \<noteq> owner \<and> (PrivilegedIdentity (ns sp) \<or> sp \<in> esc) then {ownership_edge owner sp} else {})"
    by (simp add: u_def own_step_def ensure_admin_eq AddEdge_def Let_def ns ownership_edge_def)
  moreover have "foldl (own_step esc owner) t (sp # sps) = foldl (own_step esc owner) u sps"
    by (simp add: u_def)
  ultimately show ?case using Cons.IH [of u] Cons.prems(2) by (auto split: if_splits)
qed simp

lemma owners_loop:
  assumes "same_but_admin ns (s_nodes t)"
    and "\<forall>owner \<in> set owners. \<forall>sp \<in> set (owned owner). sp = AdminID \<longrightarrow> ns AdminID \<noteq> None"
  shows "set (s_edges (foldl (\<lambda>s owner. foldl (own_step esc owner) s (sort_by str_less (owned owner))) t owners)) =
    set (s_edges t) \<union>
      {ownership_edge owner sp | owner sp. owner \<in> set owners \<and> sp \<in> set (owned owner) \<and> sp \<noteq> owner \<and>
         (PrivilegedIdentity (ns sp) \<or> sp \<in> esc)}"
  using assms
proof (induction owners arbitrary: t)
  case (Cons owner owners)
  have "\<forall>sp \<in> set (sort_by str_less (owned owner)). sp = AdminID \<longrightarrow> ns AdminID \<noteq> None"
    using Cons.prems(2) by simp
  note step = own_loop [OF Cons.prems(1) this, of esc owner]
  show ?case
    using Cons.IH [OF step [THEN conjunct1]] Cons.prems(2) step [THEN conjunct2] by auto
qed simp

text \<open>Ownership adds an edge from an owner to the administrator exactly for each node it owns, other
  than itself, that is privileged or had an escalation edge of its own when the pass began, and
  names that node.
\<close>

theorem ownership_edges_exact:
  assumes "\<forall>owner sps. map_of ownerships owner = Some sps \<longrightarrow> AdminID \<in> set sps \<longrightarrow> s_nodes s AdminID \<noteq> None"
  shows "set (s_edges (AddEntraOwnershipEdges ownerships s)) = set (s_edges s) \<union>
    {ownership_edge owner sp | owner sps sp. map_of ownerships owner = Some sps \<and> sp \<in> set sps \<and>
       sp \<noteq> owner \<and> worth_owning s sp}"
proof -
  have "\<forall>owner \<in> set (sort_by str_less (map fst ownerships)). \<forall>sp \<in> set (the (map_of ownerships owner)).
      sp = AdminID \<longrightarrow> s_nodes s AdminID \<noteq> None"
    using assms unfolding Ball_def sorted_keys by fastforce
  from owners_loop [of "s_nodes s" s "sort_by str_less (map fst ownerships)"
      "\<lambda>owner. the (map_of ownerships owner)" "escalates s", OF _ this]
  have "set (s_edges (AddEntraOwnershipEdges ownerships s)) = set (s_edges s) \<union>
      {ownership_edge owner sp | owner sp. owner \<in> set (sort_by str_less (map fst ownerships)) \<and>
         sp \<in> set (the (map_of ownerships owner)) \<and> sp \<noteq> owner \<and> worth_owning s sp}"
    by (simp add: AddEntraOwnershipEdges_def Let_def same_but_admin_def worth_owning_eq)
  also have "{ownership_edge owner sp | owner sp. owner \<in> set (sort_by str_less (map fst ownerships)) \<and>
         sp \<in> set (the (map_of ownerships owner)) \<and> sp \<noteq> owner \<and> worth_owning s sp} =
      {ownership_edge owner sp | owner sps sp. map_of ownerships owner = Some sps \<and> sp \<in> set sps \<and>
         sp \<noteq> owner \<and> worth_owning s sp}"
    unfolding sorted_keys by (rule Collect_cong) (metis option.sel)
  finally show ?thesis .
qed

section \<open>Concrete accounts\<close>

text \<open>
  A principal that may mint access keys for the users of its account, and one that may do so
  anywhere. The bridge asks for the resource \<open>*\<close>, which a scoped statement does not match, so it adds
  no edge for the first, although \<open>PrivescOf\<close> finds the escalation and is sure of it.
\<close>

definition minting_policies :: "string \<Rightarrow> principal_policies" where
  "minting_policies res =
     \<lparr>pp_identity = [sample_doc [(sample_stmt ''Allow'' ''iam:CreateAccessKey'' [])\<lparr>statement.Resource := [res]\<rparr>]],
      pp_boundary = None\<rparr>"

lemma bridge_misses_scoped_grant:
  "snd (PrivescOf sample_env ''arn:aws:iam::1:user/a'' (bridge_policy_set (minting_policies ''arn:aws:iam::1:user/*''))) \<and>
   AddPrivescEdges sample_env [(''arn:aws:iam::1:user/a'', pp_identity (minting_policies ''arn:aws:iam::1:user/*''))] s = s"
proof
  let ?t = "mk_technique ''CreateAccessKey'' [[''iam:CreateAccessKey'']] []"
  let ?ps = "bridge_policy_set (minting_policies ''arn:aws:iam::1:user/*'')"
  have "?t \<in> set Techniques" by code_simp
  moreover have "satisfies ?t (allowOn sample_env ''arn:aws:iam::1:user/a'' ?ps
      (CandidateResources (Identity ?ps) (accountOf ''arn:aws:iam::1:user/a'')) True)"
    by code_simp
  ultimately show "snd (PrivescOf sample_env ''arn:aws:iam::1:user/a'' ?ps)"
    unfolding PrivescOf_firm by blast
  let ?st = "(sample_stmt ''Allow'' ''iam:CreateAccessKey'' [])\<lparr>statement.Resource := [''arn:aws:iam::1:user/*'']\<rparr>"
  have "\<not> resourceMatch (statement.Resource ?st) (NotResource ?st) ''*''" by code_simp
  then have "\<not> stmt_matches ?st a ''*''" for a by (simp add: stmt_matches_def)
  then have "\<not> bridge_can sample_env ''arn:aws:iam::1:user/a'' ?ps a" for a
    by (simp add: bridge_can_def bridge_policy_set_def minting_policies_def Authorize_def Let_def
        scanIdentity_def scanResource_def scanCeiling_def docsOf_def statements_of_def sample_doc_def
        request_on_def no_scan_def)
  then have "DetectPrivesc (bridge_can sample_env ''arn:aws:iam::1:user/a'' ?ps) = []"
    by (rule aws.detect_nothing)
  then show "AddPrivescEdges sample_env
      [(''arn:aws:iam::1:user/a'', pp_identity (minting_policies ''arn:aws:iam::1:user/*''))] s = s"
    by (simp add: AddPrivescEdges_def AddPrivescEdgesWithBoundaries_def sort_by_def aws_step_def Let_def
        minting_policies_def)
qed

definition minting_graph :: snapshot where
  "minting_graph =
     AddEdge (AddNode (AddNode (new_snapshot [] []) (Some internet_node)) (Some (sample_node ''u'' SensNone)))
       (mk_edge InternetID ''u'' EdgeAssumeRole [] [])"


text \<open>
  Ownership is one hop deep in one pass: \<open>a\<close> owns \<open>b\<close>, which owns the privileged \<open>p\<close>. Only a second
  pass sees that \<open>b\<close> can escalate, and so \<open>a\<close>.
\<close>

definition owned_graph :: snapshot where
  "owned_graph = AddNode (new_snapshot [] []) (Some ((sample_node ''p'' SensNone)\<lparr>n_privileged := True\<rparr>))"

definition owned_pairs :: "(string \<times> string list) list" where
  "owned_pairs = [(''a'', [''b'']), (''b'', [''p''])]"

lemma owned_pairs_cases:
  "map_of owned_pairs owner = Some sps \<longleftrightarrow> owner = ''a'' \<and> sps = [''b''] \<or> owner = ''b'' \<and> sps = [''p'']"
  by (auto simp: owned_pairs_def)

theorem ownership_edges_exact_witness:
  "set (s_edges (AddEntraOwnershipEdges owned_pairs owned_graph)) = {ownership_edge ''b'' ''p''}"
proof -
  have "\<forall>owner sps. map_of owned_pairs owner = Some sps \<longrightarrow> AdminID \<in> set sps \<longrightarrow> s_nodes owned_graph AdminID \<noteq> None"
    by (simp add: owned_pairs_cases AdminID_def)
  note exact = ownership_edges_exact [OF this]
  have "worth_owning owned_graph ''p''" "\<not> worth_owning owned_graph ''b''" "s_edges owned_graph = []"
    by (simp_all add: worth_owning_def owned_graph_def AddNode_def new_snapshot_def sample_node_def PrivilegedIdentity_def)
  moreover have "ownership_edge ''b'' ''p'' \<in> {ownership_edge owner sp | owner sps sp.
      map_of owned_pairs owner = Some sps \<and> sp \<in> set sps \<and> sp \<noteq> owner \<and> worth_owning owned_graph sp}"
    unfolding mem_Collect_eq owned_pairs_cases using calculation(1)
    by (intro exI [of _ "''b''"] exI [of _ "[''p'']"] exI [of _ "''p''"]) simp
  ultimately show ?thesis unfolding exact owned_pairs_cases by auto
qed

lemma second_pass_sees_more:
  "ownership_edge ''a'' ''b'' \<in>
     set (s_edges (AddEntraOwnershipEdges owned_pairs (AddEntraOwnershipEdges owned_pairs owned_graph)))"
  by code_simp

end
