(* ===== verification/CloudHash.thy ===== *)
theory CloudHash
  imports CloudGraph
begin

text \<open>
  \<open>Hash\<close> of internal/cloudgraph/graph.go, the content address of a snapshot, and
  internal/cloudgraph/classify.go, the classification of resource types. The JSON encoding followed
  by SHA-256 is a function of the canonical value, a parameter \<open>digest\<close>. The keys of the node map,
  in the order its iteration visits them, are an argument.
\<close>

section \<open>The content address\<close>

record canon =
  ca_account :: string
  ca_provider :: string
  ca_nodes :: "node list"
  ca_edges :: "edge list"

definition node_less :: "node \<Rightarrow> node \<Rightarrow> bool" where
  "node_less a b = str_less (n_id a) (n_id b)"

definition hash_edge_less :: "edge \<Rightarrow> edge \<Rightarrow> bool" where
  "hash_edge_less a b =
     (if e_from a \<noteq> e_from b then str_less (e_from a) (e_from b)
      else if e_to a \<noteq> e_to b then str_less (e_to a) (e_to b)
      else str_less (kind_string (e_kind a)) (kind_string (e_kind b)))"

definition canon_of :: "string list \<Rightarrow> snapshot \<Rightarrow> canon" where
  "canon_of keys s =
     \<lparr>ca_account = s_account s, ca_provider = s_provider s,
      ca_nodes = sort_by node_less (map (\<lambda>k. the (s_nodes s k)) keys),
      ca_edges = sort_by hash_edge_less (s_edges s)\<rparr>"

definition Hash :: "(canon \<Rightarrow> string) \<Rightarrow> string list \<Rightarrow> snapshot \<Rightarrow> string" where
  "Hash digest keys s = ''sha256:'' @ digest (canon_of keys s)"

section \<open>Sorting to a normal form\<close>

text \<open>Where elements of equal rank are equal, the sorted list depends on the multiset only.\<close>

lemma sorted_unique:
  assumes "sorted_wrt (\<lambda>x y. \<not> lt y x) xs" "sorted_wrt (\<lambda>x y. \<not> lt y x) ys" "mset xs = mset ys"
    and "\<And>x y. x \<in> set xs \<Longrightarrow> y \<in> set xs \<Longrightarrow> \<not> lt x y \<Longrightarrow> \<not> lt y x \<Longrightarrow> x = y"
  shows "xs = ys"
  using assms
proof (induction xs arbitrary: ys)
  case (Cons x xs)
  obtain y zs where ys: "ys = y # zs" using Cons.prems(3) by (cases ys) auto
  have sets: "set (x # xs) = set ys" using Cons.prems(3) by (rule mset_eq_setD)
  have "x = y"
  proof (rule ccontr)
    assume "x \<noteq> y"
    then have "y \<in> set xs" "x \<in> set zs" using sets ys by auto
    then have "\<not> lt y x" "\<not> lt x y" using Cons.prems(1,2) ys by auto
    with Cons.prems(4) [of x y] \<open>y \<in> set xs\<close> \<open>x \<noteq> y\<close> show False by simp
  qed
  moreover have "xs = zs"
    using Cons.prems(1,2,3,4) ys \<open>x = y\<close> by (intro Cons.IH) auto
  ultimately show ?case using ys by simp
qed simp

lemma sort_by_unique:
  assumes "weak_order lt" "mset xs = mset ys"
    and "\<And>x y. x \<in> set xs \<Longrightarrow> y \<in> set xs \<Longrightarrow> \<not> lt x y \<Longrightarrow> \<not> lt y x \<Longrightarrow> x = y"
  shows "sort_by lt xs = sort_by lt ys"
  using assms by (intro sorted_unique [of lt]) (simp_all add: sorted_sort_by)

lemma node_order: "weak_order node_less"
  unfolding node_less_def by (rule weak_order_str)

lemma hash_edge_order: "weak_order hash_edge_less"
  by (auto simp: weak_order_def hash_edge_less_def str_less_codes inj_map_eq_map [OF inj_of_char])

lemma str_incomparable: "\<not> str_less a b \<Longrightarrow> \<not> str_less b a \<Longrightarrow> a = b"
  by (simp add: str_less_codes inj_map_eq_map [OF inj_of_char])

lemma kind_string_inj: "kind_string a = kind_string b \<Longrightarrow> a = b"
  by (cases a; cases b) simp_all

lemma hash_edge_tie:
  "\<not> hash_edge_less a b \<Longrightarrow> \<not> hash_edge_less b a \<Longrightarrow>
    e_from a = e_from b \<and> e_to a = e_to b \<and> e_kind a = e_kind b"
  by (auto simp: hash_edge_less_def dest: str_incomparable intro: kind_string_inj split: if_splits)

section \<open>Properties\<close>

text \<open>The hash is reproducible: two snapshots with the same nodes and the same edges, each stored and
  iterated in any order, hash alike, provided no two different edges have the same ends and kind.
\<close>

theorem hash_is_reproducible:
  assumes "s_account s = s_account t" "s_provider s = s_provider t" "s_nodes s = s_nodes t"
    and "mset (s_edges s) = mset (s_edges t)" "mset ks = mset ls"
    and "\<forall>k \<in> set ks. \<exists>n. s_nodes s k = Some n \<and> n_id n = k"
    and "\<forall>a \<in> set (s_edges s). \<forall>b \<in> set (s_edges s).
      e_from a = e_from b \<longrightarrow> e_to a = e_to b \<longrightarrow> e_kind a = e_kind b \<longrightarrow> a = b"
  shows "Hash digest ks s = Hash digest ls t"
proof -
  have "sort_by node_less (map (\<lambda>k. the (s_nodes s k)) ks) = sort_by node_less (map (\<lambda>k. the (s_nodes s k)) ls)"
  proof (rule sort_by_unique [OF node_order])
    show "mset (map (\<lambda>k. the (s_nodes s k)) ks) = mset (map (\<lambda>k. the (s_nodes s k)) ls)"
      using assms(5) by simp
  next
    fix x y assume "x \<in> set (map (\<lambda>k. the (s_nodes s k)) ks)" "y \<in> set (map (\<lambda>k. the (s_nodes s k)) ks)"
      and "\<not> node_less x y" "\<not> node_less y x"
    then show "x = y" using assms(6) str_incomparable unfolding node_less_def by fastforce
  qed
  moreover have "sort_by hash_edge_less (s_edges s) = sort_by hash_edge_less (s_edges t)"
    using assms(4,7) hash_edge_tie by (intro sort_by_unique [OF hash_edge_order]) blast+
  ultimately show ?thesis using assms(1-3) by (simp add: Hash_def canon_of_def)
qed

text \<open>
  The proviso is needed, because the comparison stops at the kind: of two grants that differ in their
  condition the one stored first stays first, and the canonical values differ.
\<close>

definition twin_edges :: "edge list" where
  "twin_edges = [sample_edge ''a'' ''b'' EdgeHasAccess,
     (sample_edge ''a'' ''b'' EdgeHasAccess)\<lparr>e_condition := ''mfa''\<rparr>]"

lemma hash_depends_on_order:
  "canon_of ks (s\<lparr>s_edges := twin_edges\<rparr>) \<noteq> canon_of ks (s\<lparr>s_edges := rev twin_edges\<rparr>)"
proof -
  have "sort_by hash_edge_less twin_edges \<noteq> sort_by hash_edge_less (rev twin_edges)" by code_simp
  then show ?thesis by (simp add: canon_of_def)
qed

theorem hash_is_reproducible_witness:
  "\<forall>digest. Hash digest [InternetID, ''vm''] sample_snapshot =
     Hash digest [''vm'', InternetID] (sample_snapshot\<lparr>s_edges := rev (s_edges sample_snapshot)\<rparr>)"
proof (rule allI, rule hash_is_reproducible)
  show "\<forall>k \<in> set [InternetID, ''vm'']. \<exists>n. s_nodes sample_snapshot k = Some n \<and> n_id n = k"
    by (simp add: sample_snapshot_def AddEdge_def AddNode_def sample_node_def new_snapshot_def InternetID_def)
  show "\<forall>a \<in> set (s_edges sample_snapshot). \<forall>b \<in> set (s_edges sample_snapshot).
      e_from a = e_from b \<longrightarrow> e_to a = e_to b \<longrightarrow> e_kind a = e_kind b \<longrightarrow> a = b"
    by (simp add: sample_snapshot_def AddEdge_def AddNode_def sample_node_def new_snapshot_def InternetID_def
        sample_edge_def)
qed simp_all

section \<open>Resource types\<close>

definition dataStoreKeywords :: "string list" where
  "dataStoreKeywords =
     [''s3'', ''rds'', ''dynamodb'', ''efs'', ''redshift'', ''elasticache'', ''documentdb'', ''fsx'',
      ''storage'', ''bucket'', ''bigquery'', ''spanner'', ''datastore'', ''firestore'', ''bigtable'',
      ''filestore'', ''cloudsql'', ''sqladmin'',
      ''blob'', ''cosmos'', ''sqlserver'', ''sqldatabase'', ''datalake'', ''synapse'', ''tablestorage'',
      ''database'', ''datawarehouse'']"

definition IsDataStoreType :: "string \<Rightarrow> bool" where
  "IsDataStoreType typ = list_ex (\<lambda>kw. contains_str (to_lower typ) kw) dataStoreKeywords"

definition computeKindRules :: "(string \<times> string) list" where
  "computeKindRules =
     [(''lambda'', ''Lambda''), (''fargate'', ''Fargate''), (''::ecs::'', ''ECS''), (''::eks::'', ''EKS''),
      (''::ec2::'', ''EC2''),
      (''run.googleapis'', ''CloudRun''), (''cloudrun'', ''CloudRun''), (''container.googleapis'', ''GKE''),
      (''gke'', ''GKE''), (''cloudfunctions'', ''CloudFunction''), (''compute.googleapis'', ''GCE''),
      (''containerservice'', ''AKS''), (''managedclusters'', ''AKS''), (''aks'', ''AKS''),
      (''containerinstance'', ''ACI''), (''virtualmachines'', ''VM''), (''microsoft.web'', ''AppService''),
      (''appservice'', ''AppService''),
      (''function'', ''Function''), (''instance'', ''Instance''), (''container'', ''Container'')]"

text \<open>\<open>strings.LastIndex\<close>, and the segment after it.\<close>

fun last_segment :: "string \<Rightarrow> string \<Rightarrow> string" where
  "last_segment sep [] = []"
| "last_segment sep (c # s) =
     (if contains_str s sep then last_segment sep s
      else if prefix sep (c # s) then drop (length sep) (c # s) else c # s)"

definition ComputeKind :: "string \<Rightarrow> string" where
  "ComputeKind typ =
     (case List.find (\<lambda>(kw, label). contains_str (to_lower typ) kw) computeKindRules of
        Some (kw, label) \<Rightarrow> label
      | None \<Rightarrow> foldl (\<lambda>seg sep. last_segment sep seg) typ [''::'', ''/'', ''.''])"

definition IsComputeType :: "string \<Rightarrow> bool" where
  "IsComputeType typ = list_ex (\<lambda>(kw, label). contains_str (to_lower typ) kw) computeKindRules"

text \<open>No rule is dead: the keyword of each rule is classified by that rule's own label.\<close>

lemma compute_rules_alive: "list_all (\<lambda>(kw, label). ComputeKind kw = label) computeKindRules"
  by code_simp

text \<open>A compute type gets the label of a rule, never the fallback.\<close>

lemma compute_type_label:
  "IsComputeType typ \<Longrightarrow> ComputeKind typ \<in> snd ` set computeKindRules"
proof -
  assume "IsComputeType typ"
  then have "List.find (\<lambda>(kw, label). contains_str (to_lower typ) kw) computeKindRules \<noteq> None"
    by (auto simp: IsComputeType_def find_None_iff list_ex_iff)
  then obtain kw label where f: "List.find (\<lambda>(kw, label). contains_str (to_lower typ) kw) computeKindRules =
      Some (kw, label)" by fastforce
  then have "(kw, label) \<in> set computeKindRules" by (auto simp: find_Some_iff) (metis nth_mem)
  then show ?thesis using f by (force simp: ComputeKind_def)
qed

end
