(* ===== verification/FieldEvidence.thy ===== *)
theory FieldEvidence
  imports ActionStore Complex_Main
begin

text \<open>
  internal/fieldevidence: what happened after a fix shipped. \<open>Aggregate\<close> (fieldevidence.go) counts, per
  class of finding, how often a live attack disproved a clean re-scan; \<open>FromActions\<close> (observe.go)
  reads such observations off a tenant's actions; \<open>RemediationsForTenant\<close> (remediation.go) counts, per
  class and kind of fix, how often the fix closed the finding. A rate is a rational number: the
  sources divide two counts in floating point and compare with a threshold, and rounding cannot
  change such a comparison unless the two numbers are equal.
\<close>

section \<open>Options\<close>

record options =
  op_min_observations :: int
  op_min_contributors :: int
  op_max_per_tenant :: int
  op_threshold :: rat

definition withDefaults :: "options \<Rightarrow> options" where
  "withDefaults o1 =
     \<lparr>op_min_observations = (if op_min_observations o1 \<le> 0 then 5 else op_min_observations o1),
      op_min_contributors = (if op_min_contributors o1 \<le> 0 then 3 else op_min_contributors o1),
      op_max_per_tenant = (if op_max_per_tenant o1 \<le> 0 then 5 else op_max_per_tenant o1),
      op_threshold = (if op_threshold o1 \<le> 0 then 1 / 10 else op_threshold o1)\<rparr>"

definition no_options :: options where
  "no_options = \<lparr>op_min_observations = 0, op_min_contributors = 0, op_max_per_tenant = 0, op_threshold = 0\<rparr>"

definition noPerTenantCap :: int where
  "noPerTenantCap = 2 ^ 63 - 1"

section \<open>Observations\<close>

record observation =
  o_tenant :: string
  o_class :: string
  o_contradicted :: bool

definition ClassOf :: "string \<Rightarrow> string" where
  "ClassOf findingKey = split_n CHR ''|'' 2 findingKey ! 0"

text \<open>The loops over finding keys with their map \<open>seen\<close>: the distinct classes, blank ones left out.\<close>

definition class_step :: "string list \<Rightarrow> string \<Rightarrow> string list" where
  "class_step out k =
     (let c = trim_space (ClassOf k) in if c = [] \<or> c \<in> set out then out else out @ [c])"

definition distinct_classes :: "string list \<Rightarrow> string list" where
  "distinct_classes keys = foldl class_step [] keys"

definition verificationEvents :: "action \<Rightarrow> fix_verification list" where
  "verificationEvents a =
     (if a_history a \<noteq> [] then a_history a
      else case a_verification a of None \<Rightarrow> [] | Some v \<Rightarrow> [v])"

definition FromActions :: "string \<Rightarrow> action list \<Rightarrow> observation list" where
  "FromActions tenant actions =
     concat (map (\<lambda>a. concat (map (\<lambda>v.
         if \<not> fv_saidFixed v then []
         else map (\<lambda>c. \<lparr>o_tenant = tenant, o_class = c,
                    o_contradicted = (fv_disagreement v = ''rescan_missed_live_exploit'')\<rparr>)
                (distinct_classes (a_findingKeys a)))
       (verificationEvents a))) actions)"

section \<open>Aggregate\<close>

record accum =
  ac_per :: "string \<Rightarrow> int"
  ac_contributors :: "string list"
  ac_clean :: int
  ac_contradicted :: int

definition no_accum :: accum where
  "no_accum = \<lparr>ac_per = (\<lambda>_. 0), ac_contributors = [], ac_clean = 0, ac_contradicted = 0\<rparr>"

record class_evidence =
  ce_class :: string
  ce_contributors :: int
  ce_clean :: int
  ce_contradicted :: int

record corpus =
  co_classes :: "(string \<times> class_evidence) list"
  co_opts :: options

definition accumulate :: "int \<Rightarrow> accum \<Rightarrow> observation \<Rightarrow> accum" where
  "accumulate cap a ob =
     (if cap \<le> ac_per a (o_tenant ob) then a
      else a\<lparr>ac_per := (ac_per a)(o_tenant ob := ac_per a (o_tenant ob) + 1),
             ac_contributors := add_once (o_tenant ob) (ac_contributors a),
             ac_clean := ac_clean a + 1,
             ac_contradicted := (if o_contradicted ob then ac_contradicted a + 1 else ac_contradicted a)\<rparr>)"

definition observe_class :: "int \<Rightarrow> (string \<times> accum) list \<Rightarrow> observation \<Rightarrow> (string \<times> accum) list" where
  "observe_class cap m ob =
     (let c = trim_space (o_class ob)
      in if c = [] then m
         else let a = (case map_of m c of None \<Rightarrow> no_accum | Some a \<Rightarrow> a)
              in put c (accumulate cap a ob) m)"

definition Aggregate :: "observation list \<Rightarrow> options \<Rightarrow> corpus" where
  "Aggregate obs opts0 =
     (let opts = withDefaults opts0;
          byClass = foldl (observe_class (op_max_per_tenant opts)) [] obs
      in \<lparr>co_classes = map (\<lambda>(c, a). (c, \<lparr>ce_class = c, ce_contributors = int (length (ac_contributors a)),
                         ce_clean = ac_clean a, ce_contradicted = ac_contradicted a\<rparr>)) byClass,
          co_opts = opts\<rparr>)"

definition ForTenant :: "string \<Rightarrow> action list \<Rightarrow> options \<Rightarrow> corpus" where
  "ForTenant tenant actions opts =
     Aggregate (FromActions tenant actions) (opts\<lparr>op_min_contributors := 1, op_max_per_tenant := noPerTenantCap\<rparr>)"

definition ContradictionRate :: "class_evidence \<Rightarrow> rat" where
  "ContradictionRate e =
     (if ce_clean e = 0 then 0 else rat_of_int (ce_contradicted e) / rat_of_int (ce_clean e))"

text \<open>\<open>RescanSufficient\<close>: (sufficient, known).\<close>

definition RescanSufficient :: "corpus option \<Rightarrow> string \<Rightarrow> bool \<times> bool" where
  "RescanSufficient co class =
     (case co of
        None \<Rightarrow> (True, False)
      | Some c \<Rightarrow>
          (case map_of (co_classes c) (trim_space class) of
             None \<Rightarrow> (True, False)
           | Some e \<Rightarrow>
               if ce_clean e < op_min_observations (co_opts c) \<or> ce_contributors e < op_min_contributors (co_opts c)
               then (True, False)
               else (ContradictionRate e < op_threshold (co_opts c), True)))"

definition Evidence :: "corpus option \<Rightarrow> string \<Rightarrow> class_evidence option" where
  "Evidence co class =
     (case co of None \<Rightarrow> None | Some c \<Rightarrow> map_of (co_classes c) (trim_space class))"

definition worse_evidence :: "class_evidence \<Rightarrow> class_evidence \<Rightarrow> bool" where
  "worse_evidence a b =
     (if ContradictionRate a \<noteq> ContradictionRate b then ContradictionRate b < ContradictionRate a
      else str_less (ce_class a) (ce_class b))"

definition Distrusted :: "corpus option \<Rightarrow> class_evidence list" where
  "Distrusted co =
     (case co of
        None \<Rightarrow> []
      | Some c \<Rightarrow> sort_by worse_evidence
          (map snd (filter (\<lambda>(cl, _). let (ok, known) = RescanSufficient (Some c) cl in known \<and> \<not> ok)
             (co_classes c))))"

section \<open>Remediations\<close>

record efficacy =
  ef_class :: string
  ef_type :: string
  ef_closed :: int
  ef_notClosed :: int
  ef_unproven :: int

definition remKey :: "string \<Rightarrow> string \<Rightarrow> string" where
  "remKey class rtype = class @ char_of (0 :: nat) # rtype"

definition remediationTypeOf :: "action \<Rightarrow> string" where
  "remediationTypeOf a =
     (case map_of (a_payload a) ''remediation_type'' of Some (JStr s) \<Rightarrow> trim_space s | _ \<Rightarrow> [])"

definition note_outcome :: "string \<Rightarrow> string \<Rightarrow> (string \<times> efficacy) list \<Rightarrow> string \<Rightarrow> (string \<times> efficacy) list" where
  "note_outcome rtype st m class =
     (let e = (case map_of m (remKey class rtype) of
                 None \<Rightarrow> \<lparr>ef_class = class, ef_type = rtype, ef_closed = 0, ef_notClosed = 0, ef_unproven = 0\<rparr>
               | Some e \<Rightarrow> e\<lparr>ef_class := class, ef_type := rtype\<rparr>)
      in if st = FixStatusFixed then put (remKey class rtype) (e\<lparr>ef_closed := ef_closed e + 1\<rparr>) m
         else if st = FixStatusStillPresent then put (remKey class rtype) (e\<lparr>ef_notClosed := ef_notClosed e + 1\<rparr>) m
         else if st = FixStatusRescanUnconfirmed then put (remKey class rtype) (e\<lparr>ef_unproven := ef_unproven e + 1\<rparr>) m
         else m)"

definition note_action :: "(string \<times> efficacy) list \<Rightarrow> action \<Rightarrow> (string \<times> efficacy) list" where
  "note_action m a =
     (case a_verification a of
        None \<Rightarrow> m
      | Some v \<Rightarrow>
          if a_status a \<noteq> ActApplied then m
          else let rtype = remediationTypeOf a
               in if rtype = [] then m
                  else foldl (note_outcome rtype (fv_status v)) m (distinct_classes (a_findingKeys a)))"

record rem_corpus =
  rc_entries :: "(string \<times> efficacy) list"
  rc_opts :: options

definition RemediationsForTenant :: "string \<Rightarrow> action list \<Rightarrow> options \<Rightarrow> rem_corpus" where
  "RemediationsForTenant tenant actions opts =
     \<lparr>rc_entries = foldl note_action [] actions, rc_opts = withDefaults opts\<rparr>"

definition Decided :: "efficacy \<Rightarrow> int" where
  "Decided e = ef_closed e + ef_notClosed e"

definition ClosureRate :: "efficacy \<Rightarrow> rat" where
  "ClosureRate e = (if Decided e = 0 then 0 else rat_of_int (ef_closed e) / rat_of_int (Decided e))"

definition rem_For :: "rem_corpus option \<Rightarrow> string \<Rightarrow> string \<Rightarrow> efficacy option" where
  "rem_For co class rtype =
     (case co of
        None \<Rightarrow> None
      | Some c \<Rightarrow>
          (case map_of (rc_entries c) (remKey (trim_space class) (trim_space rtype)) of
             None \<Rightarrow> None
           | Some e \<Rightarrow> if Decided e < op_min_observations (rc_opts c) then None else Some e))"

definition Muted :: "rem_corpus option \<Rightarrow> string \<Rightarrow> string \<Rightarrow> efficacy option" where
  "Muted co class rtype =
     (case co of
        None \<Rightarrow> None
      | Some c \<Rightarrow>
          (case map_of (rc_entries c) (remKey (trim_space class) (trim_space rtype)) of
             None \<Rightarrow> None
           | Some e \<Rightarrow> if op_min_observations (rc_opts c) \<le> Decided e \<or> ef_unproven e = 0 then None else Some e))"

definition weaker :: "efficacy \<Rightarrow> efficacy \<Rightarrow> bool" where
  "weaker a b =
     (if ClosureRate a \<noteq> ClosureRate b then ClosureRate a < ClosureRate b
      else if ef_class a \<noteq> ef_class b then str_less (ef_class a) (ef_class b)
      else str_less (ef_type a) (ef_type b))"

definition Weakest :: "rem_corpus option \<Rightarrow> efficacy list" where
  "Weakest co =
     (case co of
        None \<Rightarrow> []
      | Some c \<Rightarrow> sort_by weaker (List.map_filter (\<lambda>(_, e).
            case rem_For co (ef_class e) (ef_type e) of
              Some got \<Rightarrow> if ClosureRate got < 1 then Some got else None
            | None \<Rightarrow> None) (rc_entries c)))"

section \<open>Classes\<close>

lemma set_distinct_classes:
  "set (distinct_classes keys) = {c. c \<noteq> [] \<and> (\<exists>k \<in> set keys. c = trim_space (ClassOf k))}"
proof -
  have "set (foldl class_step out keys) = set out \<union> {c. c \<noteq> [] \<and> (\<exists>k \<in> set keys. c = trim_space (ClassOf k))}" for out
    by (induction keys arbitrary: out) (auto simp: class_step_def Let_def)
  then show ?thesis by (simp add: distinct_classes_def)
qed

lemma distinct_distinct_classes [simp]: "distinct (distinct_classes keys)"
proof -
  have "distinct out \<Longrightarrow> distinct (foldl class_step out keys)" for out
    by (induction keys arbitrary: out) (auto simp: class_step_def Let_def)
  then show ?thesis by (simp add: distinct_classes_def)
qed

section \<open>What Aggregate counts\<close>

definition of_class :: "string \<Rightarrow> observation \<Rightarrow> bool" where
  "of_class c ob \<longleftrightarrow> trim_space (o_class ob) = c"

definition by_tenant :: "string \<Rightarrow> observation list \<Rightarrow> observation list" where
  "by_tenant t os = filter (\<lambda>ob. o_tenant ob = t) os"

lemma observe_fold:
  assumes "c \<noteq> []"
  shows "map_of (foldl (observe_class cap) m os) c =
    (if filter (of_class c) os = [] then map_of m c
     else Some (foldl (accumulate cap) (case map_of m c of None \<Rightarrow> no_accum | Some a \<Rightarrow> a) (filter (of_class c) os)))"
proof (induction os arbitrary: m)
  case (Cons ob os)
  have "map_of (observe_class cap m ob) c =
      (if of_class c ob then Some (accumulate cap (case map_of m c of None \<Rightarrow> no_accum | Some a \<Rightarrow> a) ob) else map_of m c)"
    using assms by (auto simp: observe_class_def of_class_def Let_def)
  then show ?case by (simp add: Cons.IH)
qed simp

lemma observe_blank: "map_of m [] = None \<Longrightarrow> map_of (foldl (observe_class cap) m os) [] = None"
  by (induction os arbitrary: m) (simp_all add: observe_class_def Let_def)

lemma map_of_map_keyed: "map_of (map (\<lambda>(k, v). (k, f k v)) m) k = map_option (f k) (map_of m k)"
  by (induction m) auto

text \<open>One class: each tenant contributes its first \<open>cap\<close> observations.\<close>

lemma accumulate_fold:
  assumes cap: "0 < cap" and T: "finite T" "o_tenant ` set os \<subseteq> T"
  defines "a \<equiv> foldl (accumulate cap) no_accum os"
  shows "ac_per a t = min cap (int (length (by_tenant t os)))"
    and "distinct (ac_contributors a)" and "set (ac_contributors a) = o_tenant ` set os"
    and "ac_clean a = (\<Sum>t \<in> T. int (length (take (nat cap) (by_tenant t os))))"
    and "ac_contradicted a = (\<Sum>t \<in> T. int (length (filter o_contradicted (take (nat cap) (by_tenant t os)))))"
proof -
  have "(\<forall>t. ac_per a t = min cap (int (length (by_tenant t os)))) \<and>
    distinct (ac_contributors a) \<and> set (ac_contributors a) = o_tenant ` set os \<and>
    ac_clean a = (\<Sum>t \<in> T. int (length (take (nat cap) (by_tenant t os)))) \<and>
    ac_contradicted a = (\<Sum>t \<in> T. int (length (filter o_contradicted (take (nat cap) (by_tenant t os)))))"
    using T(2) unfolding a_def
  proof (induction os rule: rev_induct)
    case Nil
    show ?case using cap by (simp add: no_accum_def by_tenant_def)
  next
    case (snoc ob os)
    define b where "b = foldl (accumulate cap) no_accum os"
    note IH = snoc.IH [folded b_def]
    have t: "o_tenant ob \<in> T" using snoc.prems by simp
    have by_snoc: "by_tenant t (os @ [ob]) = (if t = o_tenant ob then by_tenant t os @ [ob] else by_tenant t os)" for t
      by (simp add: by_tenant_def)
    have bump: "(\<Sum>t \<in> T. f t + (if t = o_tenant ob then d else 0)) = (\<Sum>t \<in> T. f t) + (d :: int)" for f d
      using T(1) t by (simp add: sum.distrib)
    have sub: "o_tenant ` set os \<subseteq> T" using snoc.prems by auto
    have step: "foldl (accumulate cap) no_accum (os @ [ob]) = accumulate cap b ob" by (simp add: b_def)
    show ?case
    proof (cases "cap \<le> ac_per b (o_tenant ob)")
      case True
      then have full: "cap \<le> int (length (by_tenant (o_tenant ob) os))" using IH [OF sub] by simp
      then have "by_tenant (o_tenant ob) os \<noteq> []" using cap by auto
      then obtain x where "x \<in> set os" "o_tenant x = o_tenant ob"
        by (auto simp: by_tenant_def filter_empty_conv)
      then have "o_tenant ob \<in> o_tenant ` set os" by (metis imageI)
      moreover have "take (nat cap) (by_tenant t (os @ [ob])) = take (nat cap) (by_tenant t os)" for t
        using full cap by (simp add: by_snoc)
      moreover have "min cap (int (length (by_tenant t (os @ [ob])))) = min cap (int (length (by_tenant t os)))" for t
        using full by (simp add: by_snoc)
      moreover have "accumulate cap b ob = b" using True by (simp add: accumulate_def)
      ultimately show ?thesis using IH [OF sub] unfolding step by (simp add: insert_absorb)
    next
      case False
      then have room: "int (length (by_tenant (o_tenant ob) os)) < cap" using IH [OF sub] by simp
      have "int (length (take (nat cap) (by_tenant t (os @ [ob])))) =
          int (length (take (nat cap) (by_tenant t os))) + (if t = o_tenant ob then 1 else 0)" for t
        using room cap by (simp add: by_snoc)
      moreover have "int (length (filter o_contradicted (take (nat cap) (by_tenant t (os @ [ob]))))) =
          int (length (filter o_contradicted (take (nat cap) (by_tenant t os)))) +
          (if t = o_tenant ob then if o_contradicted ob then 1 else 0 else 0)" for t
        using room cap by (auto simp: by_snoc take_Cons')
      moreover have "min cap (int (length (by_tenant t (os @ [ob])))) =
          (if t = o_tenant ob then min cap (int (length (by_tenant t os))) + 1 else min cap (int (length (by_tenant t os))))" for t
        using room by (simp add: by_snoc)
      moreover have "accumulate cap b ob =
          b\<lparr>ac_per := (ac_per b)(o_tenant ob := ac_per b (o_tenant ob) + 1),
            ac_contributors := add_once (o_tenant ob) (ac_contributors b), ac_clean := ac_clean b + 1,
            ac_contradicted := (if o_contradicted ob then ac_contradicted b + 1 else ac_contradicted b)\<rparr>"
        using False by (simp add: accumulate_def)
      ultimately show ?thesis using IH [OF sub] unfolding step by (simp only: bump) (simp add: bump)
    qed
  qed
  then show "ac_per a t = min cap (int (length (by_tenant t os)))"
    and "distinct (ac_contributors a)" and "set (ac_contributors a) = o_tenant ` set os"
    and "ac_clean a = (\<Sum>t \<in> T. int (length (take (nat cap) (by_tenant t os))))"
    and "ac_contradicted a = (\<Sum>t \<in> T. int (length (filter o_contradicted (take (nat cap) (by_tenant t os)))))"
    by blast+
qed

text \<open>
  \<open>Aggregate\<close> publishes a class exactly when some observation names it, and then counts, of every
  tenant that observed it, the first observations up to the cap, clean and contradicted alike, and
  each such tenant once: no tenant outvotes the others.
\<close>

lemma aggregate_counts:
  fixes obs :: "observation list" and opts :: options and c :: string
  defines "os \<equiv> filter (of_class c) obs" and "cap \<equiv> op_max_per_tenant (withDefaults opts)"
  shows "map_of (co_classes (Aggregate obs opts)) c =
    (if c = [] \<or> os = [] then None
     else Some \<lparr>ce_class = c, ce_contributors = int (card (o_tenant ` set os)),
       ce_clean = (\<Sum>t \<in> o_tenant ` set os. int (length (take (nat cap) (by_tenant t os)))),
       ce_contradicted =
         (\<Sum>t \<in> o_tenant ` set os. int (length (filter o_contradicted (take (nat cap) (by_tenant t os)))))\<rparr>)"
proof -
  have cap: "0 < cap" by (simp add: cap_def withDefaults_def)
  have eq: "map_of (co_classes (Aggregate obs opts)) c =
      map_option (\<lambda>a. \<lparr>ce_class = c, ce_contributors = int (length (ac_contributors a)),
        ce_clean = ac_clean a, ce_contradicted = ac_contradicted a\<rparr>) (map_of (foldl (observe_class cap) [] obs) c)"
    by (simp add: Aggregate_def Let_def cap_def map_of_map_keyed)
  show ?thesis
  proof (cases "c = []")
    case True
    then show ?thesis using eq observe_blank [of "[]" cap obs] by simp
  next
    case False
    note acc = accumulate_fold [OF cap finite_imageI [OF finite_set] subset_refl, of os]
    have "length (ac_contributors (foldl (accumulate cap) no_accum os)) = card (o_tenant ` set os)"
      using distinct_card [OF acc(2)] acc(3) by simp
    then show ?thesis
      using False acc(4,5) by (simp add: eq observe_fold os_def)
  qed
qed

text \<open>The counts that an aggregate publishes for a class.\<close>

definition clean_count :: "int \<Rightarrow> observation list \<Rightarrow> int" where
  "clean_count cap os = (\<Sum>t \<in> o_tenant ` set os. int (length (take (nat cap) (by_tenant t os))))"

definition contradicted_count :: "int \<Rightarrow> observation list \<Rightarrow> int" where
  "contradicted_count cap os =
     (\<Sum>t \<in> o_tenant ` set os. int (length (filter o_contradicted (take (nat cap) (by_tenant t os)))))"

text \<open>Field evidence can only demand more of a fix: a clean re-scan stops being sufficient for a class
  exactly when enough clean re-scans from enough tenants were counted, each tenant's first ones up
  to the cap, and the share of those that a live attack disproved has reached the threshold. In
  every other case, no data included, the answer is the status quo.
\<close>

theorem distrust_is_earned:
  "\<not> fst (RescanSufficient (Some (Aggregate obs opts)) class) \<longleftrightarrow>
     (let c = trim_space class; os = filter (of_class c) obs; o1 = withDefaults opts; cap = op_max_per_tenant o1
      in c \<noteq> [] \<and> op_min_observations o1 \<le> clean_count cap os \<and>
         op_min_contributors o1 \<le> int (card (o_tenant ` set os)) \<and>
         op_threshold o1 * of_int (clean_count cap os) \<le> of_int (contradicted_count cap os))"
proof -
  define c os o1 cap where "c = trim_space class" and "os = filter (of_class c) obs"
    and "o1 = withDefaults opts" and "cap = op_max_per_tenant o1"
  note defs = c_def os_def o1_def cap_def
  have opts: "co_opts (Aggregate obs opts) = o1" by (simp add: Aggregate_def Let_def o1_def)
  have pos: "0 < op_min_observations o1" by (simp add: o1_def withDefaults_def)
  have counts: "map_of (co_classes (Aggregate obs opts)) c =
    (if c = [] \<or> os = [] then None
     else Some \<lparr>ce_class = c, ce_contributors = int (card (o_tenant ` set os)),
       ce_clean = clean_count cap os, ce_contradicted = contradicted_count cap os\<rparr>)"
    unfolding aggregate_counts clean_count_def contradicted_count_def defs by (rule refl)
  have rate: "\<not> ContradictionRate \<lparr>ce_class = c, ce_contributors = n, ce_clean = k, ce_contradicted = m\<rparr> < r \<longleftrightarrow>
      r * of_int k \<le> of_int m" if "0 < k" for n k m r
    using that by (simp add: ContradictionRate_def not_less pos_le_divide_eq)
  have "\<not> fst (RescanSufficient (Some (Aggregate obs opts)) class) \<longleftrightarrow>
      c \<noteq> [] \<and> op_min_observations o1 \<le> clean_count cap os \<and>
      op_min_contributors o1 \<le> int (card (o_tenant ` set os)) \<and>
      op_threshold o1 * of_int (clean_count cap os) \<le> of_int (contradicted_count cap os)"
  proof (cases "c = [] \<or> os = []")
    case True
    then have "clean_count cap os = 0 \<or> c = []" by (auto simp: clean_count_def)
    with True pos show ?thesis
      unfolding RescanSufficient_def option.case c_def [symmetric] counts by auto
  next
    case False
    then show ?thesis
      unfolding RescanSufficient_def option.case c_def [symmetric] counts opts
      using pos rate by (auto simp: not_less)
  qed
  then show ?thesis unfolding Let_def defs .
qed

section \<open>What the remediation record counts\<close>

text \<open>The applied actions of a kind of fix whose current verdict for a class of finding is the given one.\<close>

definition decides :: "string \<Rightarrow> string \<Rightarrow> string \<Rightarrow> action \<Rightarrow> bool" where
  "decides c t st a \<longleftrightarrow>
     a_status a = ActApplied \<and> t \<noteq> [] \<and> remediationTypeOf a = t \<and> c \<in> set (distinct_classes (a_findingKeys a)) \<and>
     map_option fv_status (a_verification a) = Some st"

definition tally :: "string \<Rightarrow> string \<Rightarrow> string \<Rightarrow> action list \<Rightarrow> int" where
  "tally c t st actions = int (length (filter (decides c t st) actions))"

definition efficacy_of :: "string \<Rightarrow> string \<Rightarrow> action list \<Rightarrow> efficacy" where
  "efficacy_of c t actions =
     \<lparr>ef_class = c, ef_type = t, ef_closed = tally c t FixStatusFixed actions,
      ef_notClosed = tally c t FixStatusStillPresent actions,
      ef_unproven = tally c t FixStatusRescanUnconfirmed actions\<rparr>"

text \<open>No class contains the byte that separates class and type in a key.\<close>

definition nul_free :: "string \<Rightarrow> bool" where
  "nul_free c \<longleftrightarrow> char_of (0 :: nat) \<notin> set c"

lemma remKey_inj:
  assumes "nul_free c" "nul_free c'" "remKey c t = remKey c' t'"
  shows "c = c' \<and> t = t'"
proof -
  have tw: "takeWhile (\<lambda>x. x \<noteq> char_of (0 :: nat)) (remKey c t) = c" if "nul_free c" for c t
  proof -
    have "x \<noteq> char_of (0 :: nat)" if "x \<in> set c" for x using that \<open>nul_free c\<close> by (metis nul_free_def)
    then show ?thesis by (simp add: remKey_def takeWhile_append2)
  qed
  from tw [OF assms(1)] tw [OF assms(2)] assms(3) have "c = c'" by metis
  with assms(3) show ?thesis by (simp add: remKey_def)
qed

lemma outcome_elsewhere:
  "remKey d r \<noteq> k \<Longrightarrow> map_of (note_outcome r st m d) k = map_of m k"
  by (simp add: note_outcome_def Let_def)

lemma outcomes_elsewhere:
  "\<forall>d \<in> set cs. remKey d r \<noteq> k \<Longrightarrow> map_of (foldl (note_outcome r st) m cs) k = map_of m k"
  by (induction cs arbitrary: m) (simp_all add: outcome_elsewhere)

lemma outcome_local:
  "map_of m k = map_of m' k \<Longrightarrow> k = remKey d r \<Longrightarrow> map_of (note_outcome r st m d) k = map_of (note_outcome r st m' d) k"
  by (simp add: note_outcome_def Let_def)

lemma outcomes_once:
  assumes "distinct cs" "\<forall>d \<in> set cs. nul_free d" "c \<in> set cs"
  shows "map_of (foldl (note_outcome r st) m cs) (remKey c r) = map_of (note_outcome r st m c) (remKey c r)"
proof -
  from assms(3) obtain xs ys where cs: "cs = xs @ c # ys" by (meson split_list)
  have other: "\<forall>d \<in> set xs. remKey d r \<noteq> remKey c r" "\<forall>d \<in> set ys. remKey d r \<noteq> remKey c r"
    using assms remKey_inj cs by (metis (no_types) Un_iff distinct.simps(2) distinct_append insertCI
        not_distinct_conv_prefix set_append list.set(2))+
  show ?thesis
    unfolding cs foldl_append foldl.simps
    by (subst outcomes_elsewhere [OF other(2)]) (rule outcome_local [OF outcomes_elsewhere [OF other(1)] refl])
qed

definition known_verdict :: "string \<Rightarrow> string \<Rightarrow> action \<Rightarrow> bool" where
  "known_verdict c t a \<longleftrightarrow>
     (\<exists>st \<in> {FixStatusFixed, FixStatusStillPresent, FixStatusRescanUnconfirmed}. decides c t st a)"

lemma tally_snoc:
  "tally c t st (actions @ [a]) = tally c t st actions + (if decides c t st a then 1 else 0)"
  by (simp add: tally_def)

text \<open>One action moves the record of its own classes and fix, by one, and no other.\<close>

lemma note_action_step:
  assumes m: "map_of m (remKey c t) =
      (if list_ex (known_verdict c t) actions then Some (efficacy_of c t actions) else None)"
    and free: "nul_free c" "\<forall>d \<in> set (distinct_classes (a_findingKeys a)). nul_free d" and t: "t \<noteq> []"
  shows "map_of (note_action m a) (remKey c t) =
      (if list_ex (known_verdict c t) (actions @ [a]) then Some (efficacy_of c t (actions @ [a])) else None)"
proof -
  let ?cs = "distinct_classes (a_findingKeys a)"
  have zero: "efficacy_of c t actions = \<lparr>ef_class = c, ef_type = t, ef_closed = 0, ef_notClosed = 0, ef_unproven = 0\<rparr>"
    if "\<not> list_ex (known_verdict c t) actions"
    using that by (auto simp: efficacy_of_def tally_def known_verdict_def list_ex_iff filter_empty_conv)
  have fields: "ef_class (efficacy_of c t xs) = c" "ef_type (efficacy_of c t xs) = t" for xs
    by (simp_all add: efficacy_of_def)
  show ?thesis
  proof (cases "\<exists>st. decides c t st a")
    case False
    have "map_of (note_action m a) (remKey c t) = map_of m (remKey c t)"
    proof (cases "a_verification a = None \<or> a_status a \<noteq> ActApplied \<or> remediationTypeOf a = []")
      case True
      then show ?thesis by (auto simp: note_action_def split: option.splits)
    next
      case False
      with \<open>\<nexists>st. decides c t st a\<close> have "remediationTypeOf a \<noteq> t \<or> c \<notin> set ?cs"
        by (auto simp: decides_def t)
      then have "\<forall>d \<in> set ?cs. remKey d (remediationTypeOf a) \<noteq> remKey c t"
        using free remKey_inj by metis
      from outcomes_elsewhere [OF this] show ?thesis by (simp add: note_action_def Let_def split: option.splits)
    qed
    moreover have "\<not> known_verdict c t a" using False by (auto simp: known_verdict_def)
    ultimately show ?thesis using m False by (simp add: efficacy_of_def tally_snoc)
  next
    case True
    then obtain v where d: "a_status a = ActApplied" "remediationTypeOf a = t" "c \<in> set ?cs" "a_verification a = Some v"
      by (auto simp: decides_def)
    then have dec: "decides c t st a \<longleftrightarrow> st = fv_status v" for st using t by (auto simp: decides_def)
    have "map_of (note_action m a) (remKey c t) = map_of (note_outcome t (fv_status v) m c) (remKey c t)"
      using d t outcomes_once [OF distinct_distinct_classes free(2) d(3), of t "fv_status v" m]
      by (simp add: note_action_def)
    also have "\<dots> = (if list_ex (known_verdict c t) (actions @ [a]) then Some (efficacy_of c t (actions @ [a])) else None)"
      using m zero by (auto simp: note_outcome_def Let_def known_verdict_def dec fields efficacy_of_def tally_snoc)
    finally show ?thesis .
  qed
qed

lemma remediations_count:
  assumes "nul_free c" "t \<noteq> []" "\<forall>a \<in> set actions. \<forall>d \<in> set (distinct_classes (a_findingKeys a)). nul_free d"
  shows "map_of (foldl note_action [] actions) (remKey c t) =
    (if list_ex (known_verdict c t) actions then Some (efficacy_of c t actions) else None)"
  using assms(3)
proof (induction actions rule: rev_induct)
  case (snoc a actions)
  then show ?case using note_action_step [of _ c t actions a] assms(1,2) by simp
qed simp

end
