(* ===== verification/Autonomy.thy ===== *)
theory Autonomy
  imports FieldEvidence Hitl
begin

text \<open>
  internal/autonomy: when a kind of fix has earned the right to skip the approval desk. The record
  is counted by \<open>RemediationsForTenant\<close>; \<open>Authorize\<close> is what the desk asks, through \<open>DeskHook\<close>, when
  an action is submitted. The format of a date and \<open>%q\<close> are the fields of \<open>au_env\<close>; reading the bar from the
  environment variable is I/O. The Go map of records is the list of its entries.
\<close>

section \<open>The record\<close>

record au_env =
  au_date :: "int \<Rightarrow> string"
  au_quote :: "string \<Rightarrow> string"

definition minClosed :: "int \<Rightarrow> int" where
  "minClosed opt = (if opt \<le> 0 then 5 else opt)"

type_synonym au_record = "((string \<times> string) \<times> efficacy) list"

definition record_of :: "string \<Rightarrow> action list \<Rightarrow> au_record" where
  "record_of tenantID actions =
     foldl (\<lambda>out (k, e). put (ef_class e, ef_type e) e out) []
       (rc_entries (RemediationsForTenant tenantID actions no_options))"

definition no_efficacy :: efficacy where
  "no_efficacy = \<lparr>ef_class = [], ef_type = [], ef_closed = 0, ef_notClosed = 0, ef_unproven = 0\<rparr>"

definition look :: "au_record \<Rightarrow> string \<Rightarrow> string \<Rightarrow> efficacy" where
  "look rec c t = (case map_of rec (c, t) of None \<Rightarrow> no_efficacy | Some e \<Rightarrow> e)"

definition qualifies :: "efficacy \<Rightarrow> int \<Rightarrow> bool \<times> string" where
  "qualifies e mn =
     (if 0 < ef_notClosed e then
        (False, ''this fix failed to close the finding '' @ dec_int (ef_notClosed e) @ '' time(s)'')
      else if 0 < ef_unproven e then
        (False, dec_int (ef_unproven e) @ '' application(s) could not be confirmed by a re-test'')
      else if ef_closed e < mn then
        (False, dec_int (ef_closed e) @ '' proven closure(s) so far; '' @ dec_int mn @ '' are needed'')
      else (True, []))"

definition Qualifies :: "string \<Rightarrow> action list \<Rightarrow> string \<Rightarrow> string \<Rightarrow> int \<Rightarrow> int \<times> bool \<times> string" where
  "Qualifies tenantID actions class rtype opt =
     (case map_of (record_of tenantID actions) (class, rtype) of
        None \<Rightarrow> (0, False, ''this fix has never been applied and re-tested for this kind of finding'')
      | Some e \<Rightarrow> let (q, why) = qualifies e (minClosed opt) in (ef_closed e, q, why))"

definition failed :: "string \<Rightarrow> bool" where
  "failed st \<longleftrightarrow> st = FixStatusStillPresent \<or> st = FixStatusRescanUnconfirmed"

definition classesOf :: "action \<Rightarrow> string list" where
  "classesOf a = foldl class_step [] (a_findingKeys a)"

definition rtypeOf :: "action \<Rightarrow> string" where
  "rtypeOf a =
     (case map_of (a_payload a) ''remediation_type'' of Some (JStr s) \<Rightarrow> trim_space s | _ \<Rightarrow> [])"

section \<open>Grants\<close>

record grant_status =
  gs_grant :: autonomy_grant
  gs_active :: bool
  gs_reason :: string
  gs_applied :: int

text \<open>The loop over the verdicts of one action: the first failure ends the grant and gives the reason.\<close>

definition verdict_step :: "au_env \<Rightarrow> action \<Rightarrow> grant_status \<Rightarrow> fix_verification \<Rightarrow> grant_status" where
  "verdict_step env a gs v =
     (if failed (fv_status v) \<and> gs_active gs
      then gs\<lparr>gs_active := False,
              gs_reason := ''Action '' @ a_id a @ '', applied on '' @ au_date env (a_decidedAt a) @
                '' after this was allowed, was re-tested as '' @ au_quote env (fv_status v) @
                ''. Every action of this kind now goes back to the approval desk until you allow it again.''\<rparr>
      else gs)"

definition status_step :: "au_env \<Rightarrow> autonomy_grant \<Rightarrow> grant_status \<Rightarrow> action \<Rightarrow> grant_status" where
  "status_step env g gs a =
     (if a_status a \<noteq> ActApplied \<or> a_decidedAt a < g_at g \<or> rtypeOf a \<noteq> g_rtype g then gs
      else if \<not> list_ex (\<lambda>c. c = g_class g) (classesOf a) then gs
      else let hist = (if a_history a = []
                       then (case a_verification a of None \<Rightarrow> [] | Some v \<Rightarrow> [v]) else a_history a)
           in foldl (verdict_step env a) (gs\<lparr>gs_applied := gs_applied gs + 1\<rparr>) hist)"

definition status :: "au_env \<Rightarrow> autonomy_grant \<Rightarrow> au_record \<Rightarrow> action list \<Rightarrow> int \<Rightarrow> grant_status" where
  "status env g rec actions mn =
     (let gs = foldl (status_step env g)
                 \<lparr>gs_grant = g, gs_active = True, gs_reason = [], gs_applied = 0\<rparr> actions
      in if gs_active gs then
           (let (q, why) = qualifies (look rec (g_class g) (g_rtype g)) mn
            in if \<not> q then gs\<lparr>gs_active := False,
                 gs_reason := ''The record it was allowed on no longer holds: '' @ why @ ''.''\<rparr> else gs)
         else gs)"

section \<open>The owner's view\<close>

record offer =
  off_class :: string
  off_rtype :: string
  off_closed :: int

record report =
  rp_min :: int
  rp_offers :: "offer list"
  rp_grants :: "grant_status list"

definition offer_less :: "offer \<Rightarrow> offer \<Rightarrow> bool" where
  "offer_less a b =
     (if off_closed a \<noteq> off_closed b then off_closed b < off_closed a
      else str_less (off_class a @ off_rtype a) (off_class b @ off_rtype b))"

definition au_Evaluate ::
  "au_env \<Rightarrow> string \<Rightarrow> action list \<Rightarrow> autonomy_grant list \<Rightarrow> int \<Rightarrow> report" where
  "au_Evaluate env tenantID actions grants opt =
     (let mn = minClosed opt; rec = record_of tenantID actions;
          granted = map (\<lambda>g. (g_class g, g_rtype g)) grants
      in \<lparr>rp_min = mn,
          rp_offers = sort_by offer_less (List.map_filter (\<lambda>(p, e).
              if p \<in> set granted then None
              else if fst (qualifies e mn)
              then Some \<lparr>off_class = fst p, off_rtype = snd p, off_closed = ef_closed e\<rparr> else None) rec),
          rp_grants = map (\<lambda>g. status env g rec actions mn) grants\<rparr>)"

section \<open>Authorize\<close>

text \<open>The inner loop keeps the last grant that matches.\<close>

definition latest_grant :: "autonomy_grant list \<Rightarrow> string \<Rightarrow> string \<Rightarrow> autonomy_grant option" where
  "latest_grant grants c rtype =
     foldl (\<lambda>found g. if g_class g = c \<and> g_rtype g = rtype then Some g else found) None grants"

fun grant_classes ::
  "au_env \<Rightarrow> au_record \<Rightarrow> action list \<Rightarrow> autonomy_grant list \<Rightarrow> int \<Rightarrow> string \<Rightarrow> string list \<Rightarrow> string list \<Rightarrow>
    string list option" where
  "grant_classes env rec actions grants mn rtype by [] = Some by"
| "grant_classes env rec actions grants mn rtype by (c # cs) =
     (case latest_grant grants c rtype of
        None \<Rightarrow> None
      | Some g \<Rightarrow>
          if \<not> gs_active (status env g rec actions mn) then None
          else grant_classes env rec actions grants mn rtype
                 (by @ [c @ '' (allowed by '' @ g_by g @ '' on '' @ au_date env (g_at g) @ '')'']) cs)"

definition au_Authorize ::
  "au_env \<Rightarrow> string \<Rightarrow> action \<Rightarrow> action list \<Rightarrow> autonomy_grant list \<Rightarrow> int \<Rightarrow> string \<times> bool" where
  "au_Authorize env tenantID a actions grants opt =
     (if a_tier a \<noteq> GateTier \<or> grants = [] then ([], False)
      else let rtype = rtypeOf a; classes = classesOf a
           in if rtype = [] \<or> classes = [] then ([], False)
              else (case grant_classes env (record_of tenantID actions) actions grants (minClosed opt) rtype [] classes of
                      None \<Rightarrow> ([], False)
                    | Some by \<Rightarrow> (''earned autonomy: '' @ rtype @ '' for '' @ join_with '', '' by, True)))"

text \<open>The hook of the desk, over any store that can list a tenant's actions (a read may fail).\<close>

definition DeskHook ::
  "au_env \<Rightarrow> int \<Rightarrow> ('s \<Rightarrow> string \<Rightarrow> tenant option) \<Rightarrow> ('s \<Rightarrow> string \<Rightarrow> action list option) \<Rightarrow>
    's \<Rightarrow> action \<Rightarrow> string \<times> bool" where
  "DeskHook env opt get_tenant list_actions s a =
     (case get_tenant s (a_tenant a) of
        None \<Rightarrow> ([], False)
      | Some t \<Rightarrow>
          if t_grants t = [] then ([], False)
          else (case list_actions s (a_tenant a) of
                  None \<Rightarrow> ([], False)
                | Some acts \<Rightarrow> au_Authorize env (a_tenant a) a acts (t_grants t) opt))"

section \<open>The record, read by class and fix\<close>

text \<open>Entries are filed once, under the key of their own class and fix.\<close>

definition filed :: "(string \<times> efficacy) list \<Rightarrow> bool" where
  "filed m \<longleftrightarrow> distinct (map fst m) \<and>
     (\<forall>(k, e) \<in> set m. k = remKey (ef_class e) (ef_type e) \<and> nul_free (ef_class e))"

lemma filed_put:
  "filed m \<Longrightarrow> k = remKey (ef_class e) (ef_type e) \<Longrightarrow> nul_free (ef_class e) \<Longrightarrow> filed (put k e m)"
  by (fastforce simp: filed_def dest!: set_put)

lemma filed_outcome: "filed m \<Longrightarrow> nul_free d \<Longrightarrow> filed (note_outcome r st m d)"
proof -
  assume m: "filed m" "nul_free d"
  define e where "e = (case map_of m (remKey d r) of
      None \<Rightarrow> \<lparr>ef_class = d, ef_type = r, ef_closed = 0, ef_notClosed = 0, ef_unproven = 0\<rparr>
    | Some e \<Rightarrow> e\<lparr>ef_class := d, ef_type := r\<rparr>)"
  have e: "ef_class e = d" "ef_type e = r" by (simp_all add: e_def split: option.split)
  show ?thesis
    unfolding note_outcome_def Let_def e_def [symmetric] using m e by (simp add: filed_put)
qed

lemma filed_action:
  "filed m \<Longrightarrow> \<forall>d \<in> set (distinct_classes (a_findingKeys a)). nul_free d \<Longrightarrow> filed (note_action m a)"
proof -
  have "filed m \<Longrightarrow> \<forall>d \<in> set cs. nul_free d \<Longrightarrow> filed (foldl (note_outcome r st) m cs)" for r st cs m
    by (induction cs arbitrary: m) (simp_all add: filed_outcome)
  then show "filed m \<Longrightarrow> \<forall>d \<in> set (distinct_classes (a_findingKeys a)). nul_free d \<Longrightarrow> filed (note_action m a)"
    by (simp add: note_action_def Let_def split: option.splits)
qed

definition nul_free_classes :: "action list \<Rightarrow> bool" where
  "nul_free_classes actions \<longleftrightarrow> (\<forall>a \<in> set actions. \<forall>d \<in> set (distinct_classes (a_findingKeys a)). nul_free d)"

lemma filed_record: "nul_free_classes actions \<Longrightarrow> filed (foldl note_action [] actions)"
proof -
  have "filed m \<Longrightarrow> nul_free_classes actions \<Longrightarrow> filed (foldl note_action m actions)" for m
    by (induction actions arbitrary: m) (simp_all add: filed_action nul_free_classes_def)
  moreover have "filed []" by (simp add: filed_def)
  ultimately show "nul_free_classes actions \<Longrightarrow> filed (foldl note_action [] actions)" by blast
qed

lemma refile:
  assumes "filed m" "nul_free c" "map_of m (remKey c t) \<noteq> None \<longrightarrow> map_of out (c, t) = None"
  shows "map_of (foldl (\<lambda>out (k, e). put (ef_class e, ef_type e) e out) out m) (c, t) =
    (case map_of m (remKey c t) of None \<Rightarrow> map_of out (c, t) | Some e \<Rightarrow> Some e)"
  using assms(1,3)
proof (induction m arbitrary: out)
  case (Cons ke m)
  obtain k e where ke: "ke = (k, e)" by fastforce
  from Cons.prems(1) have f: "filed m" "k = remKey (ef_class e) (ef_type e)" "nul_free (ef_class e)" "k \<notin> fst ` set m"
    by (auto simp: filed_def ke)
  show ?case
  proof (cases "(ef_class e, ef_type e) = (c, t)")
    case True
    then have "map_of m (remKey c t) = None" using f by (metis Pair_inject map_of_eq_None_iff)
    then show ?thesis using Cons.IH [OF f(1), of "put (ef_class e, ef_type e) e out"] True f(2) by (simp add: ke)
  next
    case False
    then have "k \<noteq> remKey c t" using f(2,3) assms(2) remKey_inj by blast
    then show ?thesis
      using Cons.IH [OF f(1), of "put (ef_class e, ef_type e) e out"] Cons.prems(2) False by (auto simp: ke split: option.splits)
  qed
qed simp

lemma record_of_eq:
  assumes "nul_free_classes actions" "nul_free c" "t \<noteq> []"
  shows "map_of (record_of tenantID actions) (c, t) =
    (if list_ex (known_verdict c t) actions then Some (efficacy_of c t actions) else None)"
  unfolding record_of_def RemediationsForTenant_def rem_corpus.simps
  using refile [OF filed_record [OF assms(1)] assms(2), of t "[]"] remediations_count [OF assms(2,3), of actions] assms(1)
  by (simp add: nul_free_classes_def)

section \<open>Grants in force\<close>

lemma classesOf_eq: "classesOf a = distinct_classes (a_findingKeys a)"
  by (simp add: classesOf_def distinct_classes_def)

lemma rtypeOf_eq: "rtypeOf a = remediationTypeOf a"
  by (simp add: rtypeOf_def remediationTypeOf_def)

text \<open>An application of the granted fix to the granted class since the grant, and one that a re-test refuted.\<close>

definition applied_under :: "autonomy_grant \<Rightarrow> action \<Rightarrow> bool" where
  "applied_under g b \<longleftrightarrow>
     a_status b = ActApplied \<and> g_at g \<le> a_decidedAt b \<and> rtypeOf b = g_rtype g \<and> g_class g \<in> set (classesOf b)"

definition refuted :: "action \<Rightarrow> bool" where
  "refuted b \<longleftrightarrow> (\<exists>v \<in> set (verificationEvents b). failed (fv_status v))"

lemma verdicts_active:
  "gs_active (foldl (verdict_step env a) gs vs) \<longleftrightarrow> gs_active gs \<and> \<not> (\<exists>v \<in> set vs. failed (fv_status v))"
  by (induction vs arbitrary: gs) (auto simp: verdict_step_def)

lemma status_step_active:
  "gs_active (status_step env g gs b) \<longleftrightarrow> gs_active gs \<and> \<not> (applied_under g b \<and> refuted b)"
proof -
  have "(if a_history b = [] then (case a_verification b of None \<Rightarrow> [] | Some v \<Rightarrow> [v]) else a_history b) =
      verificationEvents b"
    by (simp add: verificationEvents_def)
  moreover have "list_ex (\<lambda>c. c = g_class g) (classesOf b) \<longleftrightarrow> g_class g \<in> set (classesOf b)"
    by (auto simp: list_ex_iff)
  ultimately show ?thesis
    by (auto simp: status_step_def verdicts_active applied_under_def refuted_def Let_def)
qed

lemma status_active:
  "gs_active (status env g rec actions mn) \<longleftrightarrow>
     (\<forall>b \<in> set actions. applied_under g b \<longrightarrow> \<not> refuted b) \<and> fst (qualifies (look rec (g_class g) (g_rtype g)) mn)"
proof -
  have "gs_active (foldl (status_step env g) gs actions) \<longleftrightarrow>
      gs_active gs \<and> (\<forall>b \<in> set actions. applied_under g b \<longrightarrow> \<not> refuted b)" for gs
    by (induction actions arbitrary: gs) (auto simp: status_step_active)
  then show ?thesis by (auto simp: status_def Let_def split: prod.splits)
qed

lemma qualifies_iff: "fst (qualifies e mn) \<longleftrightarrow> ef_notClosed e \<le> 0 \<and> ef_unproven e \<le> 0 \<and> mn \<le> ef_closed e"
  by (auto simp: qualifies_def)

lemma grant_classes_some:
  "grant_classes env rec actions grants mn rtype by cs \<noteq> None \<longleftrightarrow>
     (\<forall>c \<in> set cs. \<exists>g. latest_grant grants c rtype = Some g \<and> gs_active (status env g rec actions mn))"
  by (induction cs arbitrary: "by") (auto split: option.splits)

lemma latest_grant_matches:
  "latest_grant grants c rtype = Some g \<Longrightarrow> g \<in> set grants \<and> g_class g = c \<and> g_rtype g = rtype"
proof -
  have "foldl (\<lambda>found g. if g_class g = c \<and> g_rtype g = rtype then Some g else found) acc gs = Some g \<Longrightarrow>
      acc = Some g \<or> g \<in> set gs \<and> g_class g = c \<and> g_rtype g = rtype" for acc gs
    by (induction gs arbitrary: acc) (fastforce split: if_splits)+
  then show "latest_grant grants c rtype = Some g \<Longrightarrow> g \<in> set grants \<and> g_class g = c \<and> g_rtype g = rtype"
    unfolding latest_grant_def by fastforce
qed

lemma authorize_iff:
  "snd (au_Authorize env tenantID a actions grants opt) \<longleftrightarrow>
     a_tier a = GateTier \<and> rtypeOf a \<noteq> [] \<and> classesOf a \<noteq> [] \<and>
     (\<forall>c \<in> set (classesOf a). \<exists>g. latest_grant grants c (rtypeOf a) = Some g \<and>
        gs_active (status env g (record_of tenantID actions) actions (minClosed opt)))"
proof (cases "grants = []")
  case True
  then show ?thesis by (cases "classesOf a") (auto simp: au_Authorize_def latest_grant_def)
next
  case False
  then show ?thesis
    unfolding grant_classes_some [of env "record_of tenantID actions" actions grants "minClosed opt" "rtypeOf a" "[]", symmetric]
    by (auto simp: au_Authorize_def Let_def split: option.splits)
qed

definition earned :: "action list \<Rightarrow> autonomy_grant list \<Rightarrow> int \<Rightarrow> action \<Rightarrow> bool" where
  "earned actions grants opt a \<longleftrightarrow>
     a_tier a = GateTier \<and> rtypeOf a \<noteq> [] \<and> classesOf a \<noteq> [] \<and>
     (\<forall>c \<in> set (classesOf a).
        (\<exists>g. latest_grant grants c (rtypeOf a) = Some g \<and> (\<forall>b \<in> set actions. applied_under g b \<longrightarrow> \<not> refuted b)) \<and>
        tally c (rtypeOf a) FixStatusStillPresent actions = 0 \<and>
        tally c (rtypeOf a) FixStatusRescanUnconfirmed actions = 0 \<and>
        minClosed opt \<le> tally c (rtypeOf a) FixStatusFixed actions)"

lemma authorize_earned:
  assumes "nul_free_classes actions" and "list_all nul_free (classesOf a)"
  shows "snd (au_Authorize env tenantID a actions grants opt) \<longleftrightarrow>
     earned actions grants opt a"
proof (cases "rtypeOf a = []")
  case True
  then show ?thesis by (simp add: authorize_iff earned_def)
next
  case False
  have pos: "0 < minClosed opt" by (simp add: minClosed_def)
  have qual: "fst (qualifies (look (record_of tenantID actions) c (rtypeOf a)) (minClosed opt)) \<longleftrightarrow>
      tally c (rtypeOf a) FixStatusStillPresent actions = 0 \<and>
      tally c (rtypeOf a) FixStatusRescanUnconfirmed actions = 0 \<and>
      minClosed opt \<le> tally c (rtypeOf a) FixStatusFixed actions" if "c \<in> set (classesOf a)" for c
  proof -
    have "nul_free c" using assms(2) that by (simp add: list_all_iff)
    note rec = record_of_eq [OF assms(1) this False, of tenantID]
    have nonneg: "0 \<le> tally c (rtypeOf a) st actions" for st by (simp add: tally_def)
    show ?thesis
    proof (cases "list_ex (known_verdict c (rtypeOf a)) actions")
      case True
      then show ?thesis using nonneg [of FixStatusStillPresent] nonneg [of FixStatusRescanUnconfirmed]
        by (auto simp: qualifies_iff look_def rec efficacy_of_def)
    next
      case False
      then have "tally c (rtypeOf a) FixStatusFixed actions = 0"
        by (auto simp: tally_def known_verdict_def list_ex_iff filter_empty_conv)
      with False pos show ?thesis by (simp add: qualifies_iff look_def rec no_efficacy_def)
    qed
  qed
  have "(\<exists>g. latest_grant grants c (rtypeOf a) = Some g \<and>
        gs_active (status env g (record_of tenantID actions) actions (minClosed opt))) \<longleftrightarrow>
      (\<exists>g. latest_grant grants c (rtypeOf a) = Some g \<and> (\<forall>b \<in> set actions. applied_under g b \<longrightarrow> \<not> refuted b)) \<and>
      fst (qualifies (look (record_of tenantID actions) c (rtypeOf a)) (minClosed opt))" for c
    using latest_grant_matches [of grants c "rtypeOf a"] by (auto simp: status_active)
  with qual show ?thesis by (auto simp: authorize_iff earned_def)
qed

section \<open>Properties\<close>


text \<open>One failure ends it: an application re-tested as not closed, or not confirmed, keeps every later
  action of that fix and class at the desk, whatever else is applied or re-tested afterwards, until a
  grant is made after it.
\<close>

theorem one_failure_ends_autonomy:
  assumes "b \<in> set actions" "refuted b" "a_status b = ActApplied"
    and "rtypeOf b = rtypeOf a" "c \<in> set (classesOf a)" "c \<in> set (classesOf b)"
    and "\<forall>g \<in> set grants. g_class g = c \<longrightarrow> g_rtype g = rtypeOf a \<longrightarrow> g_at g \<le> a_decidedAt b"
  shows "\<not> snd (au_Authorize env tenantID a actions grants opt)"
proof
  assume "snd (au_Authorize env tenantID a actions grants opt)"
  then obtain g where g: "latest_grant grants c (rtypeOf a) = Some g"
    and act: "gs_active (status env g (record_of tenantID actions) actions (minClosed opt))"
    using assms(5) by (auto simp: authorize_iff)
  from latest_grant_matches [OF g] assms have "applied_under g b" by (simp add: applied_under_def)
  with act assms(1,2) show False by (auto simp: status_active)
qed

text \<open>C10: At the desk with this hook, over the in-memory store: a submitted action of the gate tier reaches the applier without a
  human only while the kill-switch is off and only when its fix has earned it by the tenant's own
  stored actions and grants.
\<close>

theorem unattended_fix_is_earned:
  assumes "dk_store d = memory_ops"
    and "dk_autonomy d = Some (DeskHook env opt mem_GetTenant (\<lambda>m t. Some (mem_ListActions m t)))"
    and "a_tier a = GateTier" and "Delivered b \<in> set (new_effects w (fst (Submit d a w)))"
    and "nul_free_classes (mem_ListActions (w_store w) (a_tenant a))" and "list_all nul_free (classesOf a)"
  shows "\<exists>t. mem_GetTenant (w_store w) (a_tenant a) = Some t \<and> \<not> t_halted t \<and> same_fix a b \<and>
    earned (mem_ListActions (w_store w) (a_tenant a)) (t_grants t) opt a"
proof -
  have st: "a_tenant (stamped d a) = a_tenant a" "a_tier (stamped d a) = a_tier a"
    "classesOf (stamped d a) = classesOf a" "rtypeOf (stamped d a) = rtypeOf a"
    by (simp_all add: stamped_def classesOf_def rtypeOf_def)
  from submit_delivers [OF assms(4)] assms(2,3) obtain who where
    "\<not> halted d (a_tenant a) w" "same_fix a b"
    "DeskHook env opt mem_GetTenant (\<lambda>m t. Some (mem_ListActions m t)) (w_store w) (stamped d a) = (who, True)"
    by (auto simp: submit_may_deliver_def)
  then obtain t where t: "mem_GetTenant (w_store w) (a_tenant a) = Some t"
    and "snd (au_Authorize env (a_tenant a) (stamped d a) (mem_ListActions (w_store w) (a_tenant a)) (t_grants t) opt)"
    by (auto simp: DeskHook_def st split: option.splits if_splits)
  then have "earned (mem_ListActions (w_store w) (a_tenant a)) (t_grants t) opt (stamped d a)"
    using authorize_earned [of _ "stamped d a"] assms(5,6) by (simp add: st)
  then have "earned (mem_ListActions (w_store w) (a_tenant a)) (t_grants t) opt a"
    by (simp add: earned_def st)
  moreover have "\<not> t_halted t"
    using \<open>\<not> halted d (a_tenant a) w\<close> t assms(1) by (simp add: halted_def memory_ops_def)
  ultimately show ?thesis using t \<open>same_fix a b\<close> by blast
qed

section \<open>A concrete tenant\<close>

definition fixed_action :: "string \<Rightarrow> string \<Rightarrow> action" where
  "fixed_action i verdict =
     (sample_action 2)\<lparr>a_id := i, a_status := ActApplied, a_decidedAt := 7, a_findingKeys := [''r1|e''],
       a_payload := [(''remediation_type'', JStr ''upgrade'')],
       a_verification := Some \<lparr>fv_status = verdict, fv_method = ''rescan'', fv_at = 0, fv_fixed = [],
         fv_still = [], fv_evidence = [], fv_saidFixed = False, fv_disagreement = []\<rparr>\<rparr>"

definition proposed_fix :: action where
  "proposed_fix = (fixed_action ''new'' [])\<lparr>a_status := ActProposed, a_verification := None\<rparr>"

definition sample_grant :: autonomy_grant where
  "sample_grant = \<lparr>g_class = ''r1'', g_rtype = ''upgrade'', g_by = ''owner'', g_at = 6, g_basis = 2\<rparr>"

definition sample_au_env :: au_env where
  "sample_au_env = \<lparr>au_date = dec_int, au_quote = (\<lambda>s. s)\<rparr>"

definition good_record :: "action list" where
  "good_record = [fixed_action ''a1'' FixStatusFixed, fixed_action ''a2'' FixStatusFixed]"

lemma sample_classes:
  "list_all nul_free (classesOf proposed_fix)" "nul_free_classes good_record"
  by code_simp+


theorem one_failure_ends_autonomy_witness:
  "\<not> snd (au_Authorize sample_au_env ''t'' proposed_fix
      (good_record @ [fixed_action ''a3'' FixStatusStillPresent, fixed_action ''a4'' FixStatusFixed]) [sample_grant] 2)"
  by (rule one_failure_ends_autonomy [where b = "fixed_action ''a3'' FixStatusStillPresent" and c = "''r1''"]; code_simp)

definition granted_world :: "memory world" where
  "granted_world =
     \<lparr>w_store = \<lparr>mem_tenants = [''t'' \<mapsto> \<lparr>t_id = ''t'', t_halted = False, t_grants = [sample_grant]\<rparr>],
                 mem_actions = (\<lambda>_. map (\<lambda>a. (a_id a, a)) good_record)\<rparr>,
      w_recorder = None, w_effects = []\<rparr>"

definition autonomous_desk :: "memory desk" where
  "autonomous_desk = sample_desk\<lparr>dk_autonomy :=
     Some (DeskHook sample_au_env 2 mem_GetTenant (\<lambda>m t. Some (mem_ListActions m t)))\<rparr>"

theorem unattended_fix_is_earned_witness:
  "\<exists>t. mem_GetTenant (w_store granted_world) ''t'' = Some t \<and> \<not> t_halted t \<and>
     earned good_record (t_grants t) 2 proposed_fix"
proof -
  have acts: "mem_ListActions (w_store granted_world) t = good_record" for t
    by (simp add: mem_ListActions_def granted_world_def comp_def)
  have tn: "a_tenant proposed_fix = ''t''" by code_simp
  have "a_tier proposed_fix = GateTier" by code_simp
  moreover have "list_ex (\<lambda>e. case e of Delivered b \<Rightarrow> True | _ \<Rightarrow> False)
      (new_effects granted_world (fst (Submit autonomous_desk proposed_fix granted_world)))"
    by code_simp
  from some_delivered [OF this]
  have "\<exists>b. Delivered b \<in> set (new_effects granted_world (fst (Submit autonomous_desk proposed_fix granted_world)))"
    by blast
  ultimately show ?thesis
    using unattended_fix_is_earned [of autonomous_desk sample_au_env 2 proposed_fix _ granted_world] sample_classes
    by (auto simp: autonomous_desk_def sample_desk_def acts tn)
qed

end
