(* ===== verification/Gate.thy ===== *)
theory Gate
  imports Prelude
begin

text \<open>
  internal/gate/gate.go: the CI gate that turns findings, a policy, a baseline of known fingerprints and
  waivers into pass or fail. \<open>time.Parse\<close> for RFC 3339 and the hexadecimal SHA-256 of a string are
  the fields of \<open>gate_env\<close>; a time is an integer. A nil baseline is \<open>None\<close>.
\<close>

section \<open>Findings and policies\<close>

record gate_env =
  ge_parse_time :: "string \<Rightarrow> int option"
  ge_sha_hex :: "string \<Rightarrow> string"

record gate_finding =
  gf_id :: string
  gf_title :: string
  gf_severity :: string
  gf_source :: string
  gf_verified :: bool
  gf_reachable :: bool
  gf_fingerprint :: string

record waiver =
  wv_fingerprint :: string
  wv_reason :: string
  wv_expires :: string

record policy =
  po_failOnSeverity :: string
  po_failOnVerified :: bool
  po_failOnReachableSCA :: bool
  po_maxNew :: int
  po_newOnly :: bool
  po_waivers :: "waiver list"

definition DefaultPolicy :: policy where
  "DefaultPolicy =
     \<lparr>po_failOnSeverity = ''high'', po_failOnVerified = True, po_failOnReachableSCA = True,
      po_maxNew = -1, po_newOnly = False, po_waivers = []\<rparr>"

record violation =
  vi_fingerprint :: string
  vi_title :: string
  vi_severity :: string
  vi_source :: string
  vi_reason :: string

record gate_result =
  re_passed :: bool
  re_total :: nat
  re_gated :: nat
  re_new :: nat
  re_waived :: nat
  re_existing :: nat
  re_counts :: "(string \<times> nat) list"
  re_violations :: "violation list"

definition sevRank :: "(string \<times> nat) list" where
  "sevRank = [(''critical'', 0), (''high'', 1), (''medium'', 2), (''low'', 3), (''info'', 4)]"

definition rank :: "string \<Rightarrow> nat" where
  "rank s = (case map_of sevRank (to_lower s) of Some r \<Rightarrow> r | None \<Rightarrow> 5)"

definition Fingerprint :: "gate_env \<Rightarrow> gate_finding \<Rightarrow> string" where
  "Fingerprint env f =
     (if gf_fingerprint f \<noteq> [] then gf_fingerprint f
      else ''g-'' @ take 12 (ge_sha_hex env (to_lower (gf_source f @ ''|'' @ gf_severity f @ ''|'' @ gf_title f))))"

section \<open>Evaluate\<close>

definition violates :: "gate_finding \<Rightarrow> policy \<Rightarrow> string" where
  "violates f p =
     (if gf_source f = ''sca'' then
        (if po_failOnReachableSCA p \<and> gf_reachable f
         then ''reachable dependency vulnerability (the vulnerable function is on a call path)'' else [])
      else if po_failOnVerified p \<and> gf_verified f then ''verified/proven exploitable''
      else if po_failOnSeverity p \<noteq> [] \<and> rank (gf_severity f) \<le> rank (po_failOnSeverity p)
      then ''severity '' @ to_lower (gf_severity f) @ '' '' @ utf8 [226, 137, 165] @ '' threshold '' @
        to_lower (po_failOnSeverity p)
      else [])"

definition waiver_step :: "gate_env \<Rightarrow> int \<Rightarrow> string list \<Rightarrow> waiver \<Rightarrow> string list" where
  "waiver_step env now m w =
     (if wv_expires w \<noteq> [] \<and> (case ge_parse_time env (wv_expires w) of None \<Rightarrow> False | Some e \<Rightarrow> e < now)
      then m else add_once (wv_fingerprint w) m)"

definition activeWaivers :: "gate_env \<Rightarrow> waiver list \<Rightarrow> int \<Rightarrow> string list" where
  "activeWaivers env ws now = foldl (waiver_step env now) [] ws"

definition count_up :: "string \<Rightarrow> (string \<times> nat) list \<Rightarrow> (string \<times> nat) list" where
  "count_up k m = put k (Suc (case map_of m k of None \<Rightarrow> 0 | Some n \<Rightarrow> n)) m"

definition gate_step ::
  "gate_env \<Rightarrow> policy \<Rightarrow> (string \<Rightarrow> bool) option \<Rightarrow> string list \<Rightarrow> gate_result \<Rightarrow> gate_finding \<Rightarrow> gate_result" where
  "gate_step env p baseline waived r0 f0 =
     (let f = f0\<lparr>gf_fingerprint := Fingerprint env f0\<rparr>;
          r = r0\<lparr>re_counts := count_up (to_lower (gf_severity f)) (re_counts r0)\<rparr>
      in if gf_fingerprint f \<in> set waived then r\<lparr>re_waived := Suc (re_waived r)\<rparr>
         else let isNew = (case baseline of None \<Rightarrow> True | Some b \<Rightarrow> \<not> b (gf_fingerprint f))
              in if po_newOnly p \<and> \<not> isNew then r\<lparr>re_existing := Suc (re_existing r)\<rparr>
                 else let r1 = r\<lparr>re_gated := Suc (re_gated r)\<rparr>;
                          r2 = (if isNew then r1\<lparr>re_new := Suc (re_new r1)\<rparr> else r1);
                          reason = violates f p
                      in if reason \<noteq> [] then r2\<lparr>re_violations := re_violations r2 @
                           [\<lparr>vi_fingerprint = gf_fingerprint f, vi_title = gf_title f, vi_severity = gf_severity f,
                             vi_source = gf_source f, vi_reason = reason\<rparr>]\<rparr>
                         else r2)"

definition more_severe :: "violation \<Rightarrow> violation \<Rightarrow> bool" where
  "more_severe a b \<longleftrightarrow> rank (vi_severity a) < rank (vi_severity b)"

definition Evaluate ::
  "gate_env \<Rightarrow> gate_finding list \<Rightarrow> policy \<Rightarrow> (string \<Rightarrow> bool) option \<Rightarrow> int \<Rightarrow> gate_result" where
  "Evaluate env findings p baseline now =
     (let waived = activeWaivers env (po_waivers p) now;
          r0 = \<lparr>re_passed = True, re_total = length findings, re_gated = 0, re_new = 0, re_waived = 0,
                re_existing = 0, re_counts = [], re_violations = []\<rparr>;
          r1 = foldl (gate_step env p baseline waived) r0 findings;
          r2 = (if 0 \<le> po_maxNew p \<and> po_maxNew p < int (re_new r1)
                then r1\<lparr>re_violations := re_violations r1 @
                  [\<lparr>vi_fingerprint = [], vi_title = [], vi_severity = [], vi_source = [],
                    vi_reason = ''too many new findings: '' @ dec_int (int (re_new r1)) @ '' new > '' @
                      dec_int (po_maxNew p) @ '' allowed''\<rparr>]\<rparr>
                else r1);
          r3 = r2\<lparr>re_violations := sort_by more_severe (re_violations r2)\<rparr>
      in r3\<lparr>re_passed := (re_violations r3 = [])\<rparr>)"

definition Fingerprints :: "gate_env \<Rightarrow> gate_finding list \<Rightarrow> string list" where
  "Fingerprints env findings = sort_by str_less (map (Fingerprint env) findings)"

section \<open>What the loop counts\<close>

definition is_new :: "gate_env \<Rightarrow> (string \<Rightarrow> bool) option \<Rightarrow> gate_finding \<Rightarrow> bool" where
  "is_new env baseline f \<longleftrightarrow> (case baseline of None \<Rightarrow> True | Some b \<Rightarrow> \<not> b (Fingerprint env f))"

definition is_waived :: "gate_env \<Rightarrow> policy \<Rightarrow> int \<Rightarrow> gate_finding \<Rightarrow> bool" where
  "is_waived env p now f \<longleftrightarrow>
     (\<exists>w \<in> set (po_waivers p). wv_fingerprint w = Fingerprint env f \<and>
        \<not> (wv_expires w \<noteq> [] \<and> (case ge_parse_time env (wv_expires w) of None \<Rightarrow> False | Some e \<Rightarrow> e < now)))"

definition is_gated :: "gate_env \<Rightarrow> policy \<Rightarrow> (string \<Rightarrow> bool) option \<Rightarrow> int \<Rightarrow> gate_finding \<Rightarrow> bool" where
  "is_gated env p baseline now f \<longleftrightarrow>
     \<not> is_waived env p now f \<and> (po_newOnly p \<longrightarrow> is_new env baseline f)"

definition violation_of :: "gate_env \<Rightarrow> policy \<Rightarrow> gate_finding \<Rightarrow> violation" where
  "violation_of env p f =
     \<lparr>vi_fingerprint = Fingerprint env f, vi_title = gf_title f, vi_severity = gf_severity f,
      vi_source = gf_source f, vi_reason = violates f p\<rparr>"

lemma active_waived: "Fingerprint env f \<in> set (activeWaivers env (po_waivers p) now) \<longleftrightarrow> is_waived env p now f"
proof -
  have "set (foldl (waiver_step env now) m ws) = set m \<union> {wv_fingerprint w | w. w \<in> set ws \<and>
      \<not> (wv_expires w \<noteq> [] \<and> (case ge_parse_time env (wv_expires w) of None \<Rightarrow> False | Some e \<Rightarrow> e < now))}" for m ws
    by (induction ws arbitrary: m) (auto simp: waiver_step_def)
  from this [of "[]" "po_waivers p"] show ?thesis
    unfolding activeWaivers_def is_waived_def by (simp add: Bex_def) metis
qed

lemma violates_fingerprint [simp]: "violates (f\<lparr>gf_fingerprint := x\<rparr>) p = violates f p"
  by (simp add: violates_def)

lemma gate_fold:
  fixes r :: gate_result and env :: gate_env and p :: policy
    and baseline :: "(string \<Rightarrow> bool) option" and now :: int
  defines "gated \<equiv> is_gated env p baseline now"
    and "run \<equiv> foldl (gate_step env p baseline (activeWaivers env (po_waivers p) now)) r"
  shows "re_gated (run fs) = re_gated r + length (filter gated fs)"
    and "re_new (run fs) = re_new r + length (filter (\<lambda>f. gated f \<and> is_new env baseline f) fs)"
    and "re_waived (run fs) = re_waived r + length (filter (is_waived env p now) fs)"
    and "re_existing (run fs) = re_existing r + length (filter (\<lambda>f. \<not> is_waived env p now f \<and> \<not> gated f) fs)"
    and "re_total (run fs) = re_total r"
    and "re_violations (run fs) = re_violations r @
      map (violation_of env p) (filter (\<lambda>f. gated f \<and> violates f p \<noteq> []) fs)"
proof -
  have step: "gate_step env p baseline (activeWaivers env (po_waivers p) now) r f =
      (let r1 = r\<lparr>re_counts := count_up (to_lower (gf_severity f)) (re_counts r)\<rparr>
       in if is_waived env p now f then r1\<lparr>re_waived := Suc (re_waived r)\<rparr>
          else if \<not> gated f then r1\<lparr>re_existing := Suc (re_existing r)\<rparr>
          else r1\<lparr>re_gated := Suc (re_gated r), re_new := re_new r + (if is_new env baseline f then 1 else 0),
            re_violations := re_violations r @ (if violates f p \<noteq> [] then [violation_of env p f] else [])\<rparr>)" for r f
    by (cases baseline)
      (simp_all add: gate_step_def Let_def active_waived gated_def is_gated_def is_new_def violation_of_def)
  have waived_gated: "is_waived env p now f \<Longrightarrow> \<not> gated f" for f by (simp add: gated_def is_gated_def)
  have "re_gated (run fs) = re_gated r + length (filter gated fs) \<and>
    re_new (run fs) = re_new r + length (filter (\<lambda>f. gated f \<and> is_new env baseline f) fs) \<and>
    re_waived (run fs) = re_waived r + length (filter (is_waived env p now) fs) \<and>
    re_existing (run fs) = re_existing r + length (filter (\<lambda>f. \<not> is_waived env p now f \<and> \<not> gated f) fs) \<and>
    re_total (run fs) = re_total r \<and>
    re_violations (run fs) = re_violations r @
      map (violation_of env p) (filter (\<lambda>f. gated f \<and> violates f p \<noteq> []) fs)"
    unfolding run_def by (induction fs rule: rev_induct) (auto simp: step Let_def waived_gated)
  then show "re_gated (run fs) = re_gated r + length (filter gated fs)"
    and "re_new (run fs) = re_new r + length (filter (\<lambda>f. gated f \<and> is_new env baseline f) fs)"
    and "re_waived (run fs) = re_waived r + length (filter (is_waived env p now) fs)"
    and "re_existing (run fs) = re_existing r + length (filter (\<lambda>f. \<not> is_waived env p now f \<and> \<not> gated f) fs)"
    and "re_total (run fs) = re_total r"
    and "re_violations (run fs) = re_violations r @
      map (violation_of env p) (filter (\<lambda>f. gated f \<and> violates f p \<noteq> []) fs)"
    by blast+
qed

lemma gate_verdict:
  fixes env :: gate_env and fs :: "gate_finding list" and p :: policy
    and baseline :: "(string \<Rightarrow> bool) option" and now :: int
  defines "r \<equiv> Evaluate env fs p baseline now" and "gated \<equiv> filter (is_gated env p baseline now) fs"
  shows "(re_passed r \<longleftrightarrow> list_all (\<lambda>f. violates f p = []) gated \<and>
        (po_maxNew p < 0 \<or> int (re_new r) \<le> po_maxNew p)) \<and>
     re_total r = length fs \<and> re_gated r + re_waived r + re_existing r = length fs \<and>
     re_gated r = length gated \<and> re_new r = length (filter (is_new env baseline) gated) \<and>
     mset (filter (\<lambda>v. vi_severity v \<noteq> []) (re_violations r)) =
       mset (map (violation_of env p) (filter (\<lambda>f. violates f p \<noteq> [] \<and> gf_severity f \<noteq> []) gated))"
proof -
  define r1 where "r1 = foldl (gate_step env p baseline (activeWaivers env (po_waivers p) now))
    \<lparr>re_passed = True, re_total = length fs, re_gated = 0, re_new = 0, re_waived = 0,
     re_existing = 0, re_counts = [], re_violations = []\<rparr> fs"
  have many: "length (filter gated' fs) + length (filter waived' fs) +
      length (filter (\<lambda>f. \<not> waived' f \<and> \<not> gated' f) fs) = length fs"
    if "\<And>f. waived' f \<Longrightarrow> \<not> gated' f" for gated' waived' :: "gate_finding \<Rightarrow> bool"
    using that by (induction fs) auto
  have parts: "re_total r = length fs" "re_gated r = length gated"
    "re_new r = length (filter (is_new env baseline) gated)"
    "re_gated r + re_waived r + re_existing r = length fs"
    and new: "re_new r = re_new r1"
    using many [of "is_waived env p now" "is_gated env p baseline now"]
    by (simp_all add: r_def Evaluate_def Let_def r1_def gate_fold gated_def is_gated_def conj_commute)
  have vs: "re_violations r1 = map (violation_of env p) (filter (\<lambda>f. violates f p \<noteq> []) gated)"
    by (simp add: r1_def gate_fold gated_def conj_commute)
  obtain extra where extra: "re_violations r = sort_by more_severe (re_violations r1 @ extra)"
    "re_passed r = (re_violations r1 @ extra = [])" "list_all (\<lambda>v. vi_severity v = []) extra"
    "extra = [] \<longleftrightarrow> \<not> (0 \<le> po_maxNew p \<and> po_maxNew p < int (re_new r1))"
  proof (cases "0 \<le> po_maxNew p \<and> po_maxNew p < int (re_new r1)")
    case True
    show ?thesis
      by (rule that [of "[\<lparr>vi_fingerprint = [], vi_title = [], vi_severity = [], vi_source = [],
          vi_reason = ''too many new findings: '' @ dec_int (int (re_new r1)) @ '' new > '' @
            dec_int (po_maxNew p) @ '' allowed''\<rparr>]"])
        (use True in \<open>simp_all add: r_def Evaluate_def Let_def r1_def [symmetric]\<close>)
  next
    case False
    then have no: "(0 \<le> po_maxNew p \<and> po_maxNew p < int (re_new r1)) = False" by simp
    show ?thesis
      by (rule that [of "[]"]) (simp_all add: no r_def Evaluate_def Let_def r1_def [symmetric] sort_by_Nil_iff)
  qed
  have "re_passed r \<longleftrightarrow> list_all (\<lambda>f. violates f p = []) gated \<and>
      (po_maxNew p < 0 \<or> int (re_new r) \<le> po_maxNew p)"
    using extra(2,4) by (auto simp: vs new filter_empty_conv list_all_iff)
  moreover have "filter (\<lambda>v. vi_severity v \<noteq> []) extra = []" using extra(3) by (simp add: filter_empty_conv list_all_iff)
  then have "mset (filter (\<lambda>v. vi_severity v \<noteq> []) (re_violations r)) =
      mset (map (violation_of env p) (filter (\<lambda>f. violates f p \<noteq> [] \<and> gf_severity f \<noteq> []) gated))"
    unfolding mset_filter extra(1) mset_sort_by mset_append vs
    by (simp add: filter_map comp_def violation_of_def conj_commute flip: mset_filter mset_map)
  ultimately show ?thesis using parts by blast
qed

section \<open>Properties\<close>


text \<open>Accepting more never turns a pass into a fail: with a larger baseline and further waivers a change that
  passed still passes.
\<close>

theorem accepting_more_keeps_pass:
  assumes "re_passed (Evaluate env fs p (Some b) now)"
    and "\<And>x. b x \<Longrightarrow> b' x"
  shows "re_passed (Evaluate env fs (p\<lparr>po_waivers := po_waivers p @ ws\<rparr>) (Some b') now)"
proof -
  let ?q = "p\<lparr>po_waivers := po_waivers p @ ws\<rparr>"
  have sub: "is_gated env ?q (Some b') now f \<Longrightarrow> is_gated env p (Some b) now f"
    and new: "is_new env (Some b') f \<Longrightarrow> is_new env (Some b) f" for f
    using assms(2) by (auto simp: is_gated_def is_new_def is_waived_def)
  have same: "violates f ?q = violates f p" for f by (simp add: violates_def)
  have le: "length (filter P xs) \<le> length (filter Q xs)" if "\<And>x. P x \<Longrightarrow> Q x" for P Q and xs :: "gate_finding list"
    using that by (induction xs) auto
  have "length (filter (is_new env (Some b')) (filter (is_gated env ?q (Some b') now) fs)) \<le>
      length (filter (is_new env (Some b)) (filter (is_gated env p (Some b) now) fs))"
    unfolding filter_filter by (rule le) (use sub new in blast)
  moreover note old = gate_verdict [of env fs p "Some b" now]
  moreover note gate_verdict [of env fs ?q "Some b'" now]
  ultimately show ?thesis
    using assms(1) sub by (auto simp: list_all_iff same)
qed

section \<open>A concrete gate\<close>

definition sample_gate_env :: gate_env where
  "sample_gate_env = \<lparr>ge_parse_time = (\<lambda>_. None), ge_sha_hex = (\<lambda>s. s)\<rparr>"

definition sample_gate_finding :: "string \<Rightarrow> string \<Rightarrow> gate_finding" where
  "sample_gate_finding fp sev =
     \<lparr>gf_id = fp, gf_title = ''t'', gf_severity = sev, gf_source = ''scan'', gf_verified = False,
      gf_reachable = False, gf_fingerprint = fp\<rparr>"


theorem accepting_more_keeps_pass_witness:
  "re_passed (Evaluate sample_gate_env [sample_gate_finding ''a'' ''low'']
     (DefaultPolicy\<lparr>po_waivers := po_waivers DefaultPolicy @
        [\<lparr>wv_fingerprint = ''b'', wv_reason = [], wv_expires = []\<rparr>]\<rparr>) (Some (\<lambda>x. x = ''c'')) 0)"
proof (rule accepting_more_keeps_pass [where b = "\<lambda>_. False"])
  show "re_passed (Evaluate sample_gate_env [sample_gate_finding ''a'' ''low''] DefaultPolicy (Some (\<lambda>_. False)) 0)"
    by code_simp
qed simp

text \<open>
  A waiver whose expiry does not parse never expires. RFC 3339 asks for a time of day, so a plain date is such
  an expiry.
\<close>

lemma unparsable_expiry_never_expires:
  assumes "ge_parse_time env ''2024-01-31'' = None"
    and "\<lparr>wv_fingerprint = Fingerprint env f, wv_reason = r, wv_expires = ''2024-01-31''\<rparr> \<in> set (po_waivers p)"
  shows "is_waived env p now f"
  using assms by (force simp: is_waived_def)

end
