(* ===== verification/EnrichChain.thy ===== *)
theory EnrichChain
  imports Enrich
begin

text \<open>
  What the chain of per-finding hooks does to one finding (internal/tracer/hooks/chain.go and the loop of
  \<open>Tracer.Add\<close>): the contract every hook meets, as a locale interpreted on each of them and on
  their composition, and the exact effect on severity and controls.
\<close>

section \<open>What every hook of the chain keeps\<close>

text \<open>
  The contract of \<open>PerFindingHook\<close> that the tracer relies on. A hook keeps a finding's identity; what it
  does to the severity can be replayed from its entries, which all name the finding; it dismisses a finding exactly
  when it says so in the log; and of the cells it writes only the one the finding points to, to which
  it only adds.
\<close>

definition same_identity :: "finding \<Rightarrow> finding \<Rightarrow> bool" where
  "same_identity f g \<longleftrightarrow> fi_id g = fi_id f \<and> fi_rule g = fi_rule f \<and> fi_tool g = fi_tool f \<and>
     fi_endpoint g = fi_endpoint f \<and> fi_asset g = fi_asset f \<and> fi_title g = fi_title f \<and> fi_args g = fi_args f \<and>
     fi_corroborated g = fi_corroborated f \<and> fi_status g = fi_status f \<and> fi_confidence g = fi_confidence f"

fun replay :: "string \<Rightarrow> audit_entry list \<Rightarrow> string option" where
  "replay s [] = Some s"
| "replay s (e # es) =
     (if ae_action e \<in> {''promote'', ''demote''}
      then if ae_from e = s then replay (ae_to e) es else None
      else replay s es)"

definition entries_of :: "string \<Rightarrow> audit_entry list \<Rightarrow> nat" where
  "entries_of a es = length (filter (\<lambda>e. ae_action e = a) es)"

definition pointer_ok :: "cells \<Rightarrow> finding \<Rightarrow> bool" where
  "pointer_ok cs f \<longleftrightarrow> (\<forall>a. fi_compliance f = Some a \<longrightarrow> a < length cs)"

definition cells_kept :: "cells \<Rightarrow> nat option \<Rightarrow> cells \<Rightarrow> nat option \<Rightarrow> bool" where
  "cells_kept cs p ds q \<longleftrightarrow> length cs \<le> length ds \<and>
     (\<forall>a < length cs. (p \<noteq> Some a \<longrightarrow> ds ! a = cs ! a) \<and> (\<forall>fw. set ((cs ! a) fw) \<subseteq> set ((ds ! a) fw))) \<and>
     (case p of Some a \<Rightarrow> q = Some a | None \<Rightarrow> (case q of None \<Rightarrow> True | Some b \<Rightarrow> length cs \<le> b \<and> b < length ds))"

lemma replay_append: "replay s (xs @ ys) = (case replay s xs of None \<Rightarrow> None | Some t \<Rightarrow> replay t ys)"
  by (induction xs arbitrary: s) auto

lemma entries_of_simps [simp]:
  "entries_of a [] = 0" "entries_of a (e # es) = (if ae_action e = a then 1 else 0) + entries_of a es"
  "entries_of a (xs @ ys) = entries_of a xs + entries_of a ys"
  by (simp_all add: entries_of_def)

lemma same_identity_refl [simp]: "same_identity f f"
  by (simp add: same_identity_def)

lemma same_identity_trans: "same_identity f g \<Longrightarrow> same_identity g h \<Longrightarrow> same_identity f h"
  by (simp add: same_identity_def)

lemma cells_kept_refl [simp]: "cells_kept cs p cs p"
  by (simp add: cells_kept_def split: option.splits)

lemma cells_kept_trans:
  assumes "cells_kept cs p ds q" "cells_kept ds q es r"
  shows "cells_kept cs p es r"
proof -
  have len: "length cs \<le> length ds" "length ds \<le> length es" using assms by (auto simp: cells_kept_def)
  have other: "es ! a = cs ! a" if "a < length cs" "p \<noteq> Some a" for a
  proof -
    have "ds ! a = cs ! a" "q \<noteq> Some a"
      using assms(1) that by (auto simp: cells_kept_def split: option.splits)
    moreover have "es ! a = ds ! a" using assms(2) that len \<open>q \<noteq> Some a\<close> by (auto simp: cells_kept_def)
    ultimately show ?thesis by simp
  qed
  have grow: "set ((cs ! a) fw) \<subseteq> set ((es ! a) fw)" if "a < length cs" for a fw
  proof -
    have "set ((cs ! a) fw) \<subseteq> set ((ds ! a) fw)" using assms(1) that by (simp add: cells_kept_def)
    moreover have "set ((ds ! a) fw) \<subseteq> set ((es ! a) fw)" using assms(2) that len by (simp add: cells_kept_def)
    ultimately show ?thesis by blast
  qed
  have ptr: "case p of Some a \<Rightarrow> r = Some a | None \<Rightarrow> (case r of None \<Rightarrow> True | Some b \<Rightarrow> length cs \<le> b \<and> b < length es)"
    using assms len by (auto simp: cells_kept_def split: option.splits)
  show ?thesis using len other grow ptr by (auto simp: cells_kept_def)
qed

lemma cells_kept_pointer:
  "cells_kept cs (fi_compliance f) ds (fi_compliance g) \<Longrightarrow> pointer_ok cs f \<Longrightarrow> pointer_ok ds g"
  by (auto simp: cells_kept_def pointer_ok_def split: option.splits)

locale per_finding_hook =
  fixes apply_hook :: cell_hook
  assumes keeps_identity: "apply_hook cs f = (ds, g, es, keep) \<Longrightarrow> same_identity f g"
    and replays: "apply_hook cs f = (ds, g, es, keep) \<Longrightarrow> replay (fi_severity f) es = Some (fi_severity g)"
    and names: "apply_hook cs f = (ds, g, es, keep) \<Longrightarrow> \<forall>e \<in> set es. ae_finding e = fi_id f"
    and dismisses: "apply_hook cs f = (ds, g, es, keep) \<Longrightarrow>
      entries_of ''dismiss'' es = (if keep then 0 else 1) \<and> entries_of ''merge'' es = 0"
    and keeps_cells: "apply_hook cs f = (ds, g, es, keep) \<Longrightarrow> pointer_ok cs f \<Longrightarrow>
      cells_kept cs (fi_compliance f) ds (fi_compliance g)"
    and keeps_cwe: "apply_hook cs f = (ds, g, es, keep) \<Longrightarrow> fi_cwe f \<noteq> [] \<Longrightarrow> fi_cwe g = fi_cwe f"

text \<open>The loop of \<open>Tracer.Add\<close> over the chain, up to the first hook that drops the finding.\<close>

fun hook_loop :: "cell_hook list \<Rightarrow> cell_hook" where
  "hook_loop [] cs f = (cs, f, [], True)"
| "hook_loop (h # hs) cs f =
     (let (cs1, f1, es1, keep) = h cs f
      in if \<not> keep then (cs1, f1, es1, False)
         else let (cs2, f2, es2, keep2) = hook_loop hs cs1 f1 in (cs2, f2, es1 @ es2, keep2))"

lemma hook_loop_Cons:
  assumes "hook_loop (h # hs) cs f = (ds, g, es, keep)"
  obtains cs1 f1 es1 where "h cs f = (cs1, f1, es1, False)" "ds = cs1" "g = f1" "es = es1" "\<not> keep"
  | cs1 f1 es1 es2 where "h cs f = (cs1, f1, es1, True)" "hook_loop hs cs1 f1 = (ds, g, es2, keep)" "es = es1 @ es2"
  using assms by (auto simp: split_beta Let_def split: if_splits intro: that prod_eqI) (metis prod.collapse that)+

text \<open>A chain of hooks that meet the contract meets it.\<close>

lemma hook_loop_contract:
  assumes "\<forall>h \<in> set hs. per_finding_hook h"
  shows "per_finding_hook (hook_loop hs)"
  using assms
proof (induction hs)
  case Nil
  show ?case by unfold_locales auto
next
  case (Cons h hs)
  have h: "per_finding_hook h" and hs: "per_finding_hook (hook_loop hs)" using Cons by auto
  note kh = h [unfolded per_finding_hook_def] and khs = hs [unfolded per_finding_hook_def]
  have all: "same_identity f g \<and> replay (fi_severity f) es = Some (fi_severity g) \<and>
      (\<forall>e \<in> set es. ae_finding e = fi_id f) \<and>
      entries_of ''dismiss'' es = (if keep then 0 else 1) \<and> entries_of ''merge'' es = 0 \<and>
      (pointer_ok cs f \<longrightarrow> cells_kept cs (fi_compliance f) ds (fi_compliance g)) \<and>
      (fi_cwe f \<noteq> [] \<longrightarrow> fi_cwe g = fi_cwe f)"
    if "hook_loop (h # hs) cs f = (ds, g, es, keep)" for cs f ds g es keep
    using that
  proof (cases rule: hook_loop_Cons)
    case (1 cs1 f1 es1)
    then show ?thesis
      using per_finding_hook.keeps_identity [OF h 1(1)] per_finding_hook.replays [OF h 1(1)]
        per_finding_hook.names [OF h 1(1)] per_finding_hook.dismisses [OF h 1(1)]
        per_finding_hook.keeps_cells [OF h 1(1)] per_finding_hook.keeps_cwe [OF h 1(1)] by simp
  next
    case (2 cs1 f1 es1 es2)
    note a = per_finding_hook.keeps_identity [OF h 2(1)] per_finding_hook.replays [OF h 2(1)]
      per_finding_hook.names [OF h 2(1)] per_finding_hook.dismisses [OF h 2(1)]
      per_finding_hook.keeps_cwe [OF h 2(1)]
    note b = per_finding_hook.keeps_identity [OF hs 2(2)] per_finding_hook.replays [OF hs 2(2)]
      per_finding_hook.names [OF hs 2(2)] per_finding_hook.dismisses [OF hs 2(2)]
      per_finding_hook.keeps_cwe [OF hs 2(2)]
    have "cells_kept cs (fi_compliance f) ds (fi_compliance g)" if "pointer_ok cs f"
      using per_finding_hook.keeps_cells [OF h 2(1) that]
        per_finding_hook.keeps_cells [OF hs 2(2) cells_kept_pointer [OF _ that]]
      by (blast intro: cells_kept_trans)
    moreover have "fi_id f1 = fi_id f" using a(1) by (simp add: same_identity_def)
    ultimately show ?thesis
      using a b 2(3) by (auto simp: replay_append intro: same_identity_trans)
  qed
  show ?case by unfold_locales (use all in blast)+
qed

text \<open>A hook that writes no cell.\<close>

lemma no_cells_contract:
  assumes "\<And>f g es keep. h f = (g, es, keep) \<Longrightarrow> same_identity f g \<and> fi_compliance g = fi_compliance f \<and>
    replay (fi_severity f) es = Some (fi_severity g) \<and> (\<forall>e \<in> set es. ae_finding e = fi_id f) \<and>
    entries_of ''dismiss'' es = (if keep then 0 else 1) \<and> entries_of ''merge'' es = 0 \<and>
    (fi_cwe f \<noteq> [] \<longrightarrow> fi_cwe g = fi_cwe f)"
  shows "per_finding_hook (no_cells h)"
  by unfold_locales (use assms in \<open>auto simp: no_cells_def\<close>)

text \<open>What a change of severity leaves, for the proofs below.\<close>

lemma regrade_eq:
  "regrade action f sev rule reason = (g, es, keep) \<longleftrightarrow>
     g = f\<lparr>fi_severity := sev\<rparr> \<and> keep \<and>
     es = [\<lparr>ae_finding = fi_id f, ae_action = action, ae_from = fi_severity f, ae_to = sev, ae_rule = rule,
       ae_reason = reason\<rparr>]"
  by (auto simp: regrade_def)

lemma demote_loop_cases:
  "demote_loop ds f rest = rest \<or>
     (\<exists>d \<in> set ds. demote_loop ds f rest = regrade ''demote'' f (dm_to d) ''fp_filter::demote'' (dm_reason d) \<and>
        Rank (dm_to d) < Rank (fi_severity f) \<and> dm_match d (fi_rule f) \<and> (dm_noCWE d \<longrightarrow> fi_cwe f = []))"
  by (induction ds) auto

lemma fp_tail_cases:
  "fp_tail f = (f, [], True) \<or>
     (\<exists>sev rule reason. fp_tail f = regrade ''demote'' f sev rule reason \<and> Rank sev < Rank (fi_severity f))"
  unfolding fp_tail_def by (simp only: split: if_split) blast

text \<open>What the filter can do to a finding: dismiss it, leave it, or lower its severity.\<close>

lemma fp_filter_cases:
  obtains (dismissed) re where "fp_filter f = (f, [\<lparr>ae_finding = fi_id f, ae_action = ''dismiss'', ae_from = [], ae_to = [],
      ae_rule = re, ae_reason = ''matched known false-positive / decoy pattern''\<rparr>], False)"
      "equal_fold (fi_rule f) ''nuclei::self-signed-detect'' \<or> equal_fold (fi_rule f) ''nuclei::tech-detect''"
  | (same) "fp_filter f = (f, [], True)"
      "\<not> equal_fold (fi_rule f) ''nuclei::self-signed-detect''" "\<not> equal_fold (fi_rule f) ''nuclei::tech-detect''"
  | (demoted) sev rule reason where "fp_filter f = regrade ''demote'' f sev rule reason"
      "Rank sev < Rank (fi_severity f)"
      "\<not> equal_fold (fi_rule f) ''nuclei::self-signed-detect''" "\<not> equal_fold (fi_rule f) ''nuclei::tech-detect''"
proof (cases "equal_fold (fi_rule f) ''nuclei::self-signed-detect'' \<or> equal_fold (fi_rule f) ''nuclei::tech-detect''")
  case True
  then show ?thesis
    by (cases "equal_fold (fi_rule f) ''nuclei::self-signed-detect''")
      (auto simp: fp_filter_def drop_rules_def intro: dismissed)
next
  case False
  have eq: "fp_filter f = demote_loop demote_rules f (fp_tail f)"
    using False by (simp add: fp_filter_def drop_rules_def)
  from False have nf: "\<not> equal_fold (fi_rule f) ''nuclei::self-signed-detect''" "\<not> equal_fold (fi_rule f) ''nuclei::tech-detect''"
    by simp_all
  from demote_loop_cases [of demote_rules f "fp_tail f"] show ?thesis
  proof
    assume "demote_loop demote_rules f (fp_tail f) = fp_tail f"
    then have r: "fp_filter f = fp_tail f" by (simp add: eq)
    show ?thesis
    proof (cases "fp_tail f = (f, [], True)")
      case True
      then show ?thesis using r nf by (intro same) simp_all
    next
      case False
      with fp_tail_cases [of f] obtain sev rule reason
        where "fp_tail f = regrade ''demote'' f sev rule reason" "Rank sev < Rank (fi_severity f)" by blast
      then show ?thesis using r nf by (intro demoted) simp_all
    qed
  next
    assume "\<exists>d \<in> set demote_rules. demote_loop demote_rules f (fp_tail f) = regrade ''demote'' f (dm_to d) ''fp_filter::demote'' (dm_reason d) \<and>
        Rank (dm_to d) < Rank (fi_severity f) \<and> dm_match d (fi_rule f) \<and> (dm_noCWE d \<longrightarrow> fi_cwe f = [])"
    then show ?thesis using nf eq by (auto intro: demoted)
  qed
qed

text \<open>The five hooks that write no cell meet the contract.\<close>

interpretation fp: per_finding_hook "no_cells fp_filter"
proof (rule no_cells_contract)
  fix f g es keep assume "fp_filter f = (g, es, keep)"
  then show "same_identity f g \<and> fi_compliance g = fi_compliance f \<and>
    replay (fi_severity f) es = Some (fi_severity g) \<and> (\<forall>e \<in> set es. ae_finding e = fi_id f) \<and>
    entries_of ''dismiss'' es = (if keep then 0 else 1) \<and> entries_of ''merge'' es = 0 \<and>
    (fi_cwe f \<noteq> [] \<longrightarrow> fi_cwe g = fi_cwe f)"
    by (cases f rule: fp_filter_cases) (auto simp: regrade_eq same_identity_def)
qed

interpretation eol: per_finding_hook "no_cells service_eol"
proof (rule no_cells_contract)
  fix f g es keep assume "service_eol f = (g, es, keep)"
  then show "same_identity f g \<and> fi_compliance g = fi_compliance f \<and>
    replay (fi_severity f) es = Some (fi_severity g) \<and> (\<forall>e \<in> set es. ae_finding e = fi_id f) \<and>
    entries_of ''dismiss'' es = (if keep then 0 else 1) \<and> entries_of ''merge'' es = 0 \<and>
    (fi_cwe f \<noteq> [] \<longrightarrow> fi_cwe g = fi_cwe f)"
    by (auto simp: service_eol_def regrade_eq same_identity_def Let_def split: if_splits option.splits prod.splits)
qed

interpretation surface: per_finding_hook "no_cells surface_priority"
  by (rule no_cells_contract) (auto simp: surface_priority_def same_identity_def)

interpretation exploit: per_finding_hook "no_cells exploitability"
  by (rule no_cells_contract)
    (auto simp: exploitability_def regrade_eq same_identity_def Let_def split: if_splits prod.splits)

lemma threat_intel_facts:
  assumes "threat_intel env f = (g, es, keep)"
  shows "keep \<and> same_identity f g \<and> fi_compliance g = fi_compliance f \<and> (\<forall>e \<in> set es. ae_finding e = fi_id f) \<and>
    replay (fi_severity f) es = Some (fi_severity g) \<and> entries_of ''dismiss'' es = 0 \<and> entries_of ''merge'' es = 0 \<and>
    (fi_cwe f \<noteq> [] \<longrightarrow> fi_cwe g = fi_cwe f) \<and> Rank (fi_severity f) \<le> Rank (fi_severity g)"
proof -
  have b: "same_identity f g \<and> fi_compliance g = fi_compliance f \<and> fi_severity g = fi_severity f \<and>
      (\<forall>e \<in> set es. ae_finding e = fi_id f \<and> ae_action e = ''annotate'') \<and> (fi_cwe f \<noteq> [] \<longrightarrow> fi_cwe g = fi_cwe f)"
    if "backfill cve k f = (g, es)" for cve k f g es
    using that by (auto simp: backfill_def note_entry_def same_identity_def split: if_splits)
  have ann: "entries_of ''dismiss'' es = 0 \<and> entries_of ''merge'' es = 0 \<and> replay s es = Some s"
    if "\<forall>e \<in> set es. ae_action e = ''annotate''" for es s
    using that by (induction es) auto
  have k: "keep \<and> same_identity f g \<and> fi_compliance g = fi_compliance f \<and> fi_cwe g = fi_cwe f \<and>
      (\<forall>e \<in> set es. ae_finding e = fi_id f) \<and> replay (fi_severity f) es = Some (fi_severity g) \<and>
      entries_of ''dismiss'' es = 0 \<and> entries_of ''merge'' es = 0 \<and> Rank (fi_severity f) \<le> Rank (fi_severity g)"
    if "kev_escalation env cve k f = (g, es, keep)" for cve k f g es keep
    using that by (auto simp: kev_escalation_def note_entry_def regrade_eq same_identity_def split: if_splits)
  show ?thesis
  proof (cases "ie_corpus env (find_cve (fi_rule f))")
    case None
    with assms have "f = g" "es = []" "keep" by (auto simp: threat_intel_def Let_def split: if_splits)
    then show ?thesis by simp
  next
    case (Some ti)
    define f1 where "f1 = f\<lparr>fi_intel := Some ti\<rparr>"
    have f1: "same_identity f f1 \<and> fi_compliance f1 = fi_compliance f \<and> fi_severity f1 = fi_severity f \<and>
        fi_cwe f1 = fi_cwe f \<and> fi_id f1 = fi_id f"
      by (simp add: f1_def same_identity_def)
    have eq: "threat_intel env f =
        (if find_cve (fi_rule f) = [] then (f, [], True)
         else case ti_kev ti of None \<Rightarrow> (f1, [], True)
           | Some kv \<Rightarrow> let (f2, es1) = backfill (find_cve (fi_rule f)) kv f1;
               (f3, es2, keep) = kev_escalation env (find_cve (fi_rule f)) kv f2 in (f3, es1 @ es2, keep))"
      unfolding f1_def threat_intel_def Let_def by (simp add: Some)
    show ?thesis
    proof (cases "find_cve (fi_rule f) = [] \<or> ti_kev ti = None")
      case True
      then have "f = g \<or> g = f1" "es = []" "keep" using assms by (auto simp: eq split: if_splits option.splits)
      then show ?thesis using f1 by auto
    next
      case False
      then obtain kv where kv: "ti_kev ti = Some kv" "find_cve (fi_rule f) \<noteq> []" by auto
      obtain f2 es1 where f2: "backfill (find_cve (fi_rule f)) kv f1 = (f2, es1)" by fastforce
      obtain f3 es2 keep3 where f3: "kev_escalation env (find_cve (fi_rule f)) kv f2 = (f3, es2, keep3)"
        by (cases "kev_escalation env (find_cve (fi_rule f)) kv f2")
      have "g = f3" "es = es1 @ es2" "keep = keep3" using assms kv f2 f3 by (simp_all add: eq)
      moreover have "fi_id f2 = fi_id f" using b [OF f2] f1 by (simp add: same_identity_def)
      ultimately show ?thesis
        using b [OF f2] ann [of es1] k [OF f3] f1 by (auto simp: replay_append intro: same_identity_trans)
    qed
  qed
qed

interpretation intel: per_finding_hook "no_cells (threat_intel env)" for env
proof (rule no_cells_contract)
  fix f g es keep assume "threat_intel env f = (g, es, keep)"
  from threat_intel_facts [OF this] show "same_identity f g \<and> fi_compliance g = fi_compliance f \<and>
    replay (fi_severity f) es = Some (fi_severity g) \<and> (\<forall>e \<in> set es. ae_finding e = fi_id f) \<and>
    entries_of ''dismiss'' es = (if keep then 0 else 1) \<and> entries_of ''merge'' es = 0 \<and>
    (fi_cwe f \<noteq> [] \<longrightarrow> fi_cwe g = fi_cwe f)" by simp
qed

section \<open>Controls\<close>

lemma set_mergeUnique [simp]: "set (mergeUnique d s) = set d \<union> set s"
  unfolding mergeUnique_def by (induction s arbitrary: d) auto

lemma mergeUnique_Nil [simp]: "mergeUnique d [] = d"
  by (simp add: mergeUnique_def)

text \<open>The controls of a finding, and the union that the corpus gives for some CWEs.\<close>

definition controls :: "cells \<Rightarrow> finding \<Rightarrow> framework \<Rightarrow> string set" where
  "controls cs f fw = (case fi_compliance f of None \<Rightarrow> {} | Some a \<Rightarrow> set ((cs ! a) fw))"

definition crosswalk :: "(string \<rightharpoonup> compliance) \<Rightarrow> string list \<Rightarrow> framework \<Rightarrow> string set" where
  "crosswalk corp cwes fw = (\<Union>c \<in> set cwes. case corp c of None \<Rightarrow> {} | Some cs \<Rightarrow> set (cs fw))"

definition unmerged :: "framework set" where
  "unmerged = {FwDORA, FwCyberEssentials}"

lemma co_Lookup_step:
  "(let (agg, matched) = foldl (\<lambda>(agg, matched) cwe.
            case corp cwe of None \<Rightarrow> (agg, matched)
            | Some cs \<Rightarrow> (\<lambda>fw. mergeUnique (agg fw) (cs fw), True)) (agg0, m0) cwes
    in (\<forall>fw. set (agg fw) = set (agg0 fw) \<union> crosswalk corp cwes fw) \<and>
       (matched \<longleftrightarrow> m0 \<or> (\<exists>c \<in> set cwes. corp c \<noteq> None)))"
proof (induction cwes arbitrary: agg0 m0)
  case Nil
  show ?case by (simp add: crosswalk_def)
next
  case (Cons c cwes)
  have head: "crosswalk corp (c # cwes) fw =
      (case corp c of None \<Rightarrow> {} | Some cs \<Rightarrow> set (cs fw)) \<union> crosswalk corp cwes fw" for fw
    by (simp add: crosswalk_def)
  show ?case
  proof (cases "corp c")
    case None
    then show ?thesis using Cons.IH [of agg0 m0] by (simp add: head)
  next
    case (Some cs)
    then show ?thesis
      using Cons.IH [of "\<lambda>fw. mergeUnique (agg0 fw) (cs fw)" True] by (simp add: head Un_assoc split_beta Let_def)
  qed
qed

lemma co_Lookup_eq:
  "case co_Lookup corp cwes of
     None \<Rightarrow> \<forall>fw. crosswalk corp cwes fw = {}
   | Some agg \<Rightarrow> \<forall>fw. set (agg fw) = crosswalk corp cwes fw"
  using co_Lookup_step [of corp no_controls False cwes]
  by (auto simp: co_Lookup_def no_controls_def crosswalk_def split: prod.splits option.splits)

lemma nth_new_cell [simp]: "a < length cs \<Longrightarrow> (cs @ [c]) ! a = cs ! a"
  by (simp add: nth_append)

lemma set_merged: "set (merged d s fw) = set (d fw) \<union> (if fw \<in> unmerged then {} else set (s fw))"
  by (auto simp: merged_def unmerged_def)

lemma cve_controls_exact:
  assumes "pointer_ok cs f" "cve_controls cs f = (ds, g)"
  shows "g = f\<lparr>fi_compliance := fi_compliance g\<rparr> \<and> cells_kept cs (fi_compliance f) ds (fi_compliance g) \<and>
    controls ds g fw = controls cs f fw \<union> (if hasCVE f then set (vulnMgmtControls fw) else {}) \<and>
    (fi_compliance g = None \<longleftrightarrow> fi_compliance f = None \<and> \<not> hasCVE f)"
proof -
  have "set (vulnMgmtControls fw) = {}" if "fw \<in> unmerged"
    using that by (auto simp: unmerged_def vulnMgmtControls_def)
  then show ?thesis
    using assms
    by (auto simp: cve_controls_def new_cell_def mergeCompliance_def controls_def pointer_ok_def cells_kept_def
        set_merged Let_def nth_list_update split: if_splits option.splits prod.splits)
qed

text \<open>
  The exact effect of the hook: every framework gets the inline controls, those of a known CVE and
  those of the CWEs, except that the last two frameworks miss the crosswalk whenever it has to be merged.
\<close>

lemma compliance_hook_exact:
  assumes "pointer_ok cs f" "compliance_hook corp cs f = (ds, g, es, keep)"
  shows "keep \<and> es = [] \<and> g = f\<lparr>fi_compliance := fi_compliance g\<rparr> \<and>
    cells_kept cs (fi_compliance f) ds (fi_compliance g) \<and>
    controls ds g fw = controls cs f fw \<union> (if hasCVE f then set (vulnMgmtControls fw) else {}) \<union>
      (if fw \<in> unmerged \<and> (fi_compliance f \<noteq> None \<or> hasCVE f) then {} else crosswalk corp (fi_cwe f) fw)"
proof -
  obtain cs1 f1 where c: "cve_controls cs f = (cs1, f1)" by (cases "cve_controls cs f")
  note e = cve_controls_exact [OF assms(1) c]
  from e have cwe: "fi_cwe f1 = fi_cwe f" by (metis finding.select_convs(5) finding.surjective finding.update_convs(15))
  have ok1: "pointer_ok cs1 f1" using e assms(1) cells_kept_pointer by blast
  show ?thesis
  proof (cases "fi_cwe f = [] \<or> co_Lookup corp (fi_cwe f) = None")
    case True
    then have "crosswalk corp (fi_cwe f) fw = {}"
      using co_Lookup_eq [of corp "fi_cwe f"] by (auto simp: crosswalk_def split: option.splits)
    moreover have "ds = cs1" "g = f1" "es = []" "keep"
      using True assms(2) c cwe by (auto simp: compliance_hook_def split: option.splits if_splits)
    ultimately show ?thesis using e by auto
  next
    case False
    then obtain agg where agg: "co_Lookup corp (fi_cwe f) = Some agg" "fi_cwe f \<noteq> []" by auto
    have w: "set (agg fw) = crosswalk corp (fi_cwe f) fw"
      using co_Lookup_eq [of corp "fi_cwe f"] agg by simp
    have step: "keep \<and> es = [] \<and> g = f1\<lparr>fi_compliance := fi_compliance g\<rparr> \<and>
      cells_kept cs1 (fi_compliance f1) ds (fi_compliance g) \<and>
      controls ds g fw = controls cs1 f1 fw \<union>
        (if fw \<in> unmerged \<and> fi_compliance f1 \<noteq> None then {} else crosswalk corp (fi_cwe f) fw)"
      using assms(2) c cwe agg ok1
      by (auto simp: compliance_hook_def new_cell_def mergeCompliance_def controls_def pointer_ok_def cells_kept_def
          set_merged w Let_def nth_list_update split: if_splits option.splits prod.splits)
    have "g = f\<lparr>fi_compliance := fi_compliance g\<rparr>" using step e
      by (metis finding.surjective finding.update_convs(15) finding.select_convs)
    then show ?thesis using step e by (auto intro: cells_kept_trans)
  qed
qed

lemma compliance_hook_plain:
  assumes "compliance_hook corp cs f = (ds, g, es, keep)"
  shows "keep \<and> es = [] \<and> g = f\<lparr>fi_compliance := fi_compliance g\<rparr>"
proof -
  have "\<exists>c. g1 = f\<lparr>fi_compliance := c\<rparr>" if "cve_controls cs f = (ds1, g1)" for ds1 g1
    using that by (auto simp: cve_controls_def Let_def split: if_splits prod.splits intro: exI [of _ "fi_compliance f"])
  then show ?thesis
    using assms by (fastforce simp: compliance_hook_def Let_def split: if_splits option.splits prod.splits)
qed

interpretation controls_hook: per_finding_hook "compliance_hook corp" for corp
proof unfold_locales
  fix cs f ds g es keep assume a: "compliance_hook corp cs f = (ds, g, es, keep)"
  from compliance_hook_plain [OF a] obtain c where g: "keep" "es = []" "g = f\<lparr>fi_compliance := c\<rparr>" by blast
  show "same_identity f g" "replay (fi_severity f) es = Some (fi_severity g)" "\<forall>e \<in> set es. ae_finding e = fi_id f"
    "entries_of ''dismiss'' es = (if keep then 0 else 1) \<and> entries_of ''merge'' es = 0"
    using g by (simp_all add: same_identity_def)
  show "fi_cwe g = fi_cwe f" using g by simp
  show "cells_kept cs (fi_compliance f) ds (fi_compliance g)" if "pointer_ok cs f"
    using compliance_hook_exact [OF that a] by blast
qed

text \<open>So the whole chain meets it.\<close>

interpretation chain: per_finding_hook "hook_loop (DefaultPerFinding env corp)" for env corp
proof (rule hook_loop_contract)
  show "\<forall>h \<in> set (DefaultPerFinding env corp). per_finding_hook h"
    unfolding DefaultPerFinding_def
    using fp.per_finding_hook_axioms eol.per_finding_hook_axioms surface.per_finding_hook_axioms
      exploit.per_finding_hook_axioms intel.per_finding_hook_axioms controls_hook.per_finding_hook_axioms
    by simp
qed

section \<open>The chain on one finding\<close>

text \<open>A finding that the filter keeps passes through the other hooks, none of which drops it or lowers its severity.\<close>

lemma chain_steps:
  assumes "hook_loop (DefaultPerFinding env corp) cs f = (ds, g, es, True)"
  obtains f1 f2 f3 f4 f5 es1 es2 es4 es5 where "fp_filter f = (f1, es1, True)" "service_eol f1 = (f2, es2, True)"
    "f3 = f2\<lparr>fi_surface := Some (scoreSurface (fi_endpoint f2))\<rparr>" "exploitability f3 = (f4, es4, True)"
    "threat_intel env f4 = (f5, es5, True)" "compliance_hook corp cs f5 = (ds, g, [], True)"
    "es = es1 @ es2 @ es4 @ es5"
proof -
  obtain f1 es1 k1 where h1: "fp_filter f = (f1, es1, k1)" by (cases "fp_filter f")
  obtain f2 es2 k2 where h2: "service_eol f1 = (f2, es2, k2)" by (cases "service_eol f1")
  define f3 where "f3 = f2\<lparr>fi_surface := Some (scoreSurface (fi_endpoint f2))\<rparr>"
  obtain f4 es4 k4 where h4: "exploitability f3 = (f4, es4, k4)" by (cases "exploitability f3")
  obtain f5 es5 k5 where h5: "threat_intel env f4 = (f5, es5, k5)" by (cases "threat_intel env f4")
  obtain ds' g' es6 k6 where h6: "compliance_hook corp cs f5 = (ds', g', es6, k6)" by (cases "compliance_hook corp cs f5")
  have eq: "hook_loop (DefaultPerFinding env corp) cs f =
     (if \<not> k1 then (cs, f1, es1, False) else if \<not> k2 then (cs, f2, es1 @ es2, False)
      else if \<not> k4 then (cs, f4, es1 @ es2 @ es4, False) else if \<not> k5 then (cs, f5, es1 @ es2 @ es4 @ es5, False)
      else (ds', g', es1 @ es2 @ es4 @ es5 @ es6, k6))"
    using h1 h2 h4 h5 h6
    by (simp add: DefaultPerFinding_def no_cells_def surface_priority_def f3_def)
  from compliance_hook_plain [OF h6] have "es6 = []" by simp
  then show ?thesis
    using assms h1 h2 h4 h5 h6 f3_def unfolding eq by (intro that) (auto split: if_splits)
qed

lemma service_eol_raises: "service_eol f = (g, es, keep) \<Longrightarrow> Rank (fi_severity f) \<le> Rank (fi_severity g)"
  by (auto simp: service_eol_def regrade_eq Let_def split: if_splits option.splits prod.splits)

lemma exploitability_raises:
  assumes "exploitability f = (g, es, keep)"
  shows "Rank (fi_severity f) \<le> Rank (fi_severity g) \<and>
    (list_ex (\<lambda>c. c \<in> set criticalCWE) (fi_cwe f) \<longrightarrow> Rank SeverityHigh \<le> Rank (fi_severity g))"
proof -
  have "list_ex (\<lambda>c. c \<in> set criticalCWE) (fi_cwe f) \<longrightarrow> fst (scoreExploitability f) = 90"
    by (auto simp: scoreExploitability_def find_None_iff list_ex_iff split: option.splits)
  then show ?thesis
    using assms by (auto simp: exploitability_def regrade_eq Let_def split: if_splits prod.splits)
qed

lemma chain_severity:
  assumes "hook_loop (DefaultPerFinding env corp) cs f = (ds, g, es, True)"
  shows "(list_ex (\<lambda>c. c \<in> set criticalCWE) (fi_cwe f) \<longrightarrow> Rank SeverityHigh \<le> Rank (fi_severity g)) \<and>
    (snd (snd (fp_filter f)) \<longrightarrow> Rank (fi_severity (fst (fp_filter f))) \<le> Rank (fi_severity g))"
proof -
  from assms obtain f1 f2 f3 f4 f5 es1 es2 es4 es5 where c: "fp_filter f = (f1, es1, True)"
    "service_eol f1 = (f2, es2, True)" "f3 = f2\<lparr>fi_surface := Some (scoreSurface (fi_endpoint f2))\<rparr>"
    "exploitability f3 = (f4, es4, True)" "threat_intel env f4 = (f5, es5, True)"
    "compliance_hook corp cs f5 = (ds, g, [], True)" by (rule chain_steps)
  have cwe: "fi_cwe f3 = fi_cwe f" if "fi_cwe f \<noteq> []"
    using fp.keeps_cwe [of cs f cs f1 es1 True] eol.keeps_cwe [of cs f1 cs f2 es2 True] c that
    by (simp add: no_cells_def)
  have r: "Rank (fi_severity f1) \<le> Rank (fi_severity f3)" "Rank (fi_severity f3) \<le> Rank (fi_severity f4)"
    "Rank (fi_severity f4) \<le> Rank (fi_severity f5)"
    using service_eol_raises [OF c(2)] exploitability_raises [OF c(4)] threat_intel_facts [OF c(5)] c(3) by simp_all
  have g: "fi_severity g = fi_severity f5"
    using compliance_hook_plain [OF c(6)] by (metis finding.select_convs(4) finding.surjective finding.update_convs(15))
  have "list_ex (\<lambda>c. c \<in> set criticalCWE) (fi_cwe f) \<longrightarrow> Rank SeverityHigh \<le> Rank (fi_severity f4)"
    using exploitability_raises [OF c(4)] cwe by (cases "fi_cwe f = []") auto
  then show ?thesis using r g c(1) by auto
qed

lemma chain_controls:
  assumes "pointer_ok cs f" "hook_loop (DefaultPerFinding env corp) cs f = (ds, g, es, True)"
  shows "controls ds g fw = controls cs f fw \<union> (if hasCVE f then set (vulnMgmtControls fw) else {}) \<union>
    (if fw \<in> unmerged \<and> (fi_compliance f \<noteq> None \<or> hasCVE f) then {} else crosswalk corp (fi_cwe g) fw)"
proof -
  from assms(2) obtain f1 f2 f3 f4 f5 es1 es2 es4 es5 where c: "fp_filter f = (f1, es1, True)"
    "service_eol f1 = (f2, es2, True)" "f3 = f2\<lparr>fi_surface := Some (scoreSurface (fi_endpoint f2))\<rparr>"
    "exploitability f3 = (f4, es4, True)" "threat_intel env f4 = (f5, es5, True)"
    "compliance_hook corp cs f5 = (ds, g, [], True)" by (rule chain_steps)
  have same: "same_identity f f5 \<and> fi_compliance f5 = fi_compliance f"
  proof -
    have "no_cells fp_filter cs f = (cs, f1, es1, True)" "no_cells service_eol cs f1 = (cs, f2, es2, True)"
      "no_cells exploitability cs f3 = (cs, f4, es4, True)" using c by (simp_all add: no_cells_def)
    note i = fp.keeps_identity [OF this(1)] eol.keeps_identity [OF this(2)] exploit.keeps_identity [OF this(3)]
    have "fi_compliance f1 = fi_compliance f" "fi_compliance f2 = fi_compliance f1" "fi_compliance f4 = fi_compliance f3"
      using c(1) by (cases f rule: fp_filter_cases; auto simp: regrade_eq)
        (use c in \<open>auto simp: service_eol_def exploitability_def regrade_eq Let_def split: if_splits option.splits prod.splits\<close>)
    moreover have "same_identity f2 f3" using c(3) by (simp add: same_identity_def)
    moreover have "same_identity f4 f5" "fi_compliance f5 = fi_compliance f4" "fi_compliance f3 = fi_compliance f2"
      using threat_intel_facts [OF c(5)] c(3) by simp_all
    ultimately show ?thesis using i by (metis same_identity_trans)
  qed
  then have "pointer_ok cs f5" "hasCVE f5 = hasCVE f" "controls cs f5 fw = controls cs f fw"
    using assms(1) by (simp_all add: pointer_ok_def hasCVE_def same_identity_def controls_def)
  moreover have "fi_cwe f5 = fi_cwe g"
    using compliance_hook_plain [OF c(6)] by (metis finding.select_convs(5) finding.surjective finding.update_convs(15))
  ultimately show ?thesis
    using compliance_hook_exact [of cs f5 corp ds g "[]" True fw] c(6) same by auto
qed

end
