(* ===== verification/EnrichFinal.thy ===== *)
theory EnrichFinal
  imports Enrich
begin

text \<open>
  internal/tracer/hooks: the hooks that see the whole set once (corroborator.go, verifier.go,
  cross_tool_merge.go, confidence.go). \<open>url.Parse\<close> is a parameter; a confidence is counted in hundredths, the
  unit the code rounds to.
\<close>

type_synonym final_hook = "finding list \<Rightarrow> finding list \<times> audit_entry list"

section \<open>Corroboration\<close>

definition corroborationKey :: "finding \<Rightarrow> string" where
  "corroborationKey f =
     (let cve = find_cve (fi_rule f)
      in if cve \<noteq> [] then ''cve:'' @ cve
         else if fi_endpoint f = [] \<or> fi_cwe f = [] then []
         else ''ep:'' @ to_lower (fi_endpoint f) @ ''|'' @ join_with '','' (sort_by str_less (fi_cwe f)))"

text \<open>
  The groups, with the indices of their members. Go iterates over the map in any order, which
  only decides the order of the audit entries: here it is that of first appearance.
\<close>

definition group_step :: "finding list \<Rightarrow> (string \<times> nat list) list \<Rightarrow> nat \<Rightarrow> (string \<times> nat list) list" where
  "group_step fs m i =
     (let k = corroborationKey (fs ! i)
      in if k = [] then m
         else put k ((case map_of m k of None \<Rightarrow> [] | Some idxs \<Rightarrow> idxs) @ [i]) m)"

definition key_groups :: "finding list \<Rightarrow> (string \<times> nat list) list" where
  "key_groups fs = foldl (group_step fs) [] [0..<length fs]"

definition tools_of :: "finding list \<Rightarrow> nat list \<Rightarrow> string list" where
  "tools_of fs idxs = foldl (\<lambda>ts i. add_once (fi_tool (fs ! i)) ts) [] idxs"

definition attach :: "nat list \<Rightarrow> finding list \<Rightarrow> nat \<Rightarrow> finding list" where
  "attach idxs fs i =
     (let others = map (\<lambda>j. fi_rule (fs ! j)) (filter (\<lambda>j. j \<noteq> i) idxs)
      in fs[i := (fs ! i)\<lparr>fi_corroborated := mergeUnique (fi_corroborated (fs ! i)) (sort_by str_less others)\<rparr>])"

definition corroborate_group :: "finding list \<times> audit_entry list \<Rightarrow> string \<times> nat list \<Rightarrow> finding list \<times> audit_entry list" where
  "corroborate_group st g =
     (let (fs, audit) = st; idxs = snd g
      in if length idxs < 2 then st
         else let tools = tools_of fs idxs
              in if length tools < 2 then st
                 else (foldl (attach idxs) fs idxs, audit @
                   [\<lparr>ae_finding = [], ae_action = ''annotate'', ae_from = [], ae_to = [],
                     ae_rule = ''corroborator::cross-tool-agreement'',
                     ae_reason = ''agreement across tools: '' @ join_with '', '' (sort_by str_less tools)\<rparr>]))"

definition corroborator :: final_hook where
  "corroborator fs = foldl corroborate_group (fs, []) (key_groups fs)"

section \<open>Verification, merging\<close>

definition post_emit_verifier :: "bool \<Rightarrow> final_hook" where
  "post_emit_verifier enabled fs = (if \<not> enabled then (fs, []) else (fs, []))"

text \<open>A parsed URL: its raw query, the parameter names of the query, and the URL without its query.\<close>

record parsed_url =
  pu_rawQuery :: string
  pu_names :: "string list"
  pu_base :: string

type_synonym url_parser = "string \<Rightarrow> parsed_url option"

definition dedupEndpoint :: "url_parser \<Rightarrow> string \<Rightarrow> string" where
  "dedupEndpoint parse endpoint =
     (case parse endpoint of
        None \<Rightarrow> endpoint
      | Some u \<Rightarrow>
          if pu_rawQuery u = [] then endpoint
          else pu_base u @ ''?'' @ join_with ''&'' (sort_by str_less (pu_names u)))"

definition merge_key :: "url_parser \<Rightarrow> finding \<Rightarrow> string" where
  "merge_key parse f = fi_tool f @ ''|'' @ fi_rule f @ ''|'' @ dedupEndpoint parse (fi_endpoint f)"

definition merge_step ::
  "url_parser \<Rightarrow> string list \<times> finding list \<times> audit_entry list \<Rightarrow> finding \<Rightarrow> string list \<times> finding list \<times> audit_entry list" where
  "merge_step parse st f =
     (let (seen, out, audit) = st; k = merge_key parse f
      in if k \<in> set seen
         then (seen, out, audit @
           [\<lparr>ae_finding = fi_id f, ae_action = ''merge'', ae_from = [], ae_to = [],
             ae_rule = ''cross_tool_merge::exact-duplicate'',
             ae_reason = ''collapsed into earlier identical finding ('' @ fi_tool f @ '' '' @ fi_rule f @ '' @ '' @
               fi_endpoint f @ '')''\<rparr>])
         else (seen @ [k], out @ [f\<lparr>fi_endpoint := dedupEndpoint parse (fi_endpoint f)\<rparr>], audit))"

definition cross_tool_merge :: "url_parser \<Rightarrow> final_hook" where
  "cross_tool_merge parse fs = snd (foldl (merge_step parse) ([], [], []) fs)"

section \<open>Confidence\<close>

definition toolBaseConfidence :: "(string \<times> int) list" where
  "toolBaseConfidence =
     [(''trivy'', 90), (''grype'', 90), (''osv-scanner'', 90), (''sqlmap'', 85), (''nuclei'', 85),
      (''gitleaks'', 80), (''trufflehog'', 80), (''cosign'', 85), (''dalfox'', 70), (''semgrep'', 60),
      (''checkov'', 65), (''hadolint'', 65), (''dockle'', 70), (''cloudagent'', 75), (''web-investigate'', 85)]"

definition baseConfidence :: "string \<Rightarrow> int" where
  "baseConfidence tool = (case map_of toolBaseConfidence tool of Some b \<Rightarrow> b | None \<Rightarrow> 50)"

definition clampConfidence :: "int \<Rightarrow> int" where
  "clampConfidence c = (let c1 = (if 99 < c then 99 else c) in if c1 < 0 then 0 else c1)"

abbreviation VerificationPatternMatch :: string where "VerificationPatternMatch \<equiv> ''pattern_match''"
abbreviation VerificationCorroborated :: string where "VerificationCorroborated \<equiv> ''corroborated''"
abbreviation VerificationVerified :: string where "VerificationVerified \<equiv> ''verified''"

definition stamp_confidence :: "finding \<Rightarrow> finding" where
  "stamp_confidence f =
     (let s0 = (if fi_status f = [] then VerificationPatternMatch else fi_status f);
          n = length (fi_corroborated f);
          s1 = (if 1 \<le> n \<and> s0 = VerificationPatternMatch then VerificationCorroborated else s0);
          c0 = baseConfidence (fi_tool f) + 10 * int n;
          c1 = (if s1 = VerificationVerified then max c0 95 else c0)
      in f\<lparr>fi_status := s1, fi_confidence := clampConfidence c1\<rparr>)"

definition confidence :: final_hook where
  "confidence fs = (map stamp_confidence fs, [])"

definition DefaultFinalize :: "url_parser \<Rightarrow> bool \<Rightarrow> final_hook list" where
  "DefaultFinalize parse enabled =
     [corroborator, post_emit_verifier enabled, cross_tool_merge parse, confidence]"

section \<open>What corroboration writes\<close>

definition members :: "finding list \<Rightarrow> string \<Rightarrow> nat list" where
  "members fs k = filter (\<lambda>i. corroborationKey (fs ! i) = k) [0..<length fs]"

text \<open>Another tool reports the same issue as the i-th finding.\<close>

definition agreed :: "finding list \<Rightarrow> nat \<Rightarrow> bool" where
  "agreed fs i \<longleftrightarrow> corroborationKey (fs ! i) \<noteq> [] \<and>
     (\<exists>j < length fs. corroborationKey (fs ! j) = corroborationKey (fs ! i) \<and> fi_tool (fs ! j) \<noteq> fi_tool (fs ! i))"

definition sibling_rules :: "finding list \<Rightarrow> nat \<Rightarrow> string list" where
  "sibling_rules fs i =
     sort_by str_less (map (\<lambda>j. fi_rule (fs ! j)) (filter (\<lambda>j. j \<noteq> i) (members fs (corroborationKey (fs ! i)))))"

definition annotated :: "finding list \<Rightarrow> nat \<Rightarrow> finding" where
  "annotated fs i = (fs ! i)\<lparr>fi_corroborated := mergeUnique (fi_corroborated (fs ! i)) (sibling_rules fs i)\<rparr>"

lemma members_iff [simp]: "i \<in> set (members fs k) \<longleftrightarrow> i < length fs \<and> corroborationKey (fs ! i) = k"
  by (auto simp: members_def)

lemma distinct_members [simp]: "distinct (members fs k)"
  by (simp add: members_def)

text \<open>The first \<open>n\<close> indices, grouped.\<close>

lemma group_prefix:
  "n \<le> length fs \<Longrightarrow>
   distinct (map fst (foldl (group_step fs) [] [0..<n])) \<and>
   (\<forall>k. map_of (foldl (group_step fs) [] [0..<n]) k =
      (let idxs = filter (\<lambda>i. corroborationKey (fs ! i) = k) [0..<n]
       in if k = [] \<or> idxs = [] then None else Some idxs))"
  by (induction n) (auto simp: group_step_def Let_def split: option.splits)

lemma distinct_key_groups: "distinct (map fst (key_groups fs))"
  using group_prefix [of "length fs" fs, THEN conjunct1] by (simp add: key_groups_def)

lemma key_groups_iff:
  "(k, idxs) \<in> set (key_groups fs) \<longleftrightarrow> k \<noteq> [] \<and> idxs \<noteq> [] \<and> idxs = members fs k"
proof -
  have "(k, idxs) \<in> set (key_groups fs) \<longleftrightarrow> map_of (key_groups fs) k = Some idxs"
    using map_of_eq_Some_iff [OF distinct_key_groups] by simp
  then show ?thesis using group_prefix [of "length fs" fs] by (auto simp: key_groups_def members_def Let_def)
qed

lemma tools_of_facts: "distinct (tools_of fs idxs) \<and> set (tools_of fs idxs) = (\<lambda>i. fi_tool (fs ! i)) ` set idxs"
proof -
  have "distinct (foldl (\<lambda>ts i. add_once (fi_tool (fs ! i)) ts) ts idxs) = distinct ts \<and>
    set (foldl (\<lambda>ts i. add_once (fi_tool (fs ! i)) ts) ts idxs) = set ts \<union> (\<lambda>i. fi_tool (fs ! i)) ` set idxs" for ts
    by (induction idxs arbitrary: ts) auto
  then show ?thesis by (simp add: tools_of_def)
qed

lemma two_tools:
  assumes "i \<in> set idxs"
  shows "\<not> length (tools_of fs idxs) < 2 \<longleftrightarrow> (\<exists>j \<in> set idxs. fi_tool (fs ! j) \<noteq> fi_tool (fs ! i))"
proof -
  let ?T = "(\<lambda>i. fi_tool (fs ! i)) ` set idxs"
  have card: "length (tools_of fs idxs) = card ?T"
    using tools_of_facts [of fs idxs] by (metis distinct_card)
  have "card ?T < 2 \<longleftrightarrow> ?T = {fi_tool (fs ! i)}"
  proof
    assume "card ?T < 2"
    moreover have "card ?T \<noteq> 0" using assms by auto
    ultimately have "card ?T = 1" by linarith
    then obtain t where t: "?T = {t}" by (rule card_1_singletonE)
    have "fi_tool (fs ! i) \<in> ?T" using assms by (rule imageI)
    with t show "?T = {fi_tool (fs ! i)}" by simp
  qed simp
  moreover have "?T = {fi_tool (fs ! i)} \<longleftrightarrow> \<not> (\<exists>j \<in> set idxs. fi_tool (fs ! j) \<noteq> fi_tool (fs ! i))"
  proof
    assume "?T = {fi_tool (fs ! i)}"
    then show "\<not> (\<exists>j \<in> set idxs. fi_tool (fs ! j) \<noteq> fi_tool (fs ! i))" by (metis imageI singletonD)
  next
    assume "\<not> (\<exists>j \<in> set idxs. fi_tool (fs ! j) \<noteq> fi_tool (fs ! i))"
    then have "?T \<subseteq> {fi_tool (fs ! i)}" by (auto intro: image_subsetI)
    moreover have "fi_tool (fs ! i) \<in> ?T" using assms by (rule imageI)
    ultimately show "?T = {fi_tool (fs ! i)}" by blast
  qed
  ultimately show ?thesis unfolding card by simp
qed

text \<open>The loop over one group touches its members only, and of these the one field.\<close>

lemma attach_loop:
  assumes "distinct is" "\<forall>i \<in> set is. i < length fs" "\<forall>j \<in> set idxs. j < length fs"
  shows "length (foldl (attach idxs) fs is) = length fs \<and>
    (\<forall>i < length fs. foldl (attach idxs) fs is ! i =
       (if i \<in> set is
        then (fs ! i)\<lparr>fi_corroborated := mergeUnique (fi_corroborated (fs ! i))
          (sort_by str_less (map (\<lambda>j. fi_rule (fs ! j)) (filter (\<lambda>j. j \<noteq> i) idxs)))\<rparr>
        else fs ! i))"
  using assms
proof (induction "is" arbitrary: fs)
  case (Cons a "is")
  let ?fs = "attach idxs fs a"
  have len: "length ?fs = length fs" by (simp add: attach_def Let_def)
  have nth: "?fs ! i = (if i = a then (fs ! a)\<lparr>fi_corroborated := mergeUnique (fi_corroborated (fs ! a))
          (sort_by str_less (map (\<lambda>j. fi_rule (fs ! j)) (filter (\<lambda>j. j \<noteq> a) idxs)))\<rparr> else fs ! i)" if "i < length fs" for i
    using that by (auto simp: attach_def Let_def nth_list_update)
  then have rule: "fi_rule (?fs ! j) = fi_rule (fs ! j)" if "j < length fs" for j using that by simp
  have rules: "map (\<lambda>j. fi_rule (?fs ! j)) (filter P idxs) = map (\<lambda>j. fi_rule (fs ! j)) (filter P idxs)" for P
    using Cons.prems(3) rule by simp
  from Cons.IH [of ?fs] Cons.prems len show ?case by (auto simp: nth rules)
qed simp

lemma corroborate_group_nth:
  assumes "k \<noteq> []" "length fs = length gs"
    and "\<forall>i < length fs. fs ! i = gs ! i \<or> corroborationKey (gs ! i) \<noteq> k"
    and "\<forall>i < length fs. fi_rule (fs ! i) = fi_rule (gs ! i) \<and> fi_tool (fs ! i) = fi_tool (gs ! i)"
    and "corroborate_group (fs, audit) (k, members gs k) = (hs, audit')"
  shows "length hs = length gs \<and>
    (\<forall>i < length gs. hs ! i = (if corroborationKey (gs ! i) = k \<and> agreed gs i then annotated gs i else fs ! i)) \<and>
    (\<exists>es. audit' = audit @ es \<and> (\<forall>e \<in> set es. ae_action e = ''annotate''))"
proof -
  let ?idxs = "members gs k"
  have idx: "i < length fs" if "i \<in> set ?idxs" for i using that assms(2) by simp
  have two: "\<not> length (tools_of fs ?idxs) < 2 \<longleftrightarrow> agreed gs i" if "i \<in> set ?idxs" for i
  proof -
    have tool: "fi_tool (fs ! j) = fi_tool (gs ! j)" if "j < length gs" for j using assms(2,4) that by simp
    have "(\<exists>j \<in> set ?idxs. fi_tool (fs ! j) \<noteq> fi_tool (fs ! i)) \<longleftrightarrow> agreed gs i"
      using that assms(1) by (auto simp: agreed_def tool)
    then show ?thesis unfolding two_tools [OF that, of fs] .
  qed
  have more: "2 \<le> length ?idxs" if "i \<in> set ?idxs" "agreed gs i" for i
  proof -
    have key: "corroborationKey (gs ! i) = k" using that(1) by simp
    from that(2) obtain j where j: "j < length gs" "corroborationKey (gs ! j) = k" "fi_tool (gs ! j) \<noteq> fi_tool (gs ! i)"
      unfolding agreed_def key by blast
    then have "j \<noteq> i" by auto
    have "{i, j} \<subseteq> set ?idxs" using that(1) j by simp
    then have "card {i, j} \<le> card (set ?idxs)" by (intro card_mono) auto
    then show ?thesis using \<open>j \<noteq> i\<close> distinct_card [of ?idxs] by simp
  qed
  show ?thesis
  proof (cases "\<exists>i \<in> set ?idxs. agreed gs i")
    case True
    then obtain i0 where i0: "i0 \<in> set ?idxs" "agreed gs i0" by blast
    then have hs: "hs = foldl (attach ?idxs) fs ?idxs"
      "\<exists>es. audit' = audit @ es \<and> (\<forall>e \<in> set es. ae_action e = ''annotate'')"
      using assms(5) two [OF i0(1)] more [OF i0] by (auto simp: corroborate_group_def Let_def)
    have agree: "agreed gs i" if "i \<in> set ?idxs" for i using two [OF i0(1)] two [OF that] i0(2) by simp
    have rules: "map (\<lambda>j. fi_rule (fs ! j)) (filter P ?idxs) = map (\<lambda>j. fi_rule (gs ! j)) (filter P ?idxs)" for P
      using assms(2,4) by auto
    have att: "length hs = length fs \<and> (\<forall>i < length fs. hs ! i =
       (if i \<in> set ?idxs then (fs ! i)\<lparr>fi_corroborated := mergeUnique (fi_corroborated (fs ! i))
          (sort_by str_less (map (\<lambda>j. fi_rule (fs ! j)) (filter (\<lambda>j. j \<noteq> i) ?idxs)))\<rparr> else fs ! i))"
      unfolding hs(1) using idx by (intro attach_loop) simp_all
    have "hs ! i = (if corroborationKey (gs ! i) = k \<and> agreed gs i then annotated gs i else fs ! i)"
      if i: "i < length gs" for i
    proof (cases "i \<in> set ?idxs")
      case True
      then have "fs ! i = gs ! i" using assms(2,3) i by auto
      then show ?thesis using True agree [OF True] att i assms(2) by (simp add: annotated_def sibling_rules_def rules)
    next
      case False
      then show ?thesis using att i assms(2) by simp
    qed
    then show ?thesis using att hs(2) assms(2) by simp
  next
    case False
    have "hs = fs \<and> audit' = audit"
    proof (cases "?idxs = []")
      case True
      then show ?thesis using assms(5) by (simp add: corroborate_group_def)
    next
      case False
      then have "hd ?idxs \<in> set ?idxs" by (rule hd_in_set)
      then have "length (tools_of fs ?idxs) < 2" using two \<open>\<not> (\<exists>i \<in> set ?idxs. agreed gs i)\<close> by blast
      then show ?thesis using assms(5) by (auto simp: corroborate_group_def Let_def split: if_splits)
    qed
    then show ?thesis using False assms(2) by auto
  qed
qed

text \<open>
  The hook, exactly: a finding whose issue another tool reports gets the rules of all the others of the
  group, those of its own tool included; no other finding changes.
\<close>

lemma corroborator_loop:
  assumes "distinct (map fst gs)" "\<forall>(k, idxs) \<in> set gs. k \<noteq> [] \<and> idxs = members fs k"
  shows "length (fst (foldl corroborate_group (fs, []) gs)) = length fs \<and>
    (\<forall>i < length fs. fst (foldl corroborate_group (fs, []) gs) ! i =
       (if corroborationKey (fs ! i) \<in> fst ` set gs \<and> agreed fs i then annotated fs i else fs ! i)) \<and>
    (\<forall>e \<in> set (snd (foldl corroborate_group (fs, []) gs)). ae_action e = ''annotate'')"
  using assms
proof (induction gs rule: rev_induct)
  case (snoc g gs)
  obtain k where g: "g = (k, members fs k)" "k \<noteq> []" "k \<notin> fst ` set gs"
    using snoc.prems by (cases g) auto
  obtain hs au where st: "foldl corroborate_group (fs, []) gs = (hs, au)"
    by (cases "foldl corroborate_group (fs, []) gs")
  obtain hs' au' where st': "corroborate_group (hs, au) (k, members fs k) = (hs', au')"
    by (cases "corroborate_group (hs, au) (k, members fs k)")
  have ih: "length hs = length fs \<and>
    (\<forall>i < length fs. hs ! i = (if corroborationKey (fs ! i) \<in> fst ` set gs \<and> agreed fs i then annotated fs i else fs ! i)) \<and>
    (\<forall>e \<in> set au. ae_action e = ''annotate'')"
    using snoc.IH snoc.prems st by auto
  have "length hs' = length fs \<and>
    (\<forall>i < length fs. hs' ! i = (if corroborationKey (fs ! i) = k \<and> agreed fs i then annotated fs i else hs ! i)) \<and>
    (\<exists>es. au' = au @ es \<and> (\<forall>e \<in> set es. ae_action e = ''annotate''))"
    using ih g(2,3) by (intro corroborate_group_nth [OF _ _ _ _ st']) (auto simp: annotated_def)
  with ih show ?case by (auto simp: st st' g(1))
qed simp

lemma corroborator_exact:
  assumes "corroborator fs = (gs, es)"
  shows "length gs = length fs \<and> (\<forall>i < length fs. gs ! i = (if agreed fs i then annotated fs i else fs ! i)) \<and>
    (\<forall>e \<in> set es. ae_action e = ''annotate'')"
proof -
  have keys: "corroborationKey (fs ! i) \<in> fst ` set (key_groups fs)" if "i < length fs" "agreed fs i" for i
  proof -
    have "i \<in> set (members fs (corroborationKey (fs ! i)))" using that by simp
    then have "(corroborationKey (fs ! i), members fs (corroborationKey (fs ! i))) \<in> set (key_groups fs)"
      using that(2) unfolding key_groups_iff agreed_def by (metis empty_iff empty_set)
    then show ?thesis by force
  qed
  have "\<forall>(k, idxs) \<in> set (key_groups fs). k \<noteq> [] \<and> idxs = members fs k"
    using key_groups_iff by blast
  from corroborator_loop [OF distinct_key_groups this] show ?thesis
    using assms keys by (auto simp: corroborator_def)
qed

section \<open>What merging drops\<close>

text \<open>A finding survives when no earlier one has its key.\<close>

definition first_of_key :: "url_parser \<Rightarrow> finding list \<Rightarrow> finding list" where
  "first_of_key parse fs =
     map ((!) fs) (filter (\<lambda>i. merge_key parse (fs ! i) \<notin> merge_key parse ` set (take i fs)) [0..<length fs])"

lemma first_of_key_snoc:
  "first_of_key parse (fs @ [f]) =
     first_of_key parse fs @ (if merge_key parse f \<in> merge_key parse ` set fs then [] else [f])"
proof -
  have "filter (\<lambda>i. merge_key parse ((fs @ [f]) ! i) \<notin> merge_key parse ` set (take i (fs @ [f]))) [0..<length fs] =
      filter (\<lambda>i. merge_key parse (fs ! i) \<notin> merge_key parse ` set (take i fs)) [0..<length fs]"
    by (rule filter_cong) (auto simp: nth_append)
  moreover have "map ((!) (fs @ [f])) (filter P [0..<length fs]) = map ((!) fs) (filter P [0..<length fs])" for P
    by (auto simp: nth_append)
  ultimately show ?thesis unfolding first_of_key_def by (simp add: nth_append)
qed

lemma merge_loop:
  "(\<lambda>(seen, out, audit). set seen = merge_key parse ` set fs \<and>
      out = map (\<lambda>f. f\<lparr>fi_endpoint := dedupEndpoint parse (fi_endpoint f)\<rparr>) (first_of_key parse fs) \<and>
      (\<forall>e \<in> set audit. ae_action e = ''merge'') \<and> length fs = length out + length audit)
    (foldl (merge_step parse) ([], [], []) fs)"
proof (induction fs rule: rev_induct)
  case Nil
  show ?case by (simp add: first_of_key_def)
next
  case (snoc f fs)
  then show ?case
    by (cases "foldl (merge_step parse) ([], [], []) fs") (auto simp: merge_step_def first_of_key_snoc Let_def)
qed

lemma cross_tool_merge_exact:
  "cross_tool_merge parse fs = (gs, es) \<Longrightarrow>
     gs = map (\<lambda>f. f\<lparr>fi_endpoint := dedupEndpoint parse (fi_endpoint f)\<rparr>) (first_of_key parse fs) \<and>
     (\<forall>e \<in> set es. ae_action e = ''merge'') \<and> length fs = length gs + length es"
  using merge_loop [of parse fs] by (auto simp: cross_tool_merge_def split: prod.splits)

lemma first_of_key_keys:
  "distinct (map (merge_key parse) (first_of_key parse fs)) \<and>
   merge_key parse ` set (first_of_key parse fs) = merge_key parse ` set fs \<and>
   set (first_of_key parse fs) \<subseteq> set fs"
proof (induction fs rule: rev_induct)
  case Nil
  show ?case by (simp add: first_of_key_def)
next
  case (snoc f fs)
  then show ?case by (auto simp: first_of_key_snoc)
qed

section \<open>What confidence says\<close>

lemma stamp_confidence_bounds:
  "0 \<le> fi_confidence (stamp_confidence f) \<and> fi_confidence (stamp_confidence f) \<le> 99 \<and>
   (fi_status f = VerificationVerified \<longrightarrow> 95 \<le> fi_confidence (stamp_confidence f))"
  by (auto simp: stamp_confidence_def clampConfidence_def Let_def max_def)

lemma baseConfidence_bounds: "50 \<le> baseConfidence t \<and> baseConfidence t \<le> 90"
proof -
  have "list_all (\<lambda>(_, b). 50 \<le> b \<and> b \<le> (90 :: int)) toolBaseConfidence" by code_simp
  then show ?thesis
    by (auto simp: baseConfidence_def list_all_iff split: option.splits dest!: map_of_SomeD)
qed

lemma stamp_confidence_exact:
  "fi_confidence (stamp_confidence f) =
     min 99 (max (baseConfidence (fi_tool f) + 10 * int (length (fi_corroborated f)))
       (if fi_status f = VerificationVerified then 95 else 0)) \<and>
   fi_status (stamp_confidence f) =
     (if fi_status f \<noteq> [] \<and> fi_status f \<noteq> VerificationPatternMatch then fi_status f
      else if fi_corroborated f = [] then VerificationPatternMatch else VerificationCorroborated)"
  using baseConfidence_bounds [of "fi_tool f"]
  by (auto simp: stamp_confidence_def clampConfidence_def Let_def max_def min_def Suc_le_eq)

end
