(* ===== verification/Tracer.thy ===== *)
theory Tracer
  imports EnrichChain EnrichFinal
begin

text \<open>
  internal/tracer/tracer.go over the chains of internal/tracer/hooks: what the tracer records of the findings
  it is given, and what the two audiences then read. \<open>clone\<close> copies a finding's slices and its map, and the pointer
  to its controls as a pointer: with immutable lists the copy of a finding is the finding, and the
  cells it points to are shared.
\<close>

record tracer =
  tr_disabled :: bool
  tr_perFinding :: "cell_hook list"
  tr_finalize :: "final_hook list"
  tr_raw :: "finding list"
  tr_staged :: "finding list"
  tr_audit :: "audit_entry list"
  tr_enriched :: "finding list"
  tr_finalized :: bool
  tr_cells :: cells

definition new_tracer :: "bool \<Rightarrow> cell_hook list \<Rightarrow> final_hook list \<Rightarrow> cells \<Rightarrow> tracer" where
  "new_tracer disabled perFinding final cs =
     \<lparr>tr_disabled = disabled, tr_perFinding = perFinding, tr_finalize = final, tr_raw = [], tr_staged = [],
      tr_audit = [], tr_enriched = [], tr_finalized = False, tr_cells = cs\<rparr>"

definition Add :: "tracer \<Rightarrow> finding \<Rightarrow> tracer" where
  "Add t f =
     (let t1 = t\<lparr>tr_raw := tr_raw t @ [f]\<rparr>
      in if tr_disabled t1 then t1\<lparr>tr_staged := tr_staged t1 @ [f]\<rparr>
         else let (cs, cur, entries, keep) = hook_loop (tr_perFinding t1) (tr_cells t1) f;
                  t2 = t1\<lparr>tr_cells := cs, tr_audit := tr_audit t1 @ entries\<rparr>
              in if keep then t2\<lparr>tr_staged := tr_staged t2 @ [cur]\<rparr> else t2)"

fun final_loop :: "final_hook list \<Rightarrow> finding list \<Rightarrow> audit_entry list \<Rightarrow> finding list \<times> audit_entry list" where
  "final_loop [] out audit = (out, audit)"
| "final_loop (h # hs) out audit = (let (out1, entries) = h out in final_loop hs out1 (audit @ entries))"

definition Finalize :: "tracer \<Rightarrow> tracer" where
  "Finalize t =
     (if tr_finalized t then t
      else let (out, audit) = (if \<not> tr_disabled t then final_loop (tr_finalize t) (tr_staged t) (tr_audit t)
                               else (tr_staged t, tr_audit t))
           in t\<lparr>tr_audit := audit, tr_enriched := out, tr_finalized := True\<rparr>)"

definition Raw :: "tracer \<Rightarrow> finding list" where
  "Raw t = tr_raw t"

definition Enriched :: "tracer \<Rightarrow> tracer \<times> finding list" where
  "Enriched t = (let t1 = (if \<not> tr_finalized t then Finalize t else t) in (t1, tr_enriched t1))"

definition AuditLog :: "tracer \<Rightarrow> tracer \<times> audit_entry list" where
  "AuditLog t = (let t1 = (if \<not> tr_finalized t then Finalize t else t) in (t1, tr_audit t1))"

text \<open>A scan: the default chains, the findings one by one, and the end.\<close>

definition default_tracer :: "intel_env \<Rightarrow> (string \<rightharpoonup> compliance) \<Rightarrow> url_parser \<Rightarrow> bool \<Rightarrow> cells \<Rightarrow> tracer" where
  "default_tracer env corp parse verify cs =
     new_tracer False (DefaultPerFinding env corp) (DefaultFinalize parse verify) cs"

section \<open>The accumulating half\<close>

text \<open>What \<open>Add\<close> appends, by the verdict of the chain.\<close>

lemma Add_eq:
  assumes "\<not> tr_disabled t" "hook_loop (tr_perFinding t) (tr_cells t) f = (ds, g, es, keep)"
  shows "Add t f = t\<lparr>tr_raw := tr_raw t @ [f], tr_cells := ds, tr_audit := tr_audit t @ es,
    tr_staged := tr_staged t @ (if keep then [g] else [])\<rparr>"
  using assms by (simp add: Add_def Let_def)

lemma Add_keeps [simp]:
  "tr_disabled (Add t f) = tr_disabled t" "tr_perFinding (Add t f) = tr_perFinding t"
  "tr_finalize (Add t f) = tr_finalize t" "tr_finalized (Add t f) = tr_finalized t"
  "tr_raw (Add t f) = tr_raw t @ [f]" "tr_enriched (Add t f) = tr_enriched t"
  by (simp_all add: Add_def Let_def split: prod.splits)

lemma Adds_keep [simp]:
  "tr_disabled (foldl Add t fs) = tr_disabled t" "tr_perFinding (foldl Add t fs) = tr_perFinding t"
  "tr_finalize (foldl Add t fs) = tr_finalize t" "tr_finalized (foldl Add t fs) = tr_finalized t"
  "tr_raw (foldl Add t fs) = tr_raw t @ fs" "tr_enriched (foldl Add t fs) = tr_enriched t"
  by (induction fs arbitrary: t) simp_all

lemma new_tracer_simps [simp]:
  "tr_disabled (new_tracer d p fin cs) = d" "tr_perFinding (new_tracer d p fin cs) = p"
  "tr_finalize (new_tracer d p fin cs) = fin" "tr_finalized (new_tracer d p fin cs) = False"
  "tr_raw (new_tracer d p fin cs) = []" "tr_staged (new_tracer d p fin cs) = []"
  "tr_audit (new_tracer d p fin cs) = []" "tr_cells (new_tracer d p fin cs) = cs"
  by (simp_all add: new_tracer_def)

text \<open>The filter's two rules.\<close>

definition fingerprint_rule :: "finding \<Rightarrow> bool" where
  "fingerprint_rule f \<longleftrightarrow>
     equal_fold (fi_rule f) ''nuclei::self-signed-detect'' \<or> equal_fold (fi_rule f) ''nuclei::tech-detect''"

lemma chain_keep_iff:
  assumes "hook_loop (DefaultPerFinding env corp) cs f = (ds, g, es, keep)"
  shows "keep \<longleftrightarrow> \<not> fingerprint_rule f"
proof -
  have tail: "snd (snd (service_eol f))" "snd (snd (exploitability f))" "snd (snd (threat_intel env f))"
    "snd (snd (snd (compliance_hook corp cs f)))" for f cs
    using threat_intel_facts [of env f] compliance_hook_plain [of corp cs f]
    by (auto simp: service_eol_def exploitability_def regrade_def Let_def prod_eq_iff
        split: option.splits prod.splits)
  have "keep = snd (snd (fp_filter f))"
    using assms tail by (auto simp: DefaultPerFinding_def no_cells_def surface_priority_def Let_def split_beta split: if_splits)
  then show ?thesis
    by (cases f rule: fp_filter_cases) (auto simp: fingerprint_rule_def regrade_def)
qed

text \<open>One finding: what is appended to the staged list and to the log, and what happens to the cells.\<close>

lemma Add_default:
  assumes "\<not> tr_disabled t" "tr_perFinding t = DefaultPerFinding env corp"
  shows "\<exists>g es. tr_audit (Add t f) = tr_audit t @ es \<and>
    tr_staged (Add t f) = tr_staged t @ (if fingerprint_rule f then [] else [g]) \<and> same_identity f g \<and>
    entries_of ''dismiss'' es = (if fingerprint_rule f then 1 else 0) \<and> entries_of ''merge'' es = 0 \<and>
    (pointer_ok (tr_cells t) f \<longrightarrow> cells_kept (tr_cells t) (fi_compliance f) (tr_cells (Add t f)) (fi_compliance g))"
proof -
  obtain ds g es keep where h: "hook_loop (DefaultPerFinding env corp) (tr_cells t) f = (ds, g, es, keep)"
    by (cases "hook_loop (DefaultPerFinding env corp) (tr_cells t) f")
  note eq = Add_eq [OF assms(1), of f, unfolded assms(2), OF h]
  show ?thesis
    using chain_keep_iff [OF h] chain.keeps_identity [OF h] chain.dismisses [OF h] chain.keeps_cells [OF h] eq
    by (intro exI [of _ g] exI [of _ es]) (auto split: if_splits)
qed

lemma Adds_default:
  assumes "\<not> tr_disabled t" "tr_perFinding t = DefaultPerFinding env corp"
  shows "\<exists>new. tr_staged (foldl Add t fs) = tr_staged t @ new \<and>
     list_all2 same_identity (filter (\<lambda>f. \<not> fingerprint_rule f) fs) new \<and>
     entries_of ''dismiss'' (tr_audit (foldl Add t fs)) =
       entries_of ''dismiss'' (tr_audit t) + length (filter fingerprint_rule fs) \<and>
     entries_of ''merge'' (tr_audit (foldl Add t fs)) = entries_of ''merge'' (tr_audit t)"
  using assms
proof (induction fs arbitrary: t)
  case (Cons f fs)
  obtain g es where a: "tr_audit (Add t f) = tr_audit t @ es"
    "tr_staged (Add t f) = tr_staged t @ (if fingerprint_rule f then [] else [g])" "same_identity f g"
    "entries_of ''dismiss'' es = (if fingerprint_rule f then 1 else 0)" "entries_of ''merge'' es = 0"
    using Add_default [OF Cons.prems] by blast
  obtain new where "tr_staged (foldl Add (Add t f) fs) = tr_staged (Add t f) @ new"
    "list_all2 same_identity (filter (\<lambda>f. \<not> fingerprint_rule f) fs) new"
    "entries_of ''dismiss'' (tr_audit (foldl Add (Add t f) fs)) =
       entries_of ''dismiss'' (tr_audit (Add t f)) + length (filter fingerprint_rule fs)"
    "entries_of ''merge'' (tr_audit (foldl Add (Add t f) fs)) = entries_of ''merge'' (tr_audit (Add t f))"
    using Cons.IH [of "Add t f"] Cons.prems by auto
  then show ?case
    using a by (intro exI [of _ "(if fingerprint_rule f then [] else [g]) @ new"]) simp
qed simp

lemma Adds_cells:
  assumes "\<not> tr_disabled t" "tr_perFinding t = DefaultPerFinding env corp"
    and "\<forall>f \<in> set fs. pointer_ok (tr_cells t) f"
  shows "length (tr_cells t) \<le> length (tr_cells (foldl Add t fs)) \<and>
    (\<forall>a < length (tr_cells t).
       ((\<forall>f \<in> set fs. fi_compliance f \<noteq> Some a) \<longrightarrow> tr_cells (foldl Add t fs) ! a = tr_cells t ! a) \<and>
       (\<forall>fw. set ((tr_cells t ! a) fw) \<subseteq> set ((tr_cells (foldl Add t fs) ! a) fw)))"
  using assms
proof (induction fs arbitrary: t)
  case (Cons f fs)
  let ?t = "Add t f"
  obtain g :: finding where k: "cells_kept (tr_cells t) (fi_compliance f) (tr_cells ?t) (fi_compliance g)"
    using Add_default [OF Cons.prems(1,2), of f] Cons.prems(3) by (meson list.set_intros(1))
  then have step: "length (tr_cells t) \<le> length (tr_cells ?t)"
    "\<And>a. a < length (tr_cells t) \<Longrightarrow> fi_compliance f \<noteq> Some a \<Longrightarrow> tr_cells ?t ! a = tr_cells t ! a"
    "\<And>a fw. a < length (tr_cells t) \<Longrightarrow> set ((tr_cells t ! a) fw) \<subseteq> set ((tr_cells ?t ! a) fw)"
    by (auto simp: cells_kept_def)
  have "\<forall>f \<in> set fs. pointer_ok (tr_cells ?t) f"
    using Cons.prems(3) step(1) by (fastforce simp: pointer_ok_def)
  then have ih: "length (tr_cells ?t) \<le> length (tr_cells (foldl Add ?t fs))"
    "\<And>a. a < length (tr_cells ?t) \<Longrightarrow> \<forall>f \<in> set fs. fi_compliance f \<noteq> Some a \<Longrightarrow> tr_cells (foldl Add ?t fs) ! a = tr_cells ?t ! a"
    "\<And>a fw. a < length (tr_cells ?t) \<Longrightarrow> set ((tr_cells ?t ! a) fw) \<subseteq> set ((tr_cells (foldl Add ?t fs) ! a) fw)"
    using Cons.IH [of ?t] Cons.prems by simp_all
  show ?case
    using step ih by (auto dest: less_le_trans) (meson less_le_trans subsetD)
qed simp

section \<open>The cross-finding half\<close>

lemma default_finalize:
  assumes "corroborator fs = (cs, es1)" "cross_tool_merge parse cs = (ms, es2)"
  shows "final_loop (DefaultFinalize parse v) fs audit = (map stamp_confidence ms, audit @ es1 @ es2)"
  using assms by (simp add: DefaultFinalize_def post_emit_verifier_def confidence_def)

lemma no_entries: "\<forall>e \<in> set es. ae_action e = b \<Longrightarrow> entries_of a es = (if a = b then length es else 0)"
  by (induction es) auto

text \<open>The key a finding has after merging, once its endpoint is the normal one.\<close>

definition plain_key :: "finding \<Rightarrow> string" where
  "plain_key f = fi_tool f @ ''|'' @ fi_rule f @ ''|'' @ fi_endpoint f"

lemma Finalize_default:
  assumes "\<not> tr_disabled t" "tr_finalize t = DefaultFinalize parse v" "\<not> tr_finalized t"
  obtains cs where "length cs = length (tr_staged t)"
    "\<forall>i < length cs. cs ! i = (if agreed (tr_staged t) i then annotated (tr_staged t) i else tr_staged t ! i)"
    "tr_enriched (Finalize t) = map (\<lambda>f. stamp_confidence (f\<lparr>fi_endpoint := dedupEndpoint parse (fi_endpoint f)\<rparr>))
       (first_of_key parse cs)"
    "entries_of ''dismiss'' (tr_audit (Finalize t)) = entries_of ''dismiss'' (tr_audit t)"
    "length (tr_staged t) + entries_of ''merge'' (tr_audit t) =
       length (tr_enriched (Finalize t)) + entries_of ''merge'' (tr_audit (Finalize t))"
proof -
  obtain cs es1 where c: "corroborator (tr_staged t) = (cs, es1)" by (cases "corroborator (tr_staged t)")
  obtain ms es2 where m: "cross_tool_merge parse cs = (ms, es2)" by (cases "cross_tool_merge parse cs")
  note ce = corroborator_exact [OF c] and me = cross_tool_merge_exact [OF m]
  have fin: "Finalize t = t\<lparr>tr_audit := tr_audit t @ es1 @ es2, tr_enriched := map stamp_confidence ms, tr_finalized := True\<rparr>"
    using assms default_finalize [OF c m] by (simp add: Finalize_def)
  have "entries_of a es1 = (if a = ''annotate'' then length es1 else 0)" for a
    using ce by (intro no_entries) simp
  moreover have "entries_of a es2 = (if a = ''merge'' then length es2 else 0)" for a
    using me by (intro no_entries) simp
  ultimately show ?thesis
    using ce me by (intro that [of cs]) (simp_all add: fin o_def)
qed

lemma default_tracer_simps [simp]:
  "\<not> tr_disabled (default_tracer env corp parse v cs)"
  "tr_perFinding (default_tracer env corp parse v cs) = DefaultPerFinding env corp"
  "tr_finalize (default_tracer env corp parse v cs) = DefaultFinalize parse v"
  "\<not> tr_finalized (default_tracer env corp parse v cs)"
  "tr_raw (default_tracer env corp parse v cs) = []" "tr_staged (default_tracer env corp parse v cs) = []"
  "tr_audit (default_tracer env corp parse v cs) = []" "tr_cells (default_tracer env corp parse v cs) = cs"
  by (simp_all add: default_tracer_def)

lemma Finalize_keeps [simp]:
  "tr_raw (Finalize t) = tr_raw t" "tr_cells (Finalize t) = tr_cells t" "tr_finalized (Finalize t)"
  by (auto simp: Finalize_def Let_def split: prod.splits)

lemma read_open:
  "\<not> tr_finalized t \<Longrightarrow> Enriched t = (Finalize t, tr_enriched (Finalize t))"
  "\<not> tr_finalized t \<Longrightarrow> AuditLog t = (Finalize t, tr_audit (Finalize t))"
  by (simp_all add: Enriched_def AuditLog_def Let_def)

lemma list_all2_source: "list_all2 P xs ys \<Longrightarrow> y \<in> set ys \<Longrightarrow> \<exists>x \<in> set xs. P x y"
  by (induction rule: list_all2_induct) auto

text \<open>The keys that the cross-finding hooks leave are those of the staged findings, each once.\<close>

lemma enriched_keys:
  assumes "\<not> tr_disabled t" "tr_finalize t = DefaultFinalize parse v" "\<not> tr_finalized t"
  shows "distinct (map plain_key (tr_enriched (Finalize t))) \<and>
    plain_key ` set (tr_enriched (Finalize t)) = merge_key parse ` set (tr_staged t)"
proof -
  obtain cs where cs: "length cs = length (tr_staged t)"
    "\<forall>i < length cs. cs ! i = (if agreed (tr_staged t) i then annotated (tr_staged t) i else tr_staged t ! i)"
    "tr_enriched (Finalize t) = map (\<lambda>f. stamp_confidence (f\<lparr>fi_endpoint := dedupEndpoint parse (fi_endpoint f)\<rparr>))
       (first_of_key parse cs)" by (rule Finalize_default [OF assms])
  have key: "plain_key (stamp_confidence (f\<lparr>fi_endpoint := dedupEndpoint parse (fi_endpoint f)\<rparr>)) = merge_key parse f" for f
    by (simp add: plain_key_def merge_key_def stamp_confidence_def Let_def)
  have "map (merge_key parse) cs = map (merge_key parse) (tr_staged t)"
    using cs(1,2) by (intro nth_equalityI) (auto simp: annotated_def merge_key_def)
  then have "merge_key parse ` set cs = merge_key parse ` set (tr_staged t)" by (metis list.set_map)
  then show ?thesis
    using first_of_key_keys [of parse cs] by (simp add: cs(3) o_def key image_image)
qed

section \<open>Properties\<close>


text \<open>Whatever the per-finding hooks do to a finding can be replayed from the log: the entries of one \<open>Add\<close> all name the
  finding, and applying their severity changes to its severity gives the staged one; a dismissal has
  exactly one entry. A finding that came with a critical-class CWE and is not dismissed ends at high or
  above, whatever the false-positive filter did to it.
\<close>

theorem every_change_is_logged:
  assumes "\<not> tr_disabled t" "tr_perFinding t = DefaultPerFinding env corp"
  shows "\<exists>es. tr_audit (Add t f) = tr_audit t @ es \<and> list_all (\<lambda>e. ae_finding e = fi_id f) es \<and>
    (if fingerprint_rule f then tr_staged (Add t f) = tr_staged t \<and> entries_of ''dismiss'' es = 1
     else \<exists>g. tr_staged (Add t f) = tr_staged t @ [g] \<and> same_identity f g \<and> entries_of ''dismiss'' es = 0 \<and>
       replay (fi_severity f) es = Some (fi_severity g) \<and>
       (list_ex (\<lambda>c. c \<in> set criticalCWE) (fi_cwe f) \<longrightarrow> Rank SeverityHigh \<le> Rank (fi_severity g)))"
proof -
  obtain ds g es keep where h: "hook_loop (DefaultPerFinding env corp) (tr_cells t) f = (ds, g, es, keep)"
    by (cases "hook_loop (DefaultPerFinding env corp) (tr_cells t) f")
  note eq = Add_eq [OF assms(1), of f, unfolded assms(2), OF h]
  have sev: "list_ex (\<lambda>c. c \<in> set criticalCWE) (fi_cwe f) \<longrightarrow> Rank SeverityHigh \<le> Rank (fi_severity g)"
    if "\<not> fingerprint_rule f"
    using chain_severity [of env corp "tr_cells t" f ds g es] h chain_keep_iff [OF h] that by simp
  show ?thesis
    using chain_keep_iff [OF h] chain.keeps_identity [OF h] chain.replays [OF h] chain.names [OF h]
      chain.dismisses [OF h] sev
    by (intro exI [of _ es]) (auto simp: eq list_all_iff)
qed

text \<open>The controls a staged finding maps to are exactly those it came with, those of a known CVE when its
  rule or title names one, and those its final CWEs (its own, if it has any) have in the crosswalk; only DORA and Cyber
  Essentials miss the crosswalk as soon as there is anything to merge it with.
\<close>

theorem controls_are_exact:
  assumes "\<not> tr_disabled t" "tr_perFinding t = DefaultPerFinding env corp"
    and "pointer_ok (tr_cells t) f" "\<not> fingerprint_rule f"
  shows "\<exists>g. tr_staged (Add t f) = tr_staged t @ [g] \<and> (fi_cwe f \<noteq> [] \<longrightarrow> fi_cwe g = fi_cwe f) \<and>
    (\<forall>fw. controls (tr_cells (Add t f)) g fw =
       controls (tr_cells t) f fw \<union> (if hasCVE f then set (vulnMgmtControls fw) else {}) \<union>
       (if fw \<in> unmerged \<and> (fi_compliance f \<noteq> None \<or> hasCVE f) then {} else crosswalk corp (fi_cwe g) fw))"
proof -
  obtain ds g es keep where h: "hook_loop (DefaultPerFinding env corp) (tr_cells t) f = (ds, g, es, keep)"
    by (cases "hook_loop (DefaultPerFinding env corp) (tr_cells t) f")
  note eq = Add_eq [OF assms(1), of f, unfolded assms(2), OF h]
  have "keep" using chain_keep_iff [OF h] assms(4) by simp
  then show ?thesis
    using chain_controls [OF assms(3), of env corp ds g es] chain.keeps_cwe [OF h] h by (intro exI [of _ g]) (auto simp: eq)
qed

text \<open>The raw record is what the scanners said, but for one thing. Its findings are the added ones, in
  order; a mapping that no finding points to is untouched, and none ever loses a control. A finding that came with a
  mapping of its own shares it with its enriched copy, so the raw record shows the controls the
  hook added.
\<close>

theorem raw_is_kept:
  assumes "\<forall>f \<in> set fs. pointer_ok cs f"
    and "t = foldl Add (default_tracer env corp parse v cs) fs"
  shows "Raw (fst (Enriched t)) = fs \<and>
    (\<forall>a < length cs. \<forall>fw. set ((cs ! a) fw) \<subseteq> set ((tr_cells (fst (Enriched t)) ! a) fw)) \<and>
    (\<forall>a < length cs. a \<notin> {b. \<exists>f \<in> set fs. fi_compliance f = Some b} \<longrightarrow> tr_cells (fst (Enriched t)) ! a = cs ! a)"
proof -
  have "tr_cells (fst (Enriched t)) = tr_cells t" "Raw (fst (Enriched t)) = fs"
    using read_open(1) [of t] by (simp_all add: Raw_def assms(2))
  then show ?thesis
    using Adds_cells [of "default_tracer env corp parse v cs" env corp fs] assms by auto
qed

text \<open>Confidence is earned. Of findings that come unverified from the scanners, an enriched one is marked corroborated
  exactly when another tool reported the same issue among the staged ones; without that its
  confidence is the base of its tool. It always lies between the lowest base and 99 hundredths.
\<close>

theorem confidence_is_earned:
  assumes "\<forall>f \<in> set fs. fi_corroborated f = [] \<and> fi_status f = []"
    and "t = foldl Add (default_tracer env corp parse v cs) fs" and "g \<in> set (snd (Enriched t))"
  shows "\<exists>i < length (tr_staged t). fi_id g = fi_id (tr_staged t ! i) \<and>
    (if agreed (tr_staged t) i
     then fi_status g = VerificationCorroborated \<and>
       fi_confidence g = min 99 (baseConfidence (fi_tool g) + 10 * int (length (fi_corroborated g))) \<and>
       set (fi_corroborated g) = fi_rule ` ((!) (tr_staged t)) ` {j. j < length (tr_staged t) \<and> j \<noteq> i \<and>
         corroborationKey (tr_staged t ! j) = corroborationKey (tr_staged t ! i)}
     else fi_status g = VerificationPatternMatch \<and> fi_corroborated g = [] \<and>
       fi_confidence g = baseConfidence (fi_tool g)) \<and>
    50 \<le> fi_confidence g \<and> fi_confidence g \<le> 99"
proof -
  have t: "\<not> tr_disabled t" "tr_finalize t = DefaultFinalize parse v" "\<not> tr_finalized t"
    by (simp_all add: assms(2))
  obtain new where new: "tr_staged t = new" "list_all2 same_identity (filter (\<lambda>f. \<not> fingerprint_rule f) fs) new"
    using Adds_default [of "default_tracer env corp parse v cs" env corp fs] by (auto simp: assms(2))
  have fresh: "fi_corroborated f = [] \<and> fi_status f = []" if "f \<in> set new" for f
  proof -
    from list_all2_source [OF new(2) that] obtain f0 where "f0 \<in> set fs" "same_identity f0 f" by auto
    then show ?thesis using assms(1) by (simp add: same_identity_def)
  qed
  obtain hs where hs: "length hs = length new"
    "\<forall>i < length hs. hs ! i = (if agreed new i then annotated new i else new ! i)"
    "tr_enriched (Finalize t) = map (\<lambda>f. stamp_confidence (f\<lparr>fi_endpoint := dedupEndpoint parse (fi_endpoint f)\<rparr>))
       (first_of_key parse hs)"
    by (rule Finalize_default [OF t, unfolded new(1)])
  from assms(3) have "g \<in> set (tr_enriched (Finalize t))" by (simp add: read_open [OF t(3)])
  then obtain h where h: "h \<in> set hs" "g = stamp_confidence (h\<lparr>fi_endpoint := dedupEndpoint parse (fi_endpoint h)\<rparr>)"
    using first_of_key_keys [of parse hs] by (auto simp: hs(3))
  then obtain i where i: "i < length new" "h = hs ! i" by (auto simp: in_set_conv_nth hs(1))
  have base: "50 \<le> baseConfidence (fi_tool h)" "baseConfidence (fi_tool h) \<le> 90" using baseConfidence_bounds by simp_all
  have keep: "fi_id g = fi_id h" "fi_tool g = fi_tool h" "fi_corroborated g = fi_corroborated h"
    by (simp_all add: h(2) stamp_confidence_def Let_def)
  note ex = stamp_confidence_exact [of "h\<lparr>fi_endpoint := dedupEndpoint parse (fi_endpoint h)\<rparr>", folded h(2)]
  have old: "fi_corroborated (new ! i) = []" "fi_status (new ! i) = []" using fresh i(1) by simp_all
  show ?thesis
  proof (cases "agreed new i")
    case True
    then have hi: "h = annotated new i" using hs i by simp
    have rules: "set (fi_corroborated h) = fi_rule ` ((!) new) ` {j. j < length new \<and> j \<noteq> i \<and>
         corroborationKey (new ! j) = corroborationKey (new ! i)}"
      by (auto simp: hi annotated_def old sibling_rules_def)
    obtain j where "j < length new" "j \<noteq> i" "corroborationKey (new ! j) = corroborationKey (new ! i)"
      using True unfolding agreed_def by blast
    then have "fi_corroborated h \<noteq> []" using rules by fastforce
    moreover have "fi_status h = []" "fi_id h = fi_id (new ! i)" by (simp_all add: hi annotated_def old)
    ultimately show ?thesis
      using True rules ex base keep i(1) new(1)
      by (intro exI [of _ i]) (auto simp: min_def max_def)
  next
    case False
    then have "h = new ! i" using hs i by simp
    then show ?thesis
      using False ex base keep old i(1) new(1) by (intro exI [of _ i]) (auto simp: min_def max_def)
  qed
qed

section \<open>Concrete scans\<close>

definition sample_finding :: "string \<Rightarrow> string \<Rightarrow> string \<Rightarrow> string \<Rightarrow> string list \<Rightarrow> string \<Rightarrow> nat option \<Rightarrow> finding" where
  "sample_finding i tool rule sev cwe endpoint inline =
     \<lparr>fi_id = i, fi_rule = rule, fi_tool = tool, fi_severity = sev, fi_cwe = cwe, fi_endpoint = endpoint,
      fi_asset = [], fi_title = [], fi_description = [], fi_args = Map.empty, fi_surface = None, fi_exploit = None,
      fi_corroborated = [], fi_intel = None, fi_compliance = inline, fi_status = [], fi_confidence = 0\<rparr>"

definition sample_intel :: intel_env where
  "sample_intel =
     \<lparr>ie_corpus = [''CVE-2024-1234'' \<mapsto> \<lparr>ti_cvss_vector = [], ti_advisories = [], ti_exploits = [],
        ti_kev = Some \<lparr>kv_listed = True, kv_cwes = [''CWE-78''], kv_added = 0, kv_ransomware = False, kv_due = 0\<rparr>\<rparr>],
      ie_escalate = False, ie_date = (\<lambda>_. [])\<rparr>"

definition sample_crosswalk :: "string \<rightharpoonup> compliance" where
  "sample_crosswalk = [''CWE-79'' \<mapsto> (\<lambda>fw. case fw of FwDORA \<Rightarrow> [''Art. 9''] | FwSOC2 \<Rightarrow> [''CC6.1''] | _ \<Rightarrow> [])]"

definition sample_tracer :: "cells \<Rightarrow> tracer" where
  "sample_tracer cs = default_tracer sample_intel sample_crosswalk (\<lambda>_. None) False cs"

definition sample_scan :: "finding list" where
  "sample_scan =
     [sample_finding ''1'' ''trivy'' ''trivy::CVE-2023-0001'' ''high'' [] ''libx'' None,
      sample_finding ''2'' ''trivy'' ''trivy::CVE-2023-0001'' ''high'' [] ''libx'' None,
      sample_finding ''3'' ''grype'' ''grype::CVE-2023-0001'' ''high'' [] ''libx@1'' None,
      sample_finding ''4'' ''nuclei'' ''nuclei::tech-detect'' ''info'' [] ''https://a'' None]"


text \<open>The chain demotes a critical injection under \<open>vendor/\<close> to low, and its fourth hook raises it again to high.\<close>

definition vendored_injection :: finding where
  "vendored_injection =
     sample_finding ''v'' ''semgrep'' ''semgrep::sqli'' ''critical'' [''CWE-89''] ''app/vendor/x/db.go:7'' None"

theorem every_change_is_logged_witness:
  "\<exists>es g. tr_audit (Add (sample_tracer []) vendored_injection) = es \<and>
     tr_staged (Add (sample_tracer []) vendored_injection) = [g] \<and>
     replay ''critical'' es = Some (fi_severity g) \<and> Rank SeverityHigh \<le> Rank (fi_severity g)"
proof -
  have "\<not> fingerprint_rule vendored_injection" "fi_severity vendored_injection = ''critical''"
    "list_ex (\<lambda>c. c \<in> set criticalCWE) (fi_cwe vendored_injection)" by code_simp+
  then show ?thesis
    using every_change_is_logged [of "sample_tracer []" sample_intel sample_crosswalk vendored_injection]
    by (auto simp: sample_tracer_def)
qed

lemma demotion_is_undone:
  "map (\<lambda>e. (ae_action e, ae_from e, ae_to e)) (tr_audit (Add (sample_tracer []) vendored_injection)) =
     [(''demote'', ''critical'', ''low''), (''promote'', ''low'', ''high'')]"
  by code_simp

text \<open>A CWE that the KEV feed supplies arrives after the hook that scores it.\<close>

lemma backfilled_cwe_is_not_scored:
  "(let g = hd (tr_staged (Add (sample_tracer [])
      (sample_finding ''k'' ''grype'' ''grype::CVE-2024-1234'' ''medium'' [] ''libx'' None)))
    in (fi_cwe g, fi_severity g, map_option fst (fi_exploit g))) = ([''CWE-78''], ''medium'', Some 40)"
  by code_simp

text \<open>A web finding that maps to DORA, and one with a mapping of its own that then does not.\<close>

definition mapped_finding :: finding where
  "mapped_finding = sample_finding ''m'' ''zap'' ''zap::xss'' ''medium'' [''CWE-79''] ''https://a/b'' (Some 0)"

theorem controls_are_exact_witness:
  "\<exists>g. tr_staged (Add (sample_tracer [no_controls]) mapped_finding) = [g] \<and>
     controls (tr_cells (Add (sample_tracer [no_controls]) mapped_finding)) g FwDORA = {} \<and>
     crosswalk sample_crosswalk (fi_cwe g) FwDORA = {''Art. 9''}"
proof -
  have pre: "pointer_ok (tr_cells (sample_tracer [no_controls])) mapped_finding"
    by (simp add: pointer_ok_def mapped_finding_def sample_finding_def sample_tracer_def)
  have facts: "\<not> fingerprint_rule mapped_finding" "\<not> hasCVE mapped_finding" by code_simp+
  have plain: "fi_compliance mapped_finding = Some 0" "fi_cwe mapped_finding = [''CWE-79'']"
    by (simp_all add: mapped_finding_def sample_finding_def)
  have sim: "\<not> tr_disabled (sample_tracer cs)" "tr_perFinding (sample_tracer cs) = DefaultPerFinding sample_intel sample_crosswalk"
    "tr_staged (sample_tracer cs) = []" "tr_cells (sample_tracer cs) = cs" for cs
    by (simp_all add: sample_tracer_def)
  from controls_are_exact [OF sim(1,2) pre facts(1)] obtain g where
    g: "tr_staged (Add (sample_tracer [no_controls]) mapped_finding) = [g]"
    "controls (tr_cells (Add (sample_tracer [no_controls]) mapped_finding)) g FwDORA = {}" "fi_cwe g = [''CWE-79'']"
    by (auto simp: sim facts plain unmerged_def controls_def no_controls_def)
  then show ?thesis using g by (simp add: crosswalk_def sample_crosswalk_def)
qed

lemma raw_gains_controls:
  "(let t = Add (sample_tracer [no_controls]) mapped_finding; f = hd (Raw t)
    in fi_id f = ''m'' \<and> (tr_cells t ! the (fi_compliance f)) FwSOC2 = [''CC6.1''])"
  by code_simp

theorem raw_is_kept_witness:
  "let t = foldl Add (sample_tracer [no_controls, no_controls]) [mapped_finding]
   in Raw (fst (Enriched t)) = [mapped_finding] \<and> tr_cells (fst (Enriched t)) ! 1 = no_controls"
proof -
  have "\<forall>f \<in> set [mapped_finding]. pointer_ok [no_controls, no_controls] f"
    by (simp add: pointer_ok_def mapped_finding_def sample_finding_def)
  from raw_is_kept [OF this refl, of sample_intel sample_crosswalk "\<lambda>_. None" False] show ?thesis
    by (auto simp: sample_tracer_def mapped_finding_def sample_finding_def Let_def dest: spec [of _ "1 :: nat"])
qed

text \<open>A rule of the finding's own tool, its own rule even, counts as an independent source.\<close>

lemma own_rule_corroborates:
  "map (\<lambda>g. (fi_id g, fi_corroborated g, fi_confidence g)) (snd (Enriched (foldl Add (sample_tracer []) sample_scan))) =
     [(''1'', [''grype::CVE-2023-0001'', ''trivy::CVE-2023-0001''], 99),
      (''3'', [''trivy::CVE-2023-0001''], 99)]"
  by code_simp

theorem confidence_is_earned_witness:
  "let t = foldl Add (sample_tracer []) [sample_finding ''5'' ''semgrep'' ''semgrep::x'' ''low'' [''CWE-1''] ''a.go'' None]
   in \<forall>g \<in> set (snd (Enriched t)). 50 \<le> fi_confidence g \<and> fi_confidence g \<le> 99"
proof -
  have "\<forall>f \<in> set [sample_finding ''5'' ''semgrep'' ''semgrep::x'' ''low'' [''CWE-1''] ''a.go'' None].
      fi_corroborated f = [] \<and> fi_status f = []" by (simp add: sample_finding_def)
  from confidence_is_earned [OF this refl, of _ sample_intel sample_crosswalk "\<lambda>_. None" False "[]"]
  show ?thesis by (auto simp: sample_tracer_def Let_def)
qed

end
