(* ===== verification/Coverage.thy ===== *)
theory Coverage
  imports Enrich
begin

text \<open>
  internal/detect/coverage.go: what a pass is an authority on. The set of producers is a list; its zero value
  covers nothing.
\<close>

record coverage =
  cv_producers :: "string list"
  cv_all :: bool

definition normalizeProducer :: "string \<Rightarrow> string" where
  "normalizeProducer p = to_lower (trim_space p)"

definition AllProducers :: coverage where
  "AllProducers = \<lparr>cv_producers = [], cv_all = True\<rparr>"

definition add_producers :: "string list \<Rightarrow> string list \<Rightarrow> string list" where
  "add_producers m producers =
     foldl (\<lambda>m p. let q = normalizeProducer p in if q \<noteq> [] then add_once q m else m) m producers"

definition CoverageOf :: "string list \<Rightarrow> coverage" where
  "CoverageOf producers = \<lparr>cv_producers = add_producers [] producers, cv_all = False\<rparr>"

definition With :: "coverage \<Rightarrow> string list \<Rightarrow> coverage" where
  "With c producers = (if cv_all c then c else \<lparr>cv_producers = add_producers (cv_producers c) producers, cv_all = False\<rparr>)"

text \<open>\<open>strings.Index\<close>.\<close>

definition index_str :: "string \<Rightarrow> string \<Rightarrow> nat option" where
  "index_str s sub = List.find (\<lambda>i. prefix sub (drop i s)) [0..<Suc (length s)]"

definition ProducerOf :: "string \<Rightarrow> string" where
  "ProducerOf ruleIDOrKey =
     (let s = (case index_str ruleIDOrKey ''|'' of None \<Rightarrow> ruleIDOrKey | Some i \<Rightarrow> take i ruleIDOrKey)
      in case index_str s ''::'' of
           None \<Rightarrow> []
         | Some i \<Rightarrow> if i = 0 then [] else normalizeProducer (take i s))"

definition Covers :: "coverage \<Rightarrow> string \<Rightarrow> bool" where
  "Covers c ruleID \<longleftrightarrow> cv_all c \<or> (let p = ProducerOf ruleID in p \<noteq> [] \<and> p \<in> set (cv_producers c))"

definition Empty_coverage :: "coverage \<Rightarrow> bool" where
  "Empty_coverage c \<longleftrightarrow> \<not> cv_all c \<and> cv_producers c = []"

definition eventProducers :: "string list" where
  "eventProducers = [''cloudcdr'', ''identitythreat'', ''guardduty'']"

definition IsEventProducer :: "string \<Rightarrow> bool" where
  "IsEventProducer producer \<longleftrightarrow> normalizeProducer producer \<in> set eventProducers"

text \<open>A finding's stable identity (\<open>detect.Key\<close>).\<close>

definition Key :: "finding \<Rightarrow> string" where
  "Key f = fi_rule f @ ''|'' @ fi_endpoint f"

end
