(* ===== verification/Detect.thy ===== *)
theory Detect
  imports Coverage Ledger
begin

text \<open>
  internal/detect/detect.go and routing.go: findings become incidents, incidents resolve when their issue
  stays absent, and overdue ones are paged again (\<open>Incident\<close> and \<open>Overdue\<close> are in
  pkg/platform/types.go, the in-memory incidents in internal/store/memory.go). The store, the
  alerter and the skill triager are interfaces: a store operation may fail (\<open>None\<close>), a page may not
  land. Times are integers in nanoseconds, 0 the zero time; \<open>dt_now\<close> is the clock of the
  call. Go iterates over its maps in any order: \<open>dt_order\<close> permutes their keys.
\<close>

section \<open>Incidents\<close>

record incident =
  in_id :: string
  in_tenant :: string
  in_key :: string
  in_rule :: string
  in_title :: string
  in_severity :: string
  in_status :: string
  in_finding :: string
  in_verification :: string
  in_confidence :: int
  in_absent :: int
  in_attacked :: bool
  in_triageVerdict :: string
  in_triageRationale :: string
  in_triageSkill :: string
  in_asset :: string
  in_assetTarget :: string
  in_owner :: string
  in_team :: string
  in_slack :: string
  in_openedAt :: int
  in_resolvedAt :: int
  in_ackAt :: int
  in_lastEscalatedAt :: int
  in_kev :: bool
  in_ransomware :: bool
  in_kevDueAt :: int

abbreviation IncidentOpen :: string where "IncidentOpen \<equiv> ''open''"
abbreviation IncidentResolved :: string where "IncidentResolved \<equiv> ''resolved''"

definition Acknowledged :: "incident \<Rightarrow> bool" where
  "Acknowledged i \<longleftrightarrow> in_ackAt i \<noteq> 0"

definition Overdue :: "incident \<Rightarrow> int \<Rightarrow> int \<Rightarrow> bool" where
  "Overdue i ackWindowMins now =
     (if ackWindowMins \<le> 0 \<or> in_status i \<noteq> IncidentOpen \<or> Acknowledged i then False
      else let window = ackWindowMins * 60000000000
           in if now - in_openedAt i < window then False
              else in_lastEscalatedAt i = 0 \<or> window \<le> now - in_lastEscalatedAt i)"

section \<open>The detector\<close>

record skill_verdict =
  sk_verdict :: string
  sk_rationale :: string
  sk_skill :: string

record asset =
  as_id :: string
  as_target :: string
  as_owner :: string
  as_team :: string

record contact =
  ct_email :: string
  ct_slack :: string

record 's detector =
  dt_put :: "incident \<Rightarrow> 's \<Rightarrow> 's option"
  dt_list :: "'s \<Rightarrow> string \<Rightarrow> incident list option"
  dt_routing :: "(string \<Rightarrow> asset list option \<times> contact list option) option"
  dt_alerter :: "(incident \<Rightarrow> bool) option"
  dt_responder :: bool
  dt_triager :: "(finding \<Rightarrow> finding list \<Rightarrow> skill_verdict option) option"
  dt_threshold :: string
  dt_alertCap :: int
  dt_resolveAfterAbsent :: int
  dt_now :: int
  dt_newID :: "nat \<Rightarrow> string"
  dt_suppressed :: "(string \<Rightarrow> int \<Rightarrow> bool) option"
  dt_order :: "string list \<Rightarrow> string list"

datatype effect = Paged incident bool | Responded string "incident list"

record 's dworld =
  dw_store :: 's
  dw_recorder :: "recorder option"
  dw_effects :: "effect list"
  dw_ids :: nat

definition resolveAfterAbsent :: "'s detector \<Rightarrow> int" where
  "resolveAfterAbsent d = (if 0 < dt_resolveAfterAbsent d then dt_resolveAfterAbsent d else 2)"

definition suppressed_now :: "'s detector \<Rightarrow> string \<Rightarrow> bool" where
  "suppressed_now d tenantID =
     (case dt_suppressed d of None \<Rightarrow> False | Some quiet \<Rightarrow> quiet tenantID (dt_now d))"

definition atOrAbove :: "'s detector \<Rightarrow> string \<Rightarrow> bool" where
  "atOrAbove d s =
     (let threshold = (if dt_threshold d = [] then SeverityHigh else dt_threshold d) in Rank threshold \<le> Rank s)"

definition presentIssues :: "'s detector \<Rightarrow> finding list \<Rightarrow> (string \<Rightarrow> bool) \<Rightarrow> (string \<times> finding) list" where
  "presentIssues d current attacked =
     foldl (\<lambda>m f. let k = Key f in if atOrAbove d (fi_severity f) \<or> attacked k then put k f m else m) [] current"

definition openIncidentsByKey :: "'s detector \<Rightarrow> string \<Rightarrow> 's dworld \<Rightarrow> (string \<times> incident) list option" where
  "openIncidentsByKey d tenantID w =
     (case dt_list d (dw_store w) tenantID of
        None \<Rightarrow> None
      | Some incidents \<Rightarrow>
          Some (foldl (\<lambda>m i. if in_status i = IncidentOpen then put (in_key i) i m else m) [] incidents))"

definition record_incident :: "'s detector \<Rightarrow> string \<Rightarrow> incident \<Rightarrow> 's dworld \<Rightarrow> 's dworld" where
  "record_incident d event i w =
     w\<lparr>dw_recorder := Record (dt_now d) event ''detect''
         [(''incident_id'', JStr (in_id i)), (''tenant_id'', JStr (in_tenant i)), (''key'', JStr (in_key i)),
          (''severity'', JStr (in_severity i)), (''finding_id'', JStr (in_finding i))]
         (in_status i) (dw_recorder w)\<rparr>"

definition presentFindings :: "'s detector \<Rightarrow> (string \<times> finding) list \<Rightarrow> finding list" where
  "presentFindings d present =
     sort_by (\<lambda>a b. str_less (fi_id a) (fi_id b)) (map (\<lambda>k. the (map_of present k)) (dt_order d (map fst present)))"

definition kevDueAt :: "finding \<Rightarrow> int" where
  "kevDueAt f =
     (case fi_intel f of None \<Rightarrow> 0 | Some ti \<Rightarrow> (case ti_kev ti of None \<Rightarrow> 0 | Some k \<Rightarrow> kv_due k))"

definition kev_flag :: "(kev_status \<Rightarrow> bool) \<Rightarrow> finding \<Rightarrow> bool" where
  "kev_flag p f =
     (case fi_intel f of None \<Rightarrow> False | Some ti \<Rightarrow> (case ti_kev ti of None \<Rightarrow> False | Some k \<Rightarrow> p k))"

section \<open>Routing\<close>

record router =
  rt_assets :: "string \<rightharpoonup> asset"
  rt_slack :: "string \<rightharpoonup> string"

definition no_router :: router where
  "no_router = \<lparr>rt_assets = Map.empty, rt_slack = Map.empty\<rparr>"

definition slack_map :: "contact list \<Rightarrow> string \<rightharpoonup> string" where
  "slack_map cs = foldl (\<lambda>m c. let e = to_lower (trim_space (ct_email c))
      in if e \<noteq> [] \<and> ct_slack c \<noteq> [] then m(e \<mapsto> ct_slack c) else m) Map.empty cs"

definition routing :: "'s detector \<Rightarrow> string \<Rightarrow> (string \<times> finding) list \<Rightarrow> router" where
  "routing d tenantID present =
     (let need = list_ex (\<lambda>(k, f). fi_asset f \<noteq> []) present
      in case dt_routing d of
           None \<Rightarrow> no_router
         | Some reads \<Rightarrow>
             if \<not> need then no_router
             else let (as, cs) = reads tenantID
                  in \<lparr>rt_assets = (case as of None \<Rightarrow> Map.empty | Some l \<Rightarrow> foldl (\<lambda>m a. m(as_id a \<mapsto> a)) Map.empty l),
                      rt_slack = (case cs of None \<Rightarrow> Map.empty | Some l \<Rightarrow> slack_map l)\<rparr>)"

definition route_stamp :: "router \<Rightarrow> incident \<Rightarrow> finding \<Rightarrow> incident" where
  "route_stamp r i f =
     (if fi_asset f = [] then i
      else case rt_assets r (fi_asset f) of
             None \<Rightarrow> i
           | Some a \<Rightarrow>
               let i1 = i\<lparr>in_asset := as_id a, in_assetTarget := as_target a, in_owner := trim_space (as_owner a),
                          in_team := trim_space (as_team a)\<rparr>
               in case rt_slack r (to_lower (in_owner i1)) of None \<Rightarrow> i1 | Some sid \<Rightarrow> i1\<lparr>in_slack := sid\<rparr>)"

section \<open>Opening\<close>

definition incident_of :: "'s detector \<Rightarrow> string \<Rightarrow> (string \<times> finding) list \<Rightarrow> (string \<Rightarrow> bool) \<Rightarrow> router \<Rightarrow> nat \<Rightarrow>
    string \<Rightarrow> finding \<Rightarrow> incident" where
  "incident_of d tenantID present attacked route n key f =
     (let title = (if attacked key then ''[under active attack] '' @ fi_title f else fi_title f);
          i0 = \<lparr>in_id = ''inc-'' @ dt_newID d n, in_tenant = tenantID, in_key = key, in_rule = fi_rule f,
                in_title = title, in_severity = fi_severity f, in_status = IncidentOpen, in_finding = fi_id f,
                in_verification = fi_status f, in_confidence = fi_confidence f, in_absent = 0,
                in_attacked = attacked key, in_triageVerdict = [], in_triageRationale = [], in_triageSkill = [],
                in_asset = [], in_assetTarget = [], in_owner = [], in_team = [], in_slack = [],
                in_openedAt = dt_now d, in_resolvedAt = 0, in_ackAt = 0, in_lastEscalatedAt = 0,
                in_kev = kev_flag kv_listed f, in_ransomware = kev_flag kv_ransomware f,
                in_kevDueAt = kevDueAt f\<rparr>;
          i1 = route_stamp route i0 f
      in case dt_triager d of
           None \<Rightarrow> i1
         | Some triage \<Rightarrow>
             (case triage f (presentFindings d present) of
                None \<Rightarrow> i1
              | Some v \<Rightarrow> i1\<lparr>in_triageVerdict := sk_verdict v, in_triageRationale := sk_rationale v,
                  in_triageSkill := sk_skill v\<rparr>))"

text \<open>The page, when there is one: whether it counts against the cap, and the effect.\<close>

definition page :: "'s detector \<Rightarrow> int \<Rightarrow> bool \<Rightarrow> incident \<Rightarrow> int \<times> effect list" where
  "page d alerted under_attack i =
     (case dt_alerter d of
        None \<Rightarrow> (alerted, [])
      | Some deliver \<Rightarrow>
          if dt_alertCap d = 0 \<or> alerted < dt_alertCap d \<or> under_attack
          then (if deliver i then (alerted + 1, [Paged i True]) else (alerted, [Paged i False]))
          else (alerted, []))"

text \<open>The loop: the world, what was opened, and whether a write failed.\<close>

fun open_loop :: "'s detector \<Rightarrow> string \<Rightarrow> (string \<times> finding) list \<Rightarrow> (string \<times> incident) list \<Rightarrow> (string \<Rightarrow> bool) \<Rightarrow>
    router \<Rightarrow> string list \<Rightarrow> int \<Rightarrow> incident list \<Rightarrow> 's dworld \<Rightarrow> 's dworld \<times> incident list \<times> bool" where
  "open_loop d tenantID present openBy attacked route [] alerted opened w = (w, opened, True)"
| "open_loop d tenantID present openBy attacked route (key # keys) alerted opened w =
     (if map_of openBy key \<noteq> None then open_loop d tenantID present openBy attacked route keys alerted opened w
      else let i = incident_of d tenantID present attacked route (dw_ids w) key (the (map_of present key));
               w1 = record_incident d ''incident_opened'' i (w\<lparr>dw_ids := Suc (dw_ids w)\<rparr>)
           in case dt_put d i (dw_store w1) of
                None \<Rightarrow> (w1, opened, False)
              | Some s \<Rightarrow>
                  let (alerted1, effs) = page d alerted (attacked key) i
                  in open_loop d tenantID present openBy attacked route keys alerted1 (opened @ [i])
                       (w1\<lparr>dw_store := s, dw_effects := dw_effects w1 @ effs\<rparr>))"

definition openNew :: "'s detector \<Rightarrow> string \<Rightarrow> (string \<times> finding) list \<Rightarrow> (string \<times> incident) list \<Rightarrow> (string \<Rightarrow> bool) \<Rightarrow>
    's dworld \<Rightarrow> 's dworld \<times> incident list \<times> bool" where
  "openNew d tenantID present openBy attacked w =
     (if suppressed_now d tenantID then (w, [], True)
      else open_loop d tenantID present openBy attacked (routing d tenantID present)
             (dt_order d (map fst present)) 0 [] w)"

section \<open>Reconciliation\<close>

text \<open>What one pass makes of an open incident: nothing, a write, or a write that resolves it.\<close>

datatype sweep = Leave | Keep incident | Resolve incident

definition sweep_one :: "'s detector \<Rightarrow> (string \<times> finding) list \<Rightarrow> coverage \<Rightarrow> string \<Rightarrow> incident \<Rightarrow> sweep" where
  "sweep_one d present cov key i =
     (if IsEventProducer (ProducerOf (in_rule i)) then Leave
      else if \<not> Covers cov (in_rule i) then Leave
      else if map_of present key \<noteq> None then (if in_absent i \<noteq> 0 then Keep (i\<lparr>in_absent := 0\<rparr>) else Leave)
      else let i1 = i\<lparr>in_absent := in_absent i + 1\<rparr>
           in if in_absent i1 < resolveAfterAbsent d then Keep i1
              else Resolve (i1\<lparr>in_status := IncidentResolved, in_resolvedAt := dt_now d\<rparr>))"

fun resolve_loop :: "'s detector \<Rightarrow> (string \<times> finding) list \<Rightarrow> coverage \<Rightarrow> (string \<times> incident) list \<Rightarrow> string list \<Rightarrow>
    incident list \<Rightarrow> 's dworld \<Rightarrow> 's dworld \<times> incident list \<times> bool" where
  "resolve_loop d present cov openBy [] resolved w = (w, resolved, True)"
| "resolve_loop d present cov openBy (key # keys) resolved w =
     (case sweep_one d present cov key (the (map_of openBy key)) of
        Leave \<Rightarrow> resolve_loop d present cov openBy keys resolved w
      | Keep i \<Rightarrow>
          (case dt_put d i (dw_store w) of
             None \<Rightarrow> (w, resolved, False)
           | Some s \<Rightarrow> resolve_loop d present cov openBy keys resolved (w\<lparr>dw_store := s\<rparr>))
      | Resolve i \<Rightarrow>
          let w1 = record_incident d ''incident_resolved'' i w
          in case dt_put d i (dw_store w1) of
               None \<Rightarrow> (w1, resolved, False)
             | Some s \<Rightarrow> resolve_loop d present cov openBy keys (resolved @ [i]) (w1\<lparr>dw_store := s\<rparr>))"

record pass_result =
  ps_opened :: "incident list"
  ps_resolved :: "incident list"

definition ReconcileScoped :: "'s detector \<Rightarrow> string \<Rightarrow> finding list \<Rightarrow> (string \<Rightarrow> bool) \<Rightarrow> coverage \<Rightarrow>
    's dworld \<Rightarrow> 's dworld \<times> pass_result \<times> bool" where
  "ReconcileScoped d tenantID current attacked cov w =
     (let present = presentIssues d current attacked
      in case openIncidentsByKey d tenantID w of
           None \<Rightarrow> (w, \<lparr>ps_opened = [], ps_resolved = []\<rparr>, False)
         | Some openBy \<Rightarrow>
             let (w1, opened, ok1) = openNew d tenantID present openBy attacked w
             in if \<not> ok1 then (w1, \<lparr>ps_opened = opened, ps_resolved = []\<rparr>, False)
                else let (w2, resolved, ok2) =
                       resolve_loop d present cov openBy (dt_order d (map fst openBy)) [] w1
                     in (w2, \<lparr>ps_opened = opened, ps_resolved = resolved\<rparr>, ok2))"

definition Reconcile :: "'s detector \<Rightarrow> string \<Rightarrow> finding list \<Rightarrow> (string \<Rightarrow> bool) \<Rightarrow> 's dworld \<Rightarrow>
    's dworld \<times> pass_result \<times> bool" where
  "Reconcile d tenantID current attacked w = ReconcileScoped d tenantID current attacked AllProducers w"

definition OpenFor :: "'s detector \<Rightarrow> string \<Rightarrow> finding list \<Rightarrow> (string \<Rightarrow> bool) \<Rightarrow> 's dworld \<Rightarrow>
    's dworld \<times> pass_result \<times> bool" where
  "OpenFor d tenantID current attacked w =
     (let present = presentIssues d current attacked
      in case openIncidentsByKey d tenantID w of
           None \<Rightarrow> (w, \<lparr>ps_opened = [], ps_resolved = []\<rparr>, False)
         | Some openBy \<Rightarrow>
             let (w1, opened, ok1) = openNew d tenantID present openBy attacked w; r = \<lparr>ps_opened = opened, ps_resolved = []\<rparr>
             in if \<not> ok1 then (w1, r, False)
                else if dt_responder d \<and> opened \<noteq> []
                     then (w1\<lparr>dw_effects := dw_effects w1 @ [Responded tenantID opened]\<rparr>, r, True)
                     else (w1, r, True))"

section \<open>Escalation\<close>

fun escalate_loop :: "'s detector \<Rightarrow> int \<Rightarrow> incident list \<Rightarrow> incident list \<Rightarrow> 's dworld \<Rightarrow>
    's dworld \<times> incident list \<times> bool" where
  "escalate_loop d mins [] escalated w = (w, escalated, True)"
| "escalate_loop d mins (i # is) escalated w =
     (if \<not> Overdue i mins (dt_now d) then escalate_loop d mins is escalated w
      else let landed = (case dt_alerter d of None \<Rightarrow> True | Some deliver \<Rightarrow> deliver i);
               w1 = (case dt_alerter d of None \<Rightarrow> w | Some deliver \<Rightarrow> w\<lparr>dw_effects := dw_effects w @ [Paged i (deliver i)]\<rparr>)
           in if \<not> landed then escalate_loop d mins is escalated w1
              else let i1 = i\<lparr>in_lastEscalatedAt := dt_now d\<rparr>; w2 = record_incident d ''incident_escalated'' i1 w1
                   in case dt_put d i1 (dw_store w2) of
                        None \<Rightarrow> (w2, escalated, False)
                      | Some s \<Rightarrow> escalate_loop d mins is (escalated @ [i1]) (w2\<lparr>dw_store := s\<rparr>))"

definition EscalateOverdue :: "'s detector \<Rightarrow> string \<Rightarrow> int \<Rightarrow> 's dworld \<Rightarrow> 's dworld \<times> incident list \<times> bool" where
  "EscalateOverdue d tenantID mins w =
     (if mins \<le> 0 then (w, [], True)
      else if suppressed_now d tenantID then (w, [], True)
      else case dt_list d (dw_store w) tenantID of
             None \<Rightarrow> (w, [], False)
           | Some all \<Rightarrow> escalate_loop d mins all [] w)"

section \<open>The in-memory incidents\<close>

type_synonym incidents = "string \<Rightarrow> (string \<times> incident) list"

definition mem_PutIncident :: "incident \<Rightarrow> incidents \<Rightarrow> incidents option" where
  "mem_PutIncident i m = Some (m(in_tenant i := put (in_id i) i (m (in_tenant i))))"

definition mem_ListIncidents :: "incidents \<Rightarrow> string \<Rightarrow> incident list option" where
  "mem_ListIncidents m tenantID = Some (map snd (m tenantID))"

end
