(* ===== verification/DetectFacts.thy ===== *)
theory DetectFacts
  imports Detect
begin

text \<open>
  The contract of the detector's \<open>Store\<close> and what follows from it: the state of a tenant's incidents is the
  set that the store lists, and each loop of the detector is a function of that set.
\<close>

locale incident_store =
  fixes put_inc :: "incident \<Rightarrow> 's \<Rightarrow> 's option"
    and list_inc :: "'s \<Rightarrow> string \<Rightarrow> incident list option"
    and ok :: "'s \<Rightarrow> bool"
  assumes ok_put: "ok s \<Longrightarrow> put_inc i s = Some s' \<Longrightarrow> ok s'"
    and readable: "ok s \<Longrightarrow> list_inc s t \<noteq> None"
    and listed: "ok s \<Longrightarrow> list_inc s t = Some xs \<Longrightarrow> distinct (map in_id xs) \<and> (\<forall>x \<in> set xs. in_tenant x = t)"
    and list_put: "ok s \<Longrightarrow> put_inc i s = Some s' \<Longrightarrow> list_inc s t = Some xs \<Longrightarrow> list_inc s' t = Some ys \<Longrightarrow>
      set ys = (if t = in_tenant i then {x \<in> set xs. in_id x \<noteq> in_id i} \<union> {i} else set xs)"

text \<open>The in-memory store keeps the contract.\<close>

definition incidents_ok :: "incidents \<Rightarrow> bool" where
  "incidents_ok m \<longleftrightarrow> (\<forall>t. distinct (map fst (m t)) \<and> (\<forall>e \<in> set (m t). in_id (snd e) = fst e \<and> in_tenant (snd e) = t))"

lemma incidents_okD:
  assumes "incidents_ok m"
  shows "distinct (map fst (m t))" and "e \<in> set (m t) \<Longrightarrow> in_id (snd e) = fst e \<and> in_tenant (snd e) = t"
  using assms by (auto simp: incidents_ok_def)

lemma incidents_ok_ids: "incidents_ok m \<Longrightarrow> map in_id (map snd (m t)) = map fst (m t)"
  by (simp add: incidents_okD)

lemma put_snd: "distinct (map fst m) \<Longrightarrow> snd ` set (put k v m) = snd ` {e \<in> set m. fst e \<noteq> k} \<union> {v}"
proof (induction m)
  case (Cons e m)
  show ?case
  proof (cases "fst e = k")
    case True
    then have "{x \<in> set (e # m). fst x \<noteq> k} = set m" using Cons.prems by (auto simp: image_iff)
    then show ?thesis using True by (cases e) auto
  next
    case False
    then have "{x \<in> set (e # m). fst x \<noteq> k} = insert e {x \<in> set m. fst x \<noteq> k}" by auto
    then show ?thesis using False Cons by (cases e) (simp add: insert_commute)
  qed
qed simp

lemma mem_ok_put:
  assumes "incidents_ok s" "mem_PutIncident i s = Some s'"
  shows "incidents_ok s'"
proof -
  have s': "s' = s(in_tenant i := put (in_id i) i (s (in_tenant i)))" using assms(2) by (simp add: mem_PutIncident_def)
  have "\<And>t. distinct (map fst (s' t))" by (simp add: s' incidents_okD(1) [OF assms(1)])
  moreover have "in_id (snd e) = fst e \<and> in_tenant (snd e) = t" if "e \<in> set (s' t)" for e t
  proof (cases "t = in_tenant i \<and> e = (in_id i, i)")
    case False
    then have "e \<in> set (s t)" using that set_put [of e "in_id i" i "s t"] by (auto simp: s' split: if_splits)
    then show ?thesis by (rule incidents_okD(2) [OF assms(1)])
  qed simp
  ultimately show ?thesis unfolding incidents_ok_def by blast
qed

lemma mem_list_put:
  assumes "incidents_ok s" "mem_PutIncident i s = Some s'" "mem_ListIncidents s t = Some xs" "mem_ListIncidents s' t = Some ys"
  shows "set ys = (if t = in_tenant i then {x \<in> set xs. in_id x \<noteq> in_id i} \<union> {i} else set xs)"
proof -
  have "in_id (snd e) = fst e" if "e \<in> set (s t)" for e using incidents_okD(2) [OF assms(1) that] by simp
  then have "snd ` {e \<in> set (s t). fst e \<noteq> in_id i} = {x \<in> snd ` set (s t). in_id x \<noteq> in_id i}" by fastforce
  then show ?thesis
    using assms put_snd [OF incidents_okD(1) [OF assms(1), of t], where k = "in_id i" and v = i]
    by (auto simp: mem_PutIncident_def mem_ListIncidents_def)
qed

interpretation mem_incidents: incident_store mem_PutIncident mem_ListIncidents incidents_ok
proof
  fix s :: incidents and t xs assume "incidents_ok s" "mem_ListIncidents s t = Some xs"
  then show "distinct (map in_id xs) \<and> (\<forall>x \<in> set xs. in_tenant x = t)"
    using incidents_ok_ids [of s t] incidents_okD [of s] by (auto simp: mem_ListIncidents_def)
next
  fix s :: incidents and i t show "mem_ListIncidents s t \<noteq> None" by (simp add: mem_ListIncidents_def)
qed (blast intro: mem_ok_put, rule mem_list_put)

section \<open>The maps of a pass\<close>

text \<open>What a scan reports, as the detector reads it: at or above the threshold, or under attack.\<close>

definition reported :: "'s detector \<Rightarrow> finding list \<Rightarrow> (string \<Rightarrow> bool) \<Rightarrow> string \<Rightarrow> bool" where
  "reported d current attacked k \<longleftrightarrow> (\<exists>f \<in> set current. Key f = k \<and> (atOrAbove d (fi_severity f) \<or> attacked k))"

lemma presentIssues_map: "map_of (presentIssues d current attacked) k \<noteq> None \<longleftrightarrow> reported d current attacked k"
proof -
  have "map_of (foldl (\<lambda>m f. let k = Key f in if atOrAbove d (fi_severity f) \<or> attacked k then put k f m else m) m current) k \<noteq> None \<longleftrightarrow>
    map_of m k \<noteq> None \<or> (\<exists>f \<in> set current. Key f = k \<and> (atOrAbove d (fi_severity f) \<or> attacked k))" for m
    by (induction current arbitrary: m) (auto simp: Let_def)
  then show ?thesis by (simp add: presentIssues_def reported_def)
qed

lemma presentIssues_distinct: "distinct (map fst (presentIssues d current attacked))"
proof -
  have "distinct (map fst m) \<Longrightarrow> distinct (map fst (foldl (\<lambda>m f. let k = Key f in
      if atOrAbove d (fi_severity f) \<or> attacked k then put k f m else m) m current))" for m
    by (induction current arbitrary: m) (auto simp: Let_def)
  then show ?thesis by (simp add: presentIssues_def)
qed

definition index_open :: "incident list \<Rightarrow> (string \<times> incident) list" where
  "index_open xs = foldl (\<lambda>m i. if in_status i = IncidentOpen then put (in_key i) i m else m) [] xs"

lemma index_open_Nil [simp]: "index_open [] = []" by (simp add: index_open_def)

lemma index_open_snoc [simp]:
  "index_open (xs @ [i]) = (if in_status i = IncidentOpen then put (in_key i) i (index_open xs) else index_open xs)"
  by (simp add: index_open_def)

lemma index_open_distinct: "distinct (map fst (index_open xs))"
  by (induction xs rule: rev_induct) simp_all

lemma index_open_sound:
  "map_of (index_open xs) k = Some i \<Longrightarrow> i \<in> set xs \<and> in_status i = IncidentOpen \<and> in_key i = k"
  by (induction xs rule: rev_induct) (auto split: if_splits)

lemma index_open_complete:
  "i \<in> set xs \<Longrightarrow> in_status i = IncidentOpen \<Longrightarrow> map_of (index_open xs) (in_key i) \<noteq> None"
  by (induction xs rule: rev_induct) auto

text \<open>At most one open incident per key.\<close>

definition one_open :: "incident set \<Rightarrow> bool" where
  "one_open X \<longleftrightarrow> (\<forall>x \<in> X. \<forall>y \<in> X. in_status x = IncidentOpen \<longrightarrow> in_status y = IncidentOpen \<longrightarrow>
     in_key x = in_key y \<longrightarrow> x = y)"

lemma one_open_D:
  "one_open X \<Longrightarrow> x \<in> X \<Longrightarrow> y \<in> X \<Longrightarrow> in_status x = IncidentOpen \<Longrightarrow> in_status y = IncidentOpen \<Longrightarrow> in_key x = in_key y \<Longrightarrow> x = y"
  unfolding one_open_def by blast

lemma index_open_iff:
  assumes "one_open (set xs)"
  shows "map_of (index_open xs) k = Some i \<longleftrightarrow> i \<in> set xs \<and> in_status i = IncidentOpen \<and> in_key i = k"
proof
  assume i: "i \<in> set xs \<and> in_status i = IncidentOpen \<and> in_key i = k"
  then obtain j where j: "map_of (index_open xs) k = Some j" using index_open_complete [of i xs] by blast
  then show "map_of (index_open xs) k = Some i" using index_open_sound [OF j] i one_open_D [OF assms] by metis
qed (rule index_open_sound)

section \<open>What a pass does to one incident\<close>

definition after_pass :: "'s detector \<Rightarrow> finding list \<Rightarrow> (string \<Rightarrow> bool) \<Rightarrow> coverage \<Rightarrow> incident \<Rightarrow> incident" where
  "after_pass d current attacked cov x =
     (if in_status x \<noteq> IncidentOpen \<or> IsEventProducer (ProducerOf (in_rule x)) \<or> \<not> Covers cov (in_rule x) then x
      else if reported d current attacked (in_key x) then x\<lparr>in_absent := 0\<rparr>
      else if in_absent x + 1 < resolveAfterAbsent d then x\<lparr>in_absent := in_absent x + 1\<rparr>
      else x\<lparr>in_absent := in_absent x + 1, in_status := IncidentResolved, in_resolvedAt := dt_now d\<rparr>)"

lemma after_pass_same [simp]:
  "in_id (after_pass d current attacked cov x) = in_id x" "in_key (after_pass d current attacked cov x) = in_key x"
  "in_tenant (after_pass d current attacked cov x) = in_tenant x" "in_rule (after_pass d current attacked cov x) = in_rule x"
  by (simp_all add: after_pass_def)

lemma after_pass_open: "in_status (after_pass d current attacked cov x) = IncidentOpen \<Longrightarrow> in_status x = IncidentOpen"
  by (auto simp: after_pass_def split: if_splits)

definition swept :: "sweep \<Rightarrow> incident \<Rightarrow> incident" where
  "swept s x = (case s of Leave \<Rightarrow> x | Keep y \<Rightarrow> y | Resolve y \<Rightarrow> y)"

lemma sweep_one_after_pass:
  assumes "in_status x = IncidentOpen"
  shows "swept (sweep_one d (presentIssues d current attacked) cov (in_key x) x) x = after_pass d current attacked cov x"
    and "sweep_one d (presentIssues d current attacked) cov (in_key x) x = Resolve y \<longleftrightarrow>
      in_status (after_pass d current attacked cov x) \<noteq> IncidentOpen \<and> y = after_pass d current attacked cov x"
proof -
  have p: "map_of (presentIssues d current attacked) (in_key x) \<noteq> None \<longleftrightarrow> reported d current attacked (in_key x)"
    by (rule presentIssues_map)
  have "in_absent x = 0 \<Longrightarrow> x\<lparr>in_absent := 0\<rparr> = x" by simp
  then show "swept (sweep_one d (presentIssues d current attacked) cov (in_key x) x) x = after_pass d current attacked cov x"
    using assms by (simp add: swept_def sweep_one_def after_pass_def Let_def p del: not_None_eq)
  show "sweep_one d (presentIssues d current attacked) cov (in_key x) x = Resolve y \<longleftrightarrow>
      in_status (after_pass d current attacked cov x) \<noteq> IncidentOpen \<and> y = after_pass d current attacked cov x"
    using assms by (auto simp: sweep_one_def after_pass_def Let_def p simp del: not_None_eq)
qed

text \<open>A pass over the keys in \<open>K\<close>.\<close>

definition over_keys :: "string set \<Rightarrow> (incident \<Rightarrow> incident) \<Rightarrow> incident \<Rightarrow> incident" where
  "over_keys K f x = (if in_status x = IncidentOpen \<and> in_key x \<in> K then f x else x)"

lemma one_open_image:
  assumes "one_open X" "\<And>x. in_key (f x) = in_key x" "\<And>x. in_status (f x) = IncidentOpen \<Longrightarrow> in_status x = IncidentOpen"
  shows "one_open (over_keys K f ` X)"
proof -
  have k: "in_key (over_keys K f x) = in_key x" "in_status (over_keys K f x) = IncidentOpen \<Longrightarrow> in_status x = IncidentOpen" for x
    using assms(2,3) by (auto simp: over_keys_def split: if_splits)
  show ?thesis unfolding one_open_def
  proof (intro ballI impI)
    fix a b assume a: "a \<in> over_keys K f ` X" "b \<in> over_keys K f ` X" and
      o: "in_status a = IncidentOpen" "in_status b = IncidentOpen" "in_key a = in_key b"
    then obtain x y where "x \<in> X" "y \<in> X" "a = over_keys K f x" "b = over_keys K f y" by blast
    then show "a = b" using k one_open_D [OF assms(1), of x y] o by metis
  qed
qed

text \<open>Opening, one incident per key.\<close>

lemma one_open_opened:
  assumes "one_open X" "\<And>i. i \<in> set os \<Longrightarrow> \<forall>x \<in> X. in_status x = IncidentOpen \<longrightarrow> in_key x \<noteq> in_key i"
    "distinct (map in_key os)"
  shows "one_open (X \<union> set os)"
proof -
  have "inj_on in_key (set os)" using assms(3) by (simp add: distinct_map)
  then have "\<And>x y. x \<in> set os \<Longrightarrow> y \<in> set os \<Longrightarrow> in_key x = in_key y \<Longrightarrow> x = y" by (blast dest: inj_onD)
  then show ?thesis
    using one_open_D [OF assms(1)] assms(2) unfolding one_open_def by (metis Un_iff)
qed

text \<open>The identifiers that the detector has not given out yet.\<close>

definition fresh_ids :: "'s detector \<Rightarrow> nat \<Rightarrow> incident set \<Rightarrow> bool" where
  "fresh_ids d n X \<longleftrightarrow> inj (dt_newID d) \<and> (\<forall>m \<ge> n. \<forall>x \<in> X. in_id x \<noteq> ''inc-'' @ dt_newID d m)"

lemma fresh_ids_mono: "fresh_ids d n X \<Longrightarrow> n \<le> m \<Longrightarrow> fresh_ids d m X"
  by (auto simp: fresh_ids_def)

lemma fresh_ids_insert: "fresh_ids d n X \<Longrightarrow> in_id i = ''inc-'' @ dt_newID d n \<Longrightarrow> fresh_ids d (Suc n) (insert i X)"
  by (auto simp: fresh_ids_def dest: injD)

lemma fresh_ids_image: "fresh_ids d n X \<Longrightarrow> (\<And>x. in_id (f x) = in_id x) \<Longrightarrow> fresh_ids d n (f ` X)"
  by (auto simp: fresh_ids_def)

lemma route_stamp_same [simp]:
  "in_id (route_stamp r i f) = in_id i" "in_key (route_stamp r i f) = in_key i" "in_status (route_stamp r i f) = in_status i"
  "in_tenant (route_stamp r i f) = in_tenant i" "in_attacked (route_stamp r i f) = in_attacked i"
  "in_absent (route_stamp r i f) = in_absent i" "in_rule (route_stamp r i f) = in_rule i"
  "in_severity (route_stamp r i f) = in_severity i" "in_finding (route_stamp r i f) = in_finding i"
  by (simp_all add: route_stamp_def Let_def split: option.splits)

lemma incident_of_same [simp]:
  "in_id (incident_of d t present attacked r n k f) = ''inc-'' @ dt_newID d n"
  "in_key (incident_of d t present attacked r n k f) = k"
  "in_status (incident_of d t present attacked r n k f) = IncidentOpen"
  "in_tenant (incident_of d t present attacked r n k f) = t"
  "in_attacked (incident_of d t present attacked r n k f) = attacked k"
  "in_absent (incident_of d t present attacked r n k f) = 0"
  "in_rule (incident_of d t present attacked r n k f) = fi_rule f"
  "in_severity (incident_of d t present attacked r n k f) = fi_severity f"
  "in_finding (incident_of d t present attacked r n k f) = fi_id f"
  by (simp_all add: incident_of_def Let_def split: option.splits)

lemma record_incident_store [simp]:
  "dw_store (record_incident d e i w) = dw_store w" "dw_ids (record_incident d e i w) = dw_ids w"
  "dw_effects (record_incident d e i w) = dw_effects w"
  by (simp_all add: record_incident_def)

lemma resolve_loop_resolved:
  "resolve_loop d present cov openBy keys r w = (w', r', True) \<Longrightarrow>
     set r' = set r \<union> {y. \<exists>k \<in> set keys. sweep_one d present cov k (the (map_of openBy k)) = Resolve y}"
proof (induction keys arbitrary: r w)
  case (Cons k keys)
  show ?case
  proof (cases "sweep_one d present cov k (the (map_of openBy k))")
    case Leave
    then show ?thesis using Cons by simp
  next
    case (Keep y)
    then show ?thesis using Cons by (simp split: option.splits)
  next
    case (Resolve y)
    then show ?thesis using Cons.prems Cons.IH [where r = "r @ [y]"] by (auto simp: Let_def split: option.splits)
  qed
qed simp

text \<open>What the loop opens for a key.\<close>

definition opened_for :: "'s detector \<Rightarrow> string \<Rightarrow> (string \<times> finding) list \<Rightarrow> (string \<Rightarrow> bool) \<Rightarrow> router \<Rightarrow> incident \<Rightarrow> bool" where
  "opened_for d t present attacked route i \<longleftrightarrow>
     (\<exists>n. i = incident_of d t present attacked route n (in_key i) (the (map_of present (in_key i))))"

lemma resolve_loop_ids: "resolve_loop d present cov openBy keys r w = (w', r', b) \<Longrightarrow> dw_ids w' = dw_ids w"
proof (induction keys arbitrary: r w)
  case (Cons k keys)
  then show ?case by (auto simp: Let_def split: sweep.splits option.splits)
qed simp

context incident_store begin

definition view :: "'s \<Rightarrow> string \<Rightarrow> incident set" where
  "view s t = set (the (list_inc s t))"

lemma view_list: "ok s \<Longrightarrow> \<exists>xs. list_inc s t = Some xs \<and> view s t = set xs"
  using readable [of s t] by (auto simp: view_def)

lemma view_put: "ok s \<Longrightarrow> put_inc i s = Some s' \<Longrightarrow>
    view s' t = (if t = in_tenant i then {x \<in> view s t. in_id x \<noteq> in_id i} \<union> {i} else view s t)"
  using readable [of s t] readable [of s' t] ok_put [of s i s'] list_put [of s i s' t] by (auto simp: view_def)

lemma view_tenant: "ok s \<Longrightarrow> x \<in> view s t \<Longrightarrow> in_tenant x = t"
  using view_list [of s t] listed [of s t] by auto

lemma view_id: "ok s \<Longrightarrow> x \<in> view s t \<Longrightarrow> y \<in> view s t \<Longrightarrow> in_id x = in_id y \<Longrightarrow> x = y"
  using view_list [of s t] listed [of s t] by (auto simp: distinct_map dest: inj_onD)

lemma view_replace:
  assumes "ok s" "put_inc y s = Some s'" "x \<in> view s t" "in_id y = in_id x" "in_tenant y = in_tenant x"
  shows "view s' t = (\<lambda>z. if z = x then y else z) ` view s t"
proof -
  have "z \<in> view s t \<Longrightarrow> in_id z \<noteq> in_id y \<longleftrightarrow> z \<noteq> x" for z using view_id [OF assms(1)] assms by metis
  then show ?thesis
    using view_put [OF assms(1,2), of t] view_tenant [OF assms(1,3)] assms by (auto simp: image_iff)
qed

lemma view_other: "ok s \<Longrightarrow> put_inc y s = Some s' \<Longrightarrow> in_tenant y = t \<Longrightarrow> t' \<noteq> t \<Longrightarrow> view s' t' = view s t'"
  using view_put [of s y s' t'] by auto

lemma resolve_loop_view:
  assumes "dt_put d = put_inc" "ok (dw_store w)" "distinct keys" "one_open (view (dw_store w) t)"
    and "\<And>k. k \<in> set keys \<Longrightarrow> \<exists>i. map_of openBy k = Some i \<and> i \<in> view (dw_store w) t \<and> in_status i = IncidentOpen \<and> in_key i = k"
    and "resolve_loop d (presentIssues d current attacked) cov openBy keys r w = (w', r', b)"
  shows "\<exists>K \<subseteq> set keys. (b \<longrightarrow> K = set keys) \<and> ok (dw_store w') \<and>
    view (dw_store w') t = over_keys K (after_pass d current attacked cov) ` view (dw_store w) t \<and>
    (\<forall>t'. t' \<noteq> t \<longrightarrow> view (dw_store w') t' = view (dw_store w) t')"
  using assms(2-)
proof (induction keys arbitrary: r w)
  case Nil
  then show ?case by (auto simp: over_keys_def)
next
  case (Cons k keys)
  let ?f = "after_pass d current attacked cov" and ?p = "presentIssues d current attacked"
  obtain i where i: "map_of openBy k = Some i" "i \<in> view (dw_store w) t" "in_status i = IncidentOpen" "in_key i = k"
    using Cons.prems(4) [of k] by auto
  have sw: "swept (sweep_one d ?p cov k i) i = ?f i" using sweep_one_after_pass(1) [OF i(3)] i(4) by metis
  have same: "over_keys {k} ?f z = (if z = i then ?f i else z)" if "z \<in> view (dw_store w) t" for z
  proof (cases "z = i")
    case False
    then have "\<not> (in_status z = IncidentOpen \<and> in_key z = k)" using one_open_D [OF Cons.prems(3) that i(2)] i(3,4) by metis
    then show ?thesis using False by (simp only: over_keys_def singleton_iff if_False)
  qed (simp add: over_keys_def i(3,4))
  have stay: ?case if "?f i = i" "sweep_one d ?p cov k i = Leave"
  proof -
    have "resolve_loop d ?p cov openBy keys r w = (w', r', b)" using Cons.prems(5) that(2) i(1) by simp
    then obtain K where K: "K \<subseteq> set keys" "b \<longrightarrow> K = set keys" "ok (dw_store w')"
        "view (dw_store w') t = over_keys K ?f ` view (dw_store w) t" "\<forall>t'. t' \<noteq> t \<longrightarrow> view (dw_store w') t' = view (dw_store w) t'"
      using Cons.IH [of w r] Cons.prems by auto
    have "over_keys (insert k K) ?f z = over_keys K ?f z" if "z \<in> view (dw_store w) t" for z
      using same [OF that] \<open>?f i = i\<close> by (auto simp: over_keys_def split: if_splits)
    then have "over_keys K ?f ` view (dw_store w) t = over_keys (insert k K) ?f ` view (dw_store w) t" by (metis (no_types, lifting) image_cong)
    then have "view (dw_store w') t = over_keys (insert k K) ?f ` view (dw_store w) t" using K(4) by simp
    moreover have "insert k K \<subseteq> set (k # keys)" "b \<longrightarrow> insert k K = set (k # keys)" using K(1,2) by auto
    ultimately show ?thesis using K(3,5) by blast
  qed
  have wrote: ?case
    if y: "y = ?f i" and p: "put_inc y (dw_store w) = Some s" and l: "resolve_loop d ?p cov openBy keys r1 w1 = (w', r', b)"
      and w1: "dw_store w1 = s" for y s r1 w1
  proof -
    have v: "view s t = over_keys {k} ?f ` view (dw_store w) t"
      using view_replace [OF Cons.prems(1) p i(2)] y same by (simp cong: image_cong_simp)
    have o: "one_open (view s t)" unfolding v by (rule one_open_image [OF Cons.prems(3)]) (auto dest: after_pass_open)
    have "\<exists>j. map_of openBy k' = Some j \<and> j \<in> view s t \<and> in_status j = IncidentOpen \<and> in_key j = k'" if k': "k' \<in> set keys" for k'
    proof -
      have ne: "k' \<noteq> k" using Cons.prems(2) k' by auto
      obtain j where j: "map_of openBy k' = Some j" "j \<in> view (dw_store w) t" "in_status j = IncidentOpen" "in_key j = k'"
        using Cons.prems(4) [of k'] k' by auto
      have "over_keys {k} ?f j = j" using j ne by (auto simp: over_keys_def)
      then have "j \<in> view s t" unfolding v using j(2) by (metis imageI)
      then show ?thesis using j by blast
    qed
    then obtain K where K: "K \<subseteq> set keys" "b \<longrightarrow> K = set keys" "ok (dw_store w')"
        "view (dw_store w') t = over_keys K ?f ` view s t" "\<forall>t'. t' \<noteq> t \<longrightarrow> view (dw_store w') t' = view s t'"
      using Cons.IH [of w1 r1] Cons.prems(2) o l ok_put [OF Cons.prems(1) p] by (auto simp: w1)
    have "k \<notin> K" using K(1) Cons.prems(2) by auto
    then have c: "over_keys K ?f (over_keys {k} ?f z) = over_keys (insert k K) ?f z" for z
      by (auto simp: over_keys_def)
    have t: "in_tenant y = t" using view_tenant [OF Cons.prems(1) i(2)] by (simp add: y)
    have "view (dw_store w') t = over_keys (insert k K) ?f ` view (dw_store w) t" by (simp only: K(4) v image_image c)
    moreover have "insert k K \<subseteq> set (k # keys)" "b \<longrightarrow> insert k K = set (k # keys)" using K(1,2) by auto
    moreover have "\<forall>t'. t' \<noteq> t \<longrightarrow> view (dw_store w') t' = view (dw_store w) t'"
      using K(5) view_other [OF Cons.prems(1) p t] by simp
    ultimately show ?thesis using K(3) by blast
  qed
  have gave_up: ?case if "dw_store w' = dw_store w" "\<not> b"
    using that Cons.prems(1) by (intro exI [of _ "{}"]) (auto simp: over_keys_def)
  show ?case
  proof (cases "sweep_one d ?p cov k i")
    case Leave
    then show ?thesis using stay sw by (simp add: swept_def)
  next
    case (Keep y)
    then have y: "y = ?f i" using sw by (simp add: swept_def)
    show ?thesis
    proof (cases "put_inc y (dw_store w)")
      case None
      then have "dw_store w' = dw_store w" "\<not> b" using Cons.prems(5) Keep i(1) assms(1) by auto
      then show ?thesis by (rule gave_up)
    next
      case (Some s)
      then have "resolve_loop d ?p cov openBy keys r (w\<lparr>dw_store := s\<rparr>) = (w', r', b)"
        using Cons.prems(5) Keep i(1) assms(1) by simp
      then show ?thesis by (rule wrote [OF y Some]) simp
    qed
  next
    case (Resolve y)
    then have y: "y = ?f i" using sw by (simp add: swept_def)
    let ?w = "record_incident d ''incident_resolved'' y w"
    have w: "dw_store ?w = dw_store w" by (simp add: record_incident_def)
    show ?thesis
    proof (cases "put_inc y (dw_store w)")
      case None
      then have "dw_store w' = dw_store w" "\<not> b" using Cons.prems(5) Resolve i(1) assms(1) w by (auto simp: Let_def)
      then show ?thesis by (rule gave_up)
    next
      case (Some s)
      then have "resolve_loop d ?p cov openBy keys (r @ [y]) (?w\<lparr>dw_store := s\<rparr>) = (w', r', b)"
        using Cons.prems(5) Resolve i(1) assms(1) w by (simp add: Let_def)
      then show ?thesis by (rule wrote [OF y Some]) simp
    qed
  qed
qed

end

context incident_store begin

lemma open_loop_view:
  assumes "dt_put d = put_inc" "ok (dw_store w)" "distinct keys" "fresh_ids d (dw_ids w) (view (dw_store w) t)"
    and "open_loop d t present openBy attacked route keys a os w = (w', os', b)"
  shows "\<exists>new. os' = os @ new \<and> ok (dw_store w') \<and> view (dw_store w') t = view (dw_store w) t \<union> set new \<and>
    (\<forall>t'. t' \<noteq> t \<longrightarrow> view (dw_store w') t' = view (dw_store w) t') \<and>
    distinct (map in_key new) \<and> (\<forall>i \<in> set new. in_key i \<in> set keys \<and> map_of openBy (in_key i) = None) \<and>
    (b \<longrightarrow> (\<forall>k \<in> set keys. map_of openBy k = None \<longrightarrow> k \<in> in_key ` set new)) \<and>
    (\<forall>i \<in> set new. opened_for d t present attacked route i) \<and>
    fresh_ids d (dw_ids w') (view (dw_store w') t)"
  using assms(2-)
proof (induction keys arbitrary: a os w)
  case Nil
  then show ?case by (intro exI [of _ "[]"]) auto
next
  case (Cons k keys)
  show ?case
  proof (cases "map_of openBy k = None")
    case False
    then have "open_loop d t present openBy attacked route keys a os w = (w', os', b)" using Cons.prems(4) by simp
    from Cons.IH [OF Cons.prems(1) _ Cons.prems(3) this] Cons.prems(2)
    obtain new where "os' = os @ new" "ok (dw_store w')" "view (dw_store w') t = view (dw_store w) t \<union> set new"
        "\<forall>t'. t' \<noteq> t \<longrightarrow> view (dw_store w') t' = view (dw_store w) t'" "distinct (map in_key new)"
        "\<forall>i \<in> set new. in_key i \<in> set keys \<and> map_of openBy (in_key i) = None"
        "b \<longrightarrow> (\<forall>k \<in> set keys. map_of openBy k = None \<longrightarrow> k \<in> in_key ` set new)"
        "\<forall>i \<in> set new. opened_for d t present attacked route i" "fresh_ids d (dw_ids w') (view (dw_store w') t)"
      by auto
    then show ?thesis using False by (intro exI [of _ new] conjI) auto
  next
    case True
    define i where "i = incident_of d t present attacked route (dw_ids w) k (the (map_of present k))"
    define w1 where "w1 = record_incident d ''incident_opened'' i (w\<lparr>dw_ids := Suc (dw_ids w)\<rparr>)"
    have w1: "dw_store w1 = dw_store w" "dw_ids w1 = Suc (dw_ids w)" by (simp_all add: w1_def)
    have i: "in_key i = k" "in_tenant i = t" "in_id i = ''inc-'' @ dt_newID d (dw_ids w)" by (simp_all add: i_def)
    show ?thesis
    proof (cases "put_inc i (dw_store w)")
      case None
      then have "(w', os', b) = (w1, os, False)" using Cons.prems(4) True assms(1) w1
        by (simp add: i_def [symmetric] w1_def [symmetric] Let_def)
      then show ?thesis using Cons.prems(1) w1 fresh_ids_mono [OF Cons.prems(3), of "Suc (dw_ids w)"]
        by (intro exI [of _ "[]"]) simp
    next
      case (Some s)
      obtain a1 e where p: "page d a (attacked k) i = (a1, e)" by fastforce
      let ?w = "w1\<lparr>dw_store := s, dw_effects := dw_effects w1 @ e\<rparr>"
      have l: "open_loop d t present openBy attacked route keys a1 (os @ [i]) ?w = (w', os', b)"
        using Cons.prems(4) True Some assms(1) w1 p by (simp add: i_def [symmetric] w1_def [symmetric] Let_def)
      have "\<forall>x \<in> view (dw_store w) t. in_id x \<noteq> in_id i" using Cons.prems(3) by (auto simp: i fresh_ids_def)
      then have v: "view s t = insert i (view (dw_store w) t)" using view_put [OF Cons.prems(1) Some, of t] i by auto
      have f: "fresh_ids d (dw_ids ?w) (view (dw_store ?w) t)"
        using fresh_ids_insert [OF Cons.prems(3) i(3)] by (simp add: v w1)
      from Cons.IH [OF _ _ f l] Cons.prems(2) ok_put [OF Cons.prems(1) Some]
      obtain new where n: "os' = (os @ [i]) @ new" "ok (dw_store w')" "view (dw_store w') t = view s t \<union> set new"
          "\<forall>t'. t' \<noteq> t \<longrightarrow> view (dw_store w') t' = view s t'" "distinct (map in_key new)"
          "\<forall>i \<in> set new. in_key i \<in> set keys \<and> map_of openBy (in_key i) = None"
          "b \<longrightarrow> (\<forall>k \<in> set keys. map_of openBy k = None \<longrightarrow> k \<in> in_key ` set new)"
          "\<forall>i \<in> set new. opened_for d t present attacked route i" "fresh_ids d (dw_ids w') (view (dw_store w') t)"
        by auto
      have "opened_for d t present attacked route i" unfolding opened_for_def i(1) by (intro exI) (rule i_def)
      moreover have "k \<notin> in_key ` set new" using n(6) Cons.prems(2) by auto
      ultimately show ?thesis using n True i view_other [OF Cons.prems(1) Some i(2)]
        by (intro exI [of _ "i # new"] conjI) (simp_all add: v)
    qed
  qed
qed

end

definition permutes_keys :: "'s detector \<Rightarrow> bool" where
  "permutes_keys d \<longleftrightarrow> (\<forall>ks. mset (dt_order d ks) = mset ks)"

lemma permutes_keysD: "permutes_keys d \<Longrightarrow> set (dt_order d ks) = set ks \<and> distinct (dt_order d ks) = distinct ks"
  unfolding permutes_keys_def by (metis mset_eq_imp_distinct_iff mset_eq_setD)

text \<open>The keys for which a pass opens an incident.\<close>

definition to_open :: "'s detector \<Rightarrow> finding list \<Rightarrow> (string \<Rightarrow> bool) \<Rightarrow> incident set \<Rightarrow> string set" where
  "to_open d current attacked X =
     {k. reported d current attacked k \<and> (\<forall>x \<in> X. in_status x = IncidentOpen \<longrightarrow> in_key x \<noteq> k)}"

context incident_store begin

lemma openNew_view:
  assumes "dt_put d = put_inc" "ok (dw_store w)" "permutes_keys d" "one_open (view (dw_store w) t)"
    and "fresh_ids d (dw_ids w) (view (dw_store w) t)" and xs: "list_inc (dw_store w) t = Some xs"
    and "openNew d t (presentIssues d current attacked) (index_open xs) attacked w = (w', os, b)"
  shows "ok (dw_store w') \<and> view (dw_store w') t = view (dw_store w) t \<union> set os \<and>
    (\<forall>t'. t' \<noteq> t \<longrightarrow> view (dw_store w') t' = view (dw_store w) t') \<and> one_open (view (dw_store w') t) \<and>
    in_key ` set os \<subseteq> to_open d current attacked (view (dw_store w) t) \<and>
    (b \<longrightarrow> in_key ` set os = (if suppressed_now d t then {} else to_open d current attacked (view (dw_store w) t))) \<and>
    (\<forall>i \<in> set os. opened_for d t (presentIssues d current attacked) attacked (routing d t (presentIssues d current attacked)) i) \<and>
    fresh_ids d (dw_ids w') (view (dw_store w') t)"
proof (cases "suppressed_now d t")
  case True
  then show ?thesis using assms(2,4,5,7) by (auto simp: openNew_def)
next
  case False
  let ?p = "presentIssues d current attacked"
  let ?keys = "dt_order d (map fst ?p)"
  have v: "view (dw_store w) t = set xs" by (simp add: view_def xs)
  have keys: "k \<in> set ?keys \<longleftrightarrow> reported d current attacked k" for k
    using permutes_keysD [OF assms(3), of "map fst ?p"] presentIssues_map [of d current attacked k]
    by (simp add: map_of_eq_None_iff)
  have d: "distinct ?keys"
    using permutes_keysD [OF assms(3), of "map fst ?p"] presentIssues_distinct [of d current attacked] by simp
  have n: "map_of (index_open xs) k = None \<longleftrightarrow> (\<forall>x \<in> set xs. in_status x = IncidentOpen \<longrightarrow> in_key x \<noteq> k)" for k
    using index_open_complete [of _ xs] index_open_sound [of xs k] by (metis option.exhaust)
  have l: "open_loop d t ?p (index_open xs) attacked (routing d t ?p) ?keys 0 [] w = (w', os, b)"
    using assms(7) False by (simp add: openNew_def)
  from open_loop_view [OF assms(1,2) d assms(5) l] have o: "ok (dw_store w')" "view (dw_store w') t = view (dw_store w) t \<union> set os"
      "\<forall>t'. t' \<noteq> t \<longrightarrow> view (dw_store w') t' = view (dw_store w) t'" "distinct (map in_key os)"
      "\<forall>i \<in> set os. in_key i \<in> set ?keys \<and> map_of (index_open xs) (in_key i) = None"
      "b \<longrightarrow> (\<forall>k \<in> set ?keys. map_of (index_open xs) k = None \<longrightarrow> k \<in> in_key ` set os)"
      "\<forall>i \<in> set os. opened_for d t ?p attacked (routing d t ?p) i" "fresh_ids d (dw_ids w') (view (dw_store w') t)"
    by auto
  have sub: "in_key ` set os \<subseteq> to_open d current attacked (view (dw_store w) t)"
    using o(5) by (auto simp: to_open_def keys n v)
  moreover have "b \<longrightarrow> to_open d current attacked (view (dw_store w) t) \<subseteq> in_key ` set os"
    using o(6) by (simp add: to_open_def keys n v subset_iff)
  moreover have "one_open (view (dw_store w') t)"
    unfolding o(2) using sub by (intro one_open_opened assms(4) o(4)) (auto simp: to_open_def)
  ultimately show ?thesis using o False by (intro conjI) (simp_all add: subset_antisym)
qed

lemma reconcile_view:
  assumes "dt_put d = put_inc" "dt_list d = list_inc" "ok (dw_store w)" "permutes_keys d" "one_open (view (dw_store w) t)"
    and "fresh_ids d (dw_ids w) (view (dw_store w) t)"
    and "ReconcileScoped d t current attacked cov w = (w', r, b)"
  shows "\<exists>K. ok (dw_store w') \<and>
    view (dw_store w') t = over_keys K (after_pass d current attacked cov) ` view (dw_store w) t \<union> set (ps_opened r) \<and>
    (\<forall>t'. t' \<noteq> t \<longrightarrow> view (dw_store w') t' = view (dw_store w) t') \<and> one_open (view (dw_store w') t) \<and>
    in_key ` set (ps_opened r) \<subseteq> to_open d current attacked (view (dw_store w) t) \<and>
    (b \<longrightarrow> (\<forall>x \<in> view (dw_store w) t. in_status x = IncidentOpen \<longrightarrow> in_key x \<in> K) \<and>
       in_key ` set (ps_opened r) = (if suppressed_now d t then {} else to_open d current attacked (view (dw_store w) t)) \<and>
       set (ps_resolved r) = {after_pass d current attacked cov x | x. x \<in> view (dw_store w) t \<and> in_status x = IncidentOpen \<and>
         in_status (after_pass d current attacked cov x) \<noteq> IncidentOpen}) \<and>
    (\<forall>i \<in> set (ps_opened r). opened_for d t (presentIssues d current attacked) attacked
       (routing d t (presentIssues d current attacked)) i) \<and>
    fresh_ids d (dw_ids w') (view (dw_store w') t)"
proof -
  let ?p = "presentIssues d current attacked" and ?f = "after_pass d current attacked cov" and ?X = "view (dw_store w) t"
  obtain xs where xs: "list_inc (dw_store w) t = Some xs" "?X = set xs" using view_list [OF assms(3)] by blast
  have by_key: "openIncidentsByKey d t w = Some (index_open xs)" by (simp add: openIncidentsByKey_def assms(2) xs(1) index_open_def)
  obtain w1 os b1 where o: "openNew d t ?p (index_open xs) attacked w = (w1, os, b1)" by (metis prod_cases3)
  note O = openNew_view [OF assms(1,3,4,5,6) xs(1) o]
  show ?thesis
  proof (cases b1)
    case False
    then have "w' = w1" "ps_opened r = os" "\<not> b" using assms(7) by (auto simp: ReconcileScoped_def by_key o)
    then show ?thesis using O by (intro exI [of _ "{}"]) (clarsimp simp: over_keys_def)
  next
    case True
    let ?keys = "dt_order d (map fst (index_open xs))"
    have ok1: "ok (dw_store w1)" and v1: "view (dw_store w1) t = ?X \<union> set os" and one1: "one_open (view (dw_store w1) t)"
      and sub1: "in_key ` set os \<subseteq> to_open d current attacked ?X" and fresh1: "fresh_ids d (dw_ids w1) (view (dw_store w1) t)"
      using O by blast+
    obtain w2 rs b2 where l: "resolve_loop d ?p cov (index_open xs) ?keys [] w1 = (w2, rs, b2)" by (metis prod_cases3)
    have r: "w' = w2" "ps_opened r = os" "ps_resolved r = rs" "b = b2"
      using assms(7) True by (auto simp: ReconcileScoped_def by_key o l)
    have keys: "set ?keys = fst ` set (index_open xs)" "distinct ?keys"
      using permutes_keysD [OF assms(4), of "map fst (index_open xs)"] index_open_distinct [of xs] by simp_all
    have sound: "\<exists>i. map_of (index_open xs) k = Some i \<and> i \<in> ?X \<and> in_status i = IncidentOpen \<and> in_key i = k" if "k \<in> set ?keys" for k
    proof -
      have "map_of (index_open xs) k \<noteq> None" using that unfolding keys(1) map_of_eq_None_iff by blast
      then obtain i where "map_of (index_open xs) k = Some i" by blast
      then show ?thesis using index_open_sound [of xs k i] xs(2) by simp
    qed
    have sound1: "\<exists>i. map_of (index_open xs) k = Some i \<and> i \<in> view (dw_store w1) t \<and> in_status i = IncidentOpen \<and> in_key i = k"
      if "k \<in> set ?keys" for k
      using sound [OF that] v1 by (metis UnI1)
    from resolve_loop_view [OF assms(1) ok1 keys(2) one1 sound1 l]
    obtain K where K: "K \<subseteq> set ?keys" "b2 \<longrightarrow> K = set ?keys" "ok (dw_store w2)"
        "view (dw_store w2) t = over_keys K ?f ` view (dw_store w1) t" "\<forall>t'. t' \<noteq> t \<longrightarrow> view (dw_store w2) t' = view (dw_store w1) t'"
      by blast
    have not_new: "in_key i \<notin> K" if "i \<in> set os" for i
    proof
      assume "in_key i \<in> K"
      then obtain x where "x \<in> ?X" "in_status x = IncidentOpen" "in_key x = in_key i" using K(1) sound by blast
      moreover have "in_key i \<in> to_open d current attacked ?X" using sub1 that by blast
      ultimately show False by (auto simp: to_open_def)
    qed
    have "over_keys K ?f ` set os = set os" using not_new by (simp add: over_keys_def)
    then have v: "view (dw_store w2) t = over_keys K ?f ` ?X \<union> set os" by (simp add: K(4) v1 image_Un)
    have all: "\<forall>x \<in> ?X. in_status x = IncidentOpen \<longrightarrow> in_key x \<in> K" if "b2"
      using that K(2) keys(1) index_open_complete [of _ xs] xs(2) by (metis map_of_eq_None_iff)
    have res: "set rs = {?f x | x. x \<in> ?X \<and> in_status x = IncidentOpen \<and> in_status (?f x) \<noteq> IncidentOpen}" if "b2"
    proof -
      have iff: "(\<exists>k \<in> set ?keys. sweep_one d ?p cov k (the (map_of (index_open xs) k)) = Resolve y) \<longleftrightarrow>
          (\<exists>x. y = ?f x \<and> x \<in> ?X \<and> in_status x = IncidentOpen \<and> in_status (?f x) \<noteq> IncidentOpen)"
        (is "?l \<longleftrightarrow> ?r") for y
      proof
        assume ?l
        then obtain k where k: "k \<in> set ?keys" "sweep_one d ?p cov k (the (map_of (index_open xs) k)) = Resolve y" by blast
        obtain i where i: "map_of (index_open xs) k = Some i" "i \<in> ?X" "in_status i = IncidentOpen" "in_key i = k" using sound [OF k(1)] by blast
        then show ?r using sweep_one_after_pass(2) [OF i(3), of d current attacked cov y] k(2) by auto
      next
        assume ?r
        then obtain x where x: "y = ?f x" "x \<in> ?X" "in_status x = IncidentOpen" "in_status (?f x) \<noteq> IncidentOpen" by blast
        then have "map_of (index_open xs) (in_key x) = Some x" using index_open_iff [of xs "in_key x" x] assms(5) xs(2) by simp
        then show ?l using sweep_one_after_pass(2) [OF x(3), of d current attacked cov y] x all [OF that] K(1)
          by (intro bexI [of _ "in_key x"]) auto
      qed
      show ?thesis using resolve_loop_resolved [of d ?p cov "index_open xs" ?keys "[]" w1 w2 rs] l that iff by simp
    qed
    have one: "one_open (view (dw_store w2) t)" unfolding K(4) by (intro one_open_image one1) (auto dest: after_pass_open)
    have same: "in_id (over_keys K ?f x) = in_id x" for x by (simp add: over_keys_def)
    have fresh: "fresh_ids d (dw_ids w2) (view (dw_store w2) t)"
      unfolding K(4) resolve_loop_ids [OF l] by (intro fresh_ids_image fresh1 same)
    have others: "\<forall>t'. t' \<noteq> t \<longrightarrow> view (dw_store w2) t' = view (dw_store w) t'" using O K(5) by metis
    have keys_os: "in_key ` set os = (if suppressed_now d t then {} else to_open d current attacked ?X)" using O True by blast
    have opf: "\<forall>i \<in> set os. opened_for d t ?p attacked (routing d t ?p) i" using O by blast
    show ?thesis
      unfolding r by (intro exI [of _ K] conjI K(3) v others one sub1 impI keys_os opf fresh) (rule all res; assumption)+
  qed
qed

end

section \<open>Escalation\<close>

text \<open>Whether a page for an incident lands (with no alerter there is nothing to deliver, and the code goes on).\<close>

definition lands :: "'s detector \<Rightarrow> incident \<Rightarrow> bool" where
  "lands d i = (case dt_alerter d of None \<Rightarrow> True | Some deliver \<Rightarrow> deliver i)"

definition escalated_by :: "'s detector \<Rightarrow> int \<Rightarrow> incident \<Rightarrow> bool" where
  "escalated_by d mins i \<longleftrightarrow> Overdue i mins (dt_now d) \<and> lands d i"

definition after_escalation :: "'s detector \<Rightarrow> int \<Rightarrow> incident \<Rightarrow> incident" where
  "after_escalation d mins i = (if escalated_by d mins i then i\<lparr>in_lastEscalatedAt := dt_now d\<rparr> else i)"

lemma after_escalation_same [simp]:
  "in_id (after_escalation d mins i) = in_id i" "in_key (after_escalation d mins i) = in_key i"
  "in_status (after_escalation d mins i) = in_status i" "in_tenant (after_escalation d mins i) = in_tenant i"
  by (simp_all add: after_escalation_def)

context incident_store begin

lemma escalate_loop_view:
  assumes "dt_put d = put_inc" "ok (dw_store w)" "set is \<subseteq> view (dw_store w) t" "distinct is"
    and "escalate_loop d mins is es w = (w', es', b)"
  shows "\<exists>done \<subseteq> set is. (b \<longrightarrow> done = set is) \<and> ok (dw_store w') \<and> dw_ids w' = dw_ids w \<and>
    view (dw_store w') t = (\<lambda>x. if x \<in> done then after_escalation d mins x else x) ` view (dw_store w) t \<and>
    (b \<longrightarrow> es' = es @ map (after_escalation d mins) (filter (escalated_by d mins) is))"
  using assms(2-)
proof (induction "is" arbitrary: es w)
  case Nil
  then show ?case by auto
next
  case (Cons i "is")
  let ?f = "after_escalation d mins"
  have skip: ?case if s1: "\<not> escalated_by d mins i" and s2: "dw_store w1 = dw_store w" and s3: "dw_ids w1 = dw_ids w"
      and s4: "escalate_loop d mins is es w1 = (w', es', b)" for w1
  proof -
    obtain D where D: "D \<subseteq> set is" "b \<longrightarrow> D = set is" "ok (dw_store w')" "dw_ids w' = dw_ids w1"
        "view (dw_store w') t = (\<lambda>x. if x \<in> D then ?f x else x) ` view (dw_store w1) t"
        "b \<longrightarrow> es' = es @ map ?f (filter (escalated_by d mins) is)"
      using Cons.IH [OF _ _ _ s4] Cons.prems(1-3) s2 by auto
    have "(if x \<in> insert i D then ?f x else x) = (if x \<in> D then ?f x else x)" for x
      using s1 by (simp add: after_escalation_def)
    then have "view (dw_store w') t = (\<lambda>x. if x \<in> insert i D then ?f x else x) ` view (dw_store w) t"
      using D(5) s2 by simp
    moreover have "insert i D \<subseteq> set (i # is)" "b \<longrightarrow> insert i D = set (i # is)" using D(1,2) by auto
    ultimately show ?thesis using D(3,4,6) s1 s3 by (intro exI [of _ "insert i D"] conjI) simp_all
  qed
  show ?case
  proof (cases "escalated_by d mins i")
    case False
    then show ?thesis
      using Cons.prems(4) skip [of w] skip [of "w\<lparr>dw_effects := dw_effects w @ [Paged i False]\<rparr>"]
      by (cases "dt_alerter d") (auto simp: escalated_by_def lands_def split: if_splits)
  next
    case True
    define y where "y = i\<lparr>in_lastEscalatedAt := dt_now d\<rparr>"
    have y: "?f i = y" using True by (simp add: after_escalation_def y_def)
    define w1 where "w1 = (case dt_alerter d of None \<Rightarrow> w | Some deliver \<Rightarrow> w\<lparr>dw_effects := dw_effects w @ [Paged i (deliver i)]\<rparr>)"
    define w2 where "w2 = record_incident d ''incident_escalated'' y w1"
    have w1: "dw_store w1 = dw_store w" by (simp add: w1_def split: option.splits)
    have w2: "dw_store w2 = dw_store w" "dw_ids w2 = dw_ids w" by (simp_all add: w2_def w1_def split: option.splits)
    have step: "escalate_loop d mins (i # is) es w = (case put_inc y (dw_store w) of None \<Rightarrow> (w2, es, False)
        | Some s \<Rightarrow> escalate_loop d mins is (es @ [y]) (w2\<lparr>dw_store := s\<rparr>))"
      unfolding w2_def using True by (simp add: escalated_by_def lands_def Let_def y_def [symmetric] w1_def [symmetric] w1 assms(1))
    have i: "i \<in> view (dw_store w) t" using Cons.prems(2) by simp
    show ?thesis
    proof (cases "put_inc y (dw_store w)")
      case None
      then have "w' = w2" "\<not> b" using Cons.prems(4) unfolding step by auto
      then show ?thesis using Cons.prems(1) w2 by (intro exI [of _ "{}"]) simp
    next
      case (Some s)
      have l: "escalate_loop d mins is (es @ [y]) (w2\<lparr>dw_store := s\<rparr>) = (w', es', b)"
        using Cons.prems(4) Some unfolding step by simp
      have v: "view s t = (\<lambda>z. if z = i then y else z) ` view (dw_store w) t"
        by (rule view_replace [OF Cons.prems(1) Some i]) (simp_all add: y_def)
      have sub: "set is \<subseteq> view s t"
      proof
        fix z assume "z \<in> set is"
        then have "z \<in> view (dw_store w) t" "z \<noteq> i" using Cons.prems(2,3) by auto
        then show "z \<in> view s t" unfolding v by (intro image_eqI [of _ _ z]) simp_all
      qed
      have w3: "ok (dw_store (w2\<lparr>dw_store := s\<rparr>))" "set is \<subseteq> view (dw_store (w2\<lparr>dw_store := s\<rparr>)) t"
        using sub ok_put [OF Cons.prems(1) Some] by simp_all
      have "distinct is" using Cons.prems(3) by simp
      from Cons.IH [OF w3 this l] obtain D where D: "D \<subseteq> set is" "b \<longrightarrow> D = set is" "ok (dw_store w')" "dw_ids w' = dw_ids w"
          "view (dw_store w') t = (\<lambda>x. if x \<in> D then ?f x else x) ` view s t"
          "b \<longrightarrow> es' = (es @ [y]) @ map ?f (filter (escalated_by d mins) is)"
        using w2(2) by auto
      have "y = i" if "y \<in> D"
      proof -
        have "y \<in> view (dw_store w) t" using that D(1) Cons.prems(2) by (auto simp: subset_iff)
        then show ?thesis by (rule view_id [OF Cons.prems(1) _ i]) (simp add: y_def)
      qed
      then have "y \<notin> D" using D(1) Cons.prems(3) by auto
      then have "(if (if z = i then y else z) \<in> D then ?f (if z = i then y else z) else (if z = i then y else z)) =
          (if z \<in> insert i D then ?f z else z)" for z
        using y by simp
      then have "view (dw_store w') t = (\<lambda>x. if x \<in> insert i D then ?f x else x) ` view (dw_store w) t"
        by (simp only: D(5) v image_image)
      moreover have "insert i D \<subseteq> set (i # is)" "b \<longrightarrow> insert i D = set (i # is)" using D(1,2) by auto
      ultimately show ?thesis using D(3,4,6) True y by (intro exI [of _ "insert i D"] conjI) simp_all
    qed
  qed
qed

end

end
