(* ===== verification/DetectProps.thy ===== *)
theory DetectProps
  imports DetectFacts
begin

text \<open>
  The properties of the detector: what a pass does exactly, the invariant of a tenant's incidents, when an
  incident resolves over a run of passes, and who is paged.
\<close>

definition stored :: "'s detector \<Rightarrow> 's dworld \<Rightarrow> string \<Rightarrow> incident set" where
  "stored d w t = set (the (dt_list d (dw_store w) t))"

text \<open>The state in which every operation of the detector leaves a tenant's incidents.\<close>

definition incidents_inv :: "('s \<Rightarrow> bool) \<Rightarrow> 's detector \<Rightarrow> string \<Rightarrow> 's dworld \<Rightarrow> bool" where
  "incidents_inv ok d t w \<longleftrightarrow>
     ok (dw_store w) \<and> one_open (stored d w t) \<and> fresh_ids d (dw_ids w) (stored d w t)"

lemma view_stored: "incident_store (dt_put d) (dt_list d) ok \<Longrightarrow> incident_store.view (dt_list d) (dw_store w) t = stored d w t"
  by (simp add: incident_store.view_def stored_def)

lemma stored_id:
  assumes "incident_store (dt_put d) (dt_list d) ok" "incidents_inv ok d t w" "x \<in> stored d w t" "y \<in> stored d w t" "in_id x = in_id y"
  shows "x = y"
  using incident_store.view_id [OF assms(1), of "dw_store w" x t y] assms(2-)
  unfolding incidents_inv_def view_stored [OF assms(1)] by blast

lemma presentIssues_sound:
  "map_of (presentIssues d current attacked) k = Some f \<Longrightarrow>
     f \<in> set current \<and> Key f = k \<and> (atOrAbove d (fi_severity f) \<or> attacked k)"
proof -
  have "map_of (foldl (\<lambda>m f. let k = Key f in if atOrAbove d (fi_severity f) \<or> attacked k then put k f m else m) m fs) k = Some f
    \<Longrightarrow> map_of m k = Some f \<or> f \<in> set fs \<and> Key f = k \<and> (atOrAbove d (fi_severity f) \<or> attacked k)" for m fs
    by (induction fs arbitrary: m) (fastforce simp: Let_def split: if_splits)+
  from this [of "[]" current] show "map_of (presentIssues d current attacked) k = Some f \<Longrightarrow>
     f \<in> set current \<and> Key f = k \<and> (atOrAbove d (fi_severity f) \<or> attacked k)" by (simp add: presentIssues_def)
qed

text \<open>An incident that a pass opened stands for a finding of the scan.\<close>

definition stands_for :: "'s detector \<Rightarrow> string \<Rightarrow> (string \<Rightarrow> bool) \<Rightarrow> incident \<Rightarrow> finding \<Rightarrow> bool" where
  "stands_for d t attacked i f \<longleftrightarrow>
     in_key i = Key f \<and> in_rule i = fi_rule f \<and> in_severity i = fi_severity f \<and> in_finding i = fi_id f \<and>
     in_tenant i = t \<and> in_status i = IncidentOpen \<and> in_absent i = 0 \<and> in_attacked i = attacked (Key f) \<and>
     (atOrAbove d (fi_severity f) \<or> attacked (Key f))"

lemma opened_stands_for:
  assumes "opened_for d t (presentIssues d current attacked) attacked route i" "reported d current attacked (in_key i)"
  shows "\<exists>f \<in> set current. stands_for d t attacked i f"
proof -
  let ?p = "presentIssues d current attacked"
  obtain f where f: "map_of ?p (in_key i) = Some f" using presentIssues_map [of d current attacked "in_key i"] assms(2) by blast
  obtain n where i: "i = incident_of d t ?p attacked route n (in_key i) f"
    using assms(1) f unfolding opened_for_def by auto
  note s = presentIssues_sound [OF f]
  have "stands_for d t attacked i f"
    unfolding stands_for_def using s incident_of_same [of d t ?p attacked route n "in_key i" f] i by metis
  then show ?thesis using s by blast
qed

lemma pass_view:
  assumes "incident_store (dt_put d) (dt_list d) ok" "permutes_keys d" "incidents_inv ok d t w"
    and "ReconcileScoped d t current attacked cov w = (w', r, b)"
  shows "\<exists>K. stored d w' t = over_keys K (after_pass d current attacked cov) ` stored d w t \<union> set (ps_opened r) \<and>
    (b \<longrightarrow> (\<forall>x \<in> stored d w t. in_status x = IncidentOpen \<longrightarrow> in_key x \<in> K) \<and>
       in_key ` set (ps_opened r) = (if suppressed_now d t then {} else to_open d current attacked (stored d w t)) \<and>
       set (ps_resolved r) = {after_pass d current attacked cov x | x. x \<in> stored d w t \<and> in_status x = IncidentOpen \<and>
         in_status (after_pass d current attacked cov x) \<noteq> IncidentOpen}) \<and>
    in_key ` set (ps_opened r) \<subseteq> to_open d current attacked (stored d w t) \<and>
    (\<forall>i \<in> set (ps_opened r). opened_for d t (presentIssues d current attacked) attacked
       (routing d t (presentIssues d current attacked)) i) \<and>
    (\<forall>t'. t' \<noteq> t \<longrightarrow> stored d w' t' = stored d w t') \<and> incidents_inv ok d t w'"
proof -
  have i: "ok (dw_store w)" "one_open (stored d w t)" "fresh_ids d (dw_ids w) (stored d w t)"
    using assms(3) by (simp_all add: incidents_inv_def)
  from incident_store.reconcile_view [OF assms(1) refl refl i(1) assms(2) _ _ assms(4), unfolded view_stored [OF assms(1)], OF i(2,3)]
  show ?thesis unfolding incidents_inv_def by (elim exE conjE) (intro exI conjI, assumption+)
qed

lemma pass_exact:
  assumes "incident_store (dt_put d) (dt_list d) ok" "permutes_keys d" "incidents_inv ok d t w"
    and "ReconcileScoped d t current attacked cov w = (w', r, True)"
  shows "stored d w' t = after_pass d current attacked cov ` stored d w t \<union> set (ps_opened r)" "incidents_inv ok d t w'"
proof -
  let ?f = "after_pass d current attacked cov"
  obtain K where K: "stored d w' t = over_keys K ?f ` stored d w t \<union> set (ps_opened r)"
      "\<forall>x \<in> stored d w t. in_status x = IncidentOpen \<longrightarrow> in_key x \<in> K" "incidents_inv ok d t w'"
    using pass_view [OF assms, unfolded simp_thms] by (elim exE conjE) (rule that, assumption+)
  have "over_keys K ?f x = ?f x" if "x \<in> stored d w t" for x
    using K(2) that by (auto simp: over_keys_def after_pass_def)
  then show "stored d w' t = ?f ` stored d w t \<union> set (ps_opened r)" by (metis (no_types, lifting) K(1) image_cong)
  show "incidents_inv ok d t w'" by (fact K(3))
qed

section \<open>The invariant\<close>

lemma one_open_map:
  assumes "one_open X" "\<And>x. in_key (f x) = in_key x" "\<And>x. in_status (f x) = in_status x"
  shows "one_open (f ` X)"
  unfolding one_open_def
proof (intro ballI impI)
  fix a b assume a: "a \<in> f ` X" "b \<in> f ` X" "in_status a = IncidentOpen" "in_status b = IncidentOpen" "in_key a = in_key b"
  then obtain x y where "x \<in> X" "y \<in> X" "a = f x" "b = f y" by blast
  then show "a = b" using one_open_D [OF assms(1), of x y] a assms(2,3) by metis
qed

lemma index_of_list: "dt_list d (dw_store w) t = Some xs \<Longrightarrow> openIncidentsByKey d t w = Some (index_open xs) \<and> stored d w t = set xs"
  by (simp add: openIncidentsByKey_def index_open_def stored_def)

lemma listed_some: "incident_store put_inc list_inc ok \<Longrightarrow> ok s \<Longrightarrow> \<exists>xs. list_inc s t = Some xs"
  using incident_store.readable [of put_inc list_inc ok s t] by simp

lemma openFor_view:
  assumes "incident_store (dt_put d) (dt_list d) ok" "permutes_keys d" "incidents_inv ok d t w"
    and "OpenFor d t current attacked w = (w', r, b)"
  shows "stored d w' t = stored d w t \<union> set (ps_opened r) \<and> ps_resolved r = [] \<and> incidents_inv ok d t w' \<and>
    (b \<longrightarrow> in_key ` set (ps_opened r) = (if suppressed_now d t then {} else to_open d current attacked (stored d w t)))"
proof -
  have i: "ok (dw_store w)" "one_open (stored d w t)" "fresh_ids d (dw_ids w) (stored d w t)"
    using assms(3) by (simp_all add: incidents_inv_def)
  obtain xs where xs: "dt_list d (dw_store w) t = Some xs" using listed_some [OF assms(1) i(1)] by blast
  let ?p = "presentIssues d current attacked"
  obtain w1 os b1 where o: "openNew d t ?p (index_open xs) attacked w = (w1, os, b1)" by (metis prod_cases3)
  from incident_store.openNew_view [OF assms(1) refl i(1) assms(2) _ _ xs o, unfolded view_stored [OF assms(1)], OF i(2,3)]
  have O: "stored d w1 t = stored d w t \<union> set os" "incidents_inv ok d t w1"
      "b1 \<longrightarrow> in_key ` set os = (if suppressed_now d t then {} else to_open d current attacked (stored d w t))"
    unfolding incidents_inv_def by blast+
  have "dw_store w' = dw_store w1" "dw_ids w' = dw_ids w1" "ps_opened r = os" "ps_resolved r = []" "b = b1"
    using assms(4) by (auto simp: OpenFor_def index_of_list [OF xs] o Let_def split: if_splits)
  then show ?thesis using O by (simp add: stored_def incidents_inv_def)
qed

lemma escalate_view:
  assumes "incident_store (dt_put d) (dt_list d) ok" "incidents_inv ok d t w"
    and "EscalateOverdue d t mins w = (w', es, b)"
  shows "\<exists>D \<subseteq> stored d w t. stored d w' t = (\<lambda>x. if x \<in> D then after_escalation d mins x else x) ` stored d w t \<and>
    (b \<longrightarrow> (\<not> suppressed_now d t \<longrightarrow> D = stored d w t) \<and> (suppressed_now d t \<longrightarrow> D = {})) \<and>
    (b \<longrightarrow> set es = (if suppressed_now d t then {} else after_escalation d mins ` {x \<in> stored d w t. escalated_by d mins x})) \<and>
    incidents_inv ok d t w'"
proof -
  have i: "ok (dw_store w)" "one_open (stored d w t)" "fresh_ids d (dw_ids w) (stored d w t)"
    using assms(2) by (simp_all add: incidents_inv_def)
  obtain xs where xs: "dt_list d (dw_store w) t = Some xs" using listed_some [OF assms(1) i(1)] by blast
  have st: "stored d w t = set xs" using index_of_list [OF xs] by simp
  have none: "\<not> escalated_by d mins x" if "mins \<le> 0" for x using that by (simp add: escalated_by_def Overdue_def)
  show ?thesis
  proof (cases "mins \<le> 0 \<or> suppressed_now d t")
    case True
    then have r: "w' = w" "es = []" "b" using assms(3) by (auto simp: EscalateOverdue_def split: if_splits)
    show ?thesis
    proof (cases "suppressed_now d t")
      case False
      then have "after_escalation d mins x = x" "\<not> escalated_by d mins x" for x
        using True none by (simp_all add: after_escalation_def)
      then show ?thesis using r assms(2) False by (intro exI [of _ "stored d w t"]) simp
    qed (use r assms(2) in \<open>intro exI [of _ "{}"], simp\<close>)
  next
    case False
    then have l: "escalate_loop d mins xs [] w = (w', es, b)" using assms(3) xs by (simp add: EscalateOverdue_def)
    have dist: "distinct xs" using incident_store.listed [OF assms(1) i(1) xs] by (simp add: distinct_map)
    have sub: "set xs \<subseteq> incident_store.view (dt_list d) (dw_store w) t" unfolding view_stored [OF assms(1)] st by simp
    obtain D where D: "D \<subseteq> set xs" "b \<longrightarrow> D = set xs" "ok (dw_store w')" "dw_ids w' = dw_ids w"
        "stored d w' t = (\<lambda>x. if x \<in> D then after_escalation d mins x else x) ` stored d w t"
        "b \<longrightarrow> es = map (after_escalation d mins) (filter (escalated_by d mins) xs)"
      using incident_store.escalate_loop_view [OF assms(1) refl i(1) sub dist l, unfolded view_stored [OF assms(1)] append_Nil]
      by (elim exE conjE) (rule that, assumption+)
    let ?f = "\<lambda>x. if x \<in> D then after_escalation d mins x else x"
    have same: "in_id (?f x) = in_id x" "in_key (?f x) = in_key x" "in_status (?f x) = in_status x" for x by simp_all
    have "one_open (?f ` stored d w t)" by (rule one_open_map [OF i(2) same(2,3)])
    moreover have "fresh_ids d (dw_ids w') (?f ` stored d w t)" unfolding D(4) by (intro fresh_ids_image i(3) same)
    ultimately have "incidents_inv ok d t w'" using D(3) unfolding incidents_inv_def D(5) by blast
    moreover have "b \<longrightarrow> set es = after_escalation d mins ` {x \<in> stored d w t. escalated_by d mins x}"
      using D(6) st by auto
    ultimately show ?thesis using False D(1,2,5) st by (intro exI [of _ D] conjI) simp_all
  qed
qed

section \<open>Resolution by absence\<close>

text \<open>A run of passes: the clock, the findings, what is under attack and what the pass covered.\<close>

type_synonym scan_pass = "int \<times> finding list \<times> (string \<Rightarrow> bool) \<times> coverage"

fun run_passes :: "'s detector \<Rightarrow> string \<Rightarrow> scan_pass list \<Rightarrow> 's dworld \<Rightarrow> 's dworld \<times> bool" where
  "run_passes d t [] w = (w, True)"
| "run_passes d t ((now, current, attacked, cov) # ps) w =
     (case ReconcileScoped (d\<lparr>dt_now := now\<rparr>) t current attacked cov w of
        (w1, r, b) \<Rightarrow> if b then run_passes d t ps w1 else (w1, False))"

text \<open>What a pass says of an issue: nothing, that it is still there, or that it is gone.\<close>

fun verdict_of :: "'s detector \<Rightarrow> string \<Rightarrow> string \<Rightarrow> scan_pass \<Rightarrow> bool option" where
  "verdict_of d rule key (now, current, attacked, cov) =
     (if IsEventProducer (ProducerOf rule) \<or> \<not> Covers cov rule then None else Some (reported d current attacked key))"

definition verdicts :: "'s detector \<Rightarrow> incident \<Rightarrow> scan_pass list \<Rightarrow> bool list" where
  "verdicts d x ps = List.map_filter (verdict_of d (in_rule x) (in_key x)) ps"

text \<open>The abstract machine: a streak of absences that ends the incident at \<open>N\<close>.\<close>

fun streak :: "int \<Rightarrow> int \<Rightarrow> bool list \<Rightarrow> int option" where
  "streak N n [] = Some n"
| "streak N n (True # vs) = streak N 0 vs"
| "streak N n (False # vs) = (if n + 1 < N then streak N (n + 1) vs else None)"

lemma streak_None:
  assumes "0 < N" "0 \<le> n" "n < N"
  shows "streak N n vs = None \<longleftrightarrow>
    (prefix (replicate (nat (N - n)) False) vs \<or> sublist (replicate (nat N) False) vs)"
  using assms(2,3)
proof (induction N n vs rule: streak.induct)
  case (1 N n)
  then show ?case using assms by (cases "nat N"; cases "nat (N - n)") simp_all
next
  case (2 N n vs)
  have a: "\<not> prefix (replicate (nat (N - n)) False) (True # vs)" using 2 by (cases "nat (N - n)") simp_all
  have b: "sublist (replicate (nat N) False) (True # vs) \<longleftrightarrow> sublist (replicate (nat N) False) vs"
    using 2 by (cases "nat N") (simp_all add: sublist_Cons_right)
  show ?case using 2 a b prefix_imp_sublist by auto
next
  case (3 N n vs)
  have n: "nat (N - n) = Suc (nat (N - (n + 1)))" using 3 by simp
  show ?case
  proof (cases "n + 1 < N")
    case True
    have "prefix (replicate (nat N) False) (False # vs) \<Longrightarrow> prefix (replicate (nat (N - (n + 1))) False) vs"
    proof -
      have "nat N = nat (N - (n + 1)) + Suc (nat n)" using 3 by simp
      then have r: "replicate (nat N) False = replicate (Suc (nat (N - (n + 1)))) False @ replicate (nat n) False"
        by (simp add: replicate_add [symmetric])
      assume "prefix (replicate (nat N) False) (False # vs)"
      then have "prefix (replicate (Suc (nat (N - (n + 1)))) False) (False # vs)" unfolding r by (rule append_prefixD)
      then show ?thesis by simp
    qed
    then show ?thesis using 3 True by (auto simp: n sublist_Cons_right)
  next
    case False
    then have "nat (N - n) = 1" using 3 by simp
    then show ?thesis using False by simp
  qed
qed

lemma streak_fresh: "0 < N \<Longrightarrow> streak N 0 vs = None \<longleftrightarrow> sublist (replicate (nat N) False) vs"
  using streak_None [of N 0 vs] prefix_imp_sublist by auto

lemma resolveAfterAbsent_pos: "0 < resolveAfterAbsent d" by (simp add: resolveAfterAbsent_def)

lemma clock_same [simp]:
  "reported (d\<lparr>dt_now := n\<rparr>) current attacked k = reported d current attacked k"
  "resolveAfterAbsent (d\<lparr>dt_now := n\<rparr>) = resolveAfterAbsent d" "stored (d\<lparr>dt_now := n\<rparr>) w t = stored d w t"
  "incidents_inv ok (d\<lparr>dt_now := n\<rparr>) t w = incidents_inv ok d t w" "permutes_keys (d\<lparr>dt_now := n\<rparr>) = permutes_keys d"
  by (simp_all add: reported_def atOrAbove_def resolveAfterAbsent_def stored_def incidents_inv_def fresh_ids_def permutes_keys_def)

lemma after_pass_closed: "in_status x \<noteq> IncidentOpen \<Longrightarrow> after_pass d current attacked cov x = x"
  by (simp add: after_pass_def)

definition tracks :: "int \<Rightarrow> incident \<Rightarrow> bool list \<Rightarrow> incident \<Rightarrow> bool" where
  "tracks N x vs y \<longleftrightarrow> in_id y = in_id x \<and> in_key y = in_key x \<and> in_rule y = in_rule x \<and>
     (case streak N (in_absent x) vs of Some n \<Rightarrow> in_status y = IncidentOpen \<and> in_absent y = n
      | None \<Rightarrow> in_status y = IncidentResolved)"

lemma run_passes_closed:
  assumes "incident_store (dt_put d) (dt_list d) ok" "permutes_keys d" "incidents_inv ok d t w"
    and "run_passes d t ps w = (w', True)" "x \<in> stored d w t" "in_status x \<noteq> IncidentOpen"
  shows "x \<in> stored d w' t"
  using assms(3-)
proof (induction ps arbitrary: w)
  case (Cons p ps)
  obtain now current attacked cov where p: "p = (now, current, attacked, cov)" by (cases p)
  let ?d = "d\<lparr>dt_now := now\<rparr>"
  obtain w1 r b where r: "ReconcileScoped ?d t current attacked cov w = (w1, r, b)" by (metis prod_cases3)
  then have b: "b" "run_passes d t ps w1 = (w', True)" using Cons.prems(2) by (auto simp: p split: if_splits)
  have s: "incident_store (dt_put ?d) (dt_list ?d) ok" "permutes_keys ?d" "incidents_inv ok ?d t w"
    using assms(1,2) Cons.prems(1) by simp_all
  have "stored d w1 t = after_pass ?d current attacked cov ` stored d w t \<union> set (ps_opened r)" "incidents_inv ok d t w1"
    using pass_exact [OF s] r b(1) by auto
  then show ?case using Cons.IH [OF _ b(2)] Cons.prems(3,4) after_pass_closed [OF Cons.prems(4)] by (metis UnI1 imageI)
qed simp

lemma after_pass_verdict:
  assumes "in_status x = IncidentOpen" "0 \<le> in_absent x" "in_absent x < resolveAfterAbsent d"
  shows "tracks (resolveAfterAbsent d) x (verdicts d x [(now, current, attacked, cov)])
      (after_pass (d\<lparr>dt_now := now\<rparr>) current attacked cov x)"
  using assms by (auto simp: tracks_def verdicts_def List.map_filter_simps after_pass_def split: option.splits)

lemma verdicts_Cons: "verdicts d x (p # ps) = verdicts d x [p] @ verdicts d x ps"
  by (simp add: verdicts_def List.map_filter_simps split: option.splits)

lemma verdicts_same: "in_rule y = in_rule x \<Longrightarrow> in_key y = in_key x \<Longrightarrow> verdicts d y ps = verdicts d x ps"
  by (simp add: verdicts_def)

lemma streak_append:
  "streak N n (us @ vs) = (case streak N n us of None \<Rightarrow> None | Some m \<Rightarrow> streak N m vs)"
  by (induction N n us rule: streak.induct) auto

lemma streak_range: "streak N n vs = Some m \<Longrightarrow> 0 < N \<Longrightarrow> 0 \<le> n \<Longrightarrow> n < N \<Longrightarrow> 0 \<le> m \<and> m < N"
  by (induction N n vs rule: streak.induct) (auto split: if_splits)

lemma run_passes_tracks:
  assumes "incident_store (dt_put d) (dt_list d) ok" "permutes_keys d" "incidents_inv ok d t w"
    and "run_passes d t ps w = (w', True)" "x \<in> stored d w t" "in_status x = IncidentOpen"
    and "0 \<le> in_absent x" "in_absent x < resolveAfterAbsent d"
  shows "\<exists>y \<in> stored d w' t. tracks (resolveAfterAbsent d) x (verdicts d x ps) y"
  using assms(3-)
proof (induction ps arbitrary: w x)
  case Nil
  then show ?case by (intro bexI [of _ x]) (auto simp: tracks_def verdicts_def List.map_filter_simps)
next
  case (Cons p ps)
  let ?N = "resolveAfterAbsent d"
  obtain now current attacked cov where p: "p = (now, current, attacked, cov)" by (cases p)
  let ?d = "d\<lparr>dt_now := now\<rparr>" and ?y = "after_pass (d\<lparr>dt_now := now\<rparr>) current attacked cov x"
  obtain w1 r b where r: "ReconcileScoped ?d t current attacked cov w = (w1, r, b)" by (metis prod_cases3)
  then have b: "b" "run_passes d t ps w1 = (w', True)" using Cons.prems(2) by (auto simp: p split: if_splits)
  have s: "incident_store (dt_put ?d) (dt_list ?d) ok" "permutes_keys ?d" "incidents_inv ok ?d t w"
    using assms(1,2) Cons.prems(1) by simp_all
  have inv: "incidents_inv ok d t w1" and st: "stored d w1 t = after_pass ?d current attacked cov ` stored d w t \<union> set (ps_opened r)"
    using pass_exact [OF s] r b(1) by auto
  have y: "?y \<in> stored d w1 t" unfolding st using Cons.prems(3) by blast
  have tr: "tracks ?N x (verdicts d x [p]) ?y" unfolding p using Cons.prems(4-6) by (rule after_pass_verdict)
  have vc: "verdicts d x (p # ps) = verdicts d x [p] @ verdicts d x ps" by (rule verdicts_Cons)
  show ?case
  proof (cases "streak ?N (in_absent x) (verdicts d x [p])")
    case None
    then have "in_status ?y \<noteq> IncidentOpen" using tr by (simp add: tracks_def)
    then have "?y \<in> stored d w' t" by (rule run_passes_closed [OF assms(1,2) inv b(2) y])
    then show ?thesis using tr None by (intro bexI [of _ ?y]) (simp add: tracks_def vc streak_append)
  next
    case (Some n)
    have range: "0 \<le> n" "n < ?N" using streak_range [OF Some resolveAfterAbsent_pos Cons.prems(5,6)] by simp_all
    have o: "in_status ?y = IncidentOpen" "in_absent ?y = n" using tr Some by (simp_all add: tracks_def)
    obtain z where z: "z \<in> stored d w' t" "tracks ?N ?y (verdicts d ?y ps) z"
      using Cons.IH [OF inv b(2) y o(1)] range o(2) by auto
    have "verdicts d ?y ps = verdicts d x ps" by (rule verdicts_same) simp_all
    then have "tracks ?N x (verdicts d x (p # ps)) z"
      using z(2) Some o(2) by (simp add: tracks_def vc streak_append)
    then show ?thesis using z(1) by blast
  qed
qed

section \<open>Pages\<close>

text \<open>A page that landed for an incident that is not under attack.\<close>

definition routine_page :: "effect \<Rightarrow> bool" where
  "routine_page e = (case e of Paged i landed \<Rightarrow> landed \<and> \<not> in_attacked i | Responded _ _ \<Rightarrow> False)"

lemma routine_page_simps [simp]:
  "routine_page (Paged i landed) \<longleftrightarrow> landed \<and> \<not> in_attacked i" "\<not> routine_page (Responded t os)"
  by (simp_all add: routine_page_def)

lemma page_effects:
  assumes "page d a (in_attacked i) i = (a1, es)" "dt_alertCap d \<noteq> 0"
  shows "a \<le> a1" "int (length (filter routine_page es)) + max 0 (dt_alertCap d - a1) \<le> max 0 (dt_alertCap d - a)"
    "dt_alerter d \<noteq> None \<Longrightarrow> in_attacked i \<Longrightarrow> \<exists>b. Paged i b \<in> set es"
  using assms by (auto simp: page_def split: option.splits if_splits)

lemma open_loop_effects:
  assumes "open_loop d t present openBy attacked route keys a os w = (w', os', b)" "dt_alertCap d \<noteq> 0"
  shows "\<exists>es new. dw_effects w' = dw_effects w @ es \<and> os' = os @ new \<and>
    int (length (filter routine_page es)) \<le> max 0 (dt_alertCap d - a) \<and>
    (dt_alerter d \<noteq> None \<longrightarrow> (\<forall>i \<in> set new. in_attacked i \<longrightarrow> (\<exists>b. Paged i b \<in> set es)))"
  using assms(1)
proof (induction keys arbitrary: a os w)
  case (Cons k keys)
  show ?case
  proof (cases "map_of openBy k = None")
    case False
    then show ?thesis using Cons by simp
  next
    case True
    define i where "i = incident_of d t present attacked route (dw_ids w) k (the (map_of present k))"
    define w1 where "w1 = record_incident d ''incident_opened'' i (w\<lparr>dw_ids := Suc (dw_ids w)\<rparr>)"
    have i: "attacked k = in_attacked i" by (simp add: i_def)
    obtain a1 es where p: "page d a (in_attacked i) i = (a1, es)" by fastforce
    have w1: "dw_effects w1 = dw_effects w" "dw_store w1 = dw_store w" by (simp_all add: w1_def)
    show ?thesis
    proof (cases "dt_put d i (dw_store w)")
      case None
      then have "w' = w1" "os' = os" using Cons.prems True w1 by (simp_all add: i_def [symmetric] w1_def [symmetric] Let_def)
      then show ?thesis using w1 by simp
    next
      case (Some s)
      then have "open_loop d t present openBy attacked route keys a1 (os @ [i])
          (w1\<lparr>dw_store := s, dw_effects := dw_effects w1 @ es\<rparr>) = (w', os', b)"
        using Cons.prems True p w1 by (simp add: i_def [symmetric] w1_def [symmetric] Let_def i)
      from Cons.IH [OF this] obtain es1 new where e: "dw_effects w' = dw_effects w @ (es @ es1)" "os' = os @ (i # new)"
          "int (length (filter routine_page es1)) \<le> max 0 (dt_alertCap d - a1)"
          "dt_alerter d \<noteq> None \<longrightarrow> (\<forall>i \<in> set new. in_attacked i \<longrightarrow> (\<exists>b. Paged i b \<in> set es1))"
        using w1 by auto
      have "int (length (filter routine_page (es @ es1))) \<le> max 0 (dt_alertCap d - a)"
        using page_effects(2) [OF p assms(2)] e(3) by simp
      moreover have "dt_alerter d \<noteq> None \<longrightarrow> (\<forall>i \<in> set (i # new). in_attacked i \<longrightarrow> (\<exists>b. Paged i b \<in> set (es @ es1)))"
        using page_effects(3) [OF p assms(2)] e(4) by auto
      ultimately show ?thesis using e(1,2) by blast
    qed
  qed
qed (intro exI [of _ "[]"], simp)

lemma openNew_effects:
  assumes "openNew d t present openBy attacked w = (w', os, b)" "dt_alertCap d \<noteq> 0"
  shows "\<exists>es. dw_effects w' = dw_effects w @ es \<and> int (length (filter routine_page es)) \<le> max 0 (dt_alertCap d) \<and>
    (dt_alerter d \<noteq> None \<longrightarrow> (\<forall>i \<in> set os. in_attacked i \<longrightarrow> (\<exists>b. Paged i b \<in> set es)))"
proof (cases "suppressed_now d t")
  case False
  then show ?thesis
    using open_loop_effects [of d t present openBy attacked _ _ 0 "[]" w w' os b] assms by (simp add: openNew_def)
qed (use assms in \<open>auto simp: openNew_def\<close>)

lemma resolve_loop_effects: "resolve_loop d present cov openBy keys r w = (w', r', b) \<Longrightarrow> dw_effects w' = dw_effects w"
proof (induction keys arbitrary: r w)
  case (Cons k keys)
  show ?case
  proof (cases "sweep_one d present cov k (the (map_of openBy k))")
    case (Keep y)
    show ?thesis
    proof (cases "dt_put d y (dw_store w)")
      case (Some s)
      then have "resolve_loop d present cov openBy keys r (w\<lparr>dw_store := s\<rparr>) = (w', r', b)" using Cons.prems Keep by simp
      from Cons.IH [OF this] show ?thesis by simp
    qed (use Cons.prems Keep in simp)
  next
    case (Resolve y)
    show ?thesis
    proof (cases "dt_put d y (dw_store w)")
      case (Some s)
      then have "resolve_loop d present cov openBy keys (r @ [y]) (record_incident d ''incident_resolved'' y w\<lparr>dw_store := s\<rparr>) =
          (w', r', b)" using Cons.prems Resolve by (simp add: Let_def)
      from Cons.IH [OF this] show ?thesis by simp
    qed (use Cons.prems Resolve in \<open>auto simp: Let_def\<close>)
  next
    case Leave
    then have "resolve_loop d present cov openBy keys r w = (w', r', b)" using Cons.prems by simp
    then show ?thesis by (rule Cons.IH)
  qed
qed simp

section \<open>Escalation\<close>

lemma Overdue_later: "Overdue i mins now \<Longrightarrow> now \<le> now' \<Longrightarrow> Overdue i mins now'"
  by (auto simp: Overdue_def Let_def split: if_splits)

lemma not_Overdue_escalated:
  assumes "in_lastEscalatedAt i \<noteq> 0" "now < in_lastEscalatedAt i + mins * 60000000000"
  shows "\<not> Overdue i mins now"
  using assms by (auto simp: Overdue_def Let_def)

section \<open>Producers\<close>

lemma prefix_single: "prefix [c] s \<longleftrightarrow> (s \<noteq> [] \<and> hd s = c)"
  by (cases s) auto

lemma index_char:
  "index_str s [c] = (if c \<in> set s then Some (length (takeWhile (\<lambda>x. x \<noteq> c) s)) else None)"
proof (induction s)
  case (Cons x s)
  have "List.find (\<lambda>i. prefix [c] (drop i (x # s))) (map Suc [0..<Suc (length s)]) =
      map_option Suc (List.find (\<lambda>i. prefix [c] (drop i s)) [0..<Suc (length s)])" for x
  proof -
    have "List.find P (map Suc is) = map_option Suc (List.find (\<lambda>i. P (Suc i)) is)" for P "is" by (induction "is") auto
    then show ?thesis by (simp del: upt_Suc)
  qed
  moreover have "[0..<Suc (length (x # s))] = 0 # map Suc [0..<Suc (length s)]"
    by (simp only: length_Cons map_Suc_upt) (simp add: upt_conv_Cons del: upt_Suc)
  ultimately show ?case using Cons unfolding index_str_def by (auto simp: prefix_single simp del: upt_Suc)
qed (simp add: index_str_def)

text \<open>What comes before the first bar.\<close>

lemma before_bar:
  "(case index_str s ''|'' of None \<Rightarrow> s | Some i \<Rightarrow> take i s) = takeWhile (\<lambda>x. x \<noteq> CHR ''|'') s"
proof (cases "CHR ''|'' \<in> set s")
  case True
  then show ?thesis by (simp add: index_char takeWhile_eq_take [symmetric])
next
  case False
  then have e: "takeWhile (\<lambda>x. x \<noteq> CHR ''|'') s = s" by (auto simp: takeWhile_eq_all_conv)
  show ?thesis using False by (simp only: index_char if_False option.case e)
qed

section \<open>Examples\<close>

text \<open>The in-memory store holds one open incident of a tenant; nothing is suppressed and every page lands.\<close>

definition sample_detector :: "incidents detector" where
  "sample_detector = \<lparr>dt_put = mem_PutIncident, dt_list = mem_ListIncidents, dt_routing = None,
     dt_alerter = Some (\<lambda>i. True), dt_responder = False, dt_triager = None, dt_threshold = [], dt_alertCap = 1,
     dt_resolveAfterAbsent = 0, dt_now = 7200000000000, dt_newID = (\<lambda>n. replicate n CHR ''x''), dt_suppressed = None,
     dt_order = (\<lambda>ks. ks)\<rparr>"

definition sample_incident :: incident where
  "sample_incident =
     \<lparr>in_id = ''i1'', in_tenant = ''t'', in_key = ''nuclei::sqli|/a'', in_rule = ''nuclei::sqli'', in_title = ''SQL injection'',
      in_severity = ''high'', in_status = IncidentOpen, in_finding = ''f1'', in_verification = [], in_confidence = 0,
      in_absent = 0, in_attacked = False, in_triageVerdict = [], in_triageRationale = [], in_triageSkill = [], in_asset = [],
      in_assetTarget = [], in_owner = [], in_team = [], in_slack = [], in_openedAt = 1, in_resolvedAt = 0, in_ackAt = 0,
      in_lastEscalatedAt = 0, in_kev = False, in_ransomware = False, in_kevDueAt = 0\<rparr>"

definition sample_dworld :: "incidents dworld" where
  "sample_dworld = \<lparr>dw_store = (\<lambda>t. if t = ''t'' then [(''i1'', sample_incident)] else []), dw_recorder = None,
     dw_effects = [], dw_ids = 0\<rparr>"

lemma sample_contract:
  "incident_store (dt_put sample_detector) (dt_list sample_detector) incidents_ok"
  using mem_incidents.incident_store_axioms by (simp add: sample_detector_def)

lemma sample_permutes: "permutes_keys sample_detector" by (simp add: permutes_keys_def sample_detector_def)

lemma sample_stored: "stored sample_detector sample_dworld ''t'' = {sample_incident}"
  by (simp add: stored_def sample_detector_def sample_dworld_def mem_ListIncidents_def)

lemma sample_inv: "incidents_inv incidents_ok sample_detector ''t'' sample_dworld"
proof -
  have "inj (\<lambda>n. replicate n (CHR ''x''))" by (auto simp: inj_def)
  then show ?thesis unfolding incidents_inv_def sample_stored
    by (simp add: one_open_def fresh_ids_def incidents_ok_def sample_dworld_def sample_detector_def sample_incident_def)
qed

lemma sample_producer: "ProducerOf ''nuclei::sqli'' = ''nuclei''" by code_simp

lemma sample_not_event: "\<not> IsEventProducer ''nuclei''" by code_simp

lemmas sample_facts = sample_contract sample_permutes sample_inv

text \<open>Two passes that do not report its issue: counted, then resolved.\<close>

definition absent_once :: incident where "absent_once = sample_incident\<lparr>in_absent := 1\<rparr>"

lemma sample_sweep:
  "sweep_one sample_detector [] AllProducers ''nuclei::sqli|/a'' sample_incident = Keep absent_once"
  by (simp add: sweep_one_def absent_once_def sample_incident_def sample_producer sample_not_event Covers_def AllProducers_def
      resolveAfterAbsent_def sample_detector_def)

lemma sample_index: "openIncidentsByKey sample_detector ''t'' sample_dworld = Some [(''nuclei::sqli|/a'', sample_incident)]"
  by (simp add: openIncidentsByKey_def sample_detector_def sample_dworld_def mem_ListIncidents_def sample_incident_def)

definition sample_dworld1 :: "incidents dworld" where
  "sample_dworld1 = sample_dworld\<lparr>dw_store := (\<lambda>t. if t = ''t'' then [(''i1'', absent_once)] else [])\<rparr>"

lemma sample_put: "dt_put sample_detector absent_once (dw_store sample_dworld) = Some (dw_store sample_dworld1)"
  by (auto simp: sample_detector_def mem_PutIncident_def absent_once_def sample_incident_def sample_dworld_def sample_dworld1_def)

lemma sample_pass:
  "ReconcileScoped sample_detector ''t'' [] (\<lambda>_. False) AllProducers sample_dworld =
     (sample_dworld1, \<lparr>ps_opened = [], ps_resolved = []\<rparr>, True)"
proof -
  have "presentIssues sample_detector [] (\<lambda>_. False) = []" by (simp add: presentIssues_def)
  moreover have "openNew sample_detector ''t'' [] openBy (\<lambda>_. False) sample_dworld = (sample_dworld, [], True)" for openBy
    by (simp add: openNew_def suppressed_now_def sample_detector_def)
  moreover have "dt_order sample_detector ks = ks" for ks by (simp add: sample_detector_def)
  moreover have "sample_dworld\<lparr>dw_store := dw_store sample_dworld1\<rparr> = sample_dworld1" by (simp add: sample_dworld1_def)
  ultimately show ?thesis by (simp add: ReconcileScoped_def sample_index sample_sweep sample_put)
qed

section \<open>Properties\<close>



text \<open>C18: the invariant of a tenant's incidents. Whatever a write does (a failure of the store at any point
  included), every operation of the detector leaves at most one open incident per issue, and identifiers that
  it has not used yet.
\<close>

theorem one_open_incident_per_issue:
  assumes "incident_store (dt_put d) (dt_list d) ok" "permutes_keys d" "incidents_inv ok d t w"
  shows "incidents_inv ok d t (fst (ReconcileScoped d t current attacked cov w)) \<and>
    incidents_inv ok d t (fst (OpenFor d t current attacked w)) \<and>
    incidents_inv ok d t (fst (EscalateOverdue d t mins w))"
proof -
  obtain w1 r1 b1 w2 r2 b2 w3 r3 b3 where
    r: "ReconcileScoped d t current attacked cov w = (w1, r1, b1)" "OpenFor d t current attacked w = (w2, r2, b2)"
      "EscalateOverdue d t mins w = (w3, r3, b3)" by (metis prod_cases3)
  have "incidents_inv ok d t w1" using pass_view [OF assms r(1)] by blast
  moreover have "incidents_inv ok d t w2" using openFor_view [OF assms r(2)] by blast
  moreover have "incidents_inv ok d t w3" using escalate_view [OF assms(1,3) r(3)] by blast
  ultimately show "incidents_inv ok d t (fst (ReconcileScoped d t current attacked cov w)) \<and>
      incidents_inv ok d t (fst (OpenFor d t current attacked w)) \<and> incidents_inv ok d t (fst (EscalateOverdue d t mins w))"
    by (simp add: r)
qed

theorem one_open_incident_per_issue_witness:
  "incidents_inv incidents_ok sample_detector ''t''
     (fst (ReconcileScoped sample_detector ''t'' [] (\<lambda>_. False) AllProducers sample_dworld))"
  using one_open_incident_per_issue [OF sample_facts] by blast

text \<open>over any run of successful passes, an open incident whose issue was last seen follows the abstract
  streak machine: at the end it is resolved if and only if some \<open>ResolveAfterAbsent\<close> consecutive passes, among
  those that cover its producer, did not report its issue. A pass that does not cover it neither counts nor
  resets, and an event's incident, which no pass has a verdict on, is never resolved by absence.
\<close>

theorem resolves_after_consecutive_absences:
  assumes "incident_store (dt_put d) (dt_list d) ok" "permutes_keys d" "incidents_inv ok d t w"
    and "run_passes d t ps w = (w', True)" "x \<in> stored d w t" "in_status x = IncidentOpen" "in_absent x = 0"
  shows "\<exists>y \<in> stored d w' t. in_id y = in_id x \<and>
    in_status y = (if sublist (replicate (nat (resolveAfterAbsent d)) False) (verdicts d x ps)
                   then IncidentResolved else IncidentOpen)"
proof -
  let ?N = "resolveAfterAbsent d"
  obtain y where y: "y \<in> stored d w' t" "tracks ?N x (verdicts d x ps) y"
    using run_passes_tracks [OF assms(1-6)] assms(7) resolveAfterAbsent_pos [of d] by auto
  have "streak ?N 0 (verdicts d x ps) = None \<longleftrightarrow> sublist (replicate (nat ?N) False) (verdicts d x ps)"
    by (rule streak_fresh) (rule resolveAfterAbsent_pos)
  then show ?thesis using y assms(7) by (intro bexI [of _ y]) (auto simp: tracks_def split: option.splits)
qed

theorem resolves_after_consecutive_absences_witness:
  "\<exists>y \<in> stored sample_detector sample_dworld1 ''t''. in_id y = ''i1'' \<and> in_status y = IncidentOpen"
proof -
  let ?p = "(7200000000000, [], \<lambda>_. False, AllProducers) :: scan_pass"
  have d: "sample_detector\<lparr>dt_now := 7200000000000\<rparr> = sample_detector" by (simp add: sample_detector_def)
  have run: "run_passes sample_detector ''t'' [?p] sample_dworld = (sample_dworld1, True)" by (simp add: d sample_pass)
  have "resolveAfterAbsent sample_detector = 2" by (simp add: resolveAfterAbsent_def sample_detector_def)
  moreover have "verdicts sample_detector sample_incident [?p] = [False]"
    by (simp add: verdicts_def List.map_filter_simps reported_def Covers_def AllProducers_def sample_incident_def
        sample_producer sample_not_event)
  moreover have "\<not> sublist (replicate (nat 2) False) [False]" by (simp add: numeral_2_eq_2 sublist_Cons_right)
  ultimately show ?thesis
    using resolves_after_consecutive_absences [OF sample_facts run, of sample_incident] sample_stored
    by (auto simp: sample_incident_def)
qed

text \<open>no incident is closed without grounds. Whatever fails on the way, an incident that a pass resolved was
  open, is not about an event, came from a producer that the pass covers, is about an issue that the scan did
  not report, and this was the last of the consecutive absences that resolution takes.
\<close>

theorem resolution_is_justified:
  assumes "incident_store (dt_put d) (dt_list d) ok" "permutes_keys d" "incidents_inv ok d t w"
    and "ReconcileScoped d t current attacked cov w = (w', r, b)"
    and "x \<in> stored d w t" "in_status x = IncidentOpen" "y \<in> stored d w' t" "in_id y = in_id x" "in_status y \<noteq> IncidentOpen"
  shows "\<not> IsEventProducer (ProducerOf (in_rule x)) \<and> Covers cov (in_rule x) \<and> \<not> reported d current attacked (in_key x) \<and>
    resolveAfterAbsent d \<le> in_absent x + 1 \<and> y = x\<lparr>in_absent := in_absent x + 1, in_status := IncidentResolved,
      in_resolvedAt := dt_now d\<rparr>"
proof -
  let ?f = "after_pass d current attacked cov"
  obtain K where K: "stored d w' t = over_keys K ?f ` stored d w t \<union> set (ps_opened r)" and inv: "incidents_inv ok d t w'"
      and o: "\<forall>i \<in> set (ps_opened r). opened_for d t (presentIssues d current attacked) attacked
         (routing d t (presentIssues d current attacked)) i"
    using pass_view [OF assms(1-4)] by (elim exE conjE) (rule that, assumption+)
  have "y \<notin> set (ps_opened r)" using o assms(9) incident_of_same(3) unfolding opened_for_def by metis
  then obtain z where z: "z \<in> stored d w t" "y = over_keys K ?f z" using assms(7) unfolding K by blast
  have "in_id z = in_id x" using z(2) assms(8) by (simp add: over_keys_def split: if_splits)
  then have "z = x" by (rule stored_id [OF assms(1,3) z(1) assms(5)])
  then have "y = ?f x" using z(2) assms(6,9) by (auto simp: over_keys_def split: if_splits)
  then show ?thesis using assms(6,9) by (auto simp: after_pass_def split: if_splits)
qed

text \<open>The second pass of the example resolves it.\<close>

definition absent_twice :: incident where
  "absent_twice = sample_incident\<lparr>in_absent := 2, in_status := IncidentResolved, in_resolvedAt := 7200000000000\<rparr>"

definition sample_dworld2 :: "incidents dworld" where
  "sample_dworld2 = sample_dworld\<lparr>dw_store := (\<lambda>t. if t = ''t'' then [(''i1'', absent_twice)] else [])\<rparr>"

lemma sample_pass2:
  "ReconcileScoped sample_detector ''t'' [] (\<lambda>_. False) AllProducers sample_dworld1 =
     (sample_dworld2, \<lparr>ps_opened = [], ps_resolved = [absent_twice]\<rparr>, True)"
proof -
  have "presentIssues sample_detector [] (\<lambda>_. False) = []" by (simp add: presentIssues_def)
  moreover have "openIncidentsByKey sample_detector ''t'' sample_dworld1 = Some [(''nuclei::sqli|/a'', absent_once)]"
    by (simp add: openIncidentsByKey_def sample_detector_def sample_dworld1_def mem_ListIncidents_def absent_once_def sample_incident_def)
  moreover have "openNew sample_detector ''t'' [] openBy (\<lambda>_. False) sample_dworld1 = (sample_dworld1, [], True)" for openBy
    by (simp add: openNew_def suppressed_now_def sample_detector_def)
  moreover have "sweep_one sample_detector [] AllProducers ''nuclei::sqli|/a'' absent_once = Resolve absent_twice"
    by (simp add: sweep_one_def absent_once_def absent_twice_def sample_incident_def sample_producer sample_not_event
        Covers_def AllProducers_def resolveAfterAbsent_def sample_detector_def)
  moreover have "dt_order sample_detector ks = ks" for ks by (simp add: sample_detector_def)
  moreover have "record_incident sample_detector e i sample_dworld1 = sample_dworld1" for e i
    by (simp add: record_incident_def sample_dworld1_def sample_dworld_def Record_def)
  moreover have "dt_put sample_detector absent_twice (dw_store sample_dworld1) = Some (dw_store sample_dworld2)"
    by (auto simp: sample_detector_def mem_PutIncident_def absent_twice_def sample_incident_def sample_dworld1_def sample_dworld2_def)
  moreover have "sample_dworld1\<lparr>dw_store := dw_store sample_dworld2\<rparr> = sample_dworld2"
    by (simp add: sample_dworld1_def sample_dworld2_def)
  ultimately show ?thesis by (simp add: ReconcileScoped_def Let_def)
qed

lemma sample_inv1: "incidents_inv incidents_ok sample_detector ''t'' sample_dworld1"
  using pass_exact(2) [OF sample_facts sample_pass] .

theorem resolution_is_justified_witness:
  "\<not> reported sample_detector [] (\<lambda>_. False) (in_key absent_once) \<and> resolveAfterAbsent sample_detector \<le> in_absent absent_once + 1"
  using resolution_is_justified [OF sample_contract sample_permutes sample_inv1 sample_pass2, of absent_once absent_twice]
  by (simp add: stored_def sample_detector_def sample_dworld1_def sample_dworld2_def mem_ListIncidents_def absent_once_def
      absent_twice_def sample_incident_def)

text \<open>C19: a bulk event does not storm the pager. With an alert cap set, the pages that land for incidents that are
  not under attack number at most the cap in one pass (a page that failed does not use it up), and every
  incident opened under attack is paged, whatever the cap.
\<close>

theorem pages_are_capped:
  assumes "dt_alertCap d \<noteq> 0"
    and "ReconcileScoped d t current attacked cov w = (w', r, b)" and "OpenFor d t current attacked w = (w2, r2, b2)"
  shows "\<exists>es es2. dw_effects w' = dw_effects w @ es \<and> dw_effects w2 = dw_effects w @ es2 \<and>
    int (length (filter routine_page es)) \<le> max 0 (dt_alertCap d) \<and>
    int (length (filter routine_page es2)) \<le> max 0 (dt_alertCap d) \<and>
    (dt_alerter d \<noteq> None \<longrightarrow>
       (\<forall>i \<in> set (ps_opened r). in_attacked i \<longrightarrow> (\<exists>landed. Paged i landed \<in> set es)) \<and>
       (\<forall>i \<in> set (ps_opened r2). in_attacked i \<longrightarrow> (\<exists>landed. Paged i landed \<in> set es2)))"
proof (cases "openIncidentsByKey d t w")
  case None
  then show ?thesis using assms(2,3) by (auto simp: ReconcileScoped_def OpenFor_def)
next
  case (Some openBy)
  let ?p = "presentIssues d current attacked"
  obtain w1 os b1 where o: "openNew d t ?p openBy attacked w = (w1, os, b1)" by (metis prod_cases3)
  obtain es where es: "dw_effects w1 = dw_effects w @ es" "int (length (filter routine_page es)) \<le> max 0 (dt_alertCap d)"
      "dt_alerter d \<noteq> None \<longrightarrow> (\<forall>i \<in> set os. in_attacked i \<longrightarrow> (\<exists>b. Paged i b \<in> set es))"
    using openNew_effects [OF o assms(1)] by blast
  have "dw_effects w' = dw_effects w @ es \<and> ps_opened r = os"
    using assms(2) es(1)
    by (auto simp: ReconcileScoped_def Some o dest: resolve_loop_effects split: if_splits prod.splits)
  moreover have "\<exists>x. dw_effects w2 = dw_effects w @ (es @ x) \<and> filter routine_page x = [] \<and> ps_opened r2 = os"
    using assms(3) es(1) by (auto simp: OpenFor_def Some o Let_def split: if_splits)
  then obtain x where "dw_effects w2 = dw_effects w @ (es @ x)" "filter routine_page x = []" "ps_opened r2 = os" by blast
  ultimately show ?thesis using es(2,3) by (intro exI [of _ es] exI [of _ "es @ x"]) auto
qed

theorem pages_are_capped_witness:
  "\<exists>es. dw_effects sample_dworld1 = dw_effects sample_dworld @ es \<and> length (filter routine_page es) \<le> 1"
proof -
  obtain w2 r2 b2 where o: "OpenFor sample_detector ''t'' [] (\<lambda>_. False) sample_dworld = (w2, r2, b2)" by (metis prod_cases3)
  have "dt_alertCap sample_detector = 1" by (simp add: sample_detector_def)
  then show ?thesis using pages_are_capped [OF _ sample_pass o] by force
qed


lemma sample_suppressed: "\<not> suppressed_now sample_detector t" by (simp add: suppressed_now_def sample_detector_def)


text \<open>what a pass covers. A coverage built of producers covers a rule exactly when the producer that the rule
  names is one of them, an unnamed producer never; widening it adds those producers and takes none away; and
  the producer read off an issue's key is the one read off its rule, whatever the endpoint holds.
\<close>

theorem coverage_names_producers:
  "(Covers (CoverageOf ps) rule \<longleftrightarrow> ProducerOf rule \<noteq> [] \<and> ProducerOf rule \<in> normalizeProducer ` set ps) \<and>
   (Covers (With c ps) rule \<longleftrightarrow> Covers c rule \<or> Covers (CoverageOf ps) rule) \<and>
   ProducerOf (Key f) = ProducerOf (fi_rule f)"
proof -
  have add: "set (add_producers m ps) = set m \<union> {q \<in> normalizeProducer ` set ps. q \<noteq> []}" for m
    unfolding add_producers_def by (induction ps arbitrary: m) (auto simp: Let_def add_once_def)
  have "takeWhile (\<lambda>x. x \<noteq> CHR ''|'') (fi_rule f @ ''|'' @ fi_endpoint f) = takeWhile (\<lambda>x. x \<noteq> CHR ''|'') (fi_rule f)"
    by (cases "\<exists>x \<in> set (fi_rule f). x = CHR ''|''")
      (simp_all add: takeWhile_append takeWhile_eq_all_conv [THEN iffD2])
  then have "ProducerOf (Key f) = ProducerOf (fi_rule f)" unfolding ProducerOf_def before_bar Key_def by simp
  moreover have "Covers (CoverageOf ps) rule \<longleftrightarrow> ProducerOf rule \<noteq> [] \<and> ProducerOf rule \<in> normalizeProducer ` set ps"
    by (auto simp: Covers_def CoverageOf_def add Let_def)
  moreover have "Covers (With c ps) rule \<longleftrightarrow> Covers c rule \<or> Covers (CoverageOf ps) rule"
    by (auto simp: Covers_def With_def CoverageOf_def add Let_def)
  ultimately show ?thesis by blast
qed

end
