(* ===== verification/Retest.thy ===== *)
theory Retest
  imports Coverage FieldEvidence
begin

text \<open>
  internal/retest/retest.go and reattack.go, \<open>RecordVerification\<close> of pkg/platform/types.go, and the re-test
  step of a monitoring pass (internal/runner/runner.go): applied remediations are checked against the next
  re-scan, and a re-run of the exploit overrides what the re-scan concluded from absence. The re-scan policy
  and the re-attacker are interfaces, so arguments here; a policy answers (sufficient, known).
\<close>

section \<open>Finding keys\<close>

definition Keys :: "finding list \<Rightarrow> string list" where
  "Keys findings = foldl (\<lambda>out f. let k = Key f in if k \<in> set out then out else out @ [k]) [] findings"

definition KeysForIDs :: "string list \<Rightarrow> finding list \<Rightarrow> string list" where
  "KeysForIDs ids findings =
     (let byID = foldl (\<lambda>m f. put (fi_id f) f m) [] findings in Keys (List.map_filter (\<lambda>i. map_of byID i) ids))"

section \<open>Recording a verdict\<close>

definition maxVerificationHistory :: nat where "maxVerificationHistory = 32"

definition same_verdict :: "fix_verification \<Rightarrow> fix_verification \<Rightarrow> bool" where
  "same_verdict l v \<longleftrightarrow> fv_status l = fv_status v \<and> fv_disagreement l = fv_disagreement v \<and> fv_saidFixed l = fv_saidFixed v"

definition RecordVerification :: "fix_verification \<Rightarrow> action \<Rightarrow> action" where
  "RecordVerification v a =
     (let a1 = a\<lparr>a_verification := Some v\<rparr>; h = a_history a
      in if h \<noteq> [] \<and> same_verdict (last h) v then a1
         else let h1 = h @ [v]
              in a1\<lparr>a_history := (if maxVerificationHistory < length h1 then drop (length h1 - maxVerificationHistory) h1 else h1)\<rparr>)"

section \<open>The re-scan\<close>

type_synonym rescan_policy = "(string \<Rightarrow> bool \<times> bool) option"

text \<open>The dash of the messages.\<close>

definition dash :: string where "dash = utf8 [226, 128, 148]"

definition distrustedClass :: "rescan_policy \<Rightarrow> string list \<Rightarrow> string option" where
  "distrustedClass policy keys =
     (case policy of
        None \<Rightarrow> None
      | Some suff \<Rightarrow> List.find (\<lambda>c. let (sufficient, known) = suff c in known \<and> \<not> sufficient) (map ClassOf keys))"

definition rescan_evidence :: "string \<Rightarrow> nat \<Rightarrow> nat \<Rightarrow> string" where
  "rescan_evidence status fixed keys =
     (if status = FixStatusRescanUnconfirmed then dec_nat fixed @ '' of '' @ dec_nat keys @ '' gone in re-scan''
      else if status = FixStatusFixed then dec_nat fixed @ '' of '' @ dec_nat keys @ '' confirmed fixed in re-scan''
      else dec_nat (keys - fixed) @ '' of '' @ dec_nat keys @ '' still present in re-scan '' @ dash @
        '' fix did not close them'')"

definition coversAll :: "coverage \<Rightarrow> string list \<Rightarrow> bool" where
  "coversAll cov keys \<longleftrightarrow> list_all (Covers cov) keys"

definition rescan_conclusion :: "string list \<Rightarrow> rescan_policy \<Rightarrow> string list \<Rightarrow> string \<times> string" where
  "rescan_conclusion still policy keys =
     (if still \<noteq> [] then (FixStatusStillPresent, [])
      else case distrustedClass policy keys of
             None \<Rightarrow> (FixStatusFixed, [])
           | Some class \<Rightarrow>
               (FixStatusRescanUnconfirmed,
                '' '' @ dash @ '' but a clean re-scan for '' @ class @ '' has been contradicted by a live exploit '' @
                ''before, so this is not accepted as a confirmed fix until a re-attack settles it''))"

text \<open>The body of the loop: the action with its new verdict, if it has one.\<close>

definition rescan_one :: "string set \<Rightarrow> int \<Rightarrow> coverage \<Rightarrow> rescan_policy \<Rightarrow> action \<Rightarrow> action option" where
  "rescan_one present now cov policy a =
     (if a_status a \<noteq> ActApplied \<or> a_findingKeys a = [] then None
      else if (case a_verification a of None \<Rightarrow> False | Some v \<Rightarrow> fv_status v = FixStatusFixed) then None
      else if \<not> coversAll cov (a_findingKeys a) then None
      else let still = filter (\<lambda>k. k \<in> present) (a_findingKeys a);
               fixed = filter (\<lambda>k. k \<notin> present) (a_findingKeys a);
               (status, remark) = rescan_conclusion still policy (a_findingKeys a)
           in if (case a_verification a of None \<Rightarrow> False
                  | Some v \<Rightarrow> fv_status v = status \<and> length (fv_still v) = length still) then None
              else Some (RecordVerification
                \<lparr>fv_status = status, fv_method = ''rescan'', fv_at = now, fv_fixed = fixed, fv_still = still,
                 fv_evidence = rescan_evidence status (length fixed) (length (a_findingKeys a)) @ remark,
                 fv_saidFixed = False, fv_disagreement = []\<rparr> a))"

definition VerifyWithPolicy :: "action list \<Rightarrow> finding list \<Rightarrow> int \<Rightarrow> coverage \<Rightarrow> rescan_policy \<Rightarrow> action list" where
  "VerifyWithPolicy actions current now cov policy =
     List.map_filter (rescan_one (set (map Key current)) now cov policy) actions"

definition VerifyScoped :: "action list \<Rightarrow> finding list \<Rightarrow> int \<Rightarrow> coverage \<Rightarrow> action list" where
  "VerifyScoped actions current now cov = VerifyWithPolicy actions current now cov None"

definition VerifyFixes :: "action list \<Rightarrow> finding list \<Rightarrow> int \<Rightarrow> action list" where
  "VerifyFixes actions current now = VerifyScoped actions current now AllProducers"

section \<open>The re-attack\<close>

record reattack_verdict =
  rv_exploitable :: bool
  rv_verified :: bool
  rv_evidence :: string

abbreviation StatusClosedWithProof :: string where "StatusClosedWithProof \<equiv> ''closed_with_proof''"
abbreviation StatusStillExploitable :: string where "StatusStillExploitable \<equiv> ''still_exploitable''"
abbreviation MethodReattack :: string where "MethodReattack \<equiv> ''reattack''"
abbreviation DisagreeRescanMissedLiveExploit :: string where
  "DisagreeRescanMissedLiveExploit \<equiv> ''rescan_missed_live_exploit''"
abbreviation DisagreeScannerSeesVariant :: string where "DisagreeScannerSeesVariant \<equiv> ''scanner_sees_variant''"

definition alreadyFixedByRescan :: "action \<Rightarrow> bool" where
  "alreadyFixedByRescan a =
     (case a_verification a of None \<Rightarrow> False
      | Some v \<Rightarrow> fv_status v = FixStatusFixed \<or> fv_status v = FixStatusRescanUnconfirmed)"

definition exploitable_in :: "(string \<rightharpoonup> reattack_verdict) \<Rightarrow> string \<Rightarrow> bool" where
  "exploitable_in verdicts k = (case verdicts k of None \<Rightarrow> False | Some v \<Rightarrow> rv_verified v \<and> rv_exploitable v)"

definition closed_in :: "(string \<rightharpoonup> reattack_verdict) \<Rightarrow> string \<Rightarrow> bool" where
  "closed_in verdicts k = (case verdicts k of None \<Rightarrow> False | Some v \<Rightarrow> rv_verified v \<and> \<not> rv_exploitable v)"

text \<open>The evidence kept is the first that is not empty.\<close>

definition first_evidence :: "(string \<rightharpoonup> reattack_verdict) \<Rightarrow> string list \<Rightarrow> string" where
  "first_evidence verdicts ks =
     foldl (\<lambda>e k. if e = [] then (case verdicts k of None \<Rightarrow> [] | Some v \<Rightarrow> rv_evidence v) else e) [] ks"

definition reattack_fv :: "string list \<Rightarrow> string list \<Rightarrow> string \<Rightarrow> int \<Rightarrow> bool \<Rightarrow> fix_verification" where
  "reattack_fv exploitable gone seen now saidFixed =
     (let fv = \<lparr>fv_status = [], fv_method = MethodReattack, fv_at = now, fv_fixed = gone, fv_still = [],
                fv_evidence = [], fv_saidFixed = saidFixed, fv_disagreement = []\<rparr>
      in if exploitable \<noteq> [] then
           fv\<lparr>fv_status := StatusStillExploitable, fv_still := exploitable,
             fv_disagreement := (if saidFixed then DisagreeRescanMissedLiveExploit else []),
             fv_evidence := ''Re-ran the exploit after the fix: '' @ dec_nat (length exploitable) @ '' of '' @
               dec_nat (length exploitable + length gone) @ '' still succeed. '' @ seen\<rparr>
         else if saidFixed then
           fv\<lparr>fv_status := StatusClosedWithProof,
             fv_evidence := ''Re-ran the exploit after the fix: '' @ dec_nat (length gone) @ '' of '' @
               dec_nat (length gone) @ '' no longer succeed, and '' @
               ''the re-scan agrees the finding is gone. This is closure, not just absence.''\<rparr>
         else
           fv\<lparr>fv_status := StatusClosedWithProof, fv_disagreement := DisagreeScannerSeesVariant,
             fv_evidence := ''Re-ran the exploit after the fix: '' @ dec_nat (length gone) @
               '' no longer succeed. NOTE: the '' @
               ''re-scan still reports this finding, so the scanner may be seeing a variant the re-test '' @
               ''does not cover '' @ dash @ '' treat this as partial.''\<rparr>)"

definition reattack_one :: "(string \<rightharpoonup> reattack_verdict) \<Rightarrow> int \<Rightarrow> action \<Rightarrow> action option" where
  "reattack_one verdicts now a =
     (if a_status a \<noteq> ActApplied \<or> a_findingKeys a = [] then None
      else let exploitable = filter (exploitable_in verdicts) (a_findingKeys a);
               closed = filter (closed_in verdicts) (a_findingKeys a)
           in if exploitable = [] \<and> closed = [] then None
              else Some (RecordVerification
                (reattack_fv exploitable closed (first_evidence verdicts exploitable) now (alreadyFixedByRescan a)) a))"

definition ApplyReattack :: "action list \<Rightarrow> (string \<rightharpoonup> reattack_verdict) \<Rightarrow> int \<Rightarrow> action list" where
  "ApplyReattack actions verdicts now =
     (if verdicts = Map.empty then [] else List.map_filter (reattack_one verdicts now) actions)"

section \<open>The re-test step of a pass\<close>

definition appliedFindingKeys :: "action list \<Rightarrow> string list" where
  "appliedFindingKeys actions =
     sort_by str_less (foldl (\<lambda>out k. if k \<noteq> [] \<and> k \<notin> set out then out @ [k] else out) []
       (concat (map a_findingKeys (filter (\<lambda>a. a_status a = ActApplied) actions))))"

text \<open>
  The re-scan's verdicts replace the listed actions by identifier; the re-attack then runs on the result, which
  Go reads from a map in any order. The result is the list of writes, in order; a write that fails is reported
  and does not stop the others.
\<close>

definition by_id :: "(string \<times> action) list \<Rightarrow> action list \<Rightarrow> (string \<times> action) list" where
  "by_id m as = foldl (\<lambda>m a. put (a_id a) a m) m as"

definition retest_step :: "(action list \<Rightarrow> action list) \<Rightarrow> (string list \<Rightarrow> string \<rightharpoonup> reattack_verdict) option \<Rightarrow> string \<Rightarrow>
    action list \<Rightarrow> finding list \<Rightarrow> int \<Rightarrow> coverage \<Rightarrow> action list" where
  "retest_step order reattacker tenantID acts current now cov =
     (let byID = by_id [] acts;
          policy = Some (RescanSufficient (Some (ForTenant tenantID acts no_options)));
          verified = VerifyWithPolicy acts current now cov policy;
          merged = order (map snd (by_id byID verified))
      in case reattacker of
           None \<Rightarrow> verified
         | Some run \<Rightarrow> verified @ ApplyReattack merged (run (appliedFindingKeys merged)) now)"

end
