(* ===== verification/RetestProps.thy ===== *)
theory RetestProps
  imports Retest
begin

text \<open>
  The properties of fix verification: the verdict of a re-scan, the history of verdicts, and the re-test step of
  a pass, in which a live exploit overrides the re-scan.
\<close>

section \<open>Recording\<close>

text \<open>The history of an action: bounded, without repetition, ending in what the action's verdict says.\<close>

definition history_ok :: "action \<Rightarrow> bool" where
  "history_ok a \<longleftrightarrow> length (a_history a) \<le> maxVerificationHistory \<and>
     successively (\<lambda>l v. \<not> same_verdict l v) (a_history a) \<and>
     (case a_verification a of None \<Rightarrow> a_history a = []
      | Some v \<Rightarrow> a_history a \<noteq> [] \<and> same_verdict (last (a_history a)) v)"

lemma same_verdict_refl [simp]: "same_verdict v v" by (simp add: same_verdict_def)

lemma successively_drop: "successively P xs \<Longrightarrow> successively P (drop n xs)"
  by (metis append_take_drop_id successively_append_iff)

lemma RecordVerification_same [simp]:
  "a_id (RecordVerification v a) = a_id a" "a_status (RecordVerification v a) = a_status a"
  "a_findingKeys (RecordVerification v a) = a_findingKeys a" "a_verification (RecordVerification v a) = Some v"
  "a_tenant (RecordVerification v a) = a_tenant a"
  by (simp_all add: RecordVerification_def Let_def)

lemma RecordVerification_history:
  "a_history (RecordVerification v a) =
     (if a_history a \<noteq> [] \<and> same_verdict (last (a_history a)) v then a_history a
      else drop (Suc (length (a_history a)) - maxVerificationHistory) (a_history a @ [v]))"
  by (auto simp: RecordVerification_def Let_def simp del: drop_append)

lemma history_ok_record:
  assumes "history_ok a"
  shows "history_ok (RecordVerification v a)"
proof (cases "a_history a \<noteq> [] \<and> same_verdict (last (a_history a)) v")
  case True
  then show ?thesis using assms by (simp add: history_ok_def RecordVerification_history split: option.splits)
next
  case False
  let ?n = "Suc (length (a_history a)) - maxVerificationHistory"
  have h: "a_history (RecordVerification v a) = drop ?n (a_history a @ [v])" using False by (simp only: RecordVerification_history if_False)
  have n: "?n \<le> length (a_history a)" by (simp add: maxVerificationHistory_def)
  have "successively (\<lambda>l v. \<not> same_verdict l v) (a_history a @ [v])"
    using assms False by (auto simp: history_ok_def successively_append_iff)
  then have "successively (\<lambda>l v. \<not> same_verdict l v) (drop ?n (a_history a @ [v]))" by (rule successively_drop)
  then show ?thesis using n by (simp add: history_ok_def h)
qed

section \<open>The re-scan\<close>

definition verifiable :: "coverage \<Rightarrow> action \<Rightarrow> bool" where
  "verifiable cov a \<longleftrightarrow> a_status a = ActApplied \<and> a_findingKeys a \<noteq> [] \<and>
     (\<forall>v. a_verification a = Some v \<longrightarrow> fv_status v \<noteq> FixStatusFixed) \<and> (\<forall>k \<in> set (a_findingKeys a). Covers cov k)"

definition rescan_status :: "string set \<Rightarrow> rescan_policy \<Rightarrow> action \<Rightarrow> string" where
  "rescan_status present policy a =
     (if \<exists>k \<in> set (a_findingKeys a). k \<in> present then FixStatusStillPresent
      else if \<exists>suff. policy = Some suff \<and> (\<exists>k \<in> set (a_findingKeys a). snd (suff (ClassOf k)) \<and> \<not> fst (suff (ClassOf k)))
           then FixStatusRescanUnconfirmed
      else FixStatusFixed)"

text \<open>The verdict an action holds agrees with what a re-scan says of it now.\<close>

definition agrees :: "string set \<Rightarrow> rescan_policy \<Rightarrow> action \<Rightarrow> bool" where
  "agrees present policy a \<longleftrightarrow> (\<exists>v. a_verification a = Some v \<and> fv_status v = rescan_status present policy a \<and>
     length (fv_still v) = length (filter (\<lambda>k. k \<in> present) (a_findingKeys a)))"

lemma distrusted_iff:
  "distrustedClass policy keys = None \<longleftrightarrow>
     \<not> (\<exists>suff. policy = Some suff \<and> (\<exists>k \<in> set keys. snd (suff (ClassOf k)) \<and> \<not> fst (suff (ClassOf k))))"
  by (cases policy) (auto simp: distrustedClass_def find_None_iff split_beta Let_def)

lemma rescan_conclusion_status:
  "fst (rescan_conclusion (filter (\<lambda>k. k \<in> present) (a_findingKeys a)) policy (a_findingKeys a)) = rescan_status present policy a"
proof (cases "distrustedClass policy (a_findingKeys a)")
  case None
  then show ?thesis using distrusted_iff [of policy "a_findingKeys a"]
    by (auto simp: rescan_conclusion_def rescan_status_def filter_empty_conv)
next
  case (Some c)
  then show ?thesis using distrusted_iff [of policy "a_findingKeys a"]
    by (auto simp: rescan_conclusion_def rescan_status_def filter_empty_conv)
qed

text \<open>The verdict that a re-scan writes.\<close>

definition rescan_verdict :: "string set \<Rightarrow> rescan_policy \<Rightarrow> int \<Rightarrow> action \<Rightarrow> fix_verification \<Rightarrow> bool" where
  "rescan_verdict present policy now a v \<longleftrightarrow> fv_status v = rescan_status present policy a \<and> fv_method v = ''rescan'' \<and>
     fv_at v = now \<and> fv_fixed v = filter (\<lambda>k. k \<notin> present) (a_findingKeys a) \<and>
     fv_still v = filter (\<lambda>k. k \<in> present) (a_findingKeys a) \<and> \<not> fv_saidFixed v \<and> fv_disagreement v = []"

lemma rescan_one_iff:
  "rescan_one present now cov policy a = None \<longleftrightarrow> \<not> verifiable cov a \<or> agrees present policy a"
  "rescan_one present now cov policy a = Some b \<Longrightarrow> \<exists>v. b = RecordVerification v a \<and> rescan_verdict present policy now a v"
proof -
  let ?still = "filter (\<lambda>k. k \<in> present) (a_findingKeys a)"
  obtain s r where c: "rescan_conclusion ?still policy (a_findingKeys a) = (s, r)" by fastforce
  have s: "s = rescan_status present policy a" using rescan_conclusion_status [of present a policy] c by simp
  have v: "verifiable cov a \<longleftrightarrow> \<not> (a_status a \<noteq> ActApplied \<or> a_findingKeys a = []) \<and>
      \<not> (case a_verification a of None \<Rightarrow> False | Some v \<Rightarrow> fv_status v = FixStatusFixed) \<and> coversAll cov (a_findingKeys a)"
    by (auto simp: verifiable_def coversAll_def list_all_iff split: option.splits)
  have ag: "agrees present policy a \<longleftrightarrow> (case a_verification a of None \<Rightarrow> False
      | Some v \<Rightarrow> fv_status v = s \<and> length (fv_still v) = length ?still)"
    by (auto simp: agrees_def s split: option.splits)
  show "rescan_one present now cov policy a = None \<longleftrightarrow> \<not> verifiable cov a \<or> agrees present policy a"
    unfolding rescan_one_def v ag by (simp add: Let_def c)
  show "\<exists>v. b = RecordVerification v a \<and> rescan_verdict present policy now a v" if "rescan_one present now cov policy a = Some b"
  proof -
    have "b = RecordVerification \<lparr>fv_status = s, fv_method = ''rescan'', fv_at = now,
        fv_fixed = filter (\<lambda>k. k \<notin> present) (a_findingKeys a), fv_still = ?still,
        fv_evidence = rescan_evidence s (length (filter (\<lambda>k. k \<notin> present) (a_findingKeys a))) (length (a_findingKeys a)) @ r,
        fv_saidFixed = False, fv_disagreement = []\<rparr> a"
      using that unfolding rescan_one_def by (simp add: Let_def c split: if_splits)
    then show ?thesis by (intro exI conjI, assumption) (simp add: rescan_verdict_def s)
  qed
qed

section \<open>The re-attack\<close>

definition reattack_status :: "(string \<rightharpoonup> reattack_verdict) \<Rightarrow> action \<Rightarrow> string" where
  "reattack_status verdicts a =
     (if \<exists>k \<in> set (a_findingKeys a). exploitable_in verdicts k then StatusStillExploitable else StatusClosedWithProof)"

text \<open>The verdict that a re-attack writes, with the disagreement it records.\<close>

definition reattack_result :: "(string \<rightharpoonup> reattack_verdict) \<Rightarrow> int \<Rightarrow> action \<Rightarrow> fix_verification \<Rightarrow> bool" where
  "reattack_result verdicts now a v \<longleftrightarrow>
     fv_status v = reattack_status verdicts a \<and> fv_method v = MethodReattack \<and> fv_at v = now \<and>
     fv_fixed v = filter (closed_in verdicts) (a_findingKeys a) \<and>
     fv_still v = filter (exploitable_in verdicts) (a_findingKeys a) \<and> fv_saidFixed v = alreadyFixedByRescan a \<and>
     fv_disagreement v =
       (if fv_status v = StatusStillExploitable then (if alreadyFixedByRescan a then DisagreeRescanMissedLiveExploit else [])
        else if alreadyFixedByRescan a then [] else DisagreeScannerSeesVariant)"

definition retested :: "(string \<rightharpoonup> reattack_verdict) \<Rightarrow> action \<Rightarrow> bool" where
  "retested verdicts a \<longleftrightarrow> a_status a = ActApplied \<and>
     (\<exists>k \<in> set (a_findingKeys a). exploitable_in verdicts k \<or> closed_in verdicts k)"

lemma reattack_one_iff:
  "reattack_one verdicts now a = None \<longleftrightarrow> \<not> retested verdicts a"
  "reattack_one verdicts now a = Some b \<Longrightarrow> \<exists>v. b = RecordVerification v a \<and> reattack_result verdicts now a v"
proof -
  show "reattack_one verdicts now a = None \<longleftrightarrow> \<not> retested verdicts a"
    by (auto simp: reattack_one_def retested_def Let_def filter_empty_conv split: if_splits)
  let ?e = "filter (exploitable_in verdicts) (a_findingKeys a)" and ?c = "filter (closed_in verdicts) (a_findingKeys a)"
  have "reattack_result verdicts now a (reattack_fv ?e ?c s now (alreadyFixedByRescan a))" for s
    by (simp add: reattack_result_def reattack_status_def reattack_fv_def Let_def filter_empty_conv)
  moreover have "b = RecordVerification (reattack_fv ?e ?c (first_evidence verdicts ?e) now (alreadyFixedByRescan a)) a"
    if "reattack_one verdicts now a = Some b"
    using that unfolding reattack_one_def Let_def by (simp split: if_splits)
  ultimately show "\<exists>v. b = RecordVerification v a \<and> reattack_result verdicts now a v" if "reattack_one verdicts now a = Some b"
    using that by blast
qed

section \<open>The step of a pass\<close>

definition permutes_actions :: "(action list \<Rightarrow> action list) \<Rightarrow> bool" where
  "permutes_actions order \<longleftrightarrow> (\<forall>as. mset (order as) = mset as)"

lemma by_id_out: "i \<notin> a_id ` set as \<Longrightarrow> map_of (by_id m as) i = map_of m i"
  unfolding by_id_def by (induction as arbitrary: m) auto

lemma by_id_in: "distinct (map a_id as) \<Longrightarrow> a \<in> set as \<Longrightarrow> map_of (by_id m as) (a_id a) = Some a"
proof (induction as arbitrary: m)
  case (Cons b as)
  show ?case
  proof (cases "a = b")
    case True
    then have "map_of (by_id (put (a_id b) b m) as) (a_id b) = map_of (put (a_id b) b m) (a_id b)"
      using Cons.prems(1) by (intro by_id_out) auto
    then show ?thesis using True by (simp add: by_id_def)
  next
    case False
    then show ?thesis using Cons.IH [of "put (a_id b) b m"] Cons.prems by (simp add: by_id_def)
  qed
qed simp

definition filed_by_id :: "(string \<times> action) list \<Rightarrow> bool" where
  "filed_by_id m \<longleftrightarrow> distinct (map fst m) \<and> (\<forall>e \<in> set m. a_id (snd e) = fst e)"

lemma filed_by_id: "filed_by_id m \<Longrightarrow> filed_by_id (by_id m as)"
  unfolding by_id_def
proof (induction as arbitrary: m)
  case (Cons a as)
  have "filed_by_id (put (a_id a) a m)" using Cons.prems set_put [of _ "a_id a" a m] by (fastforce simp: filed_by_id_def)
  then show ?case using Cons.IH by simp
qed simp

lemma filed_mem:
  assumes "filed_by_id m"
  shows "a \<in> set (map snd m) \<longleftrightarrow> map_of m (a_id a) = Some a"
proof
  note f = assms
  assume "a \<in> set (map snd m)"
  then obtain e where e: "e \<in> set m" "snd e = a" by auto
  then have "(a_id a, a) \<in> set m" using f by (metis filed_by_id_def prod.collapse)
  then show "map_of m (a_id a) = Some a" using f by (simp add: filed_by_id_def)
next
  assume "map_of m (a_id a) = Some a"
  then show "a \<in> set (map snd m)" by (force dest: map_of_SomeD)
qed

lemma filed_distinct: "filed_by_id m \<Longrightarrow> distinct (map a_id (map snd m))"
proof -
  assume f: "filed_by_id m"
  then have "map a_id (map snd m) = map fst m" by (simp add: filed_by_id_def)
  then show ?thesis using f unfolding filed_by_id_def by presburger
qed

text \<open>What a list of verdicts makes of an action.\<close>

definition settle :: "(action \<Rightarrow> action option) \<Rightarrow> action \<Rightarrow> action" where
  "settle f a = (case f a of None \<Rightarrow> a | Some b \<Rightarrow> b)"

lemma by_id_filter:
  assumes "distinct (map a_id as)" "a \<in> set as" "\<And>x y. f x = Some y \<Longrightarrow> a_id y = a_id x"
  shows "map_of (by_id m (List.map_filter f as)) (a_id a) = (case f a of None \<Rightarrow> map_of m (a_id a) | Some b \<Rightarrow> Some b)"
proof -
  have ids: "map a_id (List.map_filter f as) = map a_id (filter (\<lambda>x. f x \<noteq> None) as)"
    unfolding List.map_filter_def by (induction as) (auto simp: assms(3))
  have d: "distinct (map a_id (List.map_filter f as))" unfolding ids using assms(1) by (rule distinct_map_filter)
  show ?thesis
  proof (cases "f a")
    case None
    have "a_id a \<notin> a_id ` set (filter (\<lambda>x. f x \<noteq> None) as)"
    proof
      assume "a_id a \<in> a_id ` set (filter (\<lambda>x. f x \<noteq> None) as)"
      then obtain x where "x \<in> set as" "f x \<noteq> None" "a_id x = a_id a" by auto
      moreover have "inj_on a_id (set as)" using assms(1) by (simp add: distinct_map)
      ultimately show False using None assms(2) by (metis inj_onD)
    qed
    then have "a_id a \<notin> a_id ` set (List.map_filter f as)" by (metis ids image_set)
    then show ?thesis using None by (simp add: by_id_out)
  next
    case (Some b)
    then have "b \<in> set (List.map_filter f as)" using assms(2) by (force simp: List.map_filter_def)
    then show ?thesis using by_id_in [OF d, of b m] assms(3) [OF Some] Some by simp
  qed
qed

lemma rescan_one_id: "rescan_one present now cov policy a = Some b \<Longrightarrow> a_id b = a_id a"
  using rescan_one_iff(2) by fastforce

lemma reattack_one_id: "reattack_one verdicts now a = Some b \<Longrightarrow> a_id b = a_id a"
  using reattack_one_iff(2) by fastforce

lemma settle_id: "(\<And>x y. f x = Some y \<Longrightarrow> a_id y = a_id x) \<Longrightarrow> a_id (settle f a) = a_id a"
  by (simp add: settle_def split: option.splits)

lemma reattack_none: "reattack_one Map.empty now a = None"
  using reattack_one_iff(1) [of Map.empty now a] by (simp add: retested_def exploitable_in_def closed_in_def)

lemma ApplyReattack_filter: "ApplyReattack as verdicts now = List.map_filter (reattack_one verdicts now) as"
proof (cases "verdicts = Map.empty")
  case True
  then show ?thesis by (simp add: ApplyReattack_def reattack_none List.map_filter_def)
qed (simp add: ApplyReattack_def)

text \<open>The store after the step's writes: each action as the re-scan and then the re-attack settle it.\<close>

definition tenant_policy :: "string \<Rightarrow> action list \<Rightarrow> rescan_policy" where
  "tenant_policy tenantID acts = Some (RescanSufficient (Some (ForTenant tenantID acts no_options)))"

definition rescanned :: "string \<Rightarrow> action list \<Rightarrow> finding list \<Rightarrow> int \<Rightarrow> coverage \<Rightarrow> action \<Rightarrow> action" where
  "rescanned tenantID acts current now cov =
     settle (rescan_one (set (map Key current)) now cov (tenant_policy tenantID acts))"

definition merged_actions :: "(action list \<Rightarrow> action list) \<Rightarrow> string \<Rightarrow> action list \<Rightarrow> finding list \<Rightarrow> int \<Rightarrow> coverage \<Rightarrow> action list" where
  "merged_actions order tenantID acts current now cov =
     order (map snd (by_id (by_id [] acts) (VerifyWithPolicy acts current now cov (tenant_policy tenantID acts))))"

lemma merged_actions:
  assumes "distinct (map a_id acts)" "permutes_actions order"
  shows "distinct (map a_id (merged_actions order tenantID acts current now cov))"
    and "a \<in> set acts \<Longrightarrow> rescanned tenantID acts current now cov a \<in> set (merged_actions order tenantID acts current now cov)"
proof -
  let ?f = "rescan_one (set (map Key current)) now cov (tenant_policy tenantID acts)"
  let ?m = "by_id (by_id [] acts) (VerifyWithPolicy acts current now cov (tenant_policy tenantID acts))"
  have filed: "filed_by_id ?m" by (intro filed_by_id) (simp add: filed_by_id_def)
  have ms: "mset (merged_actions order tenantID acts current now cov) = mset (map snd ?m)"
    using assms(2) by (simp add: merged_actions_def permutes_actions_def)
  then have "mset (map a_id (merged_actions order tenantID acts current now cov)) = mset (map a_id (map snd ?m))"
    by (simp only: mset_map)
  then show "distinct (map a_id (merged_actions order tenantID acts current now cov))"
    using filed_distinct [OF filed] mset_eq_imp_distinct_iff by blast
  assume a: "a \<in> set acts"
  have "map_of ?m (a_id a) = (case ?f a of None \<Rightarrow> map_of (by_id [] acts) (a_id a) | Some b \<Rightarrow> Some b)"
    unfolding VerifyWithPolicy_def by (rule by_id_filter [OF assms(1) a rescan_one_id])
  then have "map_of ?m (a_id (rescanned tenantID acts current now cov a)) = Some (rescanned tenantID acts current now cov a)"
    using by_id_in [OF assms(1) a, of "[]"] settle_id [of ?f a, OF rescan_one_id]
    by (simp add: rescanned_def settle_def split: option.splits)
  then have "rescanned tenantID acts current now cov a \<in> set (map snd ?m)" by (simp only: filed_mem [OF filed])
  then show "rescanned tenantID acts current now cov a \<in> set (merged_actions order tenantID acts current now cov)"
    using ms by (metis mset_eq_setD)
qed

lemma retest_step_store:
  assumes "distinct (map a_id acts)" "permutes_actions order" "a \<in> set acts"
  shows "map_of (by_id (by_id [] acts) (retest_step order (Some run) tenantID acts current now cov)) (a_id a) =
    Some (settle (reattack_one (run (appliedFindingKeys (merged_actions order tenantID acts current now cov))) now)
      (rescanned tenantID acts current now cov a))"
    and "map_of (by_id (by_id [] acts) (retest_step order None tenantID acts current now cov)) (a_id a) =
      Some (rescanned tenantID acts current now cov a)"
proof -
  let ?f = "rescan_one (set (map Key current)) now cov (tenant_policy tenantID acts)"
  let ?M = "merged_actions order tenantID acts current now cov" and ?b = "rescanned tenantID acts current now cov a"
  let ?v = "VerifyWithPolicy acts current now cov (tenant_policy tenantID acts)"
  let ?r = "run (appliedFindingKeys ?M)"
  have step: "retest_step order (Some run) tenantID acts current now cov = ?v @ List.map_filter (reattack_one ?r now) ?M"
    "retest_step order None tenantID acts current now cov = ?v"
    unfolding ApplyReattack_filter [symmetric] by (simp_all add: retest_step_def merged_actions_def tenant_policy_def Let_def)
  have app: "by_id m (xs @ ys) = by_id (by_id m xs) ys" for m xs ys by (simp add: by_id_def)
  have id: "a_id ?b = a_id a" unfolding rescanned_def by (rule settle_id) (rule rescan_one_id)
  have v: "map_of (by_id (by_id [] acts) ?v) (a_id a) = Some ?b"
    using by_id_filter [OF assms(1,3), of ?f "by_id [] acts"] by_id_in [OF assms(1,3), of "[]"] rescan_one_id
    unfolding VerifyWithPolicy_def rescanned_def settle_def by (auto split: option.splits)
  then show "map_of (by_id (by_id [] acts) (retest_step order None tenantID acts current now cov)) (a_id a) = Some ?b"
    by (simp only: step)
  have "map_of (by_id (by_id (by_id [] acts) ?v) (List.map_filter (reattack_one ?r now) ?M)) (a_id ?b) =
      (case reattack_one ?r now ?b of None \<Rightarrow> map_of (by_id (by_id [] acts) ?v) (a_id ?b) | Some c \<Rightarrow> Some c)"
    by (rule by_id_filter [OF merged_actions(1) [OF assms(1,2)] merged_actions(2) [OF assms] reattack_one_id])
  then show "map_of (by_id (by_id [] acts) (retest_step order (Some run) tenantID acts current now cov)) (a_id a) =
      Some (settle (reattack_one ?r now) ?b)"
    by (simp add: step app id v settle_def split: option.splits)
qed

lemma by_id_members: "set (map snd (by_id m as)) \<subseteq> set (map snd m) \<union> set as"
  unfolding by_id_def
proof (induction as arbitrary: m)
  case (Cons a as)
  have "set (map snd (put (a_id a) a m)) \<subseteq> insert a (set (map snd m))" using set_put [of _ "a_id a" a m] by fastforce
  moreover have "set (map snd (foldl (\<lambda>m a. put (a_id a) a m) (put (a_id a) a m) as)) \<subseteq>
      set (map snd (put (a_id a) a m)) \<union> set as" by (rule Cons.IH)
  ultimately show ?case by (simp only: foldl.simps list.set(2)) blast
qed simp

lemma settle_cases: "settle f a = a \<and> f a = None \<or> f a = Some (settle f a)"
  by (cases "f a") (simp_all add: settle_def)

lemma rescanned_kept:
  "a_id (rescanned t acts current now cov a) = a_id a" "a_status (rescanned t acts current now cov a) = a_status a"
  "a_findingKeys (rescanned t acts current now cov a) = a_findingKeys a"
  using rescan_one_iff(2) [of "set (map Key current)" now cov "tenant_policy t acts" a]
  by (auto simp: rescanned_def settle_def split: option.splits)

lemma retested_rescanned: "retested verdicts (rescanned t acts current now cov a) = retested verdicts a"
  by (simp add: retested_def rescanned_kept)

lemma reattack_status_rescanned: "reattack_status verdicts (rescanned t acts current now cov a) = reattack_status verdicts a"
  by (simp add: reattack_status_def rescanned_kept)

text \<open>The verdict an action ends a re-scan with.\<close>

definition verdict_status :: "action \<Rightarrow> string option" where
  "verdict_status a = map_option fv_status (a_verification a)"

lemma rescanned_status:
  "verdict_status (rescanned t acts current now cov a) =
     (if verifiable cov a then Some (rescan_status (Key ` set current) (tenant_policy t acts) a) else verdict_status a)"
proof (cases "rescan_one (set (map Key current)) now cov (tenant_policy t acts) a")
  case None
  then have "\<not> verifiable cov a \<or> agrees (Key ` set current) (tenant_policy t acts) a" using rescan_one_iff(1) by fastforce
  then show ?thesis using None by (auto simp: verdict_status_def rescanned_def settle_def agrees_def)
next
  case (Some b)
  then have "verifiable cov a" using rescan_one_iff(1) by (metis option.distinct(1))
  then show ?thesis using rescan_one_iff(2) [OF Some] Some
    by (auto simp: verdict_status_def rescanned_def settle_def rescan_verdict_def)
qed

lemma settled_status:
  "verdict_status (settle (reattack_one verdicts now) b) =
     (if retested verdicts b then Some (reattack_status verdicts b) else verdict_status b)"
proof (cases "reattack_one verdicts now b")
  case None
  then show ?thesis using reattack_one_iff(1) [of verdicts now b] by (simp add: settle_def)
next
  case (Some c)
  then have "retested verdicts b" using reattack_one_iff(1) [of verdicts now b] by auto
  then show ?thesis using reattack_one_iff(2) [OF Some] Some by (auto simp: verdict_status_def settle_def reattack_result_def)
qed

lemma rescan_again:
  "rescan_one present now' cov policy (settle (rescan_one present now cov policy) a) = None"
proof (cases "rescan_one present now cov policy a")
  case None
  then show ?thesis using rescan_one_iff(1) [of present now cov policy a] rescan_one_iff(1) [of present now' cov policy a]
    by (simp add: settle_def)
next
  case (Some b)
  obtain v where v: "b = RecordVerification v a" "rescan_verdict present policy now a v" using rescan_one_iff(2) [OF Some] by blast
  have "rescan_status present policy b = rescan_status present policy a" by (simp add: v(1) rescan_status_def)
  then have "agrees present policy b" using v by (auto simp: agrees_def rescan_verdict_def)
  then show ?thesis using rescan_one_iff(1) [of present now' cov policy b] Some by (simp add: settle_def)
qed

lemma last_recorded: "same_verdict (last (a_history (RecordVerification v a))) v"
  by (auto simp: RecordVerification_history maxVerificationHistory_def)

section \<open>Examples\<close>

text \<open>An applied remediation of one finding, not verified yet; the scan no longer reports it, its exploit still works.\<close>

definition sample_fix :: action where
  "sample_fix = \<lparr>a_id = ''a1'', a_tenant = ''t'', a_finding = ''f1'', a_kind = ''pull_request'', a_tier = 2, a_status = ActApplied,
     a_payload = [], a_approver = ''alice'', a_feedback = [], a_reviewedBy = [], a_reviewedAt = 0,
     a_findingKeys = [''xss|/a''], a_verification = None, a_history = [], a_ticket = None, a_deliveryError = [],
     a_createdAt = 1, a_decidedAt = 2\<rparr>"

definition live_exploit :: "string list \<Rightarrow> string \<rightharpoonup> reattack_verdict" where
  "live_exploit keys = [''xss|/a'' \<mapsto> \<lparr>rv_exploitable = True, rv_verified = True, rv_evidence = ''alert(1)''\<rparr>]"

lemma sample_verifiable: "verifiable AllProducers sample_fix"
  by (simp add: verifiable_def sample_fix_def Covers_def AllProducers_def)

lemma sample_exploitable: "exploitable_in (live_exploit ks) ''xss|/a''"
  by (simp add: exploitable_in_def live_exploit_def)

lemma sample_order: "permutes_actions (\<lambda>as. as)" by (simp add: permutes_actions_def)

lemma sample_keys: "a_findingKeys sample_fix = [''xss|/a'']" "a_status sample_fix = ActApplied" "a_id sample_fix = ''a1''"
  by (simp_all add: sample_fix_def)

lemma sample_not_agrees: "\<not> agrees present policy sample_fix" by (simp add: agrees_def sample_fix_def)

section \<open>Properties\<close>



text \<open>verifying is idempotent. Once the verdicts of a re-scan are written, the same re-scan judged again, at any
  later time, returns no action.
\<close>

theorem reverify_changes_nothing:
  "VerifyWithPolicy (map (settle (rescan_one (Key ` set current) now cov policy)) actions) current now' cov policy = []"
  using rescan_again [of "Key ` set current" now' cov policy now]
  by (simp add: VerifyWithPolicy_def List.map_filter_def filter_empty_conv)

text \<open>the verdict with which an action ends the re-test step of a pass. If one of its keys was re-attacked, the
  re-attack decides, whatever the re-scan concluded before or now: a key whose exploit still works makes it
  "still exploitable", otherwise it is "closed with proof". If none was, a re-scan that covers the action decides,
  and an action it does not cover keeps its verdict.
\<close>

theorem fix_status_is_exact:
  assumes "distinct (map a_id acts)" "permutes_actions order" "a \<in> set acts"
    and "verdicts = run (appliedFindingKeys (merged_actions order tenantID acts current now cov))"
  shows "\<exists>b. map_of (by_id (by_id [] acts) (retest_step order (Some run) tenantID acts current now cov)) (a_id a) = Some b \<and>
    verdict_status b =
      (if retested verdicts a then Some (reattack_status verdicts a)
       else if verifiable cov a then Some (rescan_status (Key ` set current) (tenant_policy tenantID acts) a)
       else verdict_status a)"
  using retest_step_store(1) [OF assms(1-3), of run tenantID current now cov]
  unfolding assms(4) [symmetric]
  by (simp add: settled_status retested_rescanned reattack_status_rescanned rescanned_status)

theorem fix_status_is_exact_witness:
  "\<exists>b. map_of (by_id (by_id [] [sample_fix]) (retest_step (\<lambda>as. as) (Some live_exploit) ''t'' [sample_fix] [] 5 AllProducers)) ''a1'' =
     Some b \<and> verdict_status b = Some StatusStillExploitable"
proof -
  have "retested (live_exploit ks) sample_fix" "reattack_status (live_exploit ks) sample_fix = StatusStillExploitable" for ks
    by (simp_all add: retested_def reattack_status_def sample_keys sample_exploitable)
  then show ?thesis
    using fix_status_is_exact [of "[sample_fix]" "\<lambda>as. as" sample_fix _ live_exploit "''t''" "[]" 5 AllProducers] sample_order
    by (simp add: sample_keys(3))
qed

text \<open>C21: a live exploit beats a scanner's silence, and the contradiction is remembered. If the exploit of one of an
  applied action's keys still works, the action ends the step as still exploitable, on the re-attack's word, with
  that key listed; and if the re-scan had the finding gone, the last entry of its history is the disagreement that
  the field-evidence corpus reads.
\<close>

theorem live_exploit_beats_silence:
  assumes "distinct (map a_id acts)" "permutes_actions order" "a \<in> set acts" "a_status a = ActApplied"
    and "verdicts = run (appliedFindingKeys (merged_actions order tenantID acts current now cov))"
    and "k \<in> set (a_findingKeys a)" "exploitable_in verdicts k"
  shows "\<exists>b v. map_of (by_id (by_id [] acts) (retest_step order (Some run) tenantID acts current now cov)) (a_id a) = Some b \<and>
    a_verification b = Some v \<and> fv_status v = StatusStillExploitable \<and> fv_method v = MethodReattack \<and> k \<in> set (fv_still v) \<and>
    (alreadyFixedByRescan (rescanned tenantID acts current now cov a) \<longrightarrow>
       fv_disagreement (last (a_history b)) = DisagreeRescanMissedLiveExploit \<and> fv_saidFixed (last (a_history b)))"
proof -
  let ?b = "rescanned tenantID acts current now cov a"
  have "retested verdicts a" using assms(4,6,7) by (auto simp: retested_def)
  then obtain c where c: "reattack_one verdicts now ?b = Some c"
    using reattack_one_iff(1) [of verdicts now ?b] retested_rescanned by fastforce
  obtain v where v: "c = RecordVerification v ?b" "reattack_result verdicts now ?b v" using reattack_one_iff(2) [OF c] by blast
  have s: "fv_status v = StatusStillExploitable"
  proof -
    have "fv_status v = reattack_status verdicts a" using v(2) reattack_status_rescanned unfolding reattack_result_def by metis
    then show ?thesis using assms(6,7) by (auto simp: reattack_status_def)
  qed
  have "map_of (by_id (by_id [] acts) (retest_step order (Some run) tenantID acts current now cov)) (a_id a) = Some c"
    using retest_step_store(1) [OF assms(1-3), of run tenantID current now cov] c unfolding assms(5) [symmetric]
    by (simp add: settle_def)
  moreover have "fv_method v = MethodReattack" "k \<in> set (fv_still v)" "fv_saidFixed v = alreadyFixedByRescan ?b"
    using v(2) assms(6,7) by (simp_all add: reattack_result_def rescanned_kept)
  moreover have "alreadyFixedByRescan ?b \<longrightarrow> fv_disagreement v = DisagreeRescanMissedLiveExploit"
    using v(2) s by (simp add: reattack_result_def)
  moreover have "fv_disagreement (last (a_history c)) = fv_disagreement v" "fv_saidFixed (last (a_history c)) = fv_saidFixed v"
    using last_recorded [of v ?b] by (simp_all add: v(1) same_verdict_def)
  ultimately show ?thesis using s v(1) by (intro exI [of _ c] exI [of _ v]) simp
qed

theorem live_exploit_beats_silence_witness:
  "\<exists>b. map_of (by_id (by_id [] [sample_fix]) (retest_step (\<lambda>as. as) (Some live_exploit) ''t'' [sample_fix] [] 5 AllProducers)) ''a1'' =
     Some b \<and> fv_disagreement (last (a_history b)) = DisagreeRescanMissedLiveExploit"
proof -
  let ?b = "rescanned ''t'' [sample_fix] [] 5 AllProducers sample_fix"
  have "verdict_status ?b = Some (rescan_status (Key ` set []) (tenant_policy ''t'' [sample_fix]) sample_fix)"
    using rescanned_status [of "''t''" "[sample_fix]" "[]" 5 AllProducers sample_fix] sample_verifiable by simp
  moreover have "rescan_status (Key ` set []) p sample_fix = FixStatusFixed \<or>
      rescan_status (Key ` set []) p sample_fix = FixStatusRescanUnconfirmed" for p
    by (simp add: rescan_status_def)
  ultimately have "verdict_status ?b = Some FixStatusFixed \<or> verdict_status ?b = Some FixStatusRescanUnconfirmed" by metis
  then have "alreadyFixedByRescan ?b" by (auto simp: verdict_status_def alreadyFixedByRescan_def split: option.splits)
  then show ?thesis
    using live_exploit_beats_silence [of "[sample_fix]" "\<lambda>as. as" sample_fix _ live_exploit "''t''" "[]" 5 AllProducers "''xss|/a''"]
      sample_order sample_exploitable
    by (fastforce simp: sample_keys)
qed

text \<open>the history of verdicts. Every action that the step writes has a history of at most 32 entries, in which no
  two neighbours say the same, ending in what its current verdict says, if the listed actions have.
\<close>

theorem verdict_history_is_kept:
  assumes "\<forall>a \<in> set acts. history_ok a" "permutes_actions order"
  shows "\<forall>b \<in> set (retest_step order reattacker tenantID acts current now cov). history_ok b"
proof -
  let ?v = "VerifyWithPolicy acts current now cov (tenant_policy tenantID acts)"
  have ver: "\<forall>b \<in> set ?v. history_ok b"
  proof
    fix b assume "b \<in> set ?v"
    then obtain a where a: "a \<in> set acts" "rescan_one (Key ` set current) now cov (tenant_policy tenantID acts) a = Some b"
      by (auto simp: VerifyWithPolicy_def List.map_filter_def)
    then show "history_ok b" using rescan_one_iff(2) [OF a(2)] history_ok_record assms(1) by blast
  qed
  have "set (merged_actions order tenantID acts current now cov) = set (map snd (by_id (by_id [] acts) ?v))"
    using assms(2) unfolding merged_actions_def permutes_actions_def by (metis mset_eq_setD)
  then have mer: "\<forall>b \<in> set (merged_actions order tenantID acts current now cov). history_ok b"
    using by_id_members [of "by_id [] acts" ?v] by_id_members [of "[]" acts] ver assms(1) by (simp only: list.map list.set) blast
  have re: "history_ok c" if m: "b \<in> set (merged_actions order tenantID acts current now cov)" and c: "reattack_one verdicts now b = Some c"
    for b c verdicts
    using reattack_one_iff(2) [OF c] history_ok_record mer m by blast
  show ?thesis
  proof (cases reattacker)
    case None
    then show ?thesis using ver by (simp add: retest_step_def Let_def tenant_policy_def)
  next
    case (Some run)
    let ?M = "merged_actions order tenantID acts current now cov"
    have "retest_step order reattacker tenantID acts current now cov =
        ?v @ List.map_filter (reattack_one (run (appliedFindingKeys ?M)) now) ?M"
      unfolding ApplyReattack_filter [symmetric] Some by (simp add: retest_step_def merged_actions_def tenant_policy_def Let_def)
    moreover have "\<forall>c \<in> set (List.map_filter (reattack_one (run (appliedFindingKeys ?M)) now) ?M). history_ok c"
      using re by (auto simp: List.map_filter_def)
    ultimately show ?thesis using ver by auto
  qed
qed

theorem verdict_history_is_kept_witness:
  "list_all history_ok (retest_step (\<lambda>as. as) (Some live_exploit) ''t'' [sample_fix] [] 5 AllProducers)"
proof -
  have "\<forall>a \<in> set [sample_fix]. history_ok a" by (simp add: history_ok_def sample_fix_def maxVerificationHistory_def)
  then show ?thesis unfolding list_all_iff by (rule verdict_history_is_kept) (rule sample_order)
qed

end
