(* ===== verification/Backport.thy ===== *)
theory Backport
  imports Prelude
begin

text \<open>
  internal/backport/backport.go and derive.go: a security fix, as one hunk, is located in another version of the
  file and applied only where the location is mechanically safe. A file is the list of its lines; a position is an
  index from 0, a reported line is counted from 1 and 0 when there is none.
\<close>

section \<open>Hunks\<close>

datatype verdict = Clean | Offset | AlreadyApplied | NeedsAdaptation | NotApplicable

record hunk =
  hk_file :: string
  hk_startLine :: int
  hk_before :: "string list"
  hk_removed :: "string list"
  hk_added :: "string list"
  hk_after :: "string list"

record location =
  lc_verdict :: verdict
  lc_at :: int
  lc_offset :: int
  lc_reason :: string

section \<open>Searching\<close>

text \<open>\<open>equalAt\<close> is called within bounds only, where Go does not panic.\<close>

definition equalAt :: "string list \<Rightarrow> string list \<Rightarrow> nat \<Rightarrow> bool" where
  "equalAt hay want pos \<longleftrightarrow> list_all (\<lambda>(j, w). hay ! (pos + j) = w) (enumerate 0 want)"

function index_loop :: "string list \<Rightarrow> string list \<Rightarrow> nat \<Rightarrow> nat option" where
  "index_loop hay want i =
     (if i + length want \<le> length hay then (if equalAt hay want i then Some i else index_loop hay want (Suc i)) else None)"
  by auto
termination by (relation "measure (\<lambda>(hay, want, i). Suc (length hay) - i)") auto

definition indexOf :: "string list \<Rightarrow> string list \<Rightarrow> nat \<Rightarrow> nat option" where
  "indexOf hay want frm = (if want = [] \<or> length hay < length want then None else index_loop hay want frm)"

text \<open>The loop has no condition: it ends when \<open>indexOf\<close> finds nothing, which nothing says it will.\<close>

partial_function (option) all_loop :: "string list \<Rightarrow> string list \<Rightarrow> nat list \<Rightarrow> nat \<Rightarrow> nat list option" where
  "all_loop hay want out i =
     (case indexOf hay want i of None \<Rightarrow> Some out | Some pos \<Rightarrow> all_loop hay want (out @ [pos]) (Suc pos))"

definition allIndexes :: "string list \<Rightarrow> string list \<Rightarrow> nat list option" where
  "allIndexes hay want = all_loop hay want [] 0"

text \<open>\<open>strings.Join(strings.Fields(s), "")\<close> drops every white space.\<close>

definition normalizeLine :: "string \<Rightarrow> string" where
  "normalizeLine s = filter (\<lambda>c. \<not> is_space c) s"

definition indexOfNormalized :: "string list \<Rightarrow> string list \<Rightarrow> nat option" where
  "indexOfNormalized hay want = indexOf (map normalizeLine hay) (map normalizeLine want) 0"

section \<open>Locating\<close>

definition verdictFor :: "int \<Rightarrow> int \<Rightarrow> verdict" where
  "verdictFor line claimed = (if claimed \<le> 0 \<or> line = claimed then Clean else Offset)"

definition contextAgrees :: "string list \<Rightarrow> hunk \<Rightarrow> nat \<Rightarrow> bool" where
  "contextAgrees target h pos \<longleftrightarrow>
     (hk_before h \<noteq> [] \<longrightarrow> length (hk_before h) \<le> pos \<and> equalAt target (hk_before h) (pos - length (hk_before h))) \<and>
     (hk_after h \<noteq> [] \<longrightarrow> pos + length (hk_removed h) + length (hk_after h) \<le> length target \<and>
        equalAt target (hk_after h) (pos + length (hk_removed h)))"

definition located :: "hunk \<Rightarrow> nat \<Rightarrow> string \<Rightarrow> location" where
  "located h pos reason =
     (let line = int pos + 1
      in \<lparr>lc_verdict = verdictFor line (hk_startLine h), lc_at = line, lc_offset = line - hk_startLine h, lc_reason = reason\<rparr>)"

definition refused :: "verdict \<Rightarrow> int \<Rightarrow> string \<Rightarrow> location" where
  "refused v line reason = \<lparr>lc_verdict = v, lc_at = line, lc_offset = 0, lc_reason = reason\<rparr>"

text \<open>The choice among the sites of the removed lines.\<close>

definition choose_site :: "string list \<Rightarrow> hunk \<Rightarrow> nat list \<Rightarrow> location" where
  "choose_site target h cands =
     (let hasCtx = (hk_before h \<noteq> [] \<or> hk_after h \<noteq> []);
          agreeing = (if hasCtx then filter (contextAgrees target h) cands else [])
      in if length agreeing = 1
         then located h (hd agreeing) ''the removed lines and their surrounding context both match here''
         else if 1 < length agreeing
         then refused NeedsAdaptation (int (hd agreeing) + 1)
                ''several sites match the patch AND its context; a human/LLM must choose''
         else if length cands = 1 \<and> \<not> hasCtx
         then located h (hd cands) ''exact match on the lines the patch removes (single site)''
         else if length cands = 1
         then refused NeedsAdaptation (int (hd cands) + 1)
                ''the removed lines match but the surrounding context does not (code was refactored around them)''
         else refused NeedsAdaptation (int (hd cands) + 1)
                ''the removed lines appear multiple times and the context does not disambiguate'')"

definition locate_insertion :: "string list \<Rightarrow> hunk \<Rightarrow> location" where
  "locate_insertion target h =
     (case indexOf target (hk_before h) 0 of
        Some pos \<Rightarrow>
          (if hk_before h \<noteq> [] then located h (pos + length (hk_before h)) ''insertion anchored on preceding context''
           else refused NeedsAdaptation 0 ''insertion context not found; a human/LLM must place it'')
      | None \<Rightarrow> refused NeedsAdaptation 0 ''insertion context not found; a human/LLM must place it'')"

text \<open>\<open>None\<close> is a call that does not return, which \<open>allIndexes\<close> could do.\<close>

definition Locate :: "string list \<Rightarrow> hunk \<Rightarrow> location option" where
  "Locate target h =
     (if hk_removed h = [] \<and> hk_added h = [] then Some (refused NotApplicable 0 ''hunk has no changes'')
      else if hk_added h \<noteq> [] \<and> indexOf target (hk_added h) 0 \<noteq> None \<and>
              (hk_removed h = [] \<or> indexOf target (hk_removed h) 0 = None)
           then Some (refused AlreadyApplied (int (the (indexOf target (hk_added h) 0)) + 1)
                        ''the fix is already present and the vulnerable lines are gone'')
      else if hk_removed h = [] then Some (locate_insertion target h)
      else
        (case allIndexes target (hk_removed h) of
           None \<Rightarrow> None
         | Some cands \<Rightarrow>
             if cands \<noteq> [] then Some (choose_site target h cands)
             else (case indexOfNormalized target (hk_removed h) of
                     Some pos \<Rightarrow> Some (refused NeedsAdaptation (int pos + 1)
                       ''the code matches only after whitespace normalization (formatting drift)'')
                   | None \<Rightarrow> Some (refused NotApplicable 0 ''the lines the patch removes are not present in this version''))))"

section \<open>Applying\<close>

definition ApplyHunk :: "string list \<Rightarrow> hunk \<Rightarrow> location \<Rightarrow> string list \<times> bool" where
  "ApplyHunk target h r =
     (if lc_verdict r \<noteq> Clean \<and> lc_verdict r \<noteq> Offset then (target, False)
      else if lc_at r < 1 \<or> int (length target) < lc_at r - 1 + int (length (hk_removed h)) then (target, False)
      else let i = nat (lc_at r - 1)
           in (take i target @ hk_added h @ drop (i + length (hk_removed h)) target, True))"

section \<open>Deriving a hunk\<close>

definition ContextLines :: nat where "ContextLines = 3"

fun common_prefix :: "string list \<Rightarrow> string list \<Rightarrow> nat" where
  "common_prefix (x # xs) (y # ys) = (if x = y then Suc (common_prefix xs ys) else 0)"
| "common_prefix xs ys = 0"

text \<open>The loop from the two ends down to the common prefix.\<close>

fun suffix_loop :: "string list \<Rightarrow> string list \<Rightarrow> nat \<Rightarrow> nat \<Rightarrow> nat \<Rightarrow> nat \<times> nat" where
  "suffix_loop before after start (Suc endB) (Suc endA) =
     (if start < Suc endB \<and> start < Suc endA \<and> before ! endB = after ! endA
      then suffix_loop before after start endB endA else (Suc endB, Suc endA))"
| "suffix_loop before after start endB endA = (endB, endA)"

definition HunkBetween :: "string \<Rightarrow> string list \<Rightarrow> string list \<Rightarrow> hunk option" where
  "HunkBetween file before after =
     (let start = common_prefix before after;
          (endB, endA) = suffix_loop before after start (length before) (length after)
      in if start = endB \<and> start = endA then None
         else let ctxStart = start - ContextLines; ctxEnd = min (endB + ContextLines) (length before)
              in Some \<lparr>hk_file = file, hk_startLine = int start + 1,
                   hk_before = take (start - ctxStart) (drop ctxStart before),
                   hk_removed = take (endB - start) (drop start before),
                   hk_added = take (endA - start) (drop start after),
                   hk_after = take (ctxEnd - endB) (drop endB before)\<rparr>)"

section \<open>Planning\<close>

text \<open>
  internal/remediate/backport.go: one proposal per branch, a pull request with the patched file, a ticket for a
  human, or none. The identifiers that the actions copy from the merged fix are left out.
\<close>

record branch_file =
  bf_branch :: string
  bf_path :: string
  bf_lines :: "string list"

datatype backport_action = OpenPR verdict int string "string list" | FileTicket string

record backport_plan =
  bp_branch :: string
  bp_verdict :: verdict
  bp_atLine :: int
  bp_reason :: string
  bp_action :: "backport_action option"

definition plan_one :: "hunk \<Rightarrow> branch_file \<Rightarrow> backport_plan option" where
  "plan_one h b =
     (case Locate (bf_lines b) h of
        None \<Rightarrow> None
      | Some r \<Rightarrow>
          let p = \<lparr>bp_branch = bf_branch b, bp_verdict = lc_verdict r, bp_atLine = lc_at r, bp_reason = lc_reason r, bp_action = None\<rparr>
          in if lc_verdict r = Clean \<or> lc_verdict r = Offset
             then (let (patched, ok) = ApplyHunk (bf_lines b) h r
                   in if \<not> ok then
                        let why = ''relocation succeeded but the patch would not apply cleanly''
                        in Some (p\<lparr>bp_verdict := NeedsAdaptation, bp_reason := why, bp_action := Some (FileTicket why)\<rparr>)
                      else Some (p\<lparr>bp_action := Some (OpenPR (lc_verdict r) (lc_at r) (lc_reason r) patched)\<rparr>))
             else if lc_verdict r = NeedsAdaptation then Some (p\<lparr>bp_action := Some (FileTicket (lc_reason r))\<rparr>)
             else Some p)"

fun PlanBackports :: "hunk \<Rightarrow> branch_file list \<Rightarrow> backport_plan list option" where
  "PlanBackports h [] = Some []"
| "PlanBackports h (b # bs) =
     (case plan_one h b of
        None \<Rightarrow> None
      | Some p \<Rightarrow> (case PlanBackports h bs of None \<Rightarrow> None | Some ps \<Rightarrow> Some (p # ps)))"

section \<open>Where a search ends\<close>

text \<open>The lines \<open>want\<close> stand in \<open>hay\<close> at \<open>pos\<close>.\<close>

definition occurs_at :: "string list \<Rightarrow> string list \<Rightarrow> nat \<Rightarrow> bool" where
  "occurs_at hay want pos \<longleftrightarrow> pos + length want \<le> length hay \<and> take (length want) (drop pos hay) = want"

lemma equalAt_nth: "equalAt hay want pos \<longleftrightarrow> (\<forall>i < length want. hay ! (pos + i) = want ! i)"
  by (simp add: equalAt_def list_all_length nth_enumerate_eq)

lemma equalAt_iff: "pos + length want \<le> length hay \<Longrightarrow> equalAt hay want pos \<longleftrightarrow> occurs_at hay want pos"
  unfolding equalAt_nth occurs_at_def list_eq_iff_nth_eq [of "take (length want) (drop pos hay)" want] by simp

lemma occurs_at_append: "occurs_at hay want pos \<longleftrightarrow> (\<exists>us vs. hay = us @ want @ vs \<and> length us = pos)"
proof
  assume "occurs_at hay want pos"
  then have "hay = take pos hay @ want @ drop (pos + length want) hay" "length (take pos hay) = pos"
    by (auto simp: occurs_at_def) (metis add.commute append_take_drop_id drop_drop)
  then show "\<exists>us vs. hay = us @ want @ vs \<and> length us = pos" by blast
qed (auto simp: occurs_at_def)

lemma index_loop:
  "index_loop hay want i = (if \<exists>j \<ge> i. occurs_at hay want j then Some (LEAST j. i \<le> j \<and> occurs_at hay want j) else None)"
proof (induction hay want i rule: index_loop.induct)
  case (1 hay want i)
  show ?case
  proof (cases "i + length want \<le> length hay \<and> \<not> equalAt hay want i")
    case True
    then have "\<not> occurs_at hay want i" using equalAt_iff by blast
    then have "i \<le> j \<and> occurs_at hay want j \<longleftrightarrow> Suc i \<le> j \<and> occurs_at hay want j" for j
      by (cases "i = j") auto
    then show ?thesis using 1 True by simp
  next
    case False
    show ?thesis
    proof (cases "i + length want \<le> length hay")
      case True
      then have "occurs_at hay want i" using False equalAt_iff by blast
      moreover from this have "(LEAST j. i \<le> j \<and> occurs_at hay want j) = i" by (intro Least_equality) auto
      ultimately show ?thesis using True False by auto
    next
      case False
      then have "\<not> (\<exists>j \<ge> i. occurs_at hay want j)" by (auto simp: occurs_at_def)
      then show ?thesis using False by simp
    qed
  qed
qed

declare index_loop.simps [simp del]

lemma indexOf_eq:
  "indexOf hay want i = (if want \<noteq> [] \<and> (\<exists>j \<ge> i. occurs_at hay want j)
     then Some (LEAST j. i \<le> j \<and> occurs_at hay want j) else None)"
proof (cases "length hay < length want")
  case True
  then have "\<not> occurs_at hay want j" for j by (simp add: occurs_at_def)
  then show ?thesis using True by (simp add: indexOf_def)
qed (simp add: indexOf_def index_loop)

lemma indexOf_None: "indexOf hay want i = None \<longleftrightarrow> want = [] \<or> (\<forall>j \<ge> i. \<not> occurs_at hay want j)"
  by (auto simp: indexOf_eq)

lemma indexOf_Some:
  assumes "indexOf hay want i = Some pos"
  shows "want \<noteq> []" "i \<le> pos" "occurs_at hay want pos" "i \<le> j \<Longrightarrow> j < pos \<Longrightarrow> \<not> occurs_at hay want j"
proof -
  have w: "want \<noteq> []" "\<exists>j. i \<le> j \<and> occurs_at hay want j" and p: "pos = (LEAST j. i \<le> j \<and> occurs_at hay want j)"
    using assms by (auto simp: indexOf_eq split: if_splits)
  show "want \<noteq> []" by (rule w(1))
  have "i \<le> pos \<and> occurs_at hay want pos" unfolding p using w(2) by (rule LeastI_ex)
  then show "i \<le> pos" "occurs_at hay want pos" by blast+
  show "i \<le> j \<Longrightarrow> j < pos \<Longrightarrow> \<not> occurs_at hay want j" unfolding p by (blast dest: not_less_Least)
qed

text \<open>The sites of some lines, in order.\<close>

definition sites :: "string list \<Rightarrow> string list \<Rightarrow> nat list" where
  "sites hay want = (if want = [] then [] else filter (occurs_at hay want) [0..<Suc (length hay)])"

lemma all_loop_returns:
  "all_loop hay want out i = Some (out @ (if want = [] then [] else filter (occurs_at hay want) [i..<Suc (length hay)]))"
proof (induction "Suc (length hay) - i" arbitrary: out i rule: less_induct)
  case less
  show ?case
  proof (cases "indexOf hay want i")
    case None
    then have "want = [] \<or> filter (occurs_at hay want) [i..<Suc (length hay)] = []"
      by (auto simp: indexOf_None filter_empty_conv)
    then show ?thesis using None by (subst all_loop.simps) auto
  next
    case (Some pos)
    note p = indexOf_Some [OF Some]
    have le: "pos \<le> length hay" using p(3) by (simp add: occurs_at_def)
    have "Suc (length hay) = pos + (Suc (length hay) - pos)" using le by simp
    then have "[i..<Suc (length hay)] = [i..<pos] @ [pos..<Suc (length hay)]" using upt_add_eq_append [OF p(2)] by metis
    then have "[i..<Suc (length hay)] = [i..<pos] @ pos # [Suc pos..<Suc (length hay)]"
      using le by (simp add: upt_conv_Cons del: upt_Suc)
    moreover have "filter (occurs_at hay want) [i..<pos] = []" using p(4) by (simp add: filter_empty_conv)
    ultimately have "filter (occurs_at hay want) [i..<Suc (length hay)] = pos # filter (occurs_at hay want) [Suc pos..<Suc (length hay)]"
      using p(3) by simp
    then show ?thesis using less [of "Suc pos" "out @ [pos]"] Some p(1,2) le
      by (subst all_loop.simps) (simp del: upt_Suc)
  qed
qed

lemma allIndexes_eq: "allIndexes hay want = Some (sites hay want)"
  by (simp add: allIndexes_def all_loop_returns sites_def)

lemma set_sites: "want \<noteq> [] \<Longrightarrow> set (sites hay want) = {pos. occurs_at hay want pos}"
  by (auto simp: sites_def occurs_at_def simp del: upt_Suc)

lemma distinct_sites: "distinct (sites hay want)"
  by (simp add: sites_def)

section \<open>The sites of a hunk\<close>

text \<open>The hunk's lines and its context stand in the file, split there.\<close>

definition fits :: "string list \<Rightarrow> hunk \<Rightarrow> string list \<Rightarrow> string list \<Rightarrow> bool" where
  "fits target h us vs \<longleftrightarrow> target = us @ hk_removed h @ vs \<and> suffix (hk_before h) us \<and> prefix (hk_after h) vs"

lemma contextAgrees_iff:
  assumes "target = us @ hk_removed h @ vs"
  shows "contextAgrees target h (length us) \<longleftrightarrow> suffix (hk_before h) us \<and> prefix (hk_after h) vs"
proof -
  have b: "hk_before h \<noteq> [] \<longrightarrow> (length (hk_before h) \<le> length us \<and> equalAt target (hk_before h) (length us - length (hk_before h)) \<longleftrightarrow>
      suffix (hk_before h) us)"
  proof (intro impI iffI)
    assume a: "length (hk_before h) \<le> length us \<and> equalAt target (hk_before h) (length us - length (hk_before h))"
    then have "occurs_at target (hk_before h) (length us - length (hk_before h))"
      using assms by (subst equalAt_iff [symmetric]) auto
    then have "take (length (hk_before h)) (drop (length us - length (hk_before h)) us) = hk_before h"
      using a assms by (simp add: occurs_at_def)
    then have "drop (length us - length (hk_before h)) us = hk_before h" using a by simp
    then show "suffix (hk_before h) us" by (metis suffix_drop)
  next
    assume s: "suffix (hk_before h) us"
    then obtain ws where "us = ws @ hk_before h" by (auto simp: suffix_def)
    then have "occurs_at target (hk_before h) (length us - length (hk_before h))" using assms by (simp add: occurs_at_def)
    then show "length (hk_before h) \<le> length us \<and> equalAt target (hk_before h) (length us - length (hk_before h))"
      using s equalAt_iff suffix_length_le by (auto simp: occurs_at_def)
  qed
  have "hk_after h \<noteq> [] \<longrightarrow> (length us + length (hk_removed h) + length (hk_after h) \<le> length target \<and>
      equalAt target (hk_after h) (length us + length (hk_removed h)) \<longleftrightarrow> prefix (hk_after h) vs)"
  proof -
    have "occurs_at target (hk_after h) (length us + length (hk_removed h)) \<longleftrightarrow> prefix (hk_after h) vs"
      using assms by (auto simp: occurs_at_def prefix_def) (metis append_take_drop_id)
    then show ?thesis using equalAt_iff [of "length us + length (hk_removed h)" "hk_after h" target]
      by (auto simp: occurs_at_def)
  qed
  then show ?thesis using b by (auto simp: contextAgrees_def)
qed

lemma fits_iff:
  "occurs_at target (hk_removed h) pos \<and> contextAgrees target h pos \<longleftrightarrow> (\<exists>us vs. fits target h us vs \<and> length us = pos)"
proof
  assume a: "occurs_at target (hk_removed h) pos \<and> contextAgrees target h pos"
  then obtain us vs where "target = us @ hk_removed h @ vs" "length us = pos" unfolding occurs_at_append by blast
  then show "\<exists>us vs. fits target h us vs \<and> length us = pos" using a contextAgrees_iff unfolding fits_def by blast
next
  assume "\<exists>us vs. fits target h us vs \<and> length us = pos"
  then show "occurs_at target (hk_removed h) pos \<and> contextAgrees target h pos"
    using contextAgrees_iff unfolding fits_def occurs_at_append by blast
qed

lemma contextAgrees_none: "hk_before h = [] \<Longrightarrow> hk_after h = [] \<Longrightarrow> contextAgrees target h pos"
  by (simp add: contextAgrees_def)

text \<open>Where the choice among the sites is a site, it is the only one that the hunk fits.\<close>

lemma choose_site_applies:
  assumes "hk_removed h \<noteq> []" "lc_verdict (choose_site target h (sites target (hk_removed h))) \<in> {Clean, Offset}"
    "sites target (hk_removed h) \<noteq> []"
  shows "\<exists>pos reason. choose_site target h (sites target (hk_removed h)) = located h pos reason \<and>
    {p. occurs_at target (hk_removed h) p \<and> contextAgrees target h p} = {pos}"
proof -
  let ?c = "sites target (hk_removed h)"
  have refused: "lc_verdict (refused NeedsAdaptation l r) \<notin> {Clean, Offset}" for l r by (simp add: refused_def)
  show ?thesis
  proof (cases "hk_before h \<noteq> [] \<or> hk_after h \<noteq> []")
    case True
    let ?a = "filter (contextAgrees target h) ?c"
    have "length ?a = 1" using assms(2) True refused by (auto simp: choose_site_def Let_def split: if_splits)
    then obtain pos where p: "?a = [pos]" by (auto simp: length_Suc_conv)
    have "{p. occurs_at target (hk_removed h) p \<and> contextAgrees target h p} = set ?a"
      using set_sites [OF assms(1), of target] by auto
    then have "{p. occurs_at target (hk_removed h) p \<and> contextAgrees target h p} = {pos}" unfolding p by simp
    then show ?thesis using True p by (auto simp: choose_site_def Let_def)
  next
    case False
    then have "length ?c = 1" using assms(2) refused by (auto simp: choose_site_def Let_def split: if_splits)
    then obtain pos where p: "?c = [pos]" by (auto simp: length_Suc_conv)
    have "{p. occurs_at target (hk_removed h) p \<and> contextAgrees target h p} = set ?c"
      using set_sites [OF assms(1), of target] False contextAgrees_none [of h target] by auto
    then have "{p. occurs_at target (hk_removed h) p \<and> contextAgrees target h p} = {pos}" unfolding p by simp
    then show ?thesis using False p by (auto simp: choose_site_def Let_def)
  qed
qed

lemma Locate_removed:
  assumes "hk_removed h \<noteq> []"
  shows "\<exists>r. Locate target h = Some r \<and> (lc_verdict r \<in> {Clean, Offset} \<longrightarrow>
    (\<exists>us vs. fits target h us vs \<and> lc_at r = int (length us) + 1 \<and> (\<forall>us' vs'. fits target h us' vs' \<longrightarrow> us' = us)))"
proof (cases "hk_added h \<noteq> [] \<and> indexOf target (hk_added h) 0 \<noteq> None \<and> indexOf target (hk_removed h) 0 = None \<or>
    sites target (hk_removed h) = []")
  case True
  then show ?thesis using assms by (auto simp: Locate_def allIndexes_eq refused_def split: option.splits)
next
  case False
  let ?r = "choose_site target h (sites target (hk_removed h))"
  have l: "Locate target h = Some ?r" using False assms by (auto simp: Locate_def allIndexes_eq)
  have "\<exists>us vs. fits target h us vs \<and> lc_at ?r = int (length us) + 1 \<and> (\<forall>us' vs'. fits target h us' vs' \<longrightarrow> us' = us)"
    if v: "lc_verdict ?r \<in> {Clean, Offset}"
  proof -
    obtain pos reason where p: "?r = located h pos reason"
        "{p. occurs_at target (hk_removed h) p \<and> contextAgrees target h p} = {pos}"
      using choose_site_applies [OF assms v] False by auto
    then obtain us vs where u: "fits target h us vs" "length us = pos" using fits_iff [of target h pos] by blast
    have "us' = us" if f: "fits target h us' vs'" for us' vs'
    proof -
      have "length us' = pos" using fits_iff [of target h "length us'"] f p(2) by blast
      then show ?thesis using f u unfolding fits_def by (metis append_eq_append_conv)
    qed
    moreover have "lc_at ?r = int (length us) + 1" using p(1) u(2) by (simp add: located_def Let_def)
    ultimately show ?thesis using u(1) by blast
  qed
  then show ?thesis using l by blast
qed

section \<open>The derived hunk\<close>

lemma common_prefix:
  "common_prefix xs ys \<le> length xs" "common_prefix xs ys \<le> length ys"
  "take (common_prefix xs ys) xs = take (common_prefix xs ys) ys"
  by (induction xs ys rule: common_prefix.induct) auto

lemma suffix_loop:
  "suffix_loop b a s eb ea = (eb', ea') \<Longrightarrow> s \<le> eb \<Longrightarrow> s \<le> ea \<Longrightarrow> eb \<le> length b \<Longrightarrow> ea \<le> length a \<Longrightarrow> drop eb b = drop ea a \<Longrightarrow>
     s \<le> eb' \<and> s \<le> ea' \<and> eb' \<le> length b \<and> ea' \<le> length a \<and> drop eb' b = drop ea' a"
proof (induction b a s eb ea rule: suffix_loop.induct)
  case (1 b a s eb ea)
  show ?case
  proof (cases "s < Suc eb \<and> s < Suc ea \<and> b ! eb = a ! ea")
    case True
    have "drop eb b = drop ea a"
      using 1(7) True 1(5,6) Cons_nth_drop_Suc [of eb b] Cons_nth_drop_Suc [of ea a] by simp
    then show ?thesis using 1 True by simp
  qed (use 1 in auto)
qed auto

lemma HunkBetween_fits:
  assumes "HunkBetween file before after = Some h"
  shows "\<exists>us vs. fits before h us vs \<and> after = us @ hk_added h @ vs \<and> hk_startLine h = int (length us) + 1"
proof -
  let ?s = "common_prefix before after"
  note cp = common_prefix [of before after]
  obtain eb ea where e: "suffix_loop before after ?s (length before) (length after) = (eb, ea)" by fastforce
  have se: "?s \<le> eb \<and> ?s \<le> ea \<and> eb \<le> length before \<and> ea \<le> length after \<and> drop eb before = drop ea after"
    by (rule suffix_loop [OF e cp(1,2)]) simp_all
  let ?c = "?s - ContextLines"
  have h: "hk_before h = take (?s - ?c) (drop ?c before)" "hk_removed h = take (eb - ?s) (drop ?s before)"
    "hk_added h = take (ea - ?s) (drop ?s after)" "hk_startLine h = int ?s + 1"
    "hk_after h = take (min (eb + ContextLines) (length before) - eb) (drop eb before)"
    using assms by (auto simp: HunkBetween_def e Let_def split: if_splits)
  have split: "take m xs @ take (n - m) (drop m xs) @ drop n xs = xs" if "m \<le> n" for m n and xs :: "string list"
    using that by (metis append.assoc append_take_drop_id le_add_diff_inverse take_add)
  have "take ?s before = take ?c before @ hk_before h" unfolding h(1)
    by (metis diff_le_self le_add_diff_inverse take_add)
  then have "suffix (hk_before h) (take ?s before)" by (metis suffixI)
  moreover have "before = take ?s before @ hk_removed h @ drop eb before" unfolding h(2) using split se by metis
  moreover have "prefix (hk_after h) (drop eb before)" unfolding h(5) by (rule take_is_prefix)
  moreover have "after = take ?s before @ hk_added h @ drop eb before" unfolding h(3) cp(3) using split [of ?s ea after] se by simp
  ultimately show ?thesis using cp(1) h(4)
    by (intro exI [of _ "take ?s before"] exI [of _ "drop eb before"]) (simp add: fits_def)
qed

section \<open>Applying\<close>

lemma ApplyHunk_at:
  assumes "target = us @ hk_removed h @ vs" "lc_at r = int (length us) + 1" "lc_verdict r \<in> {Clean, Offset}"
  shows "ApplyHunk target h r = (us @ hk_added h @ vs, True)"
  using assms by (auto simp: ApplyHunk_def Let_def)

lemma ApplyHunk_refuses: "lc_verdict r \<notin> {Clean, Offset} \<Longrightarrow> ApplyHunk target h r = (target, False)"
  by (simp add: ApplyHunk_def)

lemma choose_site_verdict: "lc_verdict (choose_site target h cands) \<in> {Clean, Offset, NeedsAdaptation}"
  by (simp add: choose_site_def Let_def refused_def located_def verdictFor_def)

lemma Locate_fits:
  assumes "hk_removed h \<noteq> []" "Locate target h = Some r" "lc_verdict r \<in> {Clean, Offset}"
  shows "\<exists>us vs. fits target h us vs \<and> lc_at r = int (length us) + 1 \<and> (\<forall>us' vs'. fits target h us' vs' \<longrightarrow> us' = us)"
proof -
  obtain r' where r': "Locate target h = Some r'" "lc_verdict r' \<in> {Clean, Offset} \<longrightarrow>
      (\<exists>us vs. fits target h us vs \<and> lc_at r' = int (length us) + 1 \<and> (\<forall>us' vs'. fits target h us' vs' \<longrightarrow> us' = us))"
    using Locate_removed [OF assms(1), of target] by blast
  then have "r' = r" using assms(2) by simp
  then show ?thesis using r'(2) assms(3) by blast
qed

lemma Locate_present:
  assumes "hk_removed h \<noteq> []" "occurs_at target (hk_removed h) pos"
  shows "Locate target h = Some (choose_site target h (sites target (hk_removed h)))"
proof -
  have "sites target (hk_removed h) \<noteq> []" using set_sites [OF assms(1), of target] assms(2) by force
  moreover have "indexOf target (hk_removed h) 0 \<noteq> None" using assms by (auto simp: indexOf_None)
  ultimately show ?thesis using assms(1) by (auto simp: Locate_def allIndexes_eq)
qed

section \<open>Examples\<close>

definition vulnerable :: "string list" where "vulnerable = [''a'', ''old'', ''b'']"

definition patched :: "string list" where "patched = [''a'', ''new'', ''b'']"

definition sample_hunk :: hunk where
  "sample_hunk = \<lparr>hk_file = ''f'', hk_startLine = 2, hk_before = [''a''], hk_removed = [''old''], hk_added = [''new''], hk_after = [''b'']\<rparr>"

lemmas search_code = indexOf_def index_loop.simps equalAt_def upt_rec

lemma sample_hunk_between: "HunkBetween ''f'' vulnerable patched = Some sample_hunk"
  by (simp add: HunkBetween_def vulnerable_def patched_def sample_hunk_def ContextLines_def Let_def)

lemma sample_fits: "fits vulnerable sample_hunk [''a''] [''b'']"
  by (simp add: fits_def vulnerable_def sample_hunk_def)

lemma sample_sites: "sites vulnerable (hk_removed sample_hunk) = [1]"
  by (simp add: sites_def vulnerable_def sample_hunk_def occurs_at_def upt_rec)

lemma sample_located:
  "Locate vulnerable sample_hunk = Some (located sample_hunk 1 ''the removed lines and their surrounding context both match here'')"
proof -
  have c: "contextAgrees vulnerable sample_hunk 1"
    using contextAgrees_iff [of vulnerable "[''a'']" sample_hunk "[''b'']"] sample_fits by (simp add: fits_def)
  have "occurs_at vulnerable (hk_removed sample_hunk) 1" using set_sites [of "hk_removed sample_hunk" vulnerable] sample_sites
    by (force simp: sample_hunk_def)
  then have "Locate vulnerable sample_hunk = Some (choose_site vulnerable sample_hunk [1])"
    using Locate_present [of sample_hunk vulnerable 1] sample_sites by (simp add: sample_hunk_def)
  then show ?thesis using c by (simp add: choose_site_def Let_def) (simp add: sample_hunk_def)
qed

lemma sample_applied:
  "ApplyHunk vulnerable sample_hunk (located sample_hunk 1 reason) = (patched, True)"
  by (simp add: ApplyHunk_def located_def verdictFor_def Let_def vulnerable_def patched_def sample_hunk_def)

section \<open>Properties\<close>

text \<open>every search returns. The loop that collects all sites has no condition, yet it ends, with exactly the
  positions at which the lines stand, in order; so locating a hunk returns for every file and every hunk.
\<close>

theorem locate_returns:
  "allIndexes hay want = Some (if want = [] then [] else filter (occurs_at hay want) [0..<Suc (length hay)]) \<and>
   (\<exists>r. Locate target h = Some r)"
proof (cases "hk_removed h = []")
  case True
  then show ?thesis by (simp add: allIndexes_eq sites_def Locate_def)
next
  case False
  then have "\<exists>r. Locate target h = Some r" using Locate_removed [of h target] by blast
  then show ?thesis by (simp add: allIndexes_eq sites_def)
qed

text \<open>C32: a patch that is applied is applied at the right place and changes nothing else. If a hunk that removes lines
  is located and applied, the file is split at the reported line into what precedes, the removed lines and what
  follows; the hunk's context stands on both sides; no other place in the file fits the hunk; and the result has
  the added lines there instead.
\<close>

theorem applied_where_it_belongs:
  assumes "Locate target h = Some r" "ApplyHunk target h r = (out, True)" "hk_removed h \<noteq> []"
  shows "\<exists>us vs. target = us @ hk_removed h @ vs \<and> out = us @ hk_added h @ vs \<and> lc_at r = int (length us) + 1 \<and>
    suffix (hk_before h) us \<and> prefix (hk_after h) vs \<and>
    (\<forall>us' vs'. target = us' @ hk_removed h @ vs' \<and> suffix (hk_before h) us' \<and> prefix (hk_after h) vs' \<longrightarrow> us' = us)"
proof -
  have v: "lc_verdict r \<in> {Clean, Offset}" using assms(2) ApplyHunk_refuses [of r target h] by auto
  obtain us vs where u: "fits target h us vs" "lc_at r = int (length us) + 1" "\<forall>us' vs'. fits target h us' vs' \<longrightarrow> us' = us"
    using Locate_fits [OF assms(3,1) v] by (elim exE conjE) (rule that, assumption+)
  have "ApplyHunk target h r = (us @ hk_added h @ vs, True)" using u(1,2) v unfolding fits_def by (intro ApplyHunk_at) simp_all
  then have out: "out = us @ hk_added h @ vs" using assms(2) by simp
  have uniq: "\<forall>us' vs'. target = us' @ hk_removed h @ vs' \<and> suffix (hk_before h) us' \<and> prefix (hk_after h) vs' \<longrightarrow> us' = us"
    using u(3) unfolding fits_def by blast
  show ?thesis
    using u(1) unfolding fits_def by (intro exI [of _ us] exI [of _ vs]) (intro conjI uniq out u(2), simp_all)
qed

theorem applied_where_it_belongs_witness:
  "\<exists>us vs. vulnerable = us @ [''old''] @ vs \<and> patched = us @ [''new''] @ vs"
  using applied_where_it_belongs [OF sample_located sample_applied] by (auto simp: sample_hunk_def)



text \<open>a fix is not applied twice. Once a hunk that removes and adds lines has been applied and the removed lines
  are gone from the file, locating it again answers that it is already applied, and applying it changes nothing.
\<close>

theorem fix_is_not_applied_twice:
  assumes "Locate target h = Some r" "ApplyHunk target h r = (out, True)" "hk_removed h \<noteq> []" "hk_added h \<noteq> []"
    and "\<forall>us vs. out \<noteq> us @ hk_removed h @ vs"
  shows "\<exists>r2. Locate out h = Some r2 \<and> lc_verdict r2 = AlreadyApplied \<and> ApplyHunk out h r2 = (out, False)"
proof -
  have v: "lc_verdict r \<in> {Clean, Offset}" using assms(2) ApplyHunk_refuses [of r target h] by auto
  obtain us vs where u: "fits target h us vs" "lc_at r = int (length us) + 1"
    using Locate_fits [OF assms(3,1) v] by (elim exE conjE) (rule that, assumption+)
  have "ApplyHunk target h r = (us @ hk_added h @ vs, True)" using u(1,2) v unfolding fits_def by (intro ApplyHunk_at) simp_all
  then have "occurs_at out (hk_added h) (length us)" using assms(2) unfolding occurs_at_append by auto
  then have a: "indexOf out (hk_added h) 0 \<noteq> None" using assms(4) by (auto simp: indexOf_None)
  have n: "indexOf out (hk_removed h) 0 = None" using assms(5) unfolding indexOf_None occurs_at_append by blast
  have "\<exists>r2. Locate out h = Some r2 \<and> lc_verdict r2 = AlreadyApplied"
    using a n assms(3,4) by (auto simp: Locate_def refused_def)
  then show ?thesis using ApplyHunk_refuses by fastforce
qed

theorem fix_is_not_applied_twice_witness:
  "\<exists>r. Locate patched sample_hunk = Some r \<and> lc_verdict r = AlreadyApplied"
proof -
  have "indexOf patched (hk_removed sample_hunk) 0 = None"
    by (simp add: search_code patched_def sample_hunk_def)
  then have "\<forall>us vs. patched \<noteq> us @ hk_removed sample_hunk @ vs"
    unfolding indexOf_None occurs_at_append by (auto simp: sample_hunk_def)
  then show ?thesis
    using fix_is_not_applied_twice [OF sample_located sample_applied] by (auto simp: sample_hunk_def)
qed

section \<open>Insertions\<close>

text \<open>
  An insertion is anchored on the first place where its preceding context stands: neither a second place nor the
  following context is looked at. Replayed on its own version it can land elsewhere.
\<close>

lemma insertion_lands_elsewhere:
  defines "before \<equiv> [''a'', ''b'', ''c'', ''z'', ''a'', ''b'', ''c'', ''y'']"
    and "after \<equiv> [''a'', ''b'', ''c'', ''z'', ''a'', ''b'', ''c'', ''check'', ''y'']"
  shows "\<exists>h r. HunkBetween ''f'' before after = Some h \<and> Locate before h = Some r \<and>
    ApplyHunk before h r = ([''a'', ''b'', ''c'', ''check'', ''z'', ''a'', ''b'', ''c'', ''y''], True)"
proof -
  let ?h = "\<lparr>hk_file = ''f'', hk_startLine = 8, hk_before = [''a'', ''b'', ''c''], hk_removed = [], hk_added = [''check''],
    hk_after = [''y'']\<rparr>"
  have "HunkBetween ''f'' before after = Some ?h"
    by (simp add: HunkBetween_def before_def after_def ContextLines_def Let_def numeral_eq_Suc)
  moreover have "Locate before ?h = Some (located ?h 3 ''insertion anchored on preceding context'')"
    by (simp add: Locate_def locate_insertion_def before_def search_code numeral_eq_Suc)
  moreover have "ApplyHunk before ?h (located ?h 3 reason) = ([''a'', ''b'', ''c'', ''check'', ''z'', ''a'', ''b'', ''c'', ''y''], True)" for reason
    by (simp add: ApplyHunk_def located_def verdictFor_def Let_def before_def)
  ultimately show ?thesis by blast
qed

text \<open>An insertion of a line that the file has elsewhere is taken as already applied.\<close>

lemma insertion_taken_as_applied:
  defines "before \<equiv> [''if bad {'', ''return'', ''}'', ''use(x)'']"
    and "after \<equiv> [''if bad {'', ''return'', ''}'', ''return'', ''use(x)'']"
  shows "\<exists>h r. HunkBetween ''f'' before after = Some h \<and> Locate before h = Some r \<and> lc_verdict r = AlreadyApplied"
proof -
  let ?h = "\<lparr>hk_file = ''f'', hk_startLine = 4, hk_before = [''if bad {'', ''return'', ''}''], hk_removed = [], hk_added = [''return''],
    hk_after = [''use(x)'']\<rparr>"
  have "HunkBetween ''f'' before after = Some ?h"
    by (simp add: HunkBetween_def before_def after_def ContextLines_def Let_def numeral_eq_Suc)
  moreover have "indexOf before [''return''] 0 = Some 1" by (simp add: before_def search_code)
  ultimately show ?thesis by (auto simp: Locate_def refused_def)
qed

text \<open>
  Vulnerable code that is only reformatted is taken as already fixed when the added lines stand elsewhere: the
  check for it comes before the one for formatting drift.
\<close>

lemma reformatted_taken_as_fixed:
  defines "h \<equiv> \<lparr>hk_file = ''f'', hk_startLine = 1, hk_before = [], hk_removed = [''run(x)''], hk_added = [''return''], hk_after = []\<rparr>"
  shows "\<exists>r. Locate [''run( x )'', ''return''] h = Some r \<and> lc_verdict r = AlreadyApplied"
proof -
  have "indexOf [''run( x )'', ''return''] [''return''] 0 = Some 1" "indexOf [''run( x )'', ''return''] [''run(x)''] 0 = None"
    by (simp_all add: search_code)
  then show ?thesis by (simp add: Locate_def refused_def h_def)
qed

end
