(* ===== verification/Totp.thy ===== *)
theory Totp
  imports Prelude "HOL-Library.Word"
begin

unbundle bit_operations_syntax

text \<open>
  internal/totp/totp.go: time-based one-time passwords and single-use recovery codes. HMAC-SHA1, SHA-256
  (with its hex encoding) and the base32 decoder are arguments; of HMAC-SHA1 the code relies on the digest
  having 20 bytes (\<open>hmac_sha1\<close>). Machine words are words of their width.
\<close>

section \<open>Codes\<close>

type_synonym byte = "8 word"

definition Period :: int where "Period = 30"
definition Digits :: nat where "Digits = 6"
definition Skew :: int where "Skew = 1"

definition upper_char :: "char \<Rightarrow> char" where
  "upper_char c = (let n = (of_char c :: nat) in if 97 \<le> n \<and> n \<le> 122 then char_of (n - 32) else c)"

definition trim_right :: "char \<Rightarrow> string \<Rightarrow> string" where
  "trim_right c s = rev (dropWhile (\<lambda>d. d = c) (rev s))"

definition no_spaces :: "string \<Rightarrow> string" where
  "no_spaces s = filter (\<lambda>c. c \<noteq> CHR '' '') (trim_space s)"

definition decode :: "(string \<Rightarrow> byte list option) \<Rightarrow> string \<Rightarrow> byte list option" where
  "decode b32 secret =
     (let s = trim_right (CHR ''='') (map upper_char (no_spaces secret))
      in if s = [] then None else b32 s)"

text \<open>\<open>binary.BigEndian.PutUint64\<close>.\<close>

definition big_endian :: "64 word \<Rightarrow> byte list" where
  "big_endian c = map (\<lambda>i. ucast (drop_bit (56 - 8 * i) c)) [0..<8]"

text \<open>The three statements of \<open>hotp\<close> after the digest: the offset, the 31-bit number, the power of ten.\<close>

definition truncate_digest :: "byte list \<Rightarrow> 32 word" where
  "truncate_digest dg =
     (let off = unat (dg ! (length dg - 1) AND 0x0f)
      in ((push_bit 24 ((ucast (dg ! off) :: 32 word) AND 0x7f) OR push_bit 16 (ucast (dg ! (off + 1)))) OR
          push_bit 8 (ucast (dg ! (off + 2)))) OR ucast (dg ! (off + 3)))"

definition pow_ten :: "nat \<Rightarrow> 32 word" where
  "pow_ten digits = foldl (\<lambda>m _. m * 10) 1 [0..<digits]"

text \<open>\<open>%0*d\<close>: the numeral, padded with zeros to the width.\<close>

definition pad_zeros :: "nat \<Rightarrow> string \<Rightarrow> string" where
  "pad_zeros w s = replicate (w - length s) (CHR ''0'') @ s"

definition hotp :: "(byte list \<Rightarrow> byte list \<Rightarrow> byte list) \<Rightarrow> byte list \<Rightarrow> 64 word \<Rightarrow> nat \<Rightarrow> string" where
  "hotp hmac key counter digits =
     pad_zeros digits (dec_nat (unat (truncate_digest (hmac key (big_endian counter)) mod pow_ten digits)))"

text \<open>A moment is its Unix second; Go's division truncates towards zero.\<close>

definition Step :: "int \<Rightarrow> int" where
  "Step t = (if t < 0 then - ((- t) div Period) else t div Period)"

definition Code :: "(byte list \<Rightarrow> byte list \<Rightarrow> byte list) \<Rightarrow> (string \<Rightarrow> byte list option) \<Rightarrow> string \<Rightarrow> int \<Rightarrow> string option" where
  "Code hmac b32 secret t =
     (case decode b32 secret of
        None \<Rightarrow> None
      | Some key \<Rightarrow> if Step t < 0 then None else Some (hotp hmac key (word_of_int (Step t)) Digits))"

definition Verify ::
  "(byte list \<Rightarrow> byte list \<Rightarrow> byte list) \<Rightarrow> (string \<Rightarrow> byte list option) \<Rightarrow> string \<Rightarrow> string \<Rightarrow> int \<Rightarrow> int \<times> bool" where
  "Verify hmac b32 secret code now =
     (let c = no_spaces code
      in if length c \<noteq> Digits then (0, False)
         else case decode b32 secret of
                None \<Rightarrow> (0, False)
              | Some key \<Rightarrow>
                  foldl (\<lambda>(matched, found) d.
                      let s = Step now + d
                      in if s < 0 then (matched, found)
                         else if hotp hmac key (word_of_int s) Digits = c \<and> \<not> found then (s, True)
                         else (matched, found))
                    (0, False) [- Skew..Skew])"

section \<open>Recovery codes\<close>

definition RecoveryCount :: nat where "RecoveryCount = 10"

definition HashRecovery :: "(string \<Rightarrow> string) \<Rightarrow> string \<Rightarrow> string" where
  "HashRecovery sha c = sha (to_lower (filter (\<lambda>x. x \<noteq> CHR '' '' \<and> x \<noteq> CHR ''-'') (trim_space c)))"

text \<open>The loop of \<open>NewRecoveryCodes\<close> over the random draws, each encoded in base32.\<close>

definition recovery_code :: "string \<Rightarrow> string" where
  "recovery_code encoded = (let s = take 10 (to_lower encoded) in take 5 s @ ''-'' @ drop 5 s)"

definition NewRecoveryCodes :: "(string \<Rightarrow> string) \<Rightarrow> string list \<Rightarrow> string list \<times> string list" where
  "NewRecoveryCodes sha draws =
     (let plain = map recovery_code (take RecoveryCount draws) in (plain, map (HashRecovery sha) plain))"

definition first_match :: "string list \<Rightarrow> string \<Rightarrow> nat option" where
  "first_match hashes h =
     foldl (\<lambda>idx i. if hashes ! i = h \<and> idx = None then Some i else idx) None [0..<length hashes]"

definition ConsumeRecovery :: "(string \<Rightarrow> string) \<Rightarrow> string list \<Rightarrow> string \<Rightarrow> string list \<times> bool" where
  "ConsumeRecovery sha hashes code =
     (case first_match hashes (HashRecovery sha code) of
        None \<Rightarrow> (hashes, False)
      | Some idx \<Rightarrow> (take idx hashes @ drop (idx + 1) hashes, True))"

section \<open>The code is the decimal of the truncated digest\<close>

definition digest_number :: "byte list \<Rightarrow> nat" where
  "digest_number dg =
     (let off = unat (last dg) mod 16
      in (unat (dg ! off) mod 128) * 2 ^ 24 + unat (dg ! (off + 1)) * 2 ^ 16 + unat (dg ! (off + 2)) * 2 ^ 8 +
         unat (dg ! (off + 3)))"

fun last_digits :: "nat \<Rightarrow> nat \<Rightarrow> string" where
  "last_digits 0 n = []"
| "last_digits (Suc k) n = last_digits k (n div 10) @ [digit_char (n mod 10)]"

definition hmac_sha1 :: "(byte list \<Rightarrow> byte list \<Rightarrow> byte list) \<Rightarrow> bool" where
  "hmac_sha1 hmac \<longleftrightarrow> (\<forall>key msg. length (hmac key msg) = 20)"

lemma or_shift:
  fixes x y :: nat
  assumes "y < 2 ^ k"
  shows "push_bit k x OR y = x * 2 ^ k + y"
proof -
  have "push_bit k x + y = push_bit k x OR y"
  proof (rule disjunctive_add)
    fix n
    have "bit y n \<Longrightarrow> n < k"
      using assms by (metis bit_take_bit_iff take_bit_nat_eq_self)
    then show "\<not> bit (push_bit k x) n \<or> \<not> bit y n" by (auto simp: bit_push_bit_iff)
  qed
  then show ?thesis by (simp add: push_bit_eq_mult)
qed

lemma or_shifts:
  fixes a b c d :: nat
  assumes "b < 2 ^ 8" "c < 2 ^ 8" "d < 2 ^ 8"
  shows "((push_bit 24 a OR push_bit 16 b) OR push_bit 8 c) OR d = a * 2 ^ 24 + b * 2 ^ 16 + c * 2 ^ 8 + d"
proof -
  have "push_bit 24 a OR push_bit 16 b = push_bit 16 (push_bit 8 a OR b)" by (simp add: push_bit_or)
  then have 1: "push_bit 24 a OR push_bit 16 b = push_bit 16 (a * 2 ^ 8 + b)" using or_shift [OF assms(1)] by simp
  have "push_bit 16 (a * 2 ^ 8 + b) OR push_bit 8 c = push_bit 8 (push_bit 8 (a * 2 ^ 8 + b) OR c)" by (simp add: push_bit_or)
  then have 2: "push_bit 16 (a * 2 ^ 8 + b) OR push_bit 8 c = push_bit 8 ((a * 2 ^ 8 + b) * 2 ^ 8 + c)"
    using or_shift [OF assms(2)] by simp
  show ?thesis unfolding 1 2 using or_shift [OF assms(3)] by simp
qed

lemma unat_byte: "unat (b :: byte) < 256"
  using unsigned_less [of b] by simp

lemma unat_ucast32: "unat (ucast (b :: byte) :: 32 word) = unat b"
  using unat_byte [of b] by (simp add: unsigned_ucast_eq take_bit_eq_mod)

lemma unat_mask7: "unat ((ucast (b :: byte) :: 32 word) AND 0x7f) = unat b mod 128"
proof -
  have "(0x7f :: 32 word) = mask 7" by (simp add: mask_eq_exp_minus_1)
  then have "unat ((ucast b :: 32 word) AND 0x7f) = unat (take_bit 7 (ucast b :: 32 word))" by (simp add: take_bit_eq_mask)
  also have "\<dots> = unat b mod 128"
    using unat_byte [of b] by (simp only: unsigned_take_bit_eq unat_ucast32) (simp add: take_bit_eq_mod)
  finally show ?thesis .
qed

lemma unat_mask4: "unat ((b :: byte) AND 0x0f) = unat b mod 16"
proof -
  have "(0x0f :: byte) = mask 4" by (simp add: mask_eq_exp_minus_1)
  then have "unat (b AND 0x0f) = unat (take_bit 4 b)" by (simp only: take_bit_eq_mask)
  then show ?thesis by (simp only: unsigned_take_bit_eq) (simp add: take_bit_eq_mod)
qed

lemma unat_push32:
  fixes w :: "32 word"
  assumes "unat w * 2 ^ k < 2 ^ 32"
  shows "unat (push_bit k w) = push_bit k (unat w)"
  using assms by (simp only: unsigned_push_bit_eq) (simp add: push_bit_eq_mult take_bit_eq_mod)

lemma truncate_digest_number:
  assumes "dg \<noteq> []"
  shows "unat (truncate_digest dg) = digest_number dg"
proof -
  define off where "off = unat (last dg) mod 16"
  have o: "unat (dg ! (length dg - 1) AND 0x0f) = off"
    unfolding unat_mask4 off_def using assms by (simp add: last_conv_nth)
  have a: "unat (push_bit 24 ((ucast x :: 32 word) AND 0x7f)) = push_bit 24 (unat x mod 128)" for x :: byte
    using unat_push32 [of "(ucast x :: 32 word) AND 0x7f" 24] unfolding unat_mask7 by simp
  have b: "unat (push_bit 16 (ucast x :: 32 word)) = push_bit 16 (unat x)" for x :: byte
    using unat_push32 [of "ucast x :: 32 word" 16] unat_byte [of x] unfolding unat_ucast32 by simp
  have c: "unat (push_bit 8 (ucast x :: 32 word)) = push_bit 8 (unat x)" for x :: byte
    using unat_push32 [of "ucast x :: 32 word" 8] unat_byte [of x] unfolding unat_ucast32 by simp
  have "unat (truncate_digest dg) =
      ((push_bit 24 (unat (dg ! off) mod 128) OR push_bit 16 (unat (dg ! (off + 1)))) OR push_bit 8 (unat (dg ! (off + 2)))) OR
      unat (dg ! (off + 3))"
    unfolding truncate_digest_def o Let_def unsigned_or_eq a b c unat_ucast32 ..
  also have "\<dots> = digest_number dg"
    using or_shifts [of "unat (dg ! (off + 1))" "unat (dg ! (off + 2))" "unat (dg ! (off + 3))" "unat (dg ! off) mod 128"] unat_byte
    by (simp add: digest_number_def Let_def off_def)
  finally show ?thesis .
qed

lemma pow_ten_6: "pow_ten Digits = 1000000"
  by (simp add: pow_ten_def Digits_def numeral_eq_Suc)

text \<open>The padded numeral of a number below the power of ten is its last digits.\<close>

lemma last_digits_zero: "last_digits k 0 = replicate k (CHR ''0'')"
proof (induction k)
  case (Suc k)
  have "digit_char 0 = CHR ''0''" by code_simp
  then show ?case using Suc by (simp add: replicate_append_same)
qed simp

lemma dec_nat_nonempty: "dec_nat n \<noteq> []"
  by (subst dec_nat.simps) simp

lemma pad_dec_nat: "0 < k \<Longrightarrow> n < 10 ^ k \<Longrightarrow> pad_zeros k (dec_nat n) = last_digits k n"
proof (induction k arbitrary: n)
  case (Suc k)
  show ?case
  proof (cases "n < 10")
    case True
    then show ?thesis by (subst dec_nat.simps) (simp add: pad_zeros_def last_digits_zero)
  next
    case False
    then have d: "dec_nat n = dec_nat (n div 10) @ [digit_char (n mod 10)]" by (subst dec_nat.simps) simp
    have "k \<noteq> 0" using Suc.prems(2) False by (cases k) auto
    then have "pad_zeros k (dec_nat (n div 10)) = last_digits k (n div 10)" using Suc.prems(2) by (intro Suc.IH) auto
    then show ?thesis by (simp add: d pad_zeros_def)
  qed
qed simp

lemma last_digits_length: "length (last_digits k n) = k"
  by (induction k arbitrary: n) simp_all

lemma last_digits_nth: "i < k \<Longrightarrow> last_digits k n ! i = digit_char (n div 10 ^ (k - 1 - i) mod 10)"
proof (induction k arbitrary: n)
  case (Suc k)
  show ?case
  proof (cases "i < k")
    case True
    then have "10 ^ (k - i) = 10 * (10 :: nat) ^ (k - 1 - i)" by (metis Suc_diff_Suc diff_Suc_eq_diff_pred power_Suc)
    then show ?thesis using True Suc.IH [OF True] by (simp add: nth_append last_digits_length div_mult2_eq)
  next
    case False
    then show ?thesis using Suc.prems by (simp add: nth_append last_digits_length less_Suc_eq)
  qed
qed simp

lemma last_digits_mod: "last_digits k (n mod 10 ^ k) = last_digits k n"
proof (induction k arbitrary: n)
  case (Suc k)
  have "n mod (10 * 10 ^ k) = 10 * (n div 10 mod 10 ^ k) + n mod 10" by (rule mod_mult2_eq)
  then have "n mod (10 * 10 ^ k) div 10 = n div 10 mod 10 ^ k" by simp
  moreover have "n mod (10 * 10 ^ k) mod 10 = n mod 10" by (simp add: mod_mod_cancel)
  ultimately show ?case using Suc [of "n div 10"] by simp
qed simp

lemma hotp_eq:
  assumes "hmac_sha1 hmac"
  shows "hotp hmac key counter Digits = last_digits 6 (digest_number (hmac key (big_endian counter)))"
proof -
  let ?dg = "hmac key (big_endian counter)"
  have "length ?dg = 20" using assms unfolding hmac_sha1_def by blast
  then have "?dg \<noteq> []" by auto
  then have "unat (truncate_digest ?dg mod pow_ten Digits) = digest_number ?dg mod 10 ^ 6"
    unfolding pow_ten_6 by (simp add: unat_mod_distrib truncate_digest_number)
  moreover have "pad_zeros 6 (dec_nat (digest_number ?dg mod 10 ^ 6)) = last_digits 6 (digest_number ?dg mod 10 ^ 6)"
    by (intro pad_dec_nat) simp_all
  moreover have "last_digits 6 (digest_number ?dg mod 10 ^ 6) = last_digits 6 (digest_number ?dg)" by (rule last_digits_mod)
  ultimately show ?thesis unfolding hotp_def by (simp add: Digits_def)
qed

text \<open>C31: a one-time code is the one RFC 4226 prescribes. For a digest of 20 bytes the code is the six last decimal
  digits, leading zeros kept, of the 31-bit number at the offset the digest's last nibble names; in particular it
  always has six characters, so comparing with a six-character input is never decided by a lost zero.
\<close>

theorem hotp_is_rfc4226:
  assumes "hmac_sha1 hmac"
  shows "hotp hmac key counter Digits = last_digits 6 (digest_number (hmac key (big_endian counter))) \<and>
    length (hotp hmac key counter Digits) = 6 \<and>
    (\<forall>i < 6. hotp hmac key counter Digits ! i =
       digit_char (digest_number (hmac key (big_endian counter)) div 10 ^ (5 - i) mod 10))"
  unfolding hotp_eq [OF assms] by (simp add: last_digits_length last_digits_nth)

text \<open>The first test vector of RFC 4226, with the digest it lists for the counter 0.\<close>

definition rfc_digest :: "byte list" where
  "rfc_digest = [0xcc, 0x93, 0xcf, 0x18, 0x50, 0x8d, 0x94, 0x93, 0x4c, 0x64,
                 0xb6, 0x5d, 0x8b, 0xa7, 0x66, 0x7f, 0xb7, 0xcd, 0xe4, 0xb0]"

lemma rfc_code: "last_digits 6 (digest_number rfc_digest) = ''755224''"
proof -
  have "digest_number rfc_digest = 1284755224" by (simp add: digest_number_def rfc_digest_def)
  moreover have "(6 :: nat) = Suc (Suc (Suc (Suc (Suc (Suc 0)))))" by simp
  ultimately have "last_digits 6 (digest_number rfc_digest) = map digit_char [7, 5, 5, 2, 2, 4]"
    by (simp only: last_digits.simps) simp
  also have "\<dots> = ''755224''" by code_simp
  finally show ?thesis .
qed

lemma rfc_hmac: "hmac_sha1 (\<lambda>_ _. rfc_digest)"
  by (simp add: hmac_sha1_def rfc_digest_def)

theorem hotp_is_rfc4226_witness: "hotp (\<lambda>_ _. rfc_digest) [] 0 Digits = ''755224''"
  using hotp_is_rfc4226 [OF rfc_hmac, of "[]" 0] rfc_code by simp

section \<open>Which step a code is accepted for\<close>

definition step_code :: "(byte list \<Rightarrow> byte list \<Rightarrow> byte list) \<Rightarrow> byte list \<Rightarrow> int \<Rightarrow> string" where
  "step_code hmac key s = hotp hmac key (word_of_int s) Digits"

text \<open>The steps a code is valid for at a moment, and the one \<open>Verify\<close> reports: the earliest.\<close>

definition valid_step ::
  "(byte list \<Rightarrow> byte list \<Rightarrow> byte list) \<Rightarrow> (string \<Rightarrow> byte list option) \<Rightarrow> string \<Rightarrow> string \<Rightarrow> int \<Rightarrow> int \<Rightarrow> bool" where
  "valid_step hmac b32 secret code now s \<longleftrightarrow>
     (\<exists>key. decode b32 secret = Some key \<and> length (no_spaces code) = Digits \<and> 0 \<le> s \<and>
        Step now - 1 \<le> s \<and> s \<le> Step now + 1 \<and> step_code hmac key s = no_spaces code)"

lemma window: "[- Skew..Skew] = [-1, 0, 1]"
  by (simp add: Skew_def upto.simps)

lemma Verify_eq:
  "Verify hmac b32 secret code now =
     (if length (no_spaces code) \<noteq> Digits then (0, False)
      else case decode b32 secret of
             None \<Rightarrow> (0, False)
           | Some key \<Rightarrow>
               (let ok = (\<lambda>s. 0 \<le> s \<and> step_code hmac key s = no_spaces code); t = Step now
                in if ok (t - 1) then (t - 1, True) else if ok t then (t, True) else if ok (t + 1) then (t + 1, True)
                   else (0, False)))"
  unfolding Verify_def window step_code_def Let_def by (auto split: option.split)

definition pick :: "(int \<Rightarrow> bool) \<Rightarrow> int \<Rightarrow> int \<times> bool" where
  "pick ok t = (if ok (t - 1) then (t - 1, True) else if ok t then (t, True) else if ok (t + 1) then (t + 1, True)
                else (0, False))"

lemma pick_earliest:
  "(pick ok t = (s, True) \<longleftrightarrow> (t - 1 \<le> s \<and> s \<le> t + 1 \<and> ok s) \<and> (\<forall>r < s. \<not> (t - 1 \<le> r \<and> r \<le> t + 1 \<and> ok r))) \<and>
   ((\<forall>r. \<not> (t - 1 \<le> r \<and> r \<le> t + 1 \<and> ok r)) \<longleftrightarrow> pick ok t = (0, False)) \<and>
   (snd (pick ok t) \<or> pick ok t = (0, False))"
proof -
  have w: "t - 1 \<le> r \<and> r \<le> t + 1 \<and> ok r \<longleftrightarrow> (r = t - 1 \<or> r = t \<or> r = t + 1) \<and> ok r" for r by auto
  have lt: "r < t \<longleftrightarrow> r \<le> t - 1" "r < t + 1 \<longleftrightarrow> r \<le> t" for r by linarith+
  consider "ok (t - 1)" | "\<not> ok (t - 1)" "ok t" | "\<not> ok (t - 1)" "\<not> ok t" "ok (t + 1)" | "\<not> ok (t - 1)" "\<not> ok t" "\<not> ok (t + 1)"
    by blast
  then show ?thesis
  proof cases
    case 1
    have i: "t - 1 \<le> t - 1 \<and> t - 1 \<le> t + 1 \<and> ok (t - 1)" using 1 by simp
    have "(t - 1 \<le> s \<and> s \<le> t + 1 \<and> ok s) \<and> (\<forall>r < s. \<not> (t - 1 \<le> r \<and> r \<le> t + 1 \<and> ok r)) \<longleftrightarrow> s = t - 1"
      using i by (metis linorder_not_le order_antisym)
    moreover have "\<not> (\<forall>r. \<not> (t - 1 \<le> r \<and> r \<le> t + 1 \<and> ok r))" using i by blast
    ultimately show ?thesis using 1 by (auto simp: pick_def)
  next
    case 2
    then show ?thesis unfolding w by (auto simp: pick_def lt)
  next
    case 3
    then show ?thesis unfolding w by (auto simp: pick_def lt)
  next
    case 4
    then show ?thesis unfolding w by (auto simp: pick_def)
  qed
qed

text \<open>
  A code is accepted exactly when some step of the window, the current one or a neighbour and none before the
  epoch, has it as its code, and the step reported is the earliest such; everything else (a wrong length, a
  secret that does not decode, no match) is refused with step 0.
\<close>

lemma verify_is_exact:
  "(Verify hmac b32 secret code now = (s, True) \<longleftrightarrow>
     valid_step hmac b32 secret code now s \<and> (\<forall>r < s. \<not> valid_step hmac b32 secret code now r)) \<and>
   ((\<forall>r. \<not> valid_step hmac b32 secret code now r) \<longleftrightarrow> Verify hmac b32 secret code now = (0, False)) \<and>
   (snd (Verify hmac b32 secret code now) \<or> Verify hmac b32 secret code now = (0, False))"
proof (cases "length (no_spaces code) = Digits \<and> decode b32 secret \<noteq> None")
  case False
  then show ?thesis by (auto simp: Verify_eq valid_step_def)
next
  case True
  then obtain key where k: "decode b32 secret = Some key" by blast
  define ok where "ok = (\<lambda>s. 0 \<le> s \<and> step_code hmac key s = no_spaces code)"
  have v: "valid_step hmac b32 secret code now = (\<lambda>r. Step now - 1 \<le> r \<and> r \<le> Step now + 1 \<and> ok r)"
    using True k by (auto simp: valid_step_def ok_def fun_eq_iff)
  have e: "Verify hmac b32 secret code now = pick ok (Step now)"
    using True k by (simp add: Verify_eq ok_def pick_def Let_def)
  show ?thesis unfolding v e by (rule pick_earliest)
qed

section \<open>Recovery codes are consumed\<close>

lemma first_match_fold:
  "foldl (\<lambda>idx i. if hashes ! i = h \<and> idx = None then Some i else idx) (Some k) is = Some k"
  by (induction "is") simp_all

lemma first_match_eq:
  "first_match hashes h = (case filter (\<lambda>i. hashes ! i = h) [0..<length hashes] of [] \<Rightarrow> None | i # _ \<Rightarrow> Some i)"
proof -
  have "foldl (\<lambda>idx i. if hashes ! i = h \<and> idx = None then Some i else idx) None is =
      (case filter (\<lambda>i. hashes ! i = h) is of [] \<Rightarrow> None | i # _ \<Rightarrow> Some i)" for "is"
    by (induction "is") (simp_all add: first_match_fold)
  then show ?thesis unfolding first_match_def .
qed

lemma first_match_Cons:
  "first_match (x # xs) h = (if x = h then Some 0 else map_option Suc (first_match xs h))"
proof -
  have u: "[0..<length (x # xs)] = 0 # map Suc [0..<length xs]" by (simp add: upt_conv_Cons map_Suc_upt del: upt_Suc)
  show ?thesis unfolding first_match_eq u by (simp add: filter_map comp_def split: list.split)
qed

lemma ConsumeRecovery_eq:
  "ConsumeRecovery sha hashes code =
     (let h = HashRecovery sha code in if h \<in> set hashes then (remove1 h hashes, True) else (hashes, False))"
proof -
  have "(case first_match hashes h of None \<Rightarrow> (hashes, False) | Some idx \<Rightarrow> (take idx hashes @ drop (idx + 1) hashes, True)) =
      (if h \<in> set hashes then (remove1 h hashes, True) else (hashes, False))" for h
  proof (induction hashes)
    case Nil
    then show ?case by (simp add: first_match_def)
  next
    case (Cons x xs)
    then show ?case by (auto simp: first_match_Cons split: option.splits if_splits)
  qed
  then show ?thesis unfolding ConsumeRecovery_def Let_def .
qed

end
