(* ===== verification/TwoFactor.thy ===== *)
theory TwoFactor
  imports Totp
begin

text \<open>
  internal/platformapi/twofactor.go with \<open>resolveSession\<close> and \<open>issueSession\<close> of auth.go, over the user and
  session tables of internal/store/memory.go: the second sign-in factor. The vault, the password check and the
  cryptography are arguments. A request carries the clock reading, the fresh token, the fresh seed and which
  store writes fail, so every error branch is a value. Ledger records and the texts of the answers are left out.
\<close>

section \<open>State\<close>

record user =
  us_id :: string
  us_tenant :: string
  us_email :: string
  us_role :: string
  us_passwordHash :: string
  us_twoFactor :: bool
  us_secretRef :: string
  us_pendingRef :: string
  us_lastStep :: int
  us_recovery :: "string list"
  us_disabled :: bool

record sso_flow =
  sf_verifier :: string
  sf_nonce :: string
  sf_email :: string

record session =
  ss_token :: string
  ss_user :: string
  ss_tenant :: string
  ss_expires :: int
  ss_pending :: bool
  ss_attempts :: int
  ss_via :: string
  ss_idpMFA :: bool
  ss_ssoFlow :: "sso_flow option"

record sso_config =
  sc_issuer :: string
  sc_clientID :: string
  sc_secretRef :: string
  sc_enforced :: bool
  sc_configuredBy :: string
  sc_configuredAt :: int

record tenant =
  tn_id :: string
  tn_requires2fa :: bool
  tn_sso :: "sso_config option"

record store =
  st_users :: "string \<Rightarrow> user option"
  st_sessions :: "string \<Rightarrow> session option"
  st_tenants :: "string \<Rightarrow> tenant option"

definition PutUser :: "user \<Rightarrow> store \<Rightarrow> store" where
  "PutUser u st = st\<lparr>st_users := (st_users st)(us_id u := Some u)\<rparr>"

definition PutSession :: "session \<Rightarrow> store \<Rightarrow> store" where
  "PutSession s st = st\<lparr>st_sessions := (st_sessions st)(ss_token s := Some s)\<rparr>"

definition DeleteSession :: "string \<Rightarrow> store \<Rightarrow> store" where
  "DeleteSession tok st = st\<lparr>st_sessions := (st_sessions st)(tok := None)\<rparr>"

definition DeleteSessionsForUser :: "string \<Rightarrow> store \<Rightarrow> store" where
  "DeleteSessionsForUser uid st =
     st\<lparr>st_sessions := (\<lambda>tok. case st_sessions st tok of
          None \<Rightarrow> None
        | Some s \<Rightarrow> if ss_user s = uid then None else Some s)\<rparr>"

text \<open>What the deployment supplies, and what one request meets.\<close>

record deps =
  dp_vault :: "(string \<Rightarrow> string option) option"
  dp_seal :: "string \<Rightarrow> string option"
  dp_hmac :: "byte list \<Rightarrow> byte list \<Rightarrow> byte list"
  dp_base32 :: "string \<Rightarrow> byte list option"
  dp_sha :: "string \<Rightarrow> string"
  dp_password :: "string \<Rightarrow> string \<Rightarrow> bool"

datatype store_op = User_write | Session_write | Session_delete | Session_wipe

record env =
  en_now :: int
  en_token :: "string option"
  en_secret :: "string option"
  en_draws :: "string list option"
  en_fails :: "store_op \<Rightarrow> bool"

definition try_write :: "env \<Rightarrow> store_op \<Rightarrow> (store \<Rightarrow> store) \<Rightarrow> store \<Rightarrow> store" where
  "try_write e oper f st = (if en_fails e oper then st else f st)"

definition pendingTTL :: int where "pendingTTL = 5 * 60"
definition sessionTTL :: int where "sessionTTL = 30 * 24 * 60 * 60"
definition maxMFAAttempts :: int where "maxMFAAttempts = 5"

record body =
  bd_password :: string
  bd_challenge :: string
  bd_code :: string
  bd_recovery :: string

datatype answer =
    Challenge string
  | Granted string "nat option"
  | Enabled "string list" bool
  | Disabled
  | New_codes "string list"
  | Setup_secret string
  | Bad_request
  | Expired
  | Locked
  | Invalid
  | Unauthorized
  | Conflict
  | No_vault
  | Required_by_policy
  | Failed

section \<open>Checking a code\<close>

definition checkSealedTOTP :: "deps \<Rightarrow> string \<Rightarrow> int \<Rightarrow> string \<Rightarrow> int \<Rightarrow> (int \<times> bool) option" where
  "checkSealedTOTP d secretRef lastStep code now =
     (case dp_vault d of
        None \<Rightarrow> Some (0, False)
      | Some open_ref \<Rightarrow>
          if secretRef = '''' then Some (0, False)
          else case open_ref secretRef of
                 None \<Rightarrow> None
               | Some secret \<Rightarrow>
                   (let (step, ok) = Verify (dp_hmac d) (dp_base32 d) secret code now
                    in if \<not> ok \<or> step \<le> lastStep then Some (0, False) else Some (step, True)))"

definition checkTOTP :: "deps \<Rightarrow> user \<Rightarrow> string \<Rightarrow> int \<Rightarrow> (int \<times> bool) option" where
  "checkTOTP d u code now = checkSealedTOTP d (us_secretRef u) (us_lastStep u) code now"

text \<open>
  Both doors do the same with a presented factor: the updated user, a refusal, or an error. In
  \<open>handleTwoFactorVerify\<close> and \<open>reauthSecondFactor\<close> this is the switch on the recovery code.
\<close>

datatype factor = Accepted user bool | Refused | Check_failed

definition consume_factor :: "deps \<Rightarrow> user \<Rightarrow> body \<Rightarrow> int \<Rightarrow> factor" where
  "consume_factor d u b now =
     (if trim_space (bd_recovery b) \<noteq> '''' then
        (let (rest, ok) = ConsumeRecovery (dp_sha d) (us_recovery u) (bd_recovery b)
         in if ok then Accepted (u\<lparr>us_recovery := rest\<rparr>) True else Refused)
      else case checkTOTP d u (bd_code b) now of
             None \<Rightarrow> Check_failed
           | Some (step, ok) \<Rightarrow> if \<not> ok then Refused else Accepted (u\<lparr>us_lastStep := step\<rparr>) False)"

section \<open>Sign-in\<close>

definition half_session :: "env \<Rightarrow> user \<Rightarrow> string \<Rightarrow> session" where
  "half_session e u tok = \<lparr>ss_token = tok, ss_user = us_id u, ss_tenant = us_tenant u,
     ss_expires = en_now e + pendingTTL, ss_pending = True, ss_attempts = 0, ss_via = '''', ss_idpMFA = False, ss_ssoFlow = None\<rparr>"

definition startSecondFactor :: "env \<Rightarrow> user \<Rightarrow> store \<Rightarrow> store \<times> answer" where
  "startSecondFactor e u st =
     (case en_token e of
        None \<Rightarrow> (st, Failed)
      | Some tok \<Rightarrow>
          if en_fails e Session_write then (st, Failed)
          else (PutSession (half_session e u tok) st, Challenge tok))"

definition new_session :: "env \<Rightarrow> user \<Rightarrow> string \<Rightarrow> session" where
  "new_session e u tok = \<lparr>ss_token = tok, ss_user = us_id u, ss_tenant = us_tenant u,
     ss_expires = en_now e + sessionTTL, ss_pending = False, ss_attempts = 0, ss_via = '''', ss_idpMFA = False, ss_ssoFlow = None\<rparr>"

definition issueSession :: "env \<Rightarrow> user \<Rightarrow> store \<Rightarrow> store \<times> string option" where
  "issueSession e u st =
     (case en_token e of
        None \<Rightarrow> (st, None)
      | Some tok \<Rightarrow> if en_fails e Session_write then (st, None) else (PutSession (new_session e u tok) st, Some tok))"

definition refuseSecondFactor :: "env \<Rightarrow> session \<Rightarrow> store \<Rightarrow> store \<times> answer" where
  "refuseSecondFactor e s0 st =
     (let s = s0\<lparr>ss_attempts := ss_attempts s0 + 1\<rparr>
      in if maxMFAAttempts \<le> ss_attempts s then (try_write e Session_delete (DeleteSession (ss_token s)) st, Locked)
         else (try_write e Session_write (PutSession s) st, Invalid))"

definition finish_verify :: "env \<Rightarrow> session \<Rightarrow> user \<Rightarrow> bool \<Rightarrow> store \<Rightarrow> store \<times> answer" where
  "finish_verify e s u usedRecovery st =
     (if en_fails e User_write then (st, Failed)
      else case issueSession e u (try_write e Session_delete (DeleteSession (ss_token s)) (PutUser u st)) of
             (st', None) \<Rightarrow> (st', Failed)
           | (st', Some tok) \<Rightarrow> (st', Granted tok (if usedRecovery then Some (length (us_recovery u)) else None)))"

text \<open>A body that does not decode is \<open>None\<close>.\<close>

definition handleTwoFactorVerify :: "deps \<Rightarrow> env \<Rightarrow> body option \<Rightarrow> store \<Rightarrow> store \<times> answer" where
  "handleTwoFactorVerify d e body st =
     (case body of
        None \<Rightarrow> (st, Bad_request)
      | Some b \<Rightarrow>
          (case st_sessions st (trim_space (bd_challenge b)) of
             None \<Rightarrow> (st, Expired)
           | Some s \<Rightarrow>
               if \<not> ss_pending s \<or> \<not> en_now e < ss_expires s then (st, Expired)
               else (case st_users st (ss_user s) of
                       None \<Rightarrow> (try_write e Session_delete (DeleteSession (ss_token s)) st, Expired)
                     | Some u \<Rightarrow>
                         if \<not> us_twoFactor u then (try_write e Session_delete (DeleteSession (ss_token s)) st, Expired)
                         else (case consume_factor d u b (en_now e) of
                                 Refused \<Rightarrow> refuseSecondFactor e s st
                               | Check_failed \<Rightarrow> (st, Failed)
                               | Accepted u' usedRecovery \<Rightarrow> finish_verify e s u' usedRecovery st))))"

definition resolveSession :: "env \<Rightarrow> string \<Rightarrow> store \<Rightarrow> session option" where
  "resolveSession e tok st =
     (if tok = '''' then None
      else case st_sessions st tok of
             None \<Rightarrow> None
           | Some s \<Rightarrow>
               if \<not> en_now e < ss_expires s then None
               else if ss_pending s \<or> ss_ssoFlow s \<noteq> None then None
               else (case st_users st (ss_user s) of
                       Some u \<Rightarrow> if us_disabled u then None else Some s
                     | None \<Rightarrow> Some s))"

section \<open>Enrolment and removal\<close>

definition reauthUser :: "deps \<Rightarrow> session \<Rightarrow> string \<Rightarrow> store \<Rightarrow> user option" where
  "reauthUser d s password st =
     (case st_users st (ss_user s) of
        None \<Rightarrow> None
      | Some u \<Rightarrow> if dp_password d password (us_passwordHash u) then Some u else None)"

text \<open>\<open>Inr\<close> the user with the factor consumed, \<open>Inl\<close> the refusal already answered.\<close>

definition reauthSecondFactor :: "deps \<Rightarrow> env \<Rightarrow> session \<Rightarrow> body option \<Rightarrow> store \<Rightarrow> answer + user" where
  "reauthSecondFactor d e s body st =
     (case body of
        None \<Rightarrow> Inl Bad_request
      | Some b \<Rightarrow>
          (case reauthUser d s (bd_password b) st of
             None \<Rightarrow> Inl Unauthorized
           | Some u \<Rightarrow>
               if \<not> us_twoFactor u then Inl Conflict
               else (case consume_factor d u b (en_now e) of
                       Refused \<Rightarrow> Inl Invalid
                     | Check_failed \<Rightarrow> Inl Failed
                     | Accepted u' _ \<Rightarrow> Inr u')))"

definition handleTwoFactorSetup :: "deps \<Rightarrow> env \<Rightarrow> session \<Rightarrow> body option \<Rightarrow> store \<Rightarrow> store \<times> answer" where
  "handleTwoFactorSetup d e s body st =
     (case body of
        None \<Rightarrow> (st, Bad_request)
      | Some b \<Rightarrow>
          (case reauthUser d s (bd_password b) st of
             None \<Rightarrow> (st, Unauthorized)
           | Some u \<Rightarrow>
               if us_twoFactor u then (st, Conflict)
               else if dp_vault d = None then (st, No_vault)
               else (case en_secret e of
                       None \<Rightarrow> (st, Failed)
                     | Some secret \<Rightarrow>
                         (case dp_seal d secret of
                            None \<Rightarrow> (st, Failed)
                          | Some ref \<Rightarrow>
                              if en_fails e User_write then (st, Failed)
                              else (PutUser (u\<lparr>us_pendingRef := ref\<rparr>) st, Setup_secret secret)))))"

definition revokeOtherSessions :: "env \<Rightarrow> string \<Rightarrow> session \<Rightarrow> store \<Rightarrow> store \<times> bool" where
  "revokeOtherSessions e userID keep st =
     (if en_fails e Session_wipe then (st, False)
      else (try_write e Session_write (PutSession keep) (DeleteSessionsForUser userID st), True))"

definition enabled_user :: "user \<Rightarrow> int \<Rightarrow> string list \<Rightarrow> user" where
  "enabled_user u step hashes = u\<lparr>us_secretRef := us_pendingRef u, us_pendingRef := [], us_lastStep := step,
     us_recovery := hashes, us_twoFactor := True\<rparr>"

definition handleTwoFactorEnable :: "deps \<Rightarrow> env \<Rightarrow> session \<Rightarrow> body option \<Rightarrow> store \<Rightarrow> store \<times> answer" where
  "handleTwoFactorEnable d e s body st =
     (case body of
        None \<Rightarrow> (st, Bad_request)
      | Some b \<Rightarrow>
          (case st_users st (ss_user s) of
             None \<Rightarrow> (st, Unauthorized)
           | Some u \<Rightarrow>
               if us_twoFactor u then (st, Conflict)
               else (case (us_pendingRef u = '''', dp_vault d) of
                       (False, Some open_ref) \<Rightarrow>
                         (case open_ref (us_pendingRef u) of
                            None \<Rightarrow> (st, Failed)
                          | Some secret \<Rightarrow>
                              (let (step, ok) = Verify (dp_hmac d) (dp_base32 d) secret (bd_code b) (en_now e)
                               in if \<not> ok then (st, Invalid)
                                  else case en_draws e of
                                         None \<Rightarrow> (st, Failed)
                                       | Some draws \<Rightarrow>
                                           (let (plain, hashes) = NewRecoveryCodes (dp_sha d) draws;
                                                u' = enabled_user u step hashes
                                            in if en_fails e User_write then (st, Failed)
                                               else let (st', revoked) = revokeOtherSessions e (us_id u) s (PutUser u' st)
                                                    in (st', Enabled plain revoked))))
                     | _ \<Rightarrow> (st, Bad_request))))"

definition handleTwoFactorDisable :: "deps \<Rightarrow> env \<Rightarrow> session \<Rightarrow> body option \<Rightarrow> store \<Rightarrow> store \<times> answer" where
  "handleTwoFactorDisable d e s body st =
     (if map_option tn_requires2fa (st_tenants st (ss_tenant s)) \<noteq> Some False then (st, Required_by_policy)
      else case reauthSecondFactor d e s body st of
             Inl a \<Rightarrow> (st, a)
           | Inr u \<Rightarrow>
               if en_fails e User_write then (st, Failed)
               else (PutUser (u\<lparr>us_twoFactor := False, us_secretRef := '''', us_pendingRef := '''', us_lastStep := 0,
                        us_recovery := []\<rparr>) st, Disabled))"

definition handleRecoveryCodes :: "deps \<Rightarrow> env \<Rightarrow> session \<Rightarrow> body option \<Rightarrow> store \<Rightarrow> store \<times> answer" where
  "handleRecoveryCodes d e s body st =
     (case reauthSecondFactor d e s body st of
        Inl a \<Rightarrow> (st, a)
      | Inr u \<Rightarrow>
          (case en_draws e of
             None \<Rightarrow> (st, Failed)
           | Some draws \<Rightarrow>
               (let (plain, hashes) = NewRecoveryCodes (dp_sha d) draws
                in if en_fails e User_write then (st, Failed)
                   else (PutUser (u\<lparr>us_recovery := hashes\<rparr>) st, New_codes plain))))"

section \<open>Requests in sequence\<close>

text \<open>
  \<open>Login\<close> is the end of \<open>handleLogin\<close>, once the password and the seat are accepted; the handlers of a signed-in
  user run behind \<open>sessionAuth\<close>.
\<close>

datatype request =
    Sign_in env "body option"
  | Login env string
  | Setup env string "body option"
  | Enable env string "body option"
  | Disable env string "body option"
  | Codes env string "body option"

definition finish_login :: "env \<Rightarrow> string \<Rightarrow> store \<Rightarrow> store \<times> answer" where
  "finish_login e uid st =
     (case st_users st uid of
        None \<Rightarrow> (st, Unauthorized)
      | Some u \<Rightarrow>
          if us_twoFactor u then startSecondFactor e u st
          else (case issueSession e u st of
                  (st', None) \<Rightarrow> (st', Failed)
                | (st', Some tok) \<Rightarrow> (st', Granted tok None)))"

definition sessionAuth :: "env \<Rightarrow> string \<Rightarrow> (session \<Rightarrow> store \<Rightarrow> store \<times> answer) \<Rightarrow> store \<Rightarrow> store \<times> answer" where
  "sessionAuth e tok h st = (case resolveSession e tok st of None \<Rightarrow> (st, Unauthorized) | Some s \<Rightarrow> h s st)"

fun serve :: "deps \<Rightarrow> request \<Rightarrow> store \<Rightarrow> store \<times> answer" where
  "serve d (Sign_in e body) st = handleTwoFactorVerify d e body st"
| "serve d (Login e uid) st = finish_login e uid st"
| "serve d (Setup e tok body) st = sessionAuth e tok (\<lambda>s. handleTwoFactorSetup d e s body) st"
| "serve d (Enable e tok body) st = sessionAuth e tok (\<lambda>s. handleTwoFactorEnable d e s body) st"
| "serve d (Disable e tok body) st = sessionAuth e tok (\<lambda>s. handleTwoFactorDisable d e s body) st"
| "serve d (Codes e tok body) st = sessionAuth e tok (\<lambda>s. handleRecoveryCodes d e s body) st"

definition run :: "deps \<Rightarrow> request list \<Rightarrow> store \<Rightarrow> store" where
  "run d rqs st = foldl (\<lambda>st rq. fst (serve d rq st)) st rqs"

end
