(* ===== verification/TwoFactorProps.thy ===== *)
theory TwoFactorProps
  imports TwoFactor
begin

text \<open>
  What the second sign-in factor guarantees: the answer of every request, what a run of requests can do to an
  account that has it, how often a factor works and how many guesses a half-session allows.
\<close>

section \<open>The contract of a presented factor\<close>

definition factor_valid :: "deps \<Rightarrow> user \<Rightarrow> body \<Rightarrow> int \<Rightarrow> bool" where
  "factor_valid d u b now \<longleftrightarrow>
     (if trim_space (bd_recovery b) \<noteq> '''' then HashRecovery (dp_sha d) (bd_recovery b) \<in> set (us_recovery u)
      else \<exists>open_ref secret s. dp_vault d = Some open_ref \<and> us_secretRef u \<noteq> '''' \<and> open_ref (us_secretRef u) = Some secret \<and>
             us_lastStep u < s \<and> valid_step (dp_hmac d) (dp_base32 d) secret (bd_code b) now s \<and>
             (\<forall>r < s. \<not> valid_step (dp_hmac d) (dp_base32 d) secret (bd_code b) now r))"

definition seal_broken :: "deps \<Rightarrow> user \<Rightarrow> body \<Rightarrow> bool" where
  "seal_broken d u b \<longleftrightarrow>
     trim_space (bd_recovery b) = '''' \<and> us_secretRef u \<noteq> '''' \<and>
     (\<exists>open_ref. dp_vault d = Some open_ref \<and> open_ref (us_secretRef u) = None)"

text \<open>What an accepted factor changes in the account.\<close>

definition spent :: "deps \<Rightarrow> user \<Rightarrow> body \<Rightarrow> int \<Rightarrow> user \<Rightarrow> bool" where
  "spent d u b now u' \<longleftrightarrow>
     (if trim_space (bd_recovery b) \<noteq> ''''
      then u' = u\<lparr>us_recovery := remove1 (HashRecovery (dp_sha d) (bd_recovery b)) (us_recovery u)\<rparr>
      else \<exists>s. us_lastStep u < s \<and> u' = u\<lparr>us_lastStep := s\<rparr>)"

lemma verify_cases:
  obtains s where "Verify hm b32 secret code now = (s, True)" "valid_step hm b32 secret code now s"
    "\<forall>r < s. \<not> valid_step hm b32 secret code now r"
  | "Verify hm b32 secret code now = (0, False)" "\<forall>r. \<not> valid_step hm b32 secret code now r"
proof (cases "snd (Verify hm b32 secret code now)")
  case True
  then obtain s where s: "Verify hm b32 secret code now = (s, True)" by (metis prod.collapse)
  then have "valid_step hm b32 secret code now s" "\<forall>r < s. \<not> valid_step hm b32 secret code now r"
    using verify_is_exact [of hm b32 secret code now s] by blast+
  with s show ?thesis by (rule that(1))
next
  case False
  then have f: "Verify hm b32 secret code now = (0, False)" using verify_is_exact by metis
  then have "\<forall>r. \<not> valid_step hm b32 secret code now r" using verify_is_exact by metis
  with f show ?thesis by (rule that(2))
qed

lemma checkTOTP_cases:
  "checkTOTP d u code now =
     (case dp_vault d of
        None \<Rightarrow> Some (0, False)
      | Some open_ref \<Rightarrow>
          if us_secretRef u = '''' then Some (0, False)
          else case open_ref (us_secretRef u) of
                 None \<Rightarrow> None
               | Some secret \<Rightarrow>
                   (let v = Verify (dp_hmac d) (dp_base32 d) secret code now
                    in if snd v \<and> us_lastStep u < fst v then Some (fst v, True) else Some (0, False)))"
  unfolding checkTOTP_def checkSealedTOTP_def by (auto simp: Let_def split: option.split prod.split)

lemma earliest_step:
  "snd (Verify hm b32 secret code now) \<and> l < fst (Verify hm b32 secret code now) \<longleftrightarrow>
     (\<exists>s. l < s \<and> valid_step hm b32 secret code now s \<and> (\<forall>r < s. \<not> valid_step hm b32 secret code now r))"
proof (cases rule: verify_cases [of hm b32 secret code now])
  case (1 s)
  then show ?thesis by (metis fst_conv snd_conv linorder_neqE_linordered_idom)
next
  case 2
  then show ?thesis by auto
qed

lemma consume_Accepted:
  "(\<exists>u' r. consume_factor d u b now = Accepted u' r) \<longleftrightarrow> factor_valid d u b now"
proof (cases "trim_space (bd_recovery b) = ''''")
  case True
  then show ?thesis
    unfolding consume_factor_def factor_valid_def checkTOTP_cases
    by (auto simp: Let_def earliest_step split: option.split)
next
  case False
  then show ?thesis by (auto simp: consume_factor_def factor_valid_def ConsumeRecovery_eq Let_def)
qed

lemma consume_failed: "consume_factor d u b now = Check_failed \<longleftrightarrow> seal_broken d u b"
proof (cases "trim_space (bd_recovery b) = ''''")
  case True
  then show ?thesis unfolding consume_factor_def seal_broken_def checkTOTP_cases by (auto simp: Let_def split: option.split)
next
  case False
  then show ?thesis by (simp add: consume_factor_def seal_broken_def ConsumeRecovery_eq Let_def)
qed

lemma consume_spent: "consume_factor d u b now = Accepted u' r \<Longrightarrow> spent d u b now u'"
  unfolding consume_factor_def spent_def checkTOTP_cases
  by (auto simp: Let_def ConsumeRecovery_eq split: if_splits option.splits)

section \<open>The answer to a sign-in\<close>

definition redeemable :: "env \<Rightarrow> body \<Rightarrow> store \<Rightarrow> session \<Rightarrow> user \<Rightarrow> bool" where
  "redeemable e b st s u \<longleftrightarrow>
     st_sessions st (trim_space (bd_challenge b)) = Some s \<and> ss_pending s \<and> en_now e < ss_expires s \<and>
     st_users st (ss_user s) = Some u \<and> us_twoFactor u"

lemma redeemable_unique: "redeemable e b st s u \<Longrightarrow> redeemable e b st s' u' \<Longrightarrow> s' = s \<and> u' = u"
  by (auto simp: redeemable_def)

lemma verify_not_redeemable:
  assumes "\<nexists>s u. redeemable e b st s u"
  shows "snd (handleTwoFactorVerify d e (Some b) st) = Expired"
  using assms unfolding handleTwoFactorVerify_def redeemable_def by (auto split: option.split)

lemma verify_redeemable:
  assumes "redeemable e b st s u"
  shows "handleTwoFactorVerify d e (Some b) st =
    (case consume_factor d u b (en_now e) of
       Refused \<Rightarrow> refuseSecondFactor e s st
     | Check_failed \<Rightarrow> (st, Failed)
     | Accepted u' r \<Rightarrow> finish_verify e s u' r st)"
  using assms unfolding handleTwoFactorVerify_def redeemable_def by simp

lemma finish_verify_answer:
  "snd (finish_verify e s u r st) =
     (case en_token e of
        Some tok \<Rightarrow> if en_fails e User_write \<or> en_fails e Session_write then Failed
                   else Granted tok (if r then Some (length (us_recovery u)) else None)
      | None \<Rightarrow> Failed)"
  unfolding finish_verify_def issueSession_def by (simp split: option.split)

text \<open>What the presented half-session and factor amount to.\<close>

definition accepts :: "deps \<Rightarrow> env \<Rightarrow> body \<Rightarrow> store \<Rightarrow> bool" where
  "accepts d e b st \<longleftrightarrow> (\<exists>s u. redeemable e b st s u \<and> factor_valid d u b (en_now e))"

definition wrong_factor :: "deps \<Rightarrow> env \<Rightarrow> body \<Rightarrow> store \<Rightarrow> int \<Rightarrow> bool" where
  "wrong_factor d e b st n \<longleftrightarrow>
     (\<exists>s u. redeemable e b st s u \<and> \<not> factor_valid d u b (en_now e) \<and> \<not> seal_broken d u b \<and> n = ss_attempts s + 1)"

text \<open>C27: the answer to a sign-in is decided exactly by what was presented. A half-session that is live, of an account
  with the second factor on, is redeemed exactly when the recovery code is one of the account's, or without one the
  code is that of an unused step of the window, and the writes succeed; a wrong factor is refused, or locks the
  half-session from the fifth on; a seed that cannot be opened is an error and never a refusal counted against
  the user; every other challenge is expired, whatever the code.
\<close>

theorem sign_in_is_exact:
  "((\<exists>tok r. snd (handleTwoFactorVerify d e (Some b) st) = Granted tok r) \<longleftrightarrow>
      accepts d e b st \<and> en_token e \<noteq> None \<and> \<not> en_fails e User_write \<and> \<not> en_fails e Session_write) \<and>
   (snd (handleTwoFactorVerify d e (Some b) st) = Invalid \<longleftrightarrow> (\<exists>n. wrong_factor d e b st n \<and> n < maxMFAAttempts)) \<and>
   (snd (handleTwoFactorVerify d e (Some b) st) = Locked \<longleftrightarrow> (\<exists>n. wrong_factor d e b st n \<and> maxMFAAttempts \<le> n)) \<and>
   (snd (handleTwoFactorVerify d e (Some b) st) = Expired \<longleftrightarrow> (\<nexists>s u. redeemable e b st s u)) \<and>
   handleTwoFactorVerify d e None st = (st, Bad_request)"
proof (cases "\<exists>s u. redeemable e b st s u")
  case False
  then show ?thesis using verify_not_redeemable [OF False, of d]
    by (auto simp: accepts_def wrong_factor_def handleTwoFactorVerify_def)
next
  case True
  then obtain s u where r: "redeemable e b st s u" by blast
  have a: "accepts d e b st \<longleftrightarrow> factor_valid d u b (en_now e)"
    unfolding accepts_def using r redeemable_unique by blast
  have w: "wrong_factor d e b st n \<longleftrightarrow> \<not> factor_valid d u b (en_now e) \<and> \<not> seal_broken d u b \<and> n = ss_attempts s + 1" for n
    unfolding wrong_factor_def using r redeemable_unique by blast
  have x: "handleTwoFactorVerify d e None st = (st, Bad_request)" by (simp add: handleTwoFactorVerify_def)
  show ?thesis
  proof (cases "consume_factor d u b (en_now e)")
    case (Accepted u' q)
    then have v: "factor_valid d u b (en_now e)" using consume_Accepted by metis
    show ?thesis unfolding a w x verify_redeemable [OF r] Accepted using v True
      by (simp add: finish_verify_answer split: option.split)
  next
    case Refused
    then have v: "\<not> factor_valid d u b (en_now e)" "\<not> seal_broken d u b"
      using consume_Accepted [of d u b "en_now e"] consume_failed [of d u b "en_now e"] by auto
    show ?thesis unfolding a w x verify_redeemable [OF r] Refused using v True
      by (auto simp: refuseSecondFactor_def Let_def)
  next
    case Check_failed
    then have v: "\<not> factor_valid d u b (en_now e)" "seal_broken d u b"
      using consume_Accepted [of d u b "en_now e"] consume_failed [of d u b "en_now e"] by auto
    show ?thesis unfolding a w x verify_redeemable [OF r] Check_failed using v True by simp
  qed
qed

section \<open>Runs of requests\<close>

definition store_ok :: "store \<Rightarrow> bool" where
  "store_ok st \<longleftrightarrow> (\<forall>tok s. st_sessions st tok = Some s \<longrightarrow> ss_token s = tok) \<and> (\<forall>i u. st_users st i = Some u \<longrightarrow> us_id u = i)"

lemma store_okD:
  "store_ok st \<Longrightarrow> st_sessions st tok = Some s \<Longrightarrow> ss_token s = tok"
  "store_ok st \<Longrightarrow> st_users st i = Some u \<Longrightarrow> us_id u = i"
  unfolding store_ok_def by blast+

lemma store_ok_writes:
  "store_ok st \<Longrightarrow> store_ok (PutUser u st)"
  "store_ok st \<Longrightarrow> store_ok (PutSession s st)"
  "store_ok st \<Longrightarrow> store_ok (DeleteSession tok st)"
  "store_ok st \<Longrightarrow> store_ok (DeleteSessionsForUser i st)"
  unfolding store_ok_def PutUser_def PutSession_def DeleteSession_def DeleteSessionsForUser_def
  by (auto split: option.splits if_splits)

lemma try_write_cases: "try_write e oper f st = st \<or> try_write e oper f st = f st"
  by (simp add: try_write_def)

lemma store_ok_try:
  assumes "store_ok st" "store_ok (f st)"
  shows "store_ok (try_write e oper f st)"
  using assms try_write_cases [of e oper f st] by metis

text \<open>The writes as updates of the two tables.\<close>

lemma tables [simp]:
  "st_users (PutUser u st) = (st_users st)(us_id u := Some u)"
  "st_sessions (PutUser u st) = st_sessions st"
  "st_users (PutSession s st) = st_users st"
  "st_sessions (PutSession s st) = (st_sessions st)(ss_token s := Some s)"
  "st_users (DeleteSession tok st) = st_users st"
  "st_sessions (DeleteSession tok st) = (st_sessions st)(tok := None)"
  "st_users (DeleteSessionsForUser i st) = st_users st"
  by (simp_all add: PutUser_def PutSession_def DeleteSession_def DeleteSessionsForUser_def)

lemma wiped_lookup:
  "st_sessions (DeleteSessionsForUser i (PutUser u st)) c = st_sessions st c \<or>
   st_sessions (DeleteSessionsForUser i (PutUser u st)) c = None"
  by (simp add: DeleteSessionsForUser_def PutUser_def split: option.split)

lemma wiped_session:
  "st_sessions (DeleteSessionsForUser i st) tok = Some s \<longleftrightarrow> st_sessions st tok = Some s \<and> ss_user s \<noteq> i"
  by (auto simp: DeleteSessionsForUser_def split: option.splits if_splits)

lemma resolveSession_Some:
  assumes "resolveSession e tok st = Some s"
  shows "st_sessions st tok = Some s \<and> \<not> ss_pending s \<and> ss_ssoFlow s = None \<and> en_now e < ss_expires s"
  using assms unfolding resolveSession_def by (auto split: if_splits option.splits)

text \<open>What one request does to the two tables, by its handler.\<close>

lemma verify_effect:
  assumes "handleTwoFactorVerify d e body st = (st', a)"
  obtains (same) "st' = st" "\<And>tok r. a \<noteq> Granted tok r"
  | (dropped) tok where "st' = DeleteSession tok st" "\<And>tok r. a \<noteq> Granted tok r"
  | (counted) b s u where "body = Some b" "redeemable e b st s u"
      "st' = PutSession (s\<lparr>ss_attempts := ss_attempts s + 1\<rparr>) st" "a = Invalid"
  | (accepted) b s u u' st1 where "body = Some b" "redeemable e b st s u" "factor_valid d u b (en_now e)" "spent d u b (en_now e) u'"
      "st1 = try_write e Session_delete (DeleteSession (ss_token s)) (PutUser u' st)"
      "st' = st1 \<and> a = Failed \<or> (\<exists>tok r. en_token e = Some tok \<and> st' = PutSession (new_session e u' tok) st1 \<and> a = Granted tok r)"
proof (cases body)
  case None
  then show thesis using assms same by (auto simp: handleTwoFactorVerify_def)
next
  case (Some b)
  show thesis
  proof (cases "\<exists>s u. redeemable e b st s u")
    case False
    then have "a = Expired" using verify_not_redeemable [OF False, of d] assms Some by simp
    moreover have "st' = st \<or> (\<exists>tok. st' = DeleteSession tok st)"
      using assms False Some unfolding handleTwoFactorVerify_def redeemable_def try_write_def
      by (auto split: option.splits if_splits)
    ultimately show thesis using same dropped by blast
  next
    case True
    then obtain s u where r: "redeemable e b st s u" by blast
    note v = verify_redeemable [OF r, of d]
    show thesis
    proof (cases "consume_factor d u b (en_now e)")
      case (Accepted u' q)
      have fv: "factor_valid d u b (en_now e)" using Accepted consume_Accepted by metis
      have f: "finish_verify e s u' q st = (st', a)" using v Accepted assms Some by simp
      show thesis
      proof (cases "en_fails e User_write")
        case True
        then show thesis using f same by (auto simp: finish_verify_def)
      next
        case False
        show thesis
        proof (rule accepted [OF Some r fv consume_spent [OF Accepted] refl])
          show "st' = try_write e Session_delete (DeleteSession (ss_token s)) (PutUser u' st) \<and> a = Failed \<or>
            (\<exists>tok r. en_token e = Some tok \<and> st' = PutSession (new_session e u' tok) (try_write e Session_delete (DeleteSession (ss_token s)) (PutUser u' st)) \<and>
              a = Granted tok r)"
            using f False unfolding finish_verify_def issueSession_def by (auto split: option.splits if_splits)
        qed
      qed
    next
      case Refused
      have "refuseSecondFactor e s st = (st', a)" using v Refused assms Some by simp
      then show thesis using same dropped counted [OF Some r]
        unfolding refuseSecondFactor_def try_write_def by (auto simp: Let_def split: if_splits)
    next
      case Check_failed
      then show thesis using v assms Some same by auto
    qed
  qed
qed

lemma setup_effect:
  assumes "handleTwoFactorSetup d e s body st = (st', a)"
  shows "(st' = st \<or> (\<exists>u ref. st_users st (ss_user s) = Some u \<and> \<not> us_twoFactor u \<and> st' = PutUser (u\<lparr>us_pendingRef := ref\<rparr>) st)) \<and>
    (\<forall>tok r. a \<noteq> Granted tok r)"
  using assms unfolding handleTwoFactorSetup_def reauthUser_def by (auto split: option.splits if_splits)

lemma revoke_effect:
  "fst (revokeOtherSessions e uid keep st) \<in> {st, DeleteSessionsForUser uid st, PutSession keep (DeleteSessionsForUser uid st)}"
  unfolding revokeOtherSessions_def try_write_def by simp

lemma enable_effect:
  assumes "handleTwoFactorEnable d e s body st = (st', a)"
  shows "(st' = st \<or> (\<exists>u u'. st_users st (ss_user s) = Some u \<and> \<not> us_twoFactor u \<and> us_id u' = us_id u \<and>
      st' \<in> {PutUser u' st, DeleteSessionsForUser (us_id u) (PutUser u' st), PutSession s (DeleteSessionsForUser (us_id u) (PutUser u' st))})) \<and>
    (\<forall>tok r. a \<noteq> Granted tok r)"
proof (cases "\<exists>b u. body = Some b \<and> st_users st (ss_user s) = Some u \<and> \<not> us_twoFactor u \<and> (\<exists>plain r. a = Enabled plain r)")
  case False
  then show ?thesis using assms unfolding handleTwoFactorEnable_def
    by (auto simp: Let_def split: option.splits if_splits prod.splits bool.splits)
next
  case True
  then obtain b u plain r where t: "body = Some b" "st_users st (ss_user s) = Some u" "\<not> us_twoFactor u" "a = Enabled plain r" by blast
  then have "\<exists>step hashes. revokeOtherSessions e (us_id u) s (PutUser (enabled_user u step hashes) st) = (st', r)"
    using assms unfolding handleTwoFactorEnable_def
    by (auto simp: Let_def split: option.splits if_splits prod.splits bool.splits)
  then obtain step hashes where "st' = fst (revokeOtherSessions e (us_id u) s (PutUser (enabled_user u step hashes) st))"
    by (metis fst_conv)
  moreover have "us_id (enabled_user u step hashes) = us_id u" by (simp add: enabled_user_def)
  ultimately show ?thesis using t revoke_effect [of e "us_id u" s "PutUser (enabled_user u step hashes) st"] by blast
qed

lemma reauth_effect:
  assumes "reauthSecondFactor d e s body st = Inr u'"
  obtains b u where "body = Some b" "st_users st (ss_user s) = Some u" "us_twoFactor u"
    "dp_password d (bd_password b) (us_passwordHash u)" "factor_valid d u b (en_now e)" "spent d u b (en_now e) u'"
  using assms consume_spent consume_Accepted unfolding reauthSecondFactor_def reauthUser_def
  by (fastforce split: option.splits if_splits factor.splits)

lemma reauth_refusals:
  "reauthSecondFactor d e s body st = Inl a \<Longrightarrow> a \<in> {Bad_request, Unauthorized, Conflict, Invalid, Failed}"
  unfolding reauthSecondFactor_def by (auto split: option.splits if_splits factor.splits)

lemma disable_effect:
  assumes "handleTwoFactorDisable d e s body st = (st', a)"
  shows "(st' = st \<or> a = Disabled \<and> (\<exists>u'. reauthSecondFactor d e s body st = Inr u' \<and> map_option tn_requires2fa (st_tenants st (ss_tenant s)) = Some False \<and>
      st' = PutUser (u'\<lparr>us_twoFactor := False, us_secretRef := '''', us_pendingRef := '''', us_lastStep := 0, us_recovery := []\<rparr>) st)) \<and>
    (\<forall>tok r. a \<noteq> Granted tok r)"
  using assms reauth_refusals [of d e s body st] unfolding handleTwoFactorDisable_def
  by (auto split: sum.splits if_splits)

lemma codes_effect:
  assumes "handleRecoveryCodes d e s body st = (st', a)"
  shows "(st' = st \<or> (\<exists>u' hs. reauthSecondFactor d e s body st = Inr u' \<and> st' = PutUser (u'\<lparr>us_recovery := hs\<rparr>) st)) \<and>
    (\<forall>tok r. a \<noteq> Granted tok r)"
  using assms reauth_refusals [of d e s body st] unfolding handleRecoveryCodes_def
  by (auto simp: Let_def split: sum.splits if_splits option.splits prod.splits)

lemma login_effect:
  assumes "finish_login e uid st = (st', a)"
  shows "st' = st \<and> (\<forall>tok r. a \<noteq> Granted tok r) \<or>
    (\<exists>u tok. st_users st uid = Some u \<and> us_twoFactor u \<and> en_token e = Some tok \<and> a = Challenge tok \<and>
       st' = PutSession (half_session e u tok) st) \<or>
    (\<exists>u tok. st_users st uid = Some u \<and> \<not> us_twoFactor u \<and> en_token e = Some tok \<and> a = Granted tok None \<and>
       st' = PutSession (new_session e u tok) st)"
  using assms unfolding finish_login_def startSecondFactor_def issueSession_def
  by (auto split: option.splits if_splits)

lemma sessionAuth_cases:
  assumes "sessionAuth e tok h st = (st', a)"
  obtains "st' = st" "a = Unauthorized"
  | s where "resolveSession e tok st = Some s" "h s st = (st', a)"
  using assms unfolding sessionAuth_def by (auto split: option.splits)

lemma spent_fields:
  assumes "spent d u b now u'"
  shows "us_id u' = us_id u" "us_twoFactor u' = us_twoFactor u" "us_secretRef u' = us_secretRef u" "us_lastStep u \<le> us_lastStep u'"
    "mset (us_recovery u') \<subseteq># mset (us_recovery u)"
  using assms unfolding spent_def by (auto split: if_splits)

text \<open>
  What a request leaves of an account with the second factor on: the factor, its seed, a step that only grows, and
  no recovery code that was not there.
\<close>

fun disables :: "request \<Rightarrow> bool" where
  "disables (Disable e tok body) = True"
| "disables _ = False"

fun replaces :: "request \<Rightarrow> bool" where
  "replaces (Codes e tok body) = True"
| "replaces _ = False"

definition carried :: "user \<Rightarrow> user \<Rightarrow> bool" where
  "carried u u' \<longleftrightarrow> us_twoFactor u' \<and> us_secretRef u' = us_secretRef u \<and> us_lastStep u \<le> us_lastStep u'"

lemma carried_trans: "carried u v \<Longrightarrow> carried v w \<Longrightarrow> carried u w"
  by (auto simp: carried_def)

lemma account_written:
  assumes "store_ok st" "st_users st j = Some v" "us_id v' = us_id v" "st_users st i = Some u" "P u" "j = i \<Longrightarrow> P v'"
  shows "\<exists>u'. ((st_users st)(us_id v' := Some v')) i = Some u' \<and> P u'"
proof -
  have "us_id v = j" using assms(1,2) by (rule store_okD(2))
  then show ?thesis using assms(3-6) by (cases "j = i") auto
qed

lemma serve_account:
  assumes ok: "store_ok st" and u: "st_users st i = Some u" "us_twoFactor u" and nd: "\<not> disables rq"
  shows "\<exists>u'. st_users (fst (serve d rq st)) i = Some u' \<and>
    (carried u u' \<and> (\<not> replaces rq \<longrightarrow> mset (us_recovery u') \<subseteq># mset (us_recovery u)))"
proof -
  let ?P = "\<lambda>u'. carried u u' \<and> (\<not> replaces rq \<longrightarrow> mset (us_recovery u') \<subseteq># mset (us_recovery u))"
  have Pu: "?P u" using u(2) by (simp add: carried_def)
  obtain st' a where s: "serve d rq st = (st', a)" by (cases "serve d rq st")
  have w: "\<exists>u'. ((st_users st)(us_id v' := Some v')) i = Some u' \<and> ?P u'"
    if "st_users st j = Some v" "us_id v' = us_id v" "j = i \<Longrightarrow> ?P v'" for j v v'
    using ok that(1,2) u(1) Pu that(3) by (rule account_written)
  have keep: ?thesis if "st_users st' = st_users st" using that s u Pu by auto
  show ?thesis
  proof (cases rq)
    case (Sign_in e body)
    then have h: "handleTwoFactorVerify d e body st = (st', a)" using s by simp
    show ?thesis
    proof (cases rule: verify_effect [OF h])
      case (4 b s1 u1 u' st1)
      have "st_users st1 = (st_users st)(us_id u' := Some u')" using 4(5) by (simp add: try_write_def)
      then have "st_users st' = (st_users st)(us_id u' := Some u')" using 4(6) by auto
      moreover have "\<exists>v. ((st_users st)(us_id u' := Some u')) i = Some v \<and> ?P v"
        using 4(2) spent_fields [OF 4(4)] u by (intro w [of "ss_user s1" u1]) (auto simp: redeemable_def carried_def)
      ultimately show ?thesis using s by simp
    qed (auto intro!: keep)
  next
    case (Login e uid)
    then have "finish_login e uid st = (st', a)" using s by simp
    from login_effect [OF this] show ?thesis by (intro keep) auto
  next
    case (Setup e tok body)
    then have "sessionAuth e tok (\<lambda>s. handleTwoFactorSetup d e s body) st = (st', a)" using s by simp
    then show ?thesis
    proof (cases rule: sessionAuth_cases)
      case (2 s0)
      from setup_effect [OF 2(2)] consider "st' = st"
        | v ref where "st_users st (ss_user s0) = Some v" "\<not> us_twoFactor v" "st' = PutUser (v\<lparr>us_pendingRef := ref\<rparr>) st" by blast
      then show ?thesis
      proof cases
        case (2 v ref)
        then have "\<exists>u'. ((st_users st)(us_id (v\<lparr>us_pendingRef := ref\<rparr>) := Some (v\<lparr>us_pendingRef := ref\<rparr>))) i = Some u' \<and> ?P u'"
          using u by (intro w [of "ss_user s0" v]) auto
        then show ?thesis using s 2 by simp
      qed (auto intro!: keep)
    qed (auto intro!: keep)
  next
    case (Enable e tok body)
    then have "sessionAuth e tok (\<lambda>s. handleTwoFactorEnable d e s body) st = (st', a)" using s by simp
    then show ?thesis
    proof (cases rule: sessionAuth_cases)
      case (2 s0)
      from enable_effect [OF 2(2)] consider "st' = st"
        | v v' where "st_users st (ss_user s0) = Some v" "\<not> us_twoFactor v" "us_id v' = us_id v"
            "st_users st' = (st_users st)(us_id v' := Some v')"
        by (auto simp: tables)
      then show ?thesis
      proof cases
        case (2 v v')
        then have "\<exists>u'. ((st_users st)(us_id v' := Some v')) i = Some u' \<and> ?P u'"
          using u by (intro w [of "ss_user s0" v]) auto
        then show ?thesis using s 2 by simp
      qed (auto intro!: keep)
    qed (auto intro!: keep)
  next
    case (Disable e tok body)
    then show ?thesis using nd by simp
  next
    case (Codes e tok body)
    then have "sessionAuth e tok (\<lambda>s. handleRecoveryCodes d e s body) st = (st', a)" using s by simp
    then show ?thesis
    proof (cases rule: sessionAuth_cases)
      case (2 s0)
      from codes_effect [OF 2(2)] consider "st' = st"
        | v' hs where "reauthSecondFactor d e s0 body st = Inr v'" "st' = PutUser (v'\<lparr>us_recovery := hs\<rparr>) st" by blast
      then show ?thesis
      proof cases
        case (2 v' hs)
        obtain b v where v: "st_users st (ss_user s0) = Some v" "us_twoFactor v" "spent d v b (en_now e) v'"
          using reauth_effect [OF 2(1)] by metis
        have "\<exists>u'. ((st_users st)(us_id (v'\<lparr>us_recovery := hs\<rparr>) := Some (v'\<lparr>us_recovery := hs\<rparr>))) i = Some u' \<and> ?P u'"
          using v(1,2) spent_fields [OF v(3)] u Codes by (intro w [of "ss_user s0" v]) (auto simp: carried_def)
        then show ?thesis using s 2 by simp
      qed (auto intro!: keep)
    qed (auto intro!: keep)
  qed
qed

lemma serve_ok:
  assumes ok: "store_ok st"
  shows "store_ok (fst (serve d rq st))"
proof -
  obtain st' a where s: "serve d rq st = (st', a)" by (cases "serve d rq st")
  have "store_ok st'"
  proof (cases rq)
    case (Sign_in e body)
    then have h: "handleTwoFactorVerify d e body st = (st', a)" using s by simp
    show ?thesis
    proof (cases rule: verify_effect [OF h])
      case (4 b s1 u1 u' st1)
      have "store_ok st1" unfolding 4(5) by (intro store_ok_try store_ok_writes ok)
      then show ?thesis using 4(6) store_ok_writes(2) by auto
    qed (auto intro: store_ok_writes ok)
  next
    case (Login e uid)
    then have "finish_login e uid st = (st', a)" using s by simp
    from login_effect [OF this] show ?thesis using ok store_ok_writes(2) [OF ok] by auto
  next
    case (Setup e tok body)
    then have "sessionAuth e tok (\<lambda>s. handleTwoFactorSetup d e s body) st = (st', a)" using s by simp
    then show ?thesis
      by (cases rule: sessionAuth_cases) (use setup_effect ok store_ok_writes(1) [OF ok] in blast)+
  next
    case (Enable e tok body)
    then have "sessionAuth e tok (\<lambda>s. handleTwoFactorEnable d e s body) st = (st', a)" using s by simp
    then show ?thesis
    proof (cases rule: sessionAuth_cases)
      case (2 s0)
      from enable_effect [OF 2(2)] show ?thesis using ok by (auto intro: store_ok_writes)
    qed (simp add: ok)
  next
    case (Disable e tok body)
    then have "sessionAuth e tok (\<lambda>s. handleTwoFactorDisable d e s body) st = (st', a)" using s by simp
    then show ?thesis
      by (cases rule: sessionAuth_cases) (use disable_effect ok store_ok_writes(1) [OF ok] in blast)+
  next
    case (Codes e tok body)
    then have "sessionAuth e tok (\<lambda>s. handleRecoveryCodes d e s body) st = (st', a)" using s by simp
    then show ?thesis
      by (cases rule: sessionAuth_cases) (use codes_effect ok store_ok_writes(1) [OF ok] in blast)+
  qed
  then show ?thesis using s by simp
qed

interpretation desk: machine "\<lambda>st rq. fst (serve d rq st)" store_ok for d
  by unfold_locales (rule serve_ok)

lemma run_simps [simp]:
  "run d [] st = st"
  "run d (rq # rqs) st = run d rqs (fst (serve d rq st))"
  "run d (rqs @ rqs') st = run d rqs' (run d rqs st)"
  by (simp_all add: run_def)

lemma run_ok: "store_ok st \<Longrightarrow> store_ok (run d rqs st)"
  unfolding run_def by (rule desk.run_inv)

lemma run_account:
  assumes "store_ok st" "st_users st i = Some u" "us_twoFactor u" "list_all (\<lambda>rq. \<not> disables rq) rqs"
  shows "\<exists>u'. st_users (run d rqs st) i = Some u' \<and> carried u u' \<and>
    (list_all (\<lambda>rq. \<not> replaces rq) rqs \<longrightarrow> mset (us_recovery u') \<subseteq># mset (us_recovery u))"
  using assms
proof (induction rqs arbitrary: st u)
  case Nil
  then show ?case by (simp add: carried_def)
next
  case (Cons rq rqs)
  obtain v where v: "st_users (fst (serve d rq st)) i = Some v" "carried u v"
      "\<not> replaces rq \<longrightarrow> mset (us_recovery v) \<subseteq># mset (us_recovery u)"
    using serve_account [OF Cons.prems(1-3), of rq d] Cons.prems(4) by auto
  then obtain u' where "st_users (run d rqs (fst (serve d rq st))) i = Some u'" "carried v u'"
      "list_all (\<lambda>rq. \<not> replaces rq) rqs \<longrightarrow> mset (us_recovery u') \<subseteq># mset (us_recovery v)"
    using Cons.IH [OF serve_ok [OF Cons.prems(1)] v(1)] Cons.prems(4) by (auto simp: carried_def)
  then show ?case using v carried_trans by (auto intro: subset_mset.order_trans)
qed

text \<open>Where a usable session of such an account comes from.\<close>

definition redeemed :: "deps \<Rightarrow> request \<Rightarrow> store \<Rightarrow> string \<Rightarrow> string \<Rightarrow> bool" where
  "redeemed d rq st i tok \<longleftrightarrow>
     (\<exists>e b s u r. rq = Sign_in e (Some b) \<and> redeemable e b st s u \<and> us_id u = i \<and> factor_valid d u b (en_now e) \<and>
        snd (serve d rq st) = Granted tok r)"

lemma serve_sessions:
  assumes ok: "store_ok st" and u: "st_users st i = Some u" "us_twoFactor u"
    and new: "st_sessions (fst (serve d rq st)) tok = Some s" "\<not> ss_pending s" "ss_user s = i"
  shows "st_sessions st tok = Some s \<or> redeemed d rq st i tok"
proof -
  obtain st' a where s: "serve d rq st = (st', a)" by (cases "serve d rq st")
  have n: "st_sessions st' tok = Some s" using new(1) s by simp
  have same: ?thesis if "st_sessions st' = st_sessions st" using that n by simp
  show ?thesis
  proof (cases rq)
    case (Sign_in e body)
    then have h: "handleTwoFactorVerify d e body st = (st', a)" using s by simp
    show ?thesis
    proof (cases rule: verify_effect [OF h])
      case (2 t)
      then show ?thesis using n by (auto split: if_splits)
    next
      case (3 b s1 u1)
      have "s \<noteq> s1\<lparr>ss_attempts := ss_attempts s1 + 1\<rparr>" using 3(2) new(2) by (auto simp: redeemable_def)
      then show ?thesis using n 3(3) by (auto split: if_splits)
    next
      case (4 b s1 u1 u' st1)
      have old: "st_sessions st1 tok = Some s \<Longrightarrow> st_sessions st tok = Some s"
        unfolding 4(5) by (auto simp: try_write_def split: if_splits)
      show ?thesis
      proof (cases "st_sessions st1 tok = Some s")
        case True
        then show ?thesis using old by blast
      next
        case False
        then obtain t r where t: "st' = PutSession (new_session e u' t) st1" "a = Granted t r" using 4(6) n by auto
        then have "t = tok" "s = new_session e u' t" using n False by (auto simp: new_session_def split: if_splits)
        moreover from this have "us_id u1 = i" using new(3) spent_fields(1) [OF 4(4)] by (simp add: new_session_def)
        ultimately have "redeemed d rq st i tok"
          unfolding redeemed_def using Sign_in 4(1-3) t(2) s by auto
        then show ?thesis by blast
      qed
    qed (rule same, simp)
  next
    case (Login e uid)
    then have "finish_login e uid st = (st', a)" using s by simp
    then consider "st' = st" | v t where "st' = PutSession (half_session e v t) st"
      | v t where "st_users st uid = Some v" "\<not> us_twoFactor v" "st' = PutSession (new_session e v t) st"
      using login_effect by blast
    then show ?thesis
    proof cases
      case (2 v t)
      then show ?thesis using n new(2) by (auto simp: half_session_def split: if_splits)
    next
      case (3 v t)
      have "us_id v \<noteq> i" using 3(1,2) u store_okD(2) [OF ok] by (metis option.inject)
      then show ?thesis using n new(3) 3(3) by (auto simp: new_session_def split: if_splits)
    qed (rule same, simp)
  next
    case (Setup e tk body)
    then have "sessionAuth e tk (\<lambda>s. handleTwoFactorSetup d e s body) st = (st', a)" using s by simp
    then show ?thesis
      by (cases rule: sessionAuth_cases) (use setup_effect same in fastforce)+
  next
    case (Enable e tk body)
    then have "sessionAuth e tk (\<lambda>s. handleTwoFactorEnable d e s body) st = (st', a)" using s by simp
    then show ?thesis
    proof (cases rule: sessionAuth_cases)
      case (2 s0)
      have s0: "st_sessions st tk = Some s0" "ss_token s0 = tk" using resolveSession_Some [OF 2(1)] store_okD(1) [OF ok] by auto
      from enable_effect [OF 2(2)] show ?thesis
      proof (elim conjE disjE exE)
        fix v v'
        assume "st' \<in> {PutUser v' st, DeleteSessionsForUser (us_id v) (PutUser v' st),
            PutSession s0 (DeleteSessionsForUser (us_id v) (PutUser v' st))}"
        then show ?thesis using n s0 by (auto simp: wiped_session split: if_splits)
      qed (rule same, simp)
    qed (rule same, simp)
  next
    case (Disable e tk body)
    then have "sessionAuth e tk (\<lambda>s. handleTwoFactorDisable d e s body) st = (st', a)" using s by simp
    then show ?thesis
      by (cases rule: sessionAuth_cases) (use disable_effect same in fastforce)+
  next
    case (Codes e tk body)
    then have "sessionAuth e tk (\<lambda>s. handleRecoveryCodes d e s body) st = (st', a)" using s by simp
    then show ?thesis
      by (cases rule: sessionAuth_cases) (use codes_effect same in fastforce)+
  qed
qed

section \<open>No session without the factor\<close>

text \<open>no sequence of requests opens an account that has the second factor on without a factor. Whatever sign-ins,
  logins, enrolments and code replacements are made, in any order, by anyone and with any write failing, as long
  as nobody turns the factor off, a token that resolves to a session of the account either resolved to it before
  or was the answer to a sign-in that presented a live half-session of this account and a factor valid at that
  moment. A password alone, and a half-session itself, open nothing.
\<close>

theorem no_session_without_factor:
  assumes "store_ok st" "st_users st i = Some u" "us_twoFactor u" "list_all (\<lambda>rq. \<not> disables rq) rqs"
    and "resolveSession e tok (run d rqs st) = Some s" "ss_user s = i"
  shows "st_sessions st tok = Some s \<or>
    (\<exists>pre rq post. rqs = pre @ rq # post \<and> redeemed d rq (run d pre st) i tok)"
proof -
  have "st_sessions (run d rqs st) tok = Some s" "\<not> ss_pending s" using resolveSession_Some [OF assms(5)] by auto
  then show ?thesis using assms(4)
  proof (induction rqs rule: rev_induct)
    case Nil
    then show ?case by simp
  next
    case (snoc rq rqs)
    obtain v where v: "st_users (run d rqs st) i = Some v" "us_twoFactor v"
      using run_account [OF assms(1-3), of rqs d] snoc.prems(3) by (auto simp: carried_def)
    have "st_sessions (run d rqs st) tok = Some s \<or> redeemed d rq (run d rqs st) i tok"
      using serve_sessions [OF run_ok [OF assms(1)] v] snoc.prems(1,2) assms(6) by simp
    then show ?case
    proof
      assume "st_sessions (run d rqs st) tok = Some s"
      then have "st_sessions st tok = Some s \<or> (\<exists>pre rq post. rqs = pre @ rq # post \<and> redeemed d rq (run d pre st) i tok)"
        using snoc.IH snoc.prems by simp
      then show ?thesis by (metis append.assoc append_Cons)
    qed blast
  qed
qed

section \<open>A factor works once\<close>

definition presented_step :: "deps \<Rightarrow> user \<Rightarrow> body \<Rightarrow> int \<Rightarrow> int option" where
  "presented_step d u b now =
     (case dp_vault d of
        None \<Rightarrow> None
      | Some open_ref \<Rightarrow>
          if us_secretRef u = '''' then None
          else case open_ref (us_secretRef u) of
                 None \<Rightarrow> None
               | Some secret \<Rightarrow>
                   (let v = Verify (dp_hmac d) (dp_base32 d) secret (bd_code b) now in if snd v then Some (fst v) else None))"

text \<open>The same factor again: a recovery code with the same hash, or a code for a step that is not later.\<close>

definition not_newer :: "deps \<Rightarrow> user \<Rightarrow> body \<Rightarrow> int \<Rightarrow> body \<Rightarrow> int \<Rightarrow> bool" where
  "not_newer d u b1 now1 b2 now2 \<longleftrightarrow>
     (if trim_space (bd_recovery b1) \<noteq> ''''
      then trim_space (bd_recovery b2) \<noteq> '''' \<and> HashRecovery (dp_sha d) (bd_recovery b2) = HashRecovery (dp_sha d) (bd_recovery b1)
      else trim_space (bd_recovery b2) = '''' \<and>
           (\<exists>k1 k2. presented_step d u b1 now1 = Some k1 \<and> presented_step d u b2 now2 = Some k2 \<and> k2 \<le> k1))"

lemma consume_refused:
  "consume_factor d u b now = Refused \<longleftrightarrow> \<not> factor_valid d u b now \<and> \<not> seal_broken d u b"
  using consume_Accepted [of d u b now] consume_failed [of d u b now]
  by (cases "consume_factor d u b now") auto

lemma consume_code:
  assumes "trim_space (bd_recovery b) = ''''" "presented_step d u b now = Some k"
  shows "consume_factor d u b now = (if us_lastStep u < k then Accepted (u\<lparr>us_lastStep := k\<rparr>) False else Refused)"
  using assms unfolding presented_step_def consume_factor_def checkTOTP_cases
  by (auto simp: Let_def split: option.splits if_splits)

lemma presented_step_cong: "us_secretRef u' = us_secretRef u \<Longrightarrow> presented_step d u' b now = presented_step d u b now"
  by (simp only: presented_step_def)

lemma refused_answer:
  assumes "redeemable e b st s u" "consume_factor d u b (en_now e) = Refused"
  shows "snd (serve d (Sign_in e (Some b)) st) \<in> {Invalid, Locked}"
  using assms by (simp add: verify_redeemable refuseSecondFactor_def Let_def)

lemma granted_account:
  assumes "serve d (Sign_in e (Some b)) st = (st', Granted tok r)" "redeemable e b st s u"
  obtains u' q where "consume_factor d u b (en_now e) = Accepted u' q" "st_users st' (us_id u') = Some u'"
proof (cases "consume_factor d u b (en_now e)")
  case (Accepted u' q)
  have "finish_verify e s u' q st = (st', Granted tok r)" using assms Accepted by (simp add: verify_redeemable)
  then have "st_users st' (us_id u') = Some u'"
    unfolding finish_verify_def issueSession_def try_write_def by (auto split: if_splits option.splits)
  with Accepted show ?thesis by (rule that)
next
  case Refused
  then show ?thesis using refused_answer [OF assms(2), of d] assms(1) by simp
next
  case Check_failed
  then show ?thesis using assms by (simp add: verify_redeemable)
qed


section \<open>Guessing is bounded\<close>

fun guesses :: "string \<Rightarrow> request \<Rightarrow> bool" where
  "guesses c (Sign_in e (Some b)) \<longleftrightarrow> trim_space (bd_challenge b) = c"
| "guesses c _ \<longleftrightarrow> False"

fun request_env :: "request \<Rightarrow> env" where
  "request_env (Sign_in e _) = e"
| "request_env (Login e _) = e"
| "request_env (Setup e _ _) = e"
| "request_env (Enable e _ _) = e"
| "request_env (Disable e _ _) = e"
| "request_env (Codes e _ _) = e"

text \<open>The session writes of a request land, and its token is not the half-session's.\<close>

definition healthy :: "string \<Rightarrow> request \<Rightarrow> bool" where
  "healthy c rq \<longleftrightarrow> \<not> en_fails (request_env rq) Session_write \<and> \<not> en_fails (request_env rq) Session_delete \<and>
     en_token (request_env rq) \<noteq> Some c"

fun wrong_answers :: "deps \<Rightarrow> string \<Rightarrow> request list \<Rightarrow> store \<Rightarrow> nat" where
  "wrong_answers d c [] st = 0"
| "wrong_answers d c (rq # rqs) st =
     (if guesses c rq \<and> snd (serve d rq st) \<in> {Invalid, Locked} then 1 else 0) + wrong_answers d c rqs (fst (serve d rq st))"

text \<open>How many wrong factors the half-session still takes; below the limit while it lives.\<close>

definition tries_left :: "string \<Rightarrow> store \<Rightarrow> nat" where
  "tries_left c st =
     (case st_sessions st c of
        None \<Rightarrow> 0
      | Some s \<Rightarrow> if ss_pending s then nat (maxMFAAttempts - ss_attempts s) else 0)"

definition below_limit :: "string \<Rightarrow> store \<Rightarrow> bool" where
  "below_limit c st \<longleftrightarrow> (\<forall>s. st_sessions st c = Some s \<and> ss_pending s \<longrightarrow> ss_attempts s < maxMFAAttempts)"

lemma tries_same:
  "st_sessions st' c = st_sessions st c \<Longrightarrow> tries_left c st' = tries_left c st"
  "st_sessions st' c = st_sessions st c \<Longrightarrow> below_limit c st \<Longrightarrow> below_limit c st'"
  by (simp_all add: tries_left_def below_limit_def)

lemma tries_gone:
  assumes "\<And>s. st_sessions st' c = Some s \<Longrightarrow> \<not> ss_pending s"
  shows "tries_left c st' = 0" "below_limit c st'"
  using assms by (auto simp: tries_left_def below_limit_def split: option.split)

lemma wrong_is_counted:
  assumes ok: "store_ok st" and lim: "below_limit c st" and h: "healthy c (Sign_in e (Some b))"
    and c: "trim_space (bd_challenge b) = c"
    and a: "snd (serve d (Sign_in e (Some b)) st) \<in> {Invalid, Locked}"
  shows "below_limit c (fst (serve d (Sign_in e (Some b)) st)) \<and>
    Suc (tries_left c (fst (serve d (Sign_in e (Some b)) st))) = tries_left c st"
proof -
  have "\<exists>s u. redeemable e b st s u" using verify_not_redeemable [of e b st d] a by fastforce
  then obtain s u where r: "redeemable e b st s u" by blast
  have "consume_factor d u b (en_now e) = Refused"
    using a by (cases "consume_factor d u b (en_now e)")
      (auto simp: verify_redeemable [OF r] finish_verify_answer split: option.splits if_splits)
  then have v: "serve d (Sign_in e (Some b)) st = refuseSecondFactor e s st" using verify_redeemable [OF r] by simp
  have s: "st_sessions st c = Some s" "ss_pending s" using r c by (auto simp: redeemable_def)
  have t: "ss_token s = c" using store_okD(1) [OF ok s(1)] .
  have l: "ss_attempts s < maxMFAAttempts" using lim s by (simp add: below_limit_def)
  have w: "\<not> en_fails e Session_write" "\<not> en_fails e Session_delete" using h by (simp_all add: healthy_def)
  show ?thesis
  proof (cases "maxMFAAttempts \<le> ss_attempts s + 1")
    case True
    then show ?thesis using s t l w unfolding v refuseSecondFactor_def
      by (simp add: Let_def try_write_def tries_left_def below_limit_def)
  next
    case False
    then show ?thesis using s t l w unfolding v refuseSecondFactor_def
      by (simp add: Let_def try_write_def tries_left_def below_limit_def)
  qed
qed

lemma others_keep_count:
  assumes ok: "store_ok st" and lim: "below_limit c st" and h: "healthy c rq"
    and na: "\<not> (guesses c rq \<and> snd (serve d rq st) \<in> {Invalid, Locked})"
  shows "below_limit c (fst (serve d rq st)) \<and> tries_left c (fst (serve d rq st)) \<le> tries_left c st"
proof -
  obtain st' a where s: "serve d rq st = (st', a)" by (cases "serve d rq st")
  have same: ?thesis if "st_sessions st' c = st_sessions st c"
    using tries_same(1) [OF that] tries_same(2) [OF that lim] s by simp
  have gone: ?thesis if "\<And>s. st_sessions st' c = Some s \<Longrightarrow> \<not> ss_pending s"
    using tries_gone [of st' c, OF that] s by simp
  show ?thesis
  proof (cases rq)
    case (Sign_in e body)
    then have hv: "handleTwoFactorVerify d e body st = (st', a)" using s by simp
    show ?thesis
    proof (cases rule: verify_effect [OF hv])
      case (2 t)
      show ?thesis
      proof (cases "t = c")
        case True
        then show ?thesis using 2(1) by (intro gone) simp
      next
        case False
        then show ?thesis using 2(1) by (intro same) simp
      qed
    next
      case (3 b s1 u1)
      have "ss_token s1 = trim_space (bd_challenge b)" using 3(2) store_okD(1) [OF ok] by (simp add: redeemable_def)
      moreover have "trim_space (bd_challenge b) \<noteq> c"
        using na 3(1,4) Sign_in s by auto
      ultimately show ?thesis using 3(3) by (intro same) simp
    next
      case (4 b s1 u1 u' st1)
      have t: "en_token e \<noteq> Some c" using h Sign_in by (simp add: healthy_def)
      have "st_sessions st1 c = st_sessions st c \<or> st_sessions st1 c = None"
        unfolding 4(5) by (simp add: try_write_def)
      moreover have "st_sessions st' c = st_sessions st1 c" using 4(6) t by (auto simp: new_session_def)
      ultimately show ?thesis using same gone by (metis option.distinct(1))
    qed (rule same, simp)
  next
    case (Login e uid)
    then have "finish_login e uid st = (st', a)" using s by simp
    moreover have "en_token e \<noteq> Some c" using h Login by (simp add: healthy_def)
    ultimately have "st_sessions st' c = st_sessions st c"
      using login_effect by (fastforce simp: half_session_def new_session_def)
    then show ?thesis by (rule same)
  next
    case (Setup e tk body)
    then have "sessionAuth e tk (\<lambda>s. handleTwoFactorSetup d e s body) st = (st', a)" using s by simp
    then show ?thesis
      by (cases rule: sessionAuth_cases) (use setup_effect same in fastforce)+
  next
    case (Enable e tk body)
    then have "sessionAuth e tk (\<lambda>s. handleTwoFactorEnable d e s body) st = (st', a)" using s by simp
    then show ?thesis
    proof (cases rule: sessionAuth_cases)
      case (2 s0)
      have s0: "st_sessions st tk = Some s0" "ss_token s0 = tk" "\<not> ss_pending s0"
        using resolveSession_Some [OF 2(1)] store_okD(1) [OF ok] by auto
      show ?thesis
      proof (cases "st_sessions st' c = st_sessions st c")
        case False
        have "\<not> ss_pending s" if "st_sessions st' c = Some s" for s
        proof -
          from enable_effect [OF 2(2)] have "st_sessions st' c = st_sessions st c \<or> st_sessions st' c = None \<or> st_sessions st' c = Some s0"
          proof (elim conjE disjE exE)
            fix u u'
            assume "st' \<in> {PutUser u' st, DeleteSessionsForUser (us_id u) (PutUser u' st),
              PutSession s0 (DeleteSessionsForUser (us_id u) (PutUser u' st))}"
            then show ?thesis using wiped_lookup [of "us_id u" u' st c] by (cases "c = ss_token s0") auto
          qed simp
          then show ?thesis using False that s0(3) by auto
        qed
        then show ?thesis by (rule gone)
      qed (rule same)
    qed (rule same, simp)
  next
    case (Disable e tk body)
    then have "sessionAuth e tk (\<lambda>s. handleTwoFactorDisable d e s body) st = (st', a)" using s by simp
    then show ?thesis
      by (cases rule: sessionAuth_cases) (use disable_effect same in fastforce)+
  next
    case (Codes e tk body)
    then have "sessionAuth e tk (\<lambda>s. handleRecoveryCodes d e s body) st = (st', a)" using s by simp
    then show ?thesis
      by (cases rule: sessionAuth_cases) (use codes_effect same in fastforce)+
  qed
qed

text \<open>C29: a half-session allows five guesses. While session writes land, the sign-ins that present one half-session get
  at most as many refusals as it had tries left, five when it is new, over any sequence of requests, whoever makes
  them and however its requests are mixed with others.
\<close>

theorem guesses_are_bounded:
  assumes "store_ok st" "st_sessions st c = Some s" "ss_pending s" "0 \<le> ss_attempts s" "ss_attempts s < maxMFAAttempts"
    and "list_all (healthy c) rqs"
  shows "int (wrong_answers d c rqs st) \<le> maxMFAAttempts - ss_attempts s \<and> wrong_answers d c rqs st \<le> 5"
proof -
  have "below_limit c st" using assms(2,5) by (simp add: below_limit_def)
  then have "wrong_answers d c rqs st \<le> tries_left c st" using assms(1,6)
  proof (induction rqs arbitrary: st)
    case (Cons rq rqs)
    let ?st = "fst (serve d rq st)"
    have ih: "below_limit c ?st \<Longrightarrow> wrong_answers d c rqs ?st \<le> tries_left c ?st"
      using Cons.IH serve_ok [OF Cons.prems(2)] Cons.prems(3) by simp
    show ?case
    proof (cases "guesses c rq \<and> snd (serve d rq st) \<in> {Invalid, Locked}")
      case True
      then obtain e b where rq: "rq = Sign_in e (Some b)" "trim_space (bd_challenge b) = c"
        by (cases rule: guesses.cases [of "(c, rq)"]) auto
      have "below_limit c ?st \<and> Suc (tries_left c ?st) = tries_left c st"
        using wrong_is_counted [OF Cons.prems(2,1), of e b d] Cons.prems(3) True rq by simp
      then show ?thesis using ih True by simp
    next
      case False
      then have "below_limit c ?st \<and> tries_left c ?st \<le> tries_left c st"
        using others_keep_count [OF Cons.prems(2,1)] Cons.prems(3) by simp
      then show ?thesis using ih False by auto
    qed
  qed simp
  moreover have "int (tries_left c st) = maxMFAAttempts - ss_attempts s"
    using assms(2-5) by (simp add: tries_left_def)
  ultimately show ?thesis using assms(4) by (simp add: maxMFAAttempts_def)
qed

section \<open>Samples\<close>

text \<open>A deployment whose every code is the one of the RFC's first test vector; the clock stands in step 3.\<close>

definition sample_deps :: deps where
  "sample_deps = \<lparr>dp_vault = Some Some, dp_seal = Some, dp_hmac = (\<lambda>_ _. rfc_digest), dp_base32 = (\<lambda>_. Some []),
     dp_sha = (\<lambda>c. c), dp_password = (\<lambda>p h. p = h)\<rparr>"

definition sample_user :: user where
  "sample_user = \<lparr>us_id = ''u'', us_tenant = ''t'', us_email = ''u@t'', us_role = ''member'', us_passwordHash = ''pw'', us_twoFactor = True, us_secretRef = ''seed'',
     us_pendingRef = '''', us_lastStep = 0, us_recovery = [''abcde12345''], us_disabled = False\<rparr>"

definition sample_half :: "string \<Rightarrow> session" where
  "sample_half c = \<lparr>ss_token = c, ss_user = ''u'', ss_tenant = ''t'', ss_expires = 300, ss_pending = True, ss_attempts = 0,
     ss_via = '''', ss_idpMFA = False, ss_ssoFlow = None\<rparr>"

definition sample_store :: store where
  "sample_store = \<lparr>st_users = [''u'' \<mapsto> sample_user], st_sessions = [''c'' \<mapsto> sample_half ''c'', ''k'' \<mapsto> sample_half ''k''],
     st_tenants = [''t'' \<mapsto> \<lparr>tn_id = ''t'', tn_requires2fa = False, tn_sso = None\<rparr>]\<rparr>"

definition sample_env :: "string \<Rightarrow> env" where
  "sample_env tok = \<lparr>en_now = 90, en_token = Some tok, en_secret = None, en_draws = None, en_fails = (\<lambda>_. False)\<rparr>"

definition sample_body :: "string \<Rightarrow> string \<Rightarrow> body" where
  "sample_body c code = \<lparr>bd_password = '''', bd_challenge = c, bd_code = code, bd_recovery = ''''\<rparr>"

lemmas samples = sample_deps_def sample_user_def sample_half_def sample_store_def sample_env_def sample_body_def

lemma sample_trims:
  "trim_space '''' = ''''" "trim_space ''c'' = ''c''" "trim_space ''k'' = ''k''"
  "no_spaces ''755224'' = ''755224''" "no_spaces ''000000'' = ''000000''"
  by code_simp+

lemma sample_ok: "store_ok sample_store"
  by (simp add: store_ok_def samples)

lemma sample_step_code: "step_code (\<lambda>_ _. rfc_digest) key s = ''755224''"
  unfolding step_code_def hotp_eq [OF rfc_hmac] by (rule rfc_code)

lemma sample_decode: "decode (\<lambda>_. Some []) ''seed'' = Some []"
  by code_simp

lemma sample_verify:
  "Verify (\<lambda>_ _. rfc_digest) (\<lambda>_. Some []) ''seed'' ''755224'' 90 = (2, True)"
  "Verify (\<lambda>_ _. rfc_digest) (\<lambda>_. Some []) ''seed'' ''000000'' 90 = (0, False)"
  unfolding Verify_eq sample_trims sample_decode sample_step_code by (simp_all add: Digits_def Step_def Period_def)

lemma sample_consume:
  assumes "us_secretRef u = ''seed''"
  shows "consume_factor sample_deps u (sample_body c ''755224'') 90 =
      (if us_lastStep u < 2 then Accepted (u\<lparr>us_lastStep := 2\<rparr>) False else Refused)"
    and "consume_factor sample_deps u (sample_body c ''000000'') 90 = Refused"
  using assms by (simp_all add: consume_factor_def checkTOTP_cases sample_deps_def sample_body_def sample_trims sample_verify Let_def)

lemma sample_redeemable:
  "redeemable (sample_env tok) (sample_body ''c'' code) sample_store (sample_half ''c'') sample_user"
  "redeemable (sample_env tok) (sample_body ''k'' code) sample_store (sample_half ''k'') sample_user"
  by (simp_all add: redeemable_def samples sample_trims)

lemma sample_grant:
  "serve sample_deps (Sign_in (sample_env ''s'') (Some (sample_body ''c'' ''755224''))) sample_store =
     (PutSession (new_session (sample_env ''s'') sample_user ''s'')
        (DeleteSession ''c'' (PutUser (sample_user\<lparr>us_lastStep := 2\<rparr>) sample_store)), Granted ''s'' None)"
proof -
  have c: "consume_factor sample_deps sample_user (sample_body ''c'' ''755224'') (en_now (sample_env ''s'')) =
      Accepted (sample_user\<lparr>us_lastStep := 2\<rparr>) False"
    using sample_consume(1) [of sample_user "''c''"] by (simp add: sample_user_def sample_env_def)
  show ?thesis unfolding serve.simps verify_redeemable [OF sample_redeemable(1)] c
    by (simp add: finish_verify_def issueSession_def try_write_def new_session_def samples)
qed

theorem no_session_without_factor_witness:
  "\<exists>pre rq post. [Sign_in (sample_env ''s'') (Some (sample_body ''c'' ''755224''))] = pre @ rq # post \<and>
     redeemed sample_deps rq (run sample_deps pre sample_store) ''u'' ''s''"
proof -
  let ?rqs = "[Sign_in (sample_env ''s'') (Some (sample_body ''c'' ''755224''))]"
  have u: "st_users sample_store ''u'' = Some sample_user" "us_twoFactor sample_user" by (simp_all add: samples)
  have l: "list_all (\<lambda>rq. \<not> disables rq) ?rqs" by simp
  have r: "resolveSession (sample_env ''s'') ''s'' (run sample_deps ?rqs sample_store) =
      Some (new_session (sample_env ''s'') sample_user ''s'')"
    by (simp only: run_simps sample_grant fst_conv) (simp add: resolveSession_def new_session_def samples sessionTTL_def)
  have "ss_user (new_session (sample_env ''s'') sample_user ''s'') = ''u''" "st_sessions sample_store ''s'' = None"
    by (simp_all add: new_session_def samples)
  then show ?thesis using no_session_without_factor [OF sample_ok u l r] by simp
qed

lemma sample_second:
  "redeemable (sample_env tok) (sample_body ''k'' code)
     (PutSession (new_session (sample_env ''s'') sample_user ''s'')
        (DeleteSession ''c'' (PutUser (sample_user\<lparr>us_lastStep := 2\<rparr>) sample_store)))
     (sample_half ''k'') (sample_user\<lparr>us_lastStep := 2\<rparr>)"
  by (simp add: redeemable_def samples sample_trims new_session_def)


theorem guesses_are_bounded_witness:
  "wrong_answers sample_deps ''c'' (replicate 9 (Sign_in (sample_env ''s'') (Some (sample_body ''c'' ''000000'')))) sample_store \<le> 5"
proof -
  have s: "st_sessions sample_store ''c'' = Some (sample_half ''c'')" "ss_pending (sample_half ''c'')"
    "0 \<le> ss_attempts (sample_half ''c'')" "ss_attempts (sample_half ''c'') < maxMFAAttempts"
    by (simp_all add: samples maxMFAAttempts_def)
  have h: "list_all (healthy ''c'') (replicate 9 (Sign_in (sample_env ''s'') (Some (sample_body ''c'' ''000000''))))"
    by (simp add: list_all_iff healthy_def sample_env_def)
  show ?thesis using guesses_are_bounded [OF sample_ok s h, of sample_deps] by simp
qed

end
