(* ===== verification/TwoFactorRace.thy ===== *)
theory TwoFactorRace
  imports TwoFactorProps
begin

text \<open>
  The same handler with every store call a step of its own, as concurrent requests execute it: the session and the
  account are read, and written later, without a lock in between. What holds in every interleaving, and what
  holds only for requests served one after the other.
\<close>

section \<open>Requests step by step\<close>

datatype pc =
    Fetch_session body
  | Fetch_user body session
  | Drop session
  | Count session
  | Save user session bool
  | Redeem user session bool
  | Issue user bool
  | Done answer

fun verify_step :: "deps \<Rightarrow> env \<Rightarrow> pc \<Rightarrow> store \<Rightarrow> pc \<times> store" where
  "verify_step d e (Fetch_session b) st =
     (case st_sessions st (trim_space (bd_challenge b)) of
        None \<Rightarrow> (Done Expired, st)
      | Some s \<Rightarrow> if \<not> ss_pending s \<or> \<not> en_now e < ss_expires s then (Done Expired, st) else (Fetch_user b s, st))"
| "verify_step d e (Fetch_user b s) st =
     (case st_users st (ss_user s) of
        None \<Rightarrow> (Drop s, st)
      | Some u \<Rightarrow>
          if \<not> us_twoFactor u then (Drop s, st)
          else (case consume_factor d u b (en_now e) of
                  Refused \<Rightarrow> (Count s, st)
                | Check_failed \<Rightarrow> (Done Failed, st)
                | Accepted u' r \<Rightarrow> (Save u' s r, st)))"
| "verify_step d e (Drop s) st = (Done Expired, try_write e Session_delete (DeleteSession (ss_token s)) st)"
| "verify_step d e (Count s) st = (let (st', a) = refuseSecondFactor e s st in (Done a, st'))"
| "verify_step d e (Save u s r) st = (if en_fails e User_write then (Done Failed, st) else (Redeem u s r, PutUser u st))"
| "verify_step d e (Redeem u s r) st = (Issue u r, try_write e Session_delete (DeleteSession (ss_token s)) st)"
| "verify_step d e (Issue u r) st =
     (case issueSession e u st of
        (st', None) \<Rightarrow> (Done Failed, st')
      | (st', Some tok) \<Rightarrow> (Done (Granted tok (if r then Some (length (us_recovery u)) else None)), st'))"
| "verify_step d e (Done a) st = (Done a, st)"

fun steps :: "nat \<Rightarrow> deps \<Rightarrow> env \<Rightarrow> pc \<Rightarrow> store \<Rightarrow> pc \<times> store" where
  "steps 0 d e p st = (p, st)"
| "steps (Suc n) d e p st = (case verify_step d e p st of (p', st') \<Rightarrow> steps n d e p' st')"

lemma steps_Done [simp]: "steps n d e (Done a) st = (Done a, st)"
  by (induction n) simp_all

text \<open>A request that runs alone is the handler.\<close>

lemma steps_alone:
  "steps 5 d e (Fetch_session b) st =
     (Done (snd (handleTwoFactorVerify d e (Some b) st)), fst (handleTwoFactorVerify d e (Some b) st))"
proof (cases "\<exists>s u. redeemable e b st s u")
  case True
  then obtain s u where r: "redeemable e b st s u" by blast
  then have f: "verify_step d e (Fetch_session b) st = (Fetch_user b s, st)"
    "st_users st (ss_user s) = Some u" "us_twoFactor u" by (simp_all add: redeemable_def)
  have five: "(5 :: nat) = Suc (Suc (Suc (Suc (Suc 0))))" by simp
  show ?thesis
    unfolding five verify_redeemable [OF r] steps.simps f(1)
    using f(2,3) by (cases "consume_factor d u b (en_now e)") (simp_all add: finish_verify_def split: prod.split option.split)
next
  case False
  have five: "(5 :: nat) = Suc (Suc (Suc (Suc (Suc 0))))" by simp
  show ?thesis using False unfolding five handleTwoFactorVerify_def redeemable_def
    by (auto split: option.splits)
qed

section \<open>Interleavings\<close>

text \<open>Between the steps of the requests anyone may change a password.\<close>

inductive interleaved :: "deps \<Rightarrow> store \<times> (env \<times> pc) list \<Rightarrow> store \<times> (env \<times> pc) list \<Rightarrow> bool" for d where
  Request: "i < length ts \<Longrightarrow> ts ! i = (e, p) \<Longrightarrow> verify_step d e p st = (p', st') \<Longrightarrow>
    interleaved d (st, ts) (st', ts[i := (e, p')])"
| Password: "st_users st i = Some u \<Longrightarrow> interleaved d (st, ts) (PutUser (u\<lparr>us_passwordHash := h\<rparr>) st, ts)"

inductive_cases interleavedE: "interleaved d (st, ts) c"

definition derived :: "user \<Rightarrow> user \<Rightarrow> bool" where
  "derived u0 u \<longleftrightarrow> us_id u = us_id u0 \<and> us_twoFactor u = us_twoFactor u0 \<and> us_secretRef u = us_secretRef u0 \<and>
     us_lastStep u0 \<le> us_lastStep u \<and> set (us_recovery u) \<subseteq> set (us_recovery u0)"

definition half_of :: "store \<Rightarrow> session \<Rightarrow> bool" where
  "half_of st0 s \<longleftrightarrow> ss_pending s \<and>
     (\<exists>s0. st_sessions st0 (ss_token s) = Some s0 \<and> ss_pending s0 \<and> ss_user s0 = ss_user s \<and> ss_expires s0 = ss_expires s)"

lemma half_of_counted [simp]: "half_of st0 (s\<lparr>ss_attempts := n\<rparr>) = half_of st0 s"
  by (simp add: half_of_def)

definition tables_inv :: "store \<Rightarrow> store \<Rightarrow> bool" where
  "tables_inv st0 st \<longleftrightarrow>
     (\<forall>i u. st_users st i = Some u \<longrightarrow> us_id u = i \<and> (\<exists>u0. st_users st0 i = Some u0 \<and> derived u0 u)) \<and>
     (\<forall>tok s. st_sessions st tok = Some s \<and> ss_pending s \<longrightarrow> ss_token s = tok \<and> half_of st0 s)"

definition entitled :: "deps \<Rightarrow> store \<Rightarrow> env \<Rightarrow> body \<Rightarrow> bool" where
  "entitled d st0 e b \<longleftrightarrow> (\<exists>s u. redeemable e b st0 s u \<and> factor_valid d u b (en_now e))"

fun thread_inv :: "deps \<Rightarrow> store \<Rightarrow> env \<Rightarrow> body \<Rightarrow> pc \<Rightarrow> bool" where
  "thread_inv d st0 e b (Fetch_session b') \<longleftrightarrow> b' = b"
| "thread_inv d st0 e b (Fetch_user b' s) \<longleftrightarrow>
     b' = b \<and> half_of st0 s \<and> ss_token s = trim_space (bd_challenge b) \<and> en_now e < ss_expires s"
| "thread_inv d st0 e b (Drop s) \<longleftrightarrow> True"
| "thread_inv d st0 e b (Count s) \<longleftrightarrow> half_of st0 s"
| "thread_inv d st0 e b (Save u s r) \<longleftrightarrow> entitled d st0 e b \<and> (\<exists>u0. st_users st0 (us_id u) = Some u0 \<and> derived u0 u)"
| "thread_inv d st0 e b (Redeem u s r) \<longleftrightarrow> entitled d st0 e b"
| "thread_inv d st0 e b (Issue u r) \<longleftrightarrow> entitled d st0 e b"
| "thread_inv d st0 e b (Done a) \<longleftrightarrow> (\<forall>tok r. a = Granted tok r \<longrightarrow> entitled d st0 e b)"

text \<open>A factor that is valid for the account as it is now was valid for it at the start.\<close>

lemma factor_valid_derived:
  assumes "derived u0 u" "factor_valid d u b now"
  shows "factor_valid d u0 b now"
proof -
  have l: "us_lastStep u < s \<Longrightarrow> us_lastStep u0 < s" for s using assms(1) by (auto simp: derived_def)
  have r: "us_secretRef u = us_secretRef u0" "set (us_recovery u) \<subseteq> set (us_recovery u0)" using assms(1) by (simp_all add: derived_def)
  show ?thesis
  proof (cases "trim_space (bd_recovery b) = []")
    case True
    then show ?thesis using assms(2) l unfolding factor_valid_def r(1) by (metis (no_types, lifting))
  next
    case False
    then show ?thesis using assms(2) r(2) by (auto simp: factor_valid_def)
  qed
qed

lemma derived_spent:
  assumes "derived u0 u" "spent d u b now u'"
  shows "derived u0 u'"
proof -
  have "set (us_recovery u') \<subseteq> set (us_recovery u)" using spent_fields(5) [OF assms(2)] by (metis set_mset_mono set_mset_mset)
  then show ?thesis using assms(1) spent_fields [OF assms(2)] unfolding derived_def by auto
qed

lemma refuse_cases:
  "snd (refuseSecondFactor e s st) \<in> {Locked, Invalid}"
  "fst (refuseSecondFactor e s st) \<in> {st, PutSession (s\<lparr>ss_attempts := ss_attempts s + 1\<rparr>) st,
     try_write e Session_delete (DeleteSession (ss_token s)) st}"
  by (simp_all add: refuseSecondFactor_def Let_def try_write_def)

lemma verify_step_inv:
  assumes t: "tables_inv st0 st" and p: "thread_inv d st0 e b p" and s: "verify_step d e p st = (p', st')"
  shows "tables_inv st0 st' \<and> thread_inv d st0 e b p'"
proof -
  have del: "tables_inv st0 (try_write e Session_delete (DeleteSession tok) st)" for tok
    using t unfolding tables_inv_def try_write_def by auto
  show ?thesis
  proof (cases p)
    case (Fetch_session b')
    then show ?thesis using s p t by (auto simp: tables_inv_def split: option.splits if_splits)
  next
    case (Fetch_user b' ss)
    show ?thesis
    proof (cases "st_users st (ss_user ss)")
      case None
      then show ?thesis using s t Fetch_user by auto
    next
      case (Some u)
      then obtain u0 where u0: "st_users st0 (ss_user ss) = Some u0" "derived u0 u" "us_id u = ss_user ss"
        using t unfolding tables_inv_def by blast
      show ?thesis
      proof (cases "consume_factor d u b (en_now e)")
        case (Accepted u' r)
        have v: "factor_valid d u0 b (en_now e)" using Accepted consume_Accepted factor_valid_derived [OF u0(2)] by metis
        have d': "derived u0 u'" by (rule derived_spent [OF u0(2) consume_spent [OF Accepted]])
        have i: "us_id u' = ss_user ss" using spent_fields(1) [OF consume_spent [OF Accepted]] u0(3) by simp
        show ?thesis
        proof (cases "us_twoFactor u")
          case True
          then have "us_twoFactor u0" using u0(2) by (simp add: derived_def)
          moreover have h: "half_of st0 ss" "ss_token ss = trim_space (bd_challenge b)" "en_now e < ss_expires ss"
            using p Fetch_user by auto
          moreover obtain s0 where "st_sessions st0 (ss_token ss) = Some s0" "ss_pending s0" "ss_user s0 = ss_user ss"
              "ss_expires s0 = ss_expires ss" using h(1) unfolding half_of_def by blast
          ultimately have "redeemable e b st0 s0 u0" using u0(1) by (simp add: redeemable_def)
          then have "entitled d st0 e b" using v unfolding entitled_def by blast
          then show ?thesis using s p t Fetch_user Some Accepted True u0(1) d' i by auto
        next
          case False
          then show ?thesis using s t Fetch_user Some by auto
        qed
      next
        case Refused
        then show ?thesis using s p t Fetch_user Some by (auto split: if_splits)
      next
        case Check_failed
        then show ?thesis using s p t Fetch_user Some by (auto split: if_splits)
      qed
    qed
  next
    case (Count ss)
    have "tables_inv st0 (PutSession (ss\<lparr>ss_attempts := ss_attempts ss + 1\<rparr>) st)"
      using p t Count unfolding tables_inv_def by auto
    moreover obtain a where "p' = Done a" "a = Locked \<or> a = Invalid"
        "st' \<in> {st, PutSession (ss\<lparr>ss_attempts := ss_attempts ss + 1\<rparr>) st, try_write e Session_delete (DeleteSession (ss_token ss)) st}"
      using s Count refuse_cases [of e ss st] by (cases "refuseSecondFactor e ss st") auto
    ultimately show ?thesis using t del [of "ss_token ss"] by auto
  next
    case (Save u ss r)
    have "tables_inv st0 (PutUser u st)" using p t Save unfolding tables_inv_def by auto
    then show ?thesis using s p t Save by (auto split: if_splits)
  next
    case (Issue u r)
    have n: "tables_inv st0 (PutSession (new_session e u tok) st)" for tok
      using t unfolding tables_inv_def new_session_def by auto
    have g: "entitled d st0 e b" using p Issue by simp
    show ?thesis
    proof (cases "en_token e = None \<or> en_fails e Session_write")
      case True
      then have "issueSession e u st = (st, None)" by (auto simp: issueSession_def split: option.split)
      then show ?thesis using s t g Issue by auto
    next
      case False
      then obtain tok where "issueSession e u st = (PutSession (new_session e u tok) st, Some tok)"
        by (auto simp: issueSession_def)
      then show ?thesis using s n [of tok] g Issue by auto
    qed
  qed (use s p t del in auto)
qed

text \<open>C30: in every interleaving of sign-ins a session is issued only for a factor. However the store calls of any
  number of sign-ins are interleaved, with password changes in between and any write failing, a request that is
  answered with a session had presented a half-session that was live when the requests started and a factor that
  was valid for its account then.
\<close>

theorem every_grant_had_a_factor:
  assumes ok: "store_ok st0" and start: "ts0 ! i = (e, Fetch_session b)" "i < length ts0"
    and fresh: "list_all (\<lambda>t. \<exists>b. snd t = Fetch_session b) ts0"
    and run: "(interleaved d)\<^sup>*\<^sup>* (st0, ts0) (st, ts)" and granted: "ts ! i = (e', Done (Granted tok r))"
  shows "e' = e \<and> (\<exists>s u. redeemable e b st0 s u \<and> factor_valid d u b (en_now e))"
proof -
  have "tables_inv st0 (fst c) \<and> length (snd c) = length ts0 \<and>
      (\<forall>j < length ts0. \<exists>b. snd (ts0 ! j) = Fetch_session b \<and> fst (snd c ! j) = fst (ts0 ! j) \<and>
         thread_inv d st0 (fst (ts0 ! j)) b (snd (snd c ! j)))"
    if "(interleaved d)\<^sup>*\<^sup>* (st0, ts0) c" for c
    using that
  proof (induction rule: rtranclp_induct)
    case base
    have "tables_inv st0 st0" using ok unfolding tables_inv_def store_ok_def half_of_def derived_def by auto
    moreover have "\<exists>b. snd (ts0 ! j) = Fetch_session b" if "j < length ts0" for j
      using fresh that by (simp add: list_all_length)
    ultimately show ?case by fastforce
  next
    case (step c c')
    from step.hyps(2) show ?case
    proof cases
      case (Request j ts e p st p' st')
      obtain b where b: "snd (ts0 ! j) = Fetch_session b" "fst (ts ! j) = fst (ts0 ! j)" "thread_inv d st0 (fst (ts0 ! j)) b (snd (ts ! j))"
        using step.IH Request(1,3) by auto
      have "tables_inv st0 st" using step.IH Request(1) by simp
      moreover have "thread_inv d st0 e b p" using b(2,3) Request(4) by simp
      ultimately have "tables_inv st0 st' \<and> thread_inv d st0 e b p'" using Request(5) by (rule verify_step_inv)
      moreover have "e = fst (ts0 ! j)" using Request(4) b(2) by simp
      ultimately have new: "tables_inv st0 st'" "thread_inv d st0 (fst (ts0 ! j)) b p'" by simp_all
      have "\<exists>b. snd (ts0 ! k) = Fetch_session b \<and> fst (ts[j := (e, p')] ! k) = fst (ts0 ! k) \<and>
          thread_inv d st0 (fst (ts0 ! k)) b (snd (ts[j := (e, p')] ! k))" if "k < length ts0" for k
      proof (cases "k = j")
        case True
        then show ?thesis using b new(2) Request(1,3,4) by auto
      next
        case False
        then show ?thesis using step.IH that Request(1) by simp
      qed
      then show ?thesis using step.IH Request(1,2) new(1) by simp
    next
      case (Password st i u ts h)
      have t: "tables_inv st0 st" using step.IH Password(1) by simp
      then obtain u0 where "st_users st0 i = Some u0" "derived u0 u" "us_id u = i"
        using Password(3) unfolding tables_inv_def by blast
      moreover from this have "derived u0 (u\<lparr>us_passwordHash := h\<rparr>)" by (simp add: derived_def)
      ultimately have "tables_inv st0 (PutUser (u\<lparr>us_passwordHash := h\<rparr>) st)"
        using t unfolding tables_inv_def by auto
      then show ?thesis using step.IH Password(1,2) by simp
    qed
  qed
  from this [OF run] obtain b' where "snd (ts0 ! i) = Fetch_session b'" "fst (ts ! i) = fst (ts0 ! i)"
      "thread_inv d st0 (fst (ts0 ! i)) b' (snd (ts ! i))" using start(2) by auto
  then show ?thesis using start(1) granted by (simp add: entitled_def)
qed

text \<open>One step of the request at a position, as a relation.\<close>

lemma request_step:
  "i < length ts \<Longrightarrow> ts ! i = (e, p) \<Longrightarrow> interleaved d (st, ts) (snd (verify_step d e p st), ts[i := (e, fst (verify_step d e p st))])"
  by (rule Request) auto

definition schedule :: "deps \<Rightarrow> nat list \<Rightarrow> store \<times> (env \<times> pc) list \<Rightarrow> store \<times> (env \<times> pc) list" where
  "schedule d is c = foldl (\<lambda>(st, ts) i. case ts ! i of (e, p) \<Rightarrow> case verify_step d e p st of (p', st') \<Rightarrow>
     (st', ts[i := (e, p')])) c is"

lemma schedule_interleaved:
  "list_all (\<lambda>i. i < length (snd c)) is \<Longrightarrow> (interleaved d)\<^sup>*\<^sup>* c (schedule d is c)"
proof (induction "is" arbitrary: c)
  case Nil
  then show ?case by (simp add: schedule_def)
next
  case (Cons i "is")
  obtain st ts where c: "c = (st, ts)" by (cases c)
  obtain e p where p: "ts ! i = (e, p)" by (cases "ts ! i")
  let ?c = "(snd (verify_step d e p st), ts[i := (e, fst (verify_step d e p st))])"
  have "interleaved d c ?c" unfolding c using Cons.prems c p by (intro request_step) auto
  moreover have "(interleaved d)\<^sup>*\<^sup>* ?c (schedule d is ?c)" using Cons.prems c by (intro Cons.IH) simp
  moreover have "schedule d (i # is) c = schedule d is ?c" by (simp add: schedule_def c p split: prod.split)
  ultimately show ?case by (simp add: converse_rtranclp_into_rtranclp)
qed

declare verify_step.simps [simp del]

definition sample_threads :: "string \<Rightarrow> (env \<times> pc) list" where
  "sample_threads code = [(sample_env ''s'', Fetch_session (sample_body ''c'' code)), (sample_env ''s2'', Fetch_session (sample_body ''k'' code))]"

lemma sample_steps [simp]:
  "verify_step sample_deps (sample_env tok) (Fetch_session (sample_body ''c'' code)) sample_store =
     (Fetch_user (sample_body ''c'' code) (sample_half ''c''), sample_store)"
  "verify_step sample_deps (sample_env tok) (Fetch_session (sample_body ''k'' code)) sample_store =
     (Fetch_user (sample_body ''k'' code) (sample_half ''k''), sample_store)"
  "verify_step sample_deps (sample_env tok) (Fetch_user (sample_body c ''755224'') (sample_half c')) sample_store =
     (Save (sample_user\<lparr>us_lastStep := 2\<rparr>) (sample_half c') False, sample_store)"
  "verify_step sample_deps (sample_env tok) (Fetch_user (sample_body c ''000000'') (sample_half c')) sample_store =
     (Count (sample_half c'), sample_store)"
proof -
  have c: "consume_factor sample_deps sample_user (sample_body c ''755224'') 90 = Accepted (sample_user\<lparr>us_lastStep := 2\<rparr>) False"
    "consume_factor sample_deps sample_user (sample_body c ''000000'') 90 = Refused" for c
    using sample_consume [of sample_user c] by (simp_all add: sample_user_def)
  have s: "st_users sample_store (ss_user (sample_half c')) = Some sample_user" "us_twoFactor sample_user" for c'
    by (simp_all add: samples)
  have n: "en_now (sample_env tok) = 90" for tok by (simp add: sample_env_def)
  show "verify_step sample_deps (sample_env tok) (Fetch_user (sample_body c ''755224'') (sample_half c')) sample_store =
     (Save (sample_user\<lparr>us_lastStep := 2\<rparr>) (sample_half c') False, sample_store)"
    "verify_step sample_deps (sample_env tok) (Fetch_user (sample_body c ''000000'') (sample_half c')) sample_store =
     (Count (sample_half c'), sample_store)"
    by (simp_all add: verify_step.simps s n c)
qed (simp_all add: verify_step.simps samples sample_trims)

lemma sample_writes [simp]:
  "verify_step sample_deps (sample_env tok) (Save u s r) st = (Redeem u s r, PutUser u st)"
  "verify_step sample_deps (sample_env tok) (Redeem u s r) st = (Issue u r, DeleteSession (ss_token s) st)"
  "verify_step sample_deps (sample_env tok) (Issue u r) st =
     (Done (Granted tok (if r then Some (length (us_recovery u)) else None)), PutSession (new_session (sample_env tok) u tok) st)"
  by (simp_all add: verify_step.simps sample_env_def try_write_def issueSession_def)

theorem every_grant_had_a_factor_witness:
  "\<exists>s u. redeemable (sample_env ''s'') (sample_body ''c'' ''755224'') sample_store s u \<and>
     factor_valid sample_deps u (sample_body ''c'' ''755224'') (en_now (sample_env ''s''))"
proof -
  let ?c = "schedule sample_deps [0, 0, 0, 0, 0] (sample_store, sample_threads ''755224'')"
  have r: "(interleaved sample_deps)\<^sup>*\<^sup>* (sample_store, sample_threads ''755224'') (fst ?c, snd ?c)"
    using schedule_interleaved [of "(sample_store, sample_threads ''755224'')" "[0, 0, 0, 0, 0]" sample_deps]
    by (simp add: sample_threads_def)
  have g: "snd ?c ! 0 = (sample_env ''s'', Done (Granted ''s'' None))"
    by (simp add: schedule_def sample_threads_def)
  have t: "sample_threads ''755224'' ! 0 = (sample_env ''s'', Fetch_session (sample_body ''c'' ''755224''))"
    "0 < length (sample_threads ''755224'')" "list_all (\<lambda>t. \<exists>b. snd t = Fetch_session b) (sample_threads ''755224'')"
    by (simp_all add: sample_threads_def)
  show ?thesis using every_grant_had_a_factor [OF sample_ok t r g] by simp
qed

section \<open>What concurrency breaks\<close>

text \<open>Two requests that read the account before either writes it are both granted on the same code.\<close>

lemma one_code_two_sessions:
  "\<exists>st ts. (interleaved sample_deps)\<^sup>*\<^sup>* (sample_store, sample_threads ''755224'') (st, ts) \<and>
     map snd ts = [Done (Granted ''s'' None), Done (Granted ''s2'' None)]"
proof -
  let ?c = "schedule sample_deps [0, 0, 1, 1, 0, 1, 0, 1, 0, 1] (sample_store, sample_threads ''755224'')"
  have "(interleaved sample_deps)\<^sup>*\<^sup>* (sample_store, sample_threads ''755224'') ?c"
    by (rule schedule_interleaved) (simp add: sample_threads_def)
  moreover have "map snd (snd ?c) = [Done (Granted ''s'' None), Done (Granted ''s2'' None)]"
    by (simp add: schedule_def sample_threads_def)
  ultimately show ?thesis by (metis prod.collapse)
qed

text \<open>
  Any number of wrong codes that are checked before the first refusal is stored leave the half-session with one
  counted attempt: the limit of five does not bound guesses made in parallel.
\<close>

lemma parallel_guesses_count_once:
  assumes "n = length ts" "\<And>i. i < n \<Longrightarrow> ts ! i = (sample_env ''s'', Count (sample_half ''c''))"
    and "st_sessions st ''c'' = Some s"
  shows "\<exists>st' ts'. (interleaved sample_deps)\<^sup>*\<^sup>* (st, ts) (st', ts') \<and> length ts' = n \<and>
    (\<forall>i < n. snd (ts' ! i) = Done Invalid) \<and>
    (0 < n \<longrightarrow> st_sessions st' ''c'' = Some ((sample_half ''c'')\<lparr>ss_attempts := 1\<rparr>))"
proof -
  have v: "verify_step sample_deps (sample_env ''s'') (Count (sample_half ''c'')) st =
      (Done Invalid, PutSession ((sample_half ''c'')\<lparr>ss_attempts := 1\<rparr>) st)" for st
    by (simp add: verify_step.simps refuseSecondFactor_def Let_def try_write_def sample_half_def sample_env_def maxMFAAttempts_def)
  have "\<exists>st' ts'. (interleaved sample_deps)\<^sup>*\<^sup>* (st, ts) (st', ts') \<and> length ts' = n \<and>
      (\<forall>i < k. snd (ts' ! i) = Done Invalid) \<and> (\<forall>i < n. k \<le> i \<longrightarrow> ts' ! i = ts ! i) \<and>
      (0 < k \<longrightarrow> st_sessions st' ''c'' = Some ((sample_half ''c'')\<lparr>ss_attempts := 1\<rparr>))" if "k \<le> n" for k
    using that
  proof (induction k)
    case 0
    then show ?case using assms(1) by (intro exI [of _ st] exI [of _ ts]) simp
  next
    case (Suc k)
    then obtain st' ts' where c: "(interleaved sample_deps)\<^sup>*\<^sup>* (st, ts) (st', ts')" "length ts' = n"
        "\<forall>i < k. snd (ts' ! i) = Done Invalid" "\<forall>i < n. k \<le> i \<longrightarrow> ts' ! i = ts ! i" by auto
    have k: "k < length ts'" "ts' ! k = (sample_env ''s'', Count (sample_half ''c''))"
      using c(2,4) Suc.prems assms(2) by auto
    have "interleaved sample_deps (st', ts') (PutSession ((sample_half ''c'')\<lparr>ss_attempts := 1\<rparr>) st', ts'[k := (sample_env ''s'', Done Invalid)])"
      using request_step [OF k, of sample_deps st'] unfolding v by simp
    then have "(interleaved sample_deps)\<^sup>*\<^sup>* (st, ts)
        (PutSession ((sample_half ''c'')\<lparr>ss_attempts := 1\<rparr>) st', ts'[k := (sample_env ''s'', Done Invalid)])"
      using c(1) by (rule rtranclp.rtrancl_into_rtrancl [rotated])
    then show ?case using c(2-4) k(1)
      by (intro exI [of _ "PutSession ((sample_half ''c'')\<lparr>ss_attempts := 1\<rparr>) st'"] exI [of _ "ts'[k := (sample_env ''s'', Done Invalid)]"])
        (auto simp: nth_list_update sample_half_def)
  qed
  from this [of n] show ?thesis by auto
qed

text \<open>The account is written back whole, so a password changed while a sign-in is being checked is undone.\<close>

lemma changed_password_comes_back:
  "\<exists>st ts. (interleaved sample_deps)\<^sup>*\<^sup>* (sample_store, sample_threads ''755224'') (st, ts) \<and>
     (\<exists>mid mts. (interleaved sample_deps)\<^sup>*\<^sup>* (sample_store, sample_threads ''755224'') (mid, mts) \<and>
        map_option us_passwordHash (st_users mid ''u'') = Some ''new'' \<and> (interleaved sample_deps)\<^sup>*\<^sup>* (mid, mts) (st, ts)) \<and>
     map_option us_passwordHash (st_users st ''u'') = Some ''pw''"
proof -
  let ?c = "schedule sample_deps [0, 0] (sample_store, sample_threads ''755224'')"
  have s: "?c = (sample_store, (sample_threads ''755224'')[0 := (sample_env ''s'', Save (sample_user\<lparr>us_lastStep := 2\<rparr>) (sample_half ''c'') False)])"
    by (simp add: schedule_def sample_threads_def)
  let ?mid = "PutUser (sample_user\<lparr>us_passwordHash := ''new''\<rparr>) sample_store"
  have 1: "(interleaved sample_deps)\<^sup>*\<^sup>* (sample_store, sample_threads ''755224'') ?c"
    by (rule schedule_interleaved) (simp add: sample_threads_def)
  have 2: "interleaved sample_deps ?c (?mid, snd ?c)"
    unfolding s snd_conv by (rule Password [of _ "''u''"]) (simp add: sample_store_def)
  let ?last = "schedule sample_deps [0] (?mid, snd ?c)"
  have 3: "(interleaved sample_deps)\<^sup>*\<^sup>* (?mid, snd ?c) ?last"
    unfolding s by (rule schedule_interleaved) (simp add: sample_threads_def)
  have 4: "map_option us_passwordHash (st_users ?mid ''u'') = Some ''new''" by (simp add: sample_user_def)
  have 5: "map_option us_passwordHash (st_users (fst ?last) ''u'') = Some ''pw''"
    unfolding s by (simp add: schedule_def sample_threads_def sample_user_def)
  have 6: "(interleaved sample_deps)\<^sup>*\<^sup>* (sample_store, sample_threads ''755224'') (?mid, snd ?c)"
    using 1 2 by (rule rtranclp.rtrancl_into_rtrancl)
  then have 7: "(interleaved sample_deps)\<^sup>*\<^sup>* (sample_store, sample_threads ''755224'') ?last" using 3 by (rule rtranclp_trans)
  show ?thesis
    using 3 4 5 6 7 by (metis prod.collapse)
qed

end
