(* ===== verification/Oidc.thy ===== *)
theory Oidc
  imports Complex_Main Prelude "HOL-Library.Word"
begin

text \<open>
  internal/oidc/oidc.go: the check of an OpenID Connect ID token. base64, SHA-256, the two signature checks, the
  curve test and JSON decoding of the two segments are the fields of \<open>crypto\<close>; the key set a fetch returns is an
  argument (\<open>None\<close> when the fetch fails). A moment is its second, a rational; numeric claims are rationals,
  truncated where the code converts them. Discovery and the token exchange are HTTP.
\<close>

section \<open>Data\<close>

datatype pubkey = RSA nat int | EC nat nat

record jwk =
  jk_kty :: string
  jk_kid :: string
  jk_use :: string
  jk_n :: string
  jk_e :: string
  jk_crv :: string
  jk_x :: string
  jk_y :: string

record raw_claims =
  rc_iss :: string
  rc_aud :: "json option"
  rc_azp :: string
  rc_exp :: rat
  rc_nbf :: rat
  rc_nonce :: string
  rc_sub :: string
  rc_email :: string
  rc_email_verified :: string
  rc_name :: string
  rc_amr :: "string list"

record claims =
  cl_subject :: string
  cl_email :: string
  cl_emailVerified :: bool
  cl_name :: string
  cl_amr :: "string list"

record crypto =
  cr_base64 :: "string \<Rightarrow> string option"
  cr_sha256 :: "string \<Rightarrow> string"
  cr_rsa :: "nat \<Rightarrow> int \<Rightarrow> string \<Rightarrow> string \<Rightarrow> bool"
  cr_ecdsa :: "nat \<Rightarrow> nat \<Rightarrow> string \<Rightarrow> nat \<Rightarrow> nat \<Rightarrow> bool"
  cr_on_curve :: "nat \<Rightarrow> nat \<Rightarrow> bool"
  cr_header :: "string \<Rightarrow> (string \<times> string) option"
  cr_claims :: "string \<Rightarrow> raw_claims option"

record provider =
  pv_issuer :: string
  pv_jwksURI :: string
  pv_keys :: "(string \<times> pubkey) list"

datatype oidc_error =
    Not_a_jws
  | Bad_header
  | Bad_algorithm
  | Keys_unavailable
  | No_such_key
  | Bad_encoding
  | Bad_signature
  | Bad_claims
  | Wrong_issuer
  | Wrong_audience
  | Wrong_party
  | Token_expired
  | Not_yet_valid
  | Wrong_nonce
  | No_subject

section \<open>Helpers\<close>

definition trim_set :: "char set \<Rightarrow> string \<Rightarrow> string" where
  "trim_set cs s = rev (dropWhile (\<lambda>c. c \<in> cs) (rev (dropWhile (\<lambda>c. c \<in> cs) s)))"

definition normIssuer :: "string \<Rightarrow> string" where
  "normIssuer s = rev (dropWhile (\<lambda>c. c = CHR ''/'') (rev (trim_space s)))"

text \<open>\<open>big.Int.SetBytes\<close>, and \<open>Int64\<close> of the result.\<close>

definition set_bytes :: "string \<Rightarrow> nat" where
  "set_bytes s = foldl (\<lambda>n c. n * 256 + of_char c) 0 s"

definition to_int64 :: "nat \<Rightarrow> int" where
  "to_int64 n = sint (of_nat n :: 64 word)"

definition trunc_rat :: "rat \<Rightarrow> int" where
  "trunc_rat x = (if x < 0 then - \<lfloor>- x\<rfloor> else \<lfloor>x\<rfloor>)"

definition skew :: int where "skew = 120"

definition MFA :: "claims \<Rightarrow> bool" where
  "MFA c \<longleftrightarrow> list_ex (\<lambda>m. to_lower m \<in> set [''mfa'', ''otp'', ''hwk'', ''swk'', ''sms'', ''fido'', ''face'', ''fpt'',
     ''iris'', ''retina'', ''vbm'', ''pop'']) (cl_amr c)"

text \<open>
  \<open>json.Unmarshal\<close> into a string takes a string, and null as the empty one; into a list it keeps a place for an
  element that is no string. An absent claim is no JSON.
\<close>

definition audiences :: "json option \<Rightarrow> string list" where
  "audiences raw =
     (case raw of
        Some (JStr s) \<Rightarrow> [s]
      | Some JNull \<Rightarrow> ['''']
      | Some (JArr xs) \<Rightarrow> map (\<lambda>x. case x of JStr s \<Rightarrow> s | _ \<Rightarrow> '''') xs
      | _ \<Rightarrow> [])"

definition contains :: "string list \<Rightarrow> string \<Rightarrow> bool" where
  "contains xs v \<longleftrightarrow> list_ex (\<lambda>x. x = v \<and> v \<noteq> '''') xs"

section \<open>Discovery\<close>

text \<open>\<open>url.Parse\<close> answers the scheme and the host, or an error; the metadata is what its document holds.\<close>

record metadata =
  md_issuer :: string
  md_authorization :: string
  md_token :: string
  md_jwks :: string

definition Discover ::
  "(string \<Rightarrow> (string \<times> string) option) \<Rightarrow> (string \<Rightarrow> metadata option) \<Rightarrow> string \<Rightarrow> provider option" where
  "Discover parse get raw_issuer =
     (let issuer = normIssuer raw_issuer
      in case parse issuer of
           None \<Rightarrow> None
         | Some (scheme, host) \<Rightarrow>
             if scheme \<noteq> ''https'' \<or> host = '''' then None
             else (case get (issuer @ ''/.well-known/openid-configuration'') of
                     None \<Rightarrow> None
                   | Some m \<Rightarrow>
                       if normIssuer (md_issuer m) \<noteq> issuer then None
                       else if list_ex (\<lambda>v. case parse v of None \<Rightarrow> True | Some (sch, _) \<Rightarrow> sch \<noteq> ''https'')
                                 [md_authorization m, md_token m, md_jwks m] then None
                       else Some \<lparr>pv_issuer = md_issuer m, pv_jwksURI = md_jwks m, pv_keys = []\<rparr>))"

text \<open>\<open>Exchange\<close>: the status of the token endpoint and the token it returned, \<open>None\<close> when it cannot be reached.\<close>

definition Exchange :: "(int \<times> string) option \<Rightarrow> string option" where
  "Exchange resp =
     (case resp of
        None \<Rightarrow> None
      | Some (status, tok) \<Rightarrow> if status \<noteq> 200 then None else if tok = '''' then None else Some tok)"

section \<open>The key set\<close>

definition jwk_key :: "crypto \<Rightarrow> jwk \<Rightarrow> pubkey option" where
  "jwk_key cr k =
     (if jk_use k \<noteq> '''' \<and> jk_use k \<noteq> ''sig'' then None
      else if jk_kty k = ''RSA'' then
        (case (cr_base64 cr (jk_n k), cr_base64 cr (jk_e k)) of
           (Some n, Some e) \<Rightarrow> if length n < 256 then None else Some (RSA (set_bytes n) (to_int64 (set_bytes e)))
         | _ \<Rightarrow> None)
      else if jk_kty k = ''EC'' then
        (if jk_crv k \<noteq> ''P-256'' then None
         else (case (cr_base64 cr (jk_x k), cr_base64 cr (jk_y k)) of
                 (Some x, Some y) \<Rightarrow>
                   if \<not> cr_on_curve cr (set_bytes x) (set_bytes y) then None else Some (EC (set_bytes x) (set_bytes y))
               | _ \<Rightarrow> None))
      else None)"

definition fetchJWKS :: "crypto \<Rightarrow> jwk list option \<Rightarrow> (string \<times> pubkey) list option" where
  "fetchJWKS cr fetched =
     (case fetched of
        None \<Rightarrow> None
      | Some ks \<Rightarrow>
          (let out = foldl (\<lambda>m k. case jwk_key cr k of None \<Rightarrow> m | Some p \<Rightarrow> put (jk_kid k) p m) [] ks
           in if out = [] then None else Some out))"

definition key :: "crypto \<Rightarrow> provider \<Rightarrow> jwk list option \<Rightarrow> string \<Rightarrow> provider \<times> (oidc_error + pubkey)" where
  "key cr p fetched kid =
     (case map_of (pv_keys p) kid of
        Some k \<Rightarrow> (p, Inr k)
      | None \<Rightarrow>
          (case fetchJWKS cr fetched of
             None \<Rightarrow> (p, Inl Keys_unavailable)
           | Some keys \<Rightarrow>
               (p\<lparr>pv_keys := keys\<rparr>,
                case map_of keys kid of
                  Some k \<Rightarrow> Inr k
                | None \<Rightarrow> if kid = '''' \<and> length keys = 1 then Inr (snd (hd keys)) else Inl No_such_key)))"

section \<open>The token\<close>

text \<open>The switch on the type of the key.\<close>

definition signature_ok :: "crypto \<Rightarrow> string \<Rightarrow> pubkey \<Rightarrow> string \<Rightarrow> string \<Rightarrow> bool" where
  "signature_ok cr alg k message sig =
     (case k of
        RSA n e \<Rightarrow> alg = ''RS256'' \<and> cr_rsa cr n e (cr_sha256 cr message) sig
      | EC x y \<Rightarrow> alg = ''ES256'' \<and> length sig = 64 \<and>
                  cr_ecdsa cr x y (cr_sha256 cr message) (set_bytes (take 32 sig)) (set_bytes (drop 32 sig)))"

definition trimmed_claims :: "raw_claims \<Rightarrow> claims" where
  "trimmed_claims c = \<lparr>cl_subject = rc_sub c, cl_email = to_lower (trim_space (rc_email c)),
     cl_emailVerified = (trim_set {CHR 0x22, CHR '' ''} (rc_email_verified c) = ''true''),
     cl_name = rc_name c, cl_amr = rc_amr c\<rparr>"

text \<open>The checks of \<open>Verify\<close> on the decoded claims, in order.\<close>

definition check_claims :: "string \<Rightarrow> string \<Rightarrow> string \<Rightarrow> rat \<Rightarrow> raw_claims \<Rightarrow> oidc_error + claims" where
  "check_claims issuer clientID nonce now c =
     (let aud = audiences (rc_aud c)
      in if normIssuer (rc_iss c) \<noteq> normIssuer issuer then Inl Wrong_issuer
         else if \<not> contains aud clientID then Inl Wrong_audience
         else if 1 < length aud \<and> rc_azp c \<noteq> clientID then Inl Wrong_party
         else if rc_exp c = 0 \<or> of_int (trunc_rat (rc_exp c) + skew) < now then Inl Token_expired
         else if rc_nbf c \<noteq> 0 \<and> now + of_int skew < of_int (trunc_rat (rc_nbf c)) then Inl Not_yet_valid
         else if nonce = '''' \<or> rc_nonce c \<noteq> nonce then Inl Wrong_nonce
         else if rc_sub c = '''' then Inl No_subject
         else Inr (trimmed_claims c))"

definition VerifyToken ::
  "crypto \<Rightarrow> provider \<Rightarrow> jwk list option \<Rightarrow> string \<Rightarrow> string \<Rightarrow> string \<Rightarrow> rat \<Rightarrow> provider \<times> (oidc_error + claims)" where
  "VerifyToken cr p fetched raw clientID nonce now =
     (case split_on (CHR ''.'') raw of
        [hdr, body, sig_part] \<Rightarrow>
          (case cr_header cr hdr of
             None \<Rightarrow> (p, Inl Bad_header)
           | Some (alg, kid) \<Rightarrow>
               if alg \<noteq> ''RS256'' \<and> alg \<noteq> ''ES256'' then (p, Inl Bad_algorithm)
               else (case key cr p fetched kid of
                       (p', Inl err) \<Rightarrow> (p', Inl err)
                     | (p', Inr k) \<Rightarrow>
                         (p', case cr_base64 cr sig_part of
                                None \<Rightarrow> Inl Bad_encoding
                              | Some sig \<Rightarrow>
                                  if \<not> signature_ok cr alg k (hdr @ ''.'' @ body) sig then Inl Bad_signature
                                  else (case cr_claims cr body of
                                          None \<Rightarrow> Inl Bad_claims
                                        | Some c \<Rightarrow> check_claims (pv_issuer p) clientID nonce now c))))
      | _ \<Rightarrow> (p, Inl Not_a_jws))"

section \<open>What an accepted token proves\<close>

text \<open>The conditions OpenID Connect puts on the claims, as one predicate.\<close>

definition issued_for :: "string \<Rightarrow> string \<Rightarrow> string \<Rightarrow> rat \<Rightarrow> raw_claims \<Rightarrow> bool" where
  "issued_for issuer clientID nonce now c \<longleftrightarrow>
     normIssuer (rc_iss c) = normIssuer issuer \<and>
     clientID \<noteq> '''' \<and> clientID \<in> set (audiences (rc_aud c)) \<and> (length (audiences (rc_aud c)) \<le> 1 \<or> rc_azp c = clientID) \<and>
     rc_exp c \<noteq> 0 \<and> now \<le> of_int (trunc_rat (rc_exp c) + skew) \<and>
     (rc_nbf c = 0 \<or> of_int (trunc_rat (rc_nbf c)) \<le> now + of_int skew) \<and>
     nonce \<noteq> '''' \<and> rc_nonce c = nonce \<and> rc_sub c \<noteq> ''''"

lemma check_claims_iff:
  "check_claims issuer clientID nonce now c = Inr cl \<longleftrightarrow> issued_for issuer clientID nonce now c \<and> cl = trimmed_claims c"
  unfolding check_claims_def issued_for_def contains_def Let_def by (auto simp: list_ex_iff not_less)

text \<open>A usable key of a key set: the last entry with its id.\<close>

lemma fetchJWKS_lookup:
  assumes "fetchJWKS cr fetched = Some keys" "map_of keys kid = Some k"
  shows "\<exists>ks j. fetched = Some ks \<and> j \<in> set ks \<and> jk_kid j = kid \<and> jwk_key cr j = Some k"
proof -
  have "\<exists>j. j \<in> set ks \<and> jk_kid j = kid \<and> jwk_key cr j = Some k"
    if "map_of (foldl (\<lambda>m k. case jwk_key cr k of None \<Rightarrow> m | Some p \<Rightarrow> put (jk_kid k) p m) [] ks) kid = Some k" for ks
    using that
  proof (induction ks rule: rev_induct)
    case (snoc j ks)
    then show ?case by (auto split: option.splits if_splits)
  qed simp
  then show ?thesis using assms unfolding fetchJWKS_def Let_def by (auto split: option.splits if_splits)
qed

lemma fetchJWKS_distinct:
  assumes "fetchJWKS cr fetched = Some keys"
  shows "distinct (map fst keys)" "keys \<noteq> []"
proof -
  have "distinct (map fst (foldl (\<lambda>m k. case jwk_key cr k of None \<Rightarrow> m | Some p \<Rightarrow> put (jk_kid k) p m) [] ks))" for ks
    by (induction ks rule: rev_induct) (auto split: option.splits)
  then show "distinct (map fst keys)" "keys \<noteq> []" using assms unfolding fetchJWKS_def Let_def
    by (auto split: option.splits if_splits)
qed

text \<open>The keys the provider holds are usable entries of one key set it published.\<close>

definition published :: "crypto \<Rightarrow> jwk list list \<Rightarrow> pubkey \<Rightarrow> bool" where
  "published cr sets k \<longleftrightarrow> (\<exists>ks \<in> set sets. \<exists>j \<in> set ks. jwk_key cr j = Some k)"

definition keys_ok :: "crypto \<Rightarrow> jwk list list \<Rightarrow> provider \<Rightarrow> bool" where
  "keys_ok cr sets p \<longleftrightarrow> (\<forall>kid k. map_of (pv_keys p) kid = Some k \<longrightarrow>
     (\<exists>ks \<in> set sets. \<exists>j \<in> set ks. jk_kid j = kid \<and> jwk_key cr j = Some k))"

definition the_sets :: "jwk list option \<Rightarrow> jwk list list" where
  "the_sets fetched = (case fetched of None \<Rightarrow> [] | Some ks \<Rightarrow> [ks])"

lemma key_effect:
  assumes "key cr p fetched kid = (p', r)" "keys_ok cr sets p"
  shows "pv_issuer p' = pv_issuer p \<and> keys_ok cr (the_sets fetched @ sets) p' \<and>
    (\<forall>k. r = Inr k \<longrightarrow> published cr (the_sets fetched @ sets) k)"
proof (cases "map_of (pv_keys p) kid")
  case (Some k)
  then have "p' = p" "r = Inr k" using assms(1) by (auto simp: key_def)
  then show ?thesis using assms(2) Some unfolding keys_ok_def published_def by fastforce
next
  case None
  show ?thesis
  proof (cases "fetchJWKS cr fetched")
    case None2: None
    then show ?thesis using assms None unfolding key_def keys_ok_def by fastforce
  next
    case (Some keys)
    have l: "\<exists>ks \<in> set (the_sets fetched @ sets). \<exists>j \<in> set ks. jk_kid j = i \<and> jwk_key cr j = Some k" if "map_of keys i = Some k" for i k
      using fetchJWKS_lookup [OF Some that] by (auto simp: the_sets_def)
    have p': "p' = p\<lparr>pv_keys := keys\<rparr>" using assms(1) None Some by (simp add: key_def)
    have "published cr (the_sets fetched @ sets) k" if "r = Inr k" for k
    proof -
      obtain i where "map_of keys i = Some k"
      proof (cases "map_of keys kid")
        case (Some k')
        then show ?thesis using that assms(1) None \<open>fetchJWKS cr fetched = Some keys\<close> \<open>r = Inr k\<close> by (auto simp: key_def)
      next
        case none: None
        then have "k = snd (hd keys)" using assms(1) None Some \<open>r = Inr k\<close> by (auto simp: key_def split: if_splits)
        then have "(fst (hd keys), k) \<in> set keys" using fetchJWKS_distinct(2) [OF Some] by simp
        then have "map_of keys (fst (hd keys)) = Some k" using fetchJWKS_distinct(1) [OF Some] by (simp add: map_of_is_SomeI)
        then show ?thesis by (rule that)
      qed
      then show ?thesis using l unfolding published_def by blast
    qed
    then show ?thesis using l p' unfolding keys_ok_def by auto
  qed
qed

text \<open>What an accepted token is: signed by a key of the list, for this provider, client and nonce, and in time.\<close>

definition genuine :: "crypto \<Rightarrow> string \<Rightarrow> (pubkey \<Rightarrow> bool) \<Rightarrow> string \<Rightarrow> string \<Rightarrow> string \<Rightarrow> rat \<Rightarrow> raw_claims \<Rightarrow> bool" where
  "genuine cr issuer trusted raw clientID nonce now c \<longleftrightarrow>
     (\<exists>hdr body sig_part alg kid k sig. split_on (CHR ''.'') raw = [hdr, body, sig_part] \<and> cr_header cr hdr = Some (alg, kid) \<and>
        trusted k \<and> cr_base64 cr sig_part = Some sig \<and> signature_ok cr alg k (hdr @ ''.'' @ body) sig \<and>
        cr_claims cr body = Some c \<and> issued_for issuer clientID nonce now c)"

lemma VerifyToken_accepts:
  "VerifyToken cr p fetched raw clientID nonce now = (p', Inr cl) \<longleftrightarrow>
     (\<exists>hdr body sig_part alg kid k sig c. split_on (CHR ''.'') raw = [hdr, body, sig_part] \<and> cr_header cr hdr = Some (alg, kid) \<and>
        key cr p fetched kid = (p', Inr k) \<and> cr_base64 cr sig_part = Some sig \<and> signature_ok cr alg k (hdr @ ''.'' @ body) sig \<and>
        cr_claims cr body = Some c \<and> issued_for (pv_issuer p) clientID nonce now c \<and> cl = trimmed_claims c)"
proof (cases "\<exists>hdr body sig_part. split_on (CHR ''.'') raw = [hdr, body, sig_part]")
  case False
  then show ?thesis unfolding VerifyToken_def by (auto split: list.split)
next
  case True
  then obtain hdr body sig_part where sp: "split_on (CHR ''.'') raw = [hdr, body, sig_part]" by blast
  have alg: "signature_ok cr alg k m sig \<Longrightarrow> alg = ''RS256'' \<or> alg = ''ES256''" for alg k m sig
    by (cases k) (auto simp: signature_ok_def)
  show ?thesis
  proof (cases "cr_header cr hdr")
    case None
    then show ?thesis by (simp add: VerifyToken_def sp)
  next
    case (Some ak)
    obtain alg kid where ak: "ak = (alg, kid)" by (cases ak)
    obtain q r where kr: "key cr p fetched kid = (q, r)" by (cases "key cr p fetched kid")
    show ?thesis using Some ak kr alg
      by (cases r) (auto simp: VerifyToken_def sp check_claims_iff split: option.splits)
  qed
qed

lemma Discover_Some:
  assumes "Discover parse get issuer = Some p"
  shows "normIssuer (pv_issuer p) = normIssuer issuer \<and> pv_keys p = [] \<and>
    (\<exists>host. parse (normIssuer issuer) = Some (''https'', host) \<and> host \<noteq> '''')"
  using assms unfolding Discover_def Let_def by (auto split: option.splits if_splits)

lemma genuine_by_keys:
  assumes "VerifyToken cr p fetched raw clientID nonce now = (p', Inr cl)" "keys_ok cr sets p"
  shows "\<exists>c. genuine cr (pv_issuer p) (published cr (the_sets fetched @ sets)) raw clientID nonce now c \<and> cl = trimmed_claims c"
proof -
  obtain hdr body sig_part alg kid kk sig c where v:
    "split_on (CHR ''.'') raw = [hdr, body, sig_part]" "cr_header cr hdr = Some (alg, kid)" "key cr p fetched kid = (p', Inr kk)"
    "cr_base64 cr sig_part = Some sig" "signature_ok cr alg kk (hdr @ ''.'' @ body) sig" "cr_claims cr body = Some c"
    "issued_for (pv_issuer p) clientID nonce now c" "cl = trimmed_claims c"
    using assms(1) unfolding VerifyToken_accepts by (elim exE conjE) (rule that, assumption+)
  have "published cr (the_sets fetched @ sets) kk" using key_effect [OF v(3) assms(2)] by simp
  then have "genuine cr (pv_issuer p) (published cr (the_sets fetched @ sets)) raw clientID nonce now c"
    unfolding genuine_def using v(1,2,4-7)
    by (intro exI [of _ hdr] exI [of _ body] exI [of _ sig_part] exI [of _ alg] exI [of _ kid] exI [of _ kk] exI [of _ sig]) simp
  then show ?thesis using v(8) by blast
qed

lemma genuine_issuer:
  "normIssuer issuer = normIssuer issuer' \<Longrightarrow> genuine cr issuer P raw cid nonce now c = genuine cr issuer' P raw cid nonce now c"
  by (simp add: genuine_def issued_for_def)

text \<open>A handle on a provider, used for one token after another.\<close>

record token_call =
  tc_fetched :: "jwk list option"
  tc_raw :: string
  tc_clientID :: string
  tc_nonce :: string
  tc_now :: rat

definition verify_call :: "crypto \<Rightarrow> provider \<Rightarrow> token_call \<Rightarrow> provider \<times> (oidc_error + claims)" where
  "verify_call cr p t = VerifyToken cr p (tc_fetched t) (tc_raw t) (tc_clientID t) (tc_nonce t) (tc_now t)"

lemma VerifyToken_keys:
  assumes "VerifyToken cr p fetched raw clientID nonce now = (p', r)"
  shows "p' = p \<or> (\<exists>kid q. key cr p fetched kid = (p', q))"
  using assms unfolding VerifyToken_def by (auto split: list.splits option.splits if_splits prod.splits sum.splits)

lemma keys_ok_mono: "keys_ok cr sets p \<Longrightarrow> set sets \<subseteq> set sets' \<Longrightarrow> keys_ok cr sets' p"
  unfolding keys_ok_def by blast

lemma verify_call_keys:
  assumes "keys_ok cr sets p" "pv_issuer p = issuer"
  shows "keys_ok cr (the_sets (tc_fetched t) @ sets) (fst (verify_call cr p t)) \<and> pv_issuer (fst (verify_call cr p t)) = issuer"
proof -
  obtain p' r where v: "VerifyToken cr p (tc_fetched t) (tc_raw t) (tc_clientID t) (tc_nonce t) (tc_now t) = (p', r)"
    by (cases "VerifyToken cr p (tc_fetched t) (tc_raw t) (tc_clientID t) (tc_nonce t) (tc_now t)")
  from VerifyToken_keys [OF v] show ?thesis
  proof (elim disjE exE)
    assume "p' = p"
    then show ?thesis using v assms keys_ok_mono [OF assms(1), of "the_sets (tc_fetched t) @ sets"] by (simp add: verify_call_def)
  next
    fix kid q
    assume "key cr p (tc_fetched t) kid = (p', q)"
    from key_effect [OF this assms(1)] show ?thesis using v assms(2) by (simp add: verify_call_def)
  qed
qed

lemma calls_keys:
  assumes "keys_ok cr sets p" "pv_issuer p = issuer"
  shows "keys_ok cr (concat (map (\<lambda>t. the_sets (tc_fetched t)) (rev ts)) @ sets) (foldl (\<lambda>p t. fst (verify_call cr p t)) p ts) \<and>
    pv_issuer (foldl (\<lambda>p t. fst (verify_call cr p t)) p ts) = issuer"
  using assms
proof (induction ts rule: rev_induct)
  case (snoc t ts)
  then have "keys_ok cr (concat (map (\<lambda>t. the_sets (tc_fetched t)) (rev ts)) @ sets) (foldl (\<lambda>p t. fst (verify_call cr p t)) p ts)"
    "pv_issuer (foldl (\<lambda>p t. fst (verify_call cr p t)) p ts) = issuer" by blast+
  from verify_call_keys [OF this, of t] show ?case by simp
qed simp

text \<open>C25: an ID token is accepted only when it is genuine. Whatever tokens a discovered provider was asked about
  before, and whatever its key endpoint answered each time, an accepted token has three segments, is signed under
  the algorithm its key calls for by a usable key the endpoint published, names the provider as its issuer and
  this client among its audiences, alone or as the authorized party, is neither expired nor early beyond the
  skew, carries the nonce of this sign-in and a subject; and the claims handed on are the token's.
\<close>

theorem accepted_tokens_are_genuine:
  assumes "Discover parse get issuer = Some p0" "p = foldl (\<lambda>p t. fst (verify_call cr p t)) p0 ts"
    and "VerifyToken cr p fetched raw clientID nonce now = (p', Inr cl)"
  shows "\<exists>c. genuine cr issuer (published cr (the_sets fetched @ concat (map (\<lambda>t. the_sets (tc_fetched t)) (rev ts))))
      raw clientID nonce now c \<and> cl = trimmed_claims c"
proof -
  have d: "normIssuer (pv_issuer p0) = normIssuer issuer" "pv_keys p0 = []"
    using Discover_Some [OF assms(1)] by auto
  let ?sets = "concat (map (\<lambda>t. the_sets (tc_fetched t)) (rev ts))"
  have "keys_ok cr [] p0" using d(2) by (simp add: keys_ok_def)
  then have k: "keys_ok cr ?sets p" "pv_issuer p = pv_issuer p0"
    using calls_keys [of cr "[]" p0 "pv_issuer p0" ts] assms(2) by simp_all
  have "normIssuer (pv_issuer p) = normIssuer issuer" using d(1) k(2) by simp
  from genuine_issuer [OF this] show ?thesis using genuine_by_keys [OF assms(3) k(1)] by metis
qed

section \<open>Samples\<close>

definition sample_claims :: raw_claims where
  "sample_claims = \<lparr>rc_iss = ''https://idp/'', rc_aud = Some (JStr ''app''), rc_azp = '''', rc_exp = 1000, rc_nbf = 0,
     rc_nonce = ''nonce'', rc_sub = ''sub'', rc_email = ''U@T'', rc_email_verified = ''true'', rc_name = '''',
     rc_amr = [''otp'']\<rparr>"

definition sample_crypto :: crypto where
  "sample_crypto = \<lparr>cr_base64 = (\<lambda>s. Some (replicate 256 (CHR ''A''))), cr_sha256 = id, cr_rsa = (\<lambda>_ _ _ _. True),
     cr_ecdsa = (\<lambda>_ _ _ _ _. False), cr_on_curve = (\<lambda>_ _. False), cr_header = (\<lambda>_. Some (''RS256'', ''kid'')),
     cr_claims = (\<lambda>_. Some sample_claims)\<rparr>"

definition sample_jwk :: jwk where
  "sample_jwk = \<lparr>jk_kty = ''RSA'', jk_kid = ''kid'', jk_use = ''sig'', jk_n = ''n'', jk_e = ''e'', jk_crv = '''', jk_x = '''', jk_y = ''''\<rparr>"

definition sample_url :: "string \<Rightarrow> (string \<times> string) option" where
  "sample_url _ = Some (''https'', ''idp'')"

definition sample_metadata :: "string \<Rightarrow> metadata option" where
  "sample_metadata _ = Some \<lparr>md_issuer = ''https://idp'', md_authorization = ''https://idp/a'', md_token = ''https://idp/t'',
     md_jwks = ''https://idp/k''\<rparr>"

definition sample_provider :: provider where
  "sample_provider = \<lparr>pv_issuer = ''https://idp'', pv_jwksURI = ''https://idp/k'', pv_keys = []\<rparr>"

lemma sample_issuers: "normIssuer ''https://idp'' = ''https://idp''" "normIssuer ''https://idp/'' = ''https://idp''"
  by code_simp+

lemma sample_discover: "Discover sample_url sample_metadata ''https://idp'' = Some sample_provider"
  unfolding Discover_def sample_issuers Let_def
  by (simp add: sample_url_def sample_metadata_def sample_issuers sample_provider_def)

lemma sample_key: "\<exists>k p'. key sample_crypto sample_provider (Some [sample_jwk]) ''kid'' = (p', Inr k) \<and>
    signature_ok sample_crypto ''RS256'' k m sig"
proof -
  have "\<exists>n e. jwk_key sample_crypto sample_jwk = Some (RSA n e)" by (simp add: jwk_key_def sample_jwk_def sample_crypto_def)
  then obtain n e where "jwk_key sample_crypto sample_jwk = Some (RSA n e)" by blast
  then have "fetchJWKS sample_crypto (Some [sample_jwk]) = Some [(''kid'', RSA n e)]"
    by (simp add: fetchJWKS_def) (simp add: sample_jwk_def)
  then have "key sample_crypto sample_provider (Some [sample_jwk]) ''kid'' = (sample_provider\<lparr>pv_keys := [(''kid'', RSA n e)]\<rparr>, Inr (RSA n e))"
    by (simp add: key_def sample_provider_def)
  moreover have "signature_ok sample_crypto ''RS256'' (RSA n e) m sig" by (simp add: signature_ok_def sample_crypto_def)
  ultimately show ?thesis by blast
qed

lemma sample_split: "split_on (CHR ''.'') ''h.b.s'' = [''h'', ''b'', ''s'']"
  by code_simp

lemma sample_issued: "issued_for ''https://idp'' ''app'' ''nonce'' 500 sample_claims"
  unfolding issued_for_def by (simp add: sample_claims_def sample_issuers audiences_def trunc_rat_def skew_def)

lemma sample_token:
  "\<exists>p'. VerifyToken sample_crypto sample_provider (Some [sample_jwk]) ''h.b.s'' ''app'' ''nonce'' 500 = (p', Inr (trimmed_claims sample_claims))"
proof -
  obtain k p' where k: "key sample_crypto sample_provider (Some [sample_jwk]) ''kid'' = (p', Inr k)"
    "signature_ok sample_crypto ''RS256'' k (''h'' @ ''.'' @ ''b'') (replicate 256 (CHR ''A''))" using sample_key by metis
  have i: "issued_for (pv_issuer sample_provider) ''app'' ''nonce'' 500 sample_claims" using sample_issued by (simp add: sample_provider_def)
  have c: "cr_header sample_crypto ''h'' = Some (''RS256'', ''kid'')" "cr_base64 sample_crypto ''s'' = Some (replicate 256 (CHR ''A''))"
    "cr_claims sample_crypto ''b'' = Some sample_claims" by (simp_all add: sample_crypto_def)
  show ?thesis unfolding VerifyToken_accepts
    using sample_split c k i by blast
qed

theorem accepted_tokens_are_genuine_witness:
  "\<exists>c. genuine sample_crypto ''https://idp'' (published sample_crypto [[sample_jwk]]) ''h.b.s'' ''app'' ''nonce'' 500 c \<and>
     trimmed_claims sample_claims = trimmed_claims c"
proof -
  obtain p' where v: "VerifyToken sample_crypto sample_provider (Some [sample_jwk]) ''h.b.s'' ''app'' ''nonce'' 500 =
      (p', Inr (trimmed_claims sample_claims))" using sample_token by blast
  have f: "sample_provider = foldl (\<lambda>p t. fst (verify_call sample_crypto p t)) sample_provider []" by simp
  from accepted_tokens_are_genuine [OF sample_discover f v] show ?thesis by (simp add: the_sets_def)
qed

end
