(* ===== verification/Sso.thy ===== *)
theory Sso
  imports TwoFactorProps Oidc
begin

text \<open>
  internal/platformapi/sso.go and \<open>handleLogin\<close>: the two doors of the platform, single sign-on through the
  workspace's own provider and the password. The provider's endpoints (metadata, token exchange, keys), URL
  parsing and the random strings are fields of the request's environment; \<open>order\<close> is the order in which the
  runtime happens to go through the user table.
\<close>

record sso_env =
  sx_env :: env
  sx_nanos :: rat
  sx_random :: "(string \<times> string \<times> string) option"
  sx_url :: "string \<Rightarrow> (string \<times> string) option"
  sx_metadata :: "string \<Rightarrow> metadata option"
  sx_exchange :: "string \<Rightarrow> string \<Rightarrow> string \<Rightarrow> string \<Rightarrow> (int \<times> string) option"
  sx_keys :: "string \<Rightarrow> jwk list option"
  sx_crypto :: crypto

definition ssoSessionTTL :: int where "ssoSessionTTL = 12 * 60 * 60"
definition ssoFlowTTL :: int where "ssoFlowTTL = 10 * 60"

definition GetUserByEmail :: "string list \<Rightarrow> string \<Rightarrow> store \<Rightarrow> user option" where
  "GetUserByEmail order email st =
     (let want = to_lower (trim_space email)
      in case find (\<lambda>i. case st_users st i of None \<Rightarrow> False | Some u \<Rightarrow> to_lower (us_email u) = want) order of
           None \<Rightarrow> None
         | Some i \<Rightarrow> st_users st i)"

datatype sso_answer =
    Sso_bad_request
  | Not_sso
  | Authorize string string string
  | Sso_expired
  | Not_configured
  | Sso_failed
  | Provider_unavailable
  | Exchange_refused
  | Invalid_token oidc_error
  | Email_unverified
  | No_seat
  | Account_disabled
  | Sso_required
  | Bad_credentials
  | Second_factor answer
  | Sso_session string

definition ssoFor :: "string list \<Rightarrow> string \<Rightarrow> store \<Rightarrow> (user \<times> tenant \<times> sso_config) option" where
  "ssoFor order email st =
     (case GetUserByEmail order email st of
        None \<Rightarrow> None
      | Some u \<Rightarrow>
          (case st_tenants st (us_tenant u) of
             None \<Rightarrow> None
           | Some t \<Rightarrow> (case tn_sso t of None \<Rightarrow> None | Some cfg \<Rightarrow> Some (u, t, cfg))))"

definition flow_session :: "env \<Rightarrow> tenant \<Rightarrow> string \<Rightarrow> string \<Rightarrow> string \<Rightarrow> string \<Rightarrow> session" where
  "flow_session e t state nonce verifier email = \<lparr>ss_token = state, ss_user = '''', ss_tenant = tn_id t,
     ss_expires = en_now e + ssoFlowTTL, ss_pending = False, ss_attempts = 0, ss_via = '''', ss_idpMFA = False,
     ss_ssoFlow = Some \<lparr>sf_verifier = verifier, sf_nonce = nonce, sf_email = email\<rparr>\<rparr>"

text \<open>The answer keeps what goes into the authorization URL: the client id, the state and the nonce.\<close>

definition handleSSOStart :: "sso_env \<Rightarrow> string list \<Rightarrow> string option \<Rightarrow> store \<Rightarrow> store \<times> sso_answer" where
  "handleSSOStart x order body st =
     (case body of
        None \<Rightarrow> (st, Sso_bad_request)
      | Some raw_email \<Rightarrow>
          (let email = to_lower (trim_space raw_email)
           in case ssoFor order email st of
                None \<Rightarrow> (st, Not_sso)
              | Some (u, t, cfg) \<Rightarrow>
                  (case Discover (sx_url x) (sx_metadata x) (sc_issuer cfg) of
                     None \<Rightarrow> (st, Provider_unavailable)
                   | Some p \<Rightarrow>
                       (case sx_random x of
                          None \<Rightarrow> (st, Sso_failed)
                        | Some (state, nonce, verifier) \<Rightarrow>
                            if en_fails (sx_env x) Session_write then (st, Sso_failed)
                            else (PutSession (flow_session (sx_env x) t state nonce verifier email) st,
                                  Authorize (sc_clientID cfg) state nonce)))))"

definition sso_session :: "env \<Rightarrow> user \<Rightarrow> claims \<Rightarrow> string \<Rightarrow> session" where
  "sso_session e u c tok = \<lparr>ss_token = tok, ss_user = us_id u, ss_tenant = us_tenant u, ss_expires = en_now e + ssoSessionTTL,
     ss_pending = False, ss_attempts = 0, ss_via = ''sso'', ss_idpMFA = MFA c, ss_ssoFlow = None\<rparr>"

text \<open>The end of the callback: the claims are verified, the seat is looked up and the session issued.\<close>

definition seat_for :: "sso_env \<Rightarrow> string list \<Rightarrow> tenant \<Rightarrow> claims \<Rightarrow> store \<Rightarrow> store \<times> sso_answer" where
  "seat_for x order t c st =
     (if \<not> cl_emailVerified c \<or> cl_email c = '''' then (st, Email_unverified)
      else case GetUserByEmail order (cl_email c) st of
             None \<Rightarrow> (st, No_seat)
           | Some u \<Rightarrow>
               if us_tenant u \<noteq> tn_id t then (st, No_seat)
               else if us_disabled u then (st, Account_disabled)
               else if us_twoFactor u \<and> \<not> MFA c then
                 (let (st', a) = startSecondFactor (sx_env x) u st in (st', Second_factor a))
               else (case en_token (sx_env x) of
                       None \<Rightarrow> (st, Sso_failed)
                     | Some tok \<Rightarrow>
                         if en_fails (sx_env x) Session_write then (st, Sso_failed)
                         else (PutSession (sso_session (sx_env x) u c tok) st, Sso_session tok)))"

definition handleSSOCallback ::
  "deps \<Rightarrow> sso_env \<Rightarrow> string list \<Rightarrow> (string \<times> string) option \<Rightarrow> store \<Rightarrow> store \<times> sso_answer" where
  "handleSSOCallback d x order body st =
     (case body of
        None \<Rightarrow> (st, Sso_bad_request)
      | Some (code, state) \<Rightarrow>
          (case st_sessions st (trim_space state) of
             None \<Rightarrow> (st, Sso_expired)
           | Some flow \<Rightarrow>
               (case ss_ssoFlow flow of
                  None \<Rightarrow> (st, Sso_expired)
                | Some sf \<Rightarrow>
                    if \<not> en_now (sx_env x) < ss_expires flow then (st, Sso_expired)
                    else
                      (let st1 = try_write (sx_env x) Session_delete (DeleteSession (ss_token flow)) st
                       in case (st_tenants st1 (ss_tenant flow), dp_vault d) of
                            (Some t, Some open_ref) \<Rightarrow>
                              (case tn_sso t of
                                 None \<Rightarrow> (st1, Not_configured)
                               | Some cfg \<Rightarrow>
                                   (case open_ref (sc_secretRef cfg) of
                                      None \<Rightarrow> (st1, Sso_failed)
                                    | Some secret \<Rightarrow>
                                        (case Discover (sx_url x) (sx_metadata x) (sc_issuer cfg) of
                                           None \<Rightarrow> (st1, Provider_unavailable)
                                         | Some p \<Rightarrow>
                                             (case Exchange (sx_exchange x (sc_clientID cfg) secret code (sf_verifier sf)) of
                                                None \<Rightarrow> (st1, Exchange_refused)
                                              | Some raw \<Rightarrow>
                                                  (case snd (VerifyToken (sx_crypto x) p (sx_keys x (pv_jwksURI p)) raw
                                                               (sc_clientID cfg) (sf_nonce sf) (sx_nanos x)) of
                                                     Inl err \<Rightarrow> (st1, Invalid_token err)
                                                   | Inr c \<Rightarrow> seat_for x order t c st1)))))
                          | _ \<Rightarrow> (st1, Not_configured)))))"

definition ssoEnforcedFor :: "user \<Rightarrow> store \<Rightarrow> bool" where
  "ssoEnforcedFor u st \<longleftrightarrow>
     (if us_role u = ''owner'' then False
      else case st_tenants st (us_tenant u) of
             None \<Rightarrow> False
           | Some t \<Rightarrow> (case tn_sso t of None \<Rightarrow> False | Some cfg \<Rightarrow> sc_enforced cfg))"

definition handleLogin :: "deps \<Rightarrow> env \<Rightarrow> string list \<Rightarrow> (string \<times> string) option \<Rightarrow> store \<Rightarrow> store \<times> sso_answer" where
  "handleLogin d e order body st =
     (case body of
        None \<Rightarrow> (st, Sso_bad_request)
      | Some (raw_email, password) \<Rightarrow>
          (case GetUserByEmail order (to_lower (trim_space raw_email)) st of
             None \<Rightarrow> (st, Bad_credentials)
           | Some u \<Rightarrow>
               if \<not> dp_password d password (us_passwordHash u) then (st, Bad_credentials)
               else if us_disabled u then (st, Account_disabled)
               else if ssoEnforcedFor u st then (st, Sso_required)
               else (let (st', a) = finish_login e (us_id u) st in (st', Second_factor a))))"

section \<open>What the doors let through\<close>

lemma GetUserByEmail_Some:
  assumes "GetUserByEmail order email st = Some u"
  shows "(\<exists>i. st_users st i = Some u) \<and> to_lower (us_email u) = to_lower (trim_space email)"
  using assms unfolding GetUserByEmail_def Let_def by (auto simp: find_Some_iff split: option.splits)

definition flow_of :: "sso_env \<Rightarrow> string \<Rightarrow> store \<Rightarrow> session \<Rightarrow> sso_flow \<Rightarrow> bool" where
  "flow_of x state st flow sf \<longleftrightarrow>
     st_sessions st (trim_space state) = Some flow \<and> ss_ssoFlow flow = Some sf \<and> en_now (sx_env x) < ss_expires flow"

definition config_of :: "store \<Rightarrow> session \<Rightarrow> tenant \<Rightarrow> sso_config \<Rightarrow> bool" where
  "config_of st flow t cfg \<longleftrightarrow> st_tenants st (ss_tenant flow) = Some t \<and> tn_sso t = Some cfg"

text \<open>The seat a token is for: its verified address, in the workspace the sign-in started for, not deactivated.\<close>

definition seat_of :: "store \<Rightarrow> tenant \<Rightarrow> claims \<Rightarrow> user \<Rightarrow> bool" where
  "seat_of st t c u \<longleftrightarrow>
     (\<exists>i. st_users st i = Some u) \<and> cl_emailVerified c \<and> cl_email c \<noteq> '''' \<and>
     to_lower (us_email u) = to_lower (trim_space (cl_email c)) \<and> us_tenant u = tn_id t \<and> \<not> us_disabled u"

lemma seat_for_cases:
  assumes "seat_for x order t c st = (st', a)"
  shows "a = Sso_session tok \<Longrightarrow> \<exists>u. seat_of st t c u \<and> (us_twoFactor u \<longrightarrow> MFA c) \<and> st' = PutSession (sso_session (sx_env x) u c tok) st"
    and "a \<noteq> Sso_expired \<and> a \<noteq> Not_configured"
    and "(\<exists>tok. a = Sso_session tok) \<or> (\<exists>u tok. seat_of st t c u \<and> us_twoFactor u \<and> st' = PutSession (half_session (sx_env x) u tok) st) \<or> st' = st"
proof -
  show "a = Sso_session tok \<Longrightarrow> \<exists>u. seat_of st t c u \<and> (us_twoFactor u \<longrightarrow> MFA c) \<and> st' = PutSession (sso_session (sx_env x) u c tok) st"
    using assms GetUserByEmail_Some [of order "cl_email c" st] unfolding seat_for_def seat_of_def
    by (auto split: option.splits if_splits prod.splits)
  show "a \<noteq> Sso_expired \<and> a \<noteq> Not_configured"
    using assms unfolding seat_for_def by (auto split: option.splits if_splits prod.splits)
  show "(\<exists>tok. a = Sso_session tok) \<or> (\<exists>u tok. seat_of st t c u \<and> us_twoFactor u \<and> st' = PutSession (half_session (sx_env x) u tok) st) \<or> st' = st"
    using assms GetUserByEmail_Some [of order "cl_email c" st] unfolding seat_for_def seat_of_def startSecondFactor_def
    by (auto split: option.splits if_splits prod.splits)
qed

lemma del_tenants: "st_tenants (try_write e oper (DeleteSession tok) st) = st_tenants st"
  and del_users: "st_users (try_write e oper (DeleteSession tok) st) = st_users st"
  by (simp_all add: try_write_def DeleteSession_def)

lemma callback_verified:
  assumes "handleSSOCallback d x order (Some (code, state)) st = (st', Sso_session tok)"
  obtains flow sf t cfg secret p raw c where
    "flow_of x state st flow sf" "config_of st flow t cfg"
    "Discover (sx_url x) (sx_metadata x) (sc_issuer cfg) = Some p"
    "Exchange (sx_exchange x (sc_clientID cfg) secret code (sf_verifier sf)) = Some raw"
    "snd (VerifyToken (sx_crypto x) p (sx_keys x (pv_jwksURI p)) raw (sc_clientID cfg) (sf_nonce sf) (sx_nanos x)) = Inr c"
    "seat_for x order t c (try_write (sx_env x) Session_delete (DeleteSession (ss_token flow)) st) = (st', Sso_session tok)"
proof -
  obtain flow where f: "st_sessions st (trim_space state) = Some flow"
    using assms by (cases "st_sessions st (trim_space state)") (simp_all add: handleSSOCallback_def)
  obtain sf where sf: "ss_ssoFlow flow = Some sf" using assms f by (cases "ss_ssoFlow flow") (simp_all add: handleSSOCallback_def)
  have now: "en_now (sx_env x) < ss_expires flow"
    using assms f sf by (cases "en_now (sx_env x) < ss_expires flow") (simp_all add: handleSSOCallback_def)
  note base = handleSSOCallback_def f sf now del_tenants Let_def
  obtain t where t: "st_tenants st (ss_tenant flow) = Some t"
    using assms by (cases "st_tenants st (ss_tenant flow)") (simp_all add: base)
  obtain open_ref where v: "dp_vault d = Some open_ref" using assms t by (cases "dp_vault d") (simp_all add: base)
  obtain cfg where cfg: "tn_sso t = Some cfg" using assms t v by (cases "tn_sso t") (simp_all add: base)
  obtain secret where s: "open_ref (sc_secretRef cfg) = Some secret"
    using assms t v cfg by (cases "open_ref (sc_secretRef cfg)") (simp_all add: base)
  obtain p where p: "Discover (sx_url x) (sx_metadata x) (sc_issuer cfg) = Some p"
    using assms t v cfg s by (cases "Discover (sx_url x) (sx_metadata x) (sc_issuer cfg)") (simp_all add: base)
  obtain raw where r: "Exchange (sx_exchange x (sc_clientID cfg) secret code (sf_verifier sf)) = Some raw"
    using assms t v cfg s p by (cases "Exchange (sx_exchange x (sc_clientID cfg) secret code (sf_verifier sf))") (simp_all add: base)
  obtain c where c: "snd (VerifyToken (sx_crypto x) p (sx_keys x (pv_jwksURI p)) raw (sc_clientID cfg) (sf_nonce sf) (sx_nanos x)) = Inr c"
    using assms t v cfg s p r
    by (cases "snd (VerifyToken (sx_crypto x) p (sx_keys x (pv_jwksURI p)) raw (sc_clientID cfg) (sf_nonce sf) (sx_nanos x))")
      (simp_all add: base)
  have "seat_for x order t c (try_write (sx_env x) Session_delete (DeleteSession (ss_token flow)) st) = (st', Sso_session tok)"
    using assms t v cfg s p r c by (simp add: base)
  then show ?thesis using that [of flow sf t cfg p secret raw c] f sf now t cfg p r c
    by (simp add: flow_of_def config_of_def)
qed

lemma earned:
  assumes "handleSSOCallback d x order (Some (code, state)) st = (st', Sso_session tok)" "store_ok st"
  shows "\<exists>flow sf t cfg raw c u. flow_of x state st flow sf \<and> config_of st flow t cfg \<and>
    genuine (sx_crypto x) (sc_issuer cfg) (\<lambda>k. \<exists>uri. published (sx_crypto x) (the_sets (sx_keys x uri)) k)
      raw (sc_clientID cfg) (sf_nonce sf) (sx_nanos x) c \<and>
    seat_of st t (trimmed_claims c) u \<and> (us_twoFactor u \<longrightarrow> MFA (trimmed_claims c)) \<and>
    st' = PutSession (sso_session (sx_env x) u (trimmed_claims c) tok)
      (try_write (sx_env x) Session_delete (DeleteSession (ss_token flow)) st)"
proof -
  obtain flow sf t cfg secret p raw cl where f: "flow_of x state st flow sf" "config_of st flow t cfg"
    and p: "Discover (sx_url x) (sx_metadata x) (sc_issuer cfg) = Some p"
    and v: "snd (VerifyToken (sx_crypto x) p (sx_keys x (pv_jwksURI p)) raw (sc_clientID cfg) (sf_nonce sf) (sx_nanos x)) = Inr cl"
    and s: "seat_for x order t cl (try_write (sx_env x) Session_delete (DeleteSession (ss_token flow)) st) = (st', Sso_session tok)"
    using callback_verified [OF assms(1)] .
  have d: "normIssuer (pv_issuer p) = normIssuer (sc_issuer cfg)" "keys_ok (sx_crypto x) [] p"
    using Discover_Some [OF p] by (simp_all add: keys_ok_def)
  obtain p' where v': "VerifyToken (sx_crypto x) p (sx_keys x (pv_jwksURI p)) raw (sc_clientID cfg) (sf_nonce sf) (sx_nanos x) = (p', Inr cl)"
    using v by (metis prod.collapse)
  obtain c where c: "genuine (sx_crypto x) (pv_issuer p) (published (sx_crypto x) (the_sets (sx_keys x (pv_jwksURI p)) @ [])) raw
      (sc_clientID cfg) (sf_nonce sf) (sx_nanos x) c" "cl = trimmed_claims c"
    using genuine_by_keys [OF v' d(2)] by blast
  have g: "genuine (sx_crypto x) (sc_issuer cfg) (\<lambda>k. \<exists>uri. published (sx_crypto x) (the_sets (sx_keys x uri)) k) raw
      (sc_clientID cfg) (sf_nonce sf) (sx_nanos x) c"
    using c(1) d(1) unfolding genuine_def issued_for_def append_Nil2 by metis
  obtain u where u: "seat_of (try_write (sx_env x) Session_delete (DeleteSession (ss_token flow)) st) t cl u" "us_twoFactor u \<longrightarrow> MFA cl"
      "st' = PutSession (sso_session (sx_env x) u cl tok) (try_write (sx_env x) Session_delete (DeleteSession (ss_token flow)) st)"
    using seat_for_cases(1) [OF s] by blast
  have "seat_of st t cl u" using u(1) by (simp add: seat_of_def del_users)
  then show ?thesis using f g u(2,3) c(2) by blast
qed

text \<open>C24: a single-sign-on session is earned. The callback answers with a session only if the state names a sign-in
  that was started, has not expired and, when the delete lands, is gone afterwards; its workspace has a provider
  configured; the exchanged token is genuine for that provider, this client and that sign-in's nonce, signed by a
  key the provider published; its address is verified and is that of a seat of this workspace that is not
  deactivated; and a seat with its own second factor gets a session only when the provider asserted one. The
  session is this seat's and lasts twelve hours.
\<close>

theorem sso_session_is_earned:
  assumes "handleSSOCallback d x order (Some (code, state)) st = (st', Sso_session tok)" "store_ok st"
  shows "\<exists>flow sf t cfg raw c u. flow_of x state st flow sf \<and> config_of st flow t cfg \<and>
    genuine (sx_crypto x) (sc_issuer cfg) (\<lambda>k. \<exists>uri. published (sx_crypto x) (the_sets (sx_keys x uri)) k)
      raw (sc_clientID cfg) (sf_nonce sf) (sx_nanos x) c \<and>
    seat_of st t (trimmed_claims c) u \<and> (us_twoFactor u \<longrightarrow> MFA (trimmed_claims c)) \<and>
    st_sessions st' tok = Some (sso_session (sx_env x) u (trimmed_claims c) tok) \<and>
    (en_fails (sx_env x) Session_delete \<or> tok = trim_space state \<or> st_sessions st' (trim_space state) = None)"
proof -
  obtain flow sf t cfg raw c u where e:
    "flow_of x state st flow sf" "config_of st flow t cfg"
    "genuine (sx_crypto x) (sc_issuer cfg) (\<lambda>k. \<exists>uri. published (sx_crypto x) (the_sets (sx_keys x uri)) k)
      raw (sc_clientID cfg) (sf_nonce sf) (sx_nanos x) c"
    "seat_of st t (trimmed_claims c) u" "us_twoFactor u \<longrightarrow> MFA (trimmed_claims c)"
    "st' = PutSession (sso_session (sx_env x) u (trimmed_claims c) tok) (try_write (sx_env x) Session_delete (DeleteSession (ss_token flow)) st)"
    using earned [OF assms] by (elim exE conjE) (rule that, assumption+)
  have "ss_token flow = trim_space state" using e(1) store_okD(1) [OF assms(2)] by (simp add: flow_of_def)
  then have "st_sessions st' tok = Some (sso_session (sx_env x) u (trimmed_claims c) tok)"
    "en_fails (sx_env x) Session_delete \<or> tok = trim_space state \<or> st_sessions st' (trim_space state) = None"
    using e(6) by (auto simp: sso_session_def try_write_def)
  then show ?thesis using e(1-5) by blast
qed

lemma callback_other:
  assumes "handleSSOCallback d x order body st = (st', a)" "\<And>tok. a \<noteq> Sso_session tok"
  shows "st' = st \<or> (\<exists>tk. st' = try_write (sx_env x) Session_delete (DeleteSession tk) st) \<or>
    (\<exists>tk u tok. st' = PutSession (half_session (sx_env x) u tok) (try_write (sx_env x) Session_delete (DeleteSession tk) st))"
proof -
  have seat: "seat_for x order t c st1 = (st', a) \<Longrightarrow> st' = st1 \<or> (\<exists>u tok. st' = PutSession (half_session (sx_env x) u tok) st1)" for t c st1
    using seat_for_cases(3) assms(2) by blast
  show ?thesis using assms(1) unfolding handleSSOCallback_def Let_def
    by (auto split: option.splits if_splits prod.splits sum.splits dest!: seat)
qed

lemma start_effect:
  assumes "handleSSOStart x order body st = (st', a)"
  shows "st' = st \<or> (\<exists>s. st' = PutSession s st \<and> ss_ssoFlow s \<noteq> None)"
  using assms unfolding handleSSOStart_def Let_def flow_session_def
  by (auto split: option.splits if_splits prod.splits)

section \<open>All the doors\<close>

datatype door =
    Api request
  | Start_sso sso_env "string list" "string option"
  | Callback sso_env "string list" "(string \<times> string) option"
  | Password env "string list" "(string \<times> string) option"

fun enter :: "deps \<Rightarrow> door \<Rightarrow> store \<Rightarrow> store" where
  "enter d (Api rq) st = fst (serve d rq st)"
| "enter d (Start_sso x order body) st = fst (handleSSOStart x order body st)"
| "enter d (Callback x order body) st = fst (handleSSOCallback d x order body st)"
| "enter d (Password e order body) st = fst (handleLogin d e order body st)"

definition walk :: "deps \<Rightarrow> door list \<Rightarrow> store \<Rightarrow> store" where
  "walk d doors st = foldl (\<lambda>st w. enter d w st) st doors"

text \<open>The provider vouched for a second factor of the account, in a genuine token for this sign-in.\<close>

definition vouched :: "deps \<Rightarrow> door \<Rightarrow> store \<Rightarrow> string \<Rightarrow> string \<Rightarrow> bool" where
  "vouched d w st i tok \<longleftrightarrow>
     (\<exists>x order code state flow sf t cfg raw c u. w = Callback x order (Some (code, state)) \<and>
        snd (handleSSOCallback d x order (Some (code, state)) st) = Sso_session tok \<and>
        flow_of x state st flow sf \<and> config_of st flow t cfg \<and>
        genuine (sx_crypto x) (sc_issuer cfg) (\<lambda>k. \<exists>uri. published (sx_crypto x) (the_sets (sx_keys x uri)) k)
          raw (sc_clientID cfg) (sf_nonce sf) (sx_nanos x) c \<and>
        seat_of st t (trimmed_claims c) u \<and> us_id u = i \<and> MFA (trimmed_claims c))"

fun turns_off :: "door \<Rightarrow> bool" where
  "turns_off (Api rq) = disables rq"
| "turns_off _ = False"

lemma login_as_request:
  "fst (handleLogin d e order body st) = st \<or> (\<exists>uid. fst (handleLogin d e order body st) = fst (serve d (Login e uid) st))"
proof -
  have "fst (case finish_login e uid st of (st', a) \<Rightarrow> (st', Second_factor a)) = fst (serve d (Login e uid) st)" for uid
    by (cases "finish_login e uid st") simp
  then show ?thesis unfolding handleLogin_def Let_def by (auto split: option.split)
qed

lemma callback_session:
  assumes "handleSSOCallback d x order body st = (st', Sso_session tok)"
  shows "\<exists>tk u c. st' = PutSession (sso_session (sx_env x) u c tok) (try_write (sx_env x) Session_delete (DeleteSession tk) st)"
proof (cases body)
  case None
  then show ?thesis using assms by (simp add: handleSSOCallback_def)
next
  case (Some cs)
  obtain code state where cs: "cs = (code, state)" by (cases cs)
  show ?thesis
  proof (rule callback_verified [OF assms [unfolded Some cs]])
    fix flow t c
    assume "seat_for x order t c (try_write (sx_env x) Session_delete (DeleteSession (ss_token flow)) st) = (st', Sso_session tok)"
    from seat_for_cases(1) [OF this refl] show ?thesis by blast
  qed
qed

lemma callback_users:
  "st_users (fst (handleSSOCallback d x order body st)) = st_users st"
proof -
  obtain st' a where r: "handleSSOCallback d x order body st = (st', a)" by (cases "handleSSOCallback d x order body st")
  show ?thesis
  proof (cases "\<exists>tok. a = Sso_session tok")
    case True
    then obtain tok where a: "a = Sso_session tok" by blast
    from callback_session [OF r [unfolded a]] show ?thesis using r by (auto simp: del_users)
  next
    case False
    then show ?thesis using callback_other [OF r] r by (auto simp: del_users)
  qed
qed

lemma start_users: "st_users (fst (handleSSOStart x order body st)) = st_users st"
  using start_effect [of x order body st] by (cases "handleSSOStart x order body st") auto

lemma callback_ok:
  assumes "store_ok st"
  shows "store_ok (fst (handleSSOCallback d x order body st))"
proof -
  obtain st' a where r: "handleSSOCallback d x order body st = (st', a)" by (cases "handleSSOCallback d x order body st")
  have del: "store_ok (try_write (sx_env x) Session_delete (DeleteSession tk) st)" for tk
    by (intro store_ok_try store_ok_writes assms)
  show ?thesis
  proof (cases "\<exists>tok. a = Sso_session tok")
    case True
    then obtain tok where a: "a = Sso_session tok" by blast
    from callback_session [OF r [unfolded a]] show ?thesis using r store_ok_writes(2) [OF del] by auto
  next
    case False
    then show ?thesis using callback_other [OF r] r assms del store_ok_writes(2) [OF del] by auto
  qed
qed

lemma enter_ok:
  assumes "store_ok st"
  shows "store_ok (enter d w st)"
proof (cases w)
  case (Api rq)
  then show ?thesis using serve_ok [OF assms] by simp
next
  case (Start_sso x order body)
  then show ?thesis using start_effect [of x order body st] assms store_ok_writes(2) [OF assms]
    by (cases "handleSSOStart x order body st") auto
next
  case (Callback x order body)
  then show ?thesis using callback_ok [OF assms] by simp
next
  case (Password e order body)
  then show ?thesis using login_as_request [of d e order body st] serve_ok [OF assms, of d] assms
    by (auto simp del: serve.simps)
qed

interpretation doors: machine "\<lambda>st w. enter d w st" store_ok for d
  by unfold_locales (rule enter_ok)

lemma enter_account:
  assumes "store_ok st" "st_users st i = Some u" "us_twoFactor u" "\<not> turns_off w"
  shows "\<exists>u'. st_users (enter d w st) i = Some u' \<and> us_twoFactor u'"
proof (cases w)
  case (Api rq)
  then show ?thesis using serve_account [OF assms(1-3), of rq d] assms(4) by (auto simp: carried_def)
next
  case (Start_sso x order body)
  then show ?thesis using assms by (simp add: start_users)
next
  case (Callback x order body)
  then show ?thesis using assms by (simp add: callback_users)
next
  case (Password e order body)
  have "\<exists>u'. st_users (fst (serve d (Login e uid) st)) i = Some u' \<and> us_twoFactor u'" for uid
    using serve_account [OF assms(1-3), of "Login e uid" d] by (auto simp: carried_def)
  then show ?thesis using login_as_request [of d e order body st] assms Password by (auto simp del: serve.simps)
qed

lemma enter_sessions:
  assumes ok: "store_ok st" and u: "st_users st i = Some u" "us_twoFactor u"
    and new: "st_sessions (enter d w st) tok = Some s" "\<not> ss_pending s" "ss_ssoFlow s = None" "ss_user s = i"
  shows "st_sessions st tok = Some s \<or> (\<exists>rq. w = Api rq \<and> redeemed d rq st i tok) \<or> vouched d w st i tok"
proof (cases w)
  case (Api rq)
  then show ?thesis using serve_sessions [OF ok u] new by auto
next
  case (Start_sso x order body)
  have "fst (handleSSOStart x order body st) = st \<or> (\<exists>s. fst (handleSSOStart x order body st) = PutSession s st \<and> ss_ssoFlow s \<noteq> None)"
    using start_effect [of x order body st] by (cases "handleSSOStart x order body st") auto
  then show ?thesis using new Start_sso by (auto split: if_splits)
next
  case (Password e order body)
  have "st_sessions st tok = Some s" if "st_sessions (fst (serve d (Login e uid) st)) tok = Some s" for uid
    using serve_sessions [OF ok u that new(2,4)] by (auto simp: redeemed_def)
  then show ?thesis using login_as_request [of d e order body st] new(1) Password by (auto simp del: serve.simps)
next
  case (Callback x order body)
  obtain st' a where r: "handleSSOCallback d x order body st = (st', a)" by (cases "handleSSOCallback d x order body st")
  have del: "st_sessions (try_write (sx_env x) Session_delete (DeleteSession tk) st) tok = Some s \<Longrightarrow> st_sessions st tok = Some s" for tk
    by (auto simp: try_write_def split: if_splits)
  have n: "st_sessions st' tok = Some s" using new(1) Callback r by simp
  show ?thesis
  proof (cases "\<exists>tok. a = Sso_session tok")
    case False
    then have "\<And>tok. a \<noteq> Sso_session tok" by blast
    from callback_other [OF r this] have "st_sessions st tok = Some s"
    proof (elim disjE exE)
      assume "st' = st"
      then show ?thesis using n by simp
    next
      fix tk
      assume "st' = try_write (sx_env x) Session_delete (DeleteSession tk) st"
      then show ?thesis using n del by blast
    next
      fix tk v t
      assume w: "st' = PutSession (half_session (sx_env x) v t) (try_write (sx_env x) Session_delete (DeleteSession tk) st)"
      show ?thesis
      proof (cases "tok = t")
        case True
        then show ?thesis using n w new(2) by (auto simp: half_session_def)
      next
        case False
        then show ?thesis using n w del by (simp add: half_session_def)
      qed
    qed
    then show ?thesis by blast
  next
    case True
    then obtain tk where a: "a = Sso_session tk" by blast
    then obtain code state where b: "body = Some (code, state)" using r by (cases body) (auto simp: handleSSOCallback_def)
    note e = earned [OF r [unfolded a b] ok]
    then obtain flow sf t cfg raw c v where e:
      "flow_of x state st flow sf" "config_of st flow t cfg"
      "genuine (sx_crypto x) (sc_issuer cfg) (\<lambda>k. \<exists>uri. published (sx_crypto x) (the_sets (sx_keys x uri)) k)
        raw (sc_clientID cfg) (sf_nonce sf) (sx_nanos x) c"
      "seat_of st t (trimmed_claims c) v" "us_twoFactor v \<longrightarrow> MFA (trimmed_claims c)"
      "st' = PutSession (sso_session (sx_env x) v (trimmed_claims c) tk) (try_write (sx_env x) Session_delete (DeleteSession (ss_token flow)) st)"
      by (elim exE conjE) (rule that, assumption+)
    show ?thesis
    proof (cases "tok = tk")
      case False
      then show ?thesis using n del e(6) by (auto simp: sso_session_def)
    next
      case True
      then have "us_id v = i" using n e(6) new(4) by (auto simp: sso_session_def)
      moreover obtain j where "st_users st j = Some v" using e(4) unfolding seat_of_def by blast
      ultimately have "v = u" using u(1) store_okD(2) [OF ok] by (metis option.inject)
      then have "MFA (trimmed_claims c)" using e(5) u(2) by simp
      moreover have "w = Callback x order (Some (code, state))" "snd (handleSSOCallback d x order (Some (code, state)) st) = Sso_session tok"
        using Callback b r a True by simp_all
      ultimately have "vouched d w st i tok" unfolding vouched_def using e(1-4) \<open>us_id v = i\<close> by blast
      then show ?thesis by blast
    qed
  qed
qed

text \<open>C23: no door opens an account without its second factor. Over any sequence of requests through every door, the
  password login, single sign-on and the two-factor sign-in, with enrolments and code changes in between and any
  write failing, as long as the factor is not turned off, a token that resolves to a session of the account
  either did so before, or was given to a sign-in with a valid factor of the account, or to a single sign-on for
  which the workspace's provider vouched, in a genuine token for that sign-in, that a second factor was used.
\<close>

theorem no_door_without_factor:
  assumes "store_ok st" "st_users st i = Some u" "us_twoFactor u" "list_all (\<lambda>w. \<not> turns_off w) doors"
    and "resolveSession e tok (walk d doors st) = Some s" "ss_user s = i"
  shows "st_sessions st tok = Some s \<or>
    (\<exists>pre w post. doors = pre @ w # post \<and>
       ((\<exists>rq. w = Api rq \<and> redeemed d rq (walk d pre st) i tok) \<or> vouched d w (walk d pre st) i tok))"
proof -
  have inv: "store_ok (walk d ws st) \<and> (\<exists>v. st_users (walk d ws st) i = Some v \<and> us_twoFactor v)"
    if "list_all (\<lambda>w. \<not> turns_off w) ws" for ws
    using that
  proof (induction ws rule: rev_induct)
    case Nil
    then show ?case using assms(1-3) by (simp add: walk_def)
  next
    case (snoc w ws)
    then obtain v where "store_ok (walk d ws st)" "st_users (walk d ws st) i = Some v" "us_twoFactor v" by auto
    then show ?case using enter_ok enter_account snoc.prems by (simp add: walk_def)
  qed
  have "st_sessions (walk d doors st) tok = Some s" "\<not> ss_pending s" "ss_ssoFlow s = None"
    using resolveSession_Some [OF assms(5)] by auto
  then show ?thesis using assms(4)
  proof (induction doors rule: rev_induct)
    case Nil
    then show ?case by (simp add: walk_def)
  next
    case (snoc w ws)
    have l: "list_all (\<lambda>w. \<not> turns_off w) ws" using snoc.prems(4) by simp
    obtain v where v: "store_ok (walk d ws st)" "st_users (walk d ws st) i = Some v" "us_twoFactor v" using inv [OF l] by blast
    have "st_sessions (enter d w (walk d ws st)) tok = Some s" using snoc.prems(1) by (simp add: walk_def)
    from enter_sessions [OF v this snoc.prems(2,3) assms(6)] show ?case
    proof (elim disjE)
      assume "st_sessions (walk d ws st) tok = Some s"
      then have "st_sessions st tok = Some s \<or> (\<exists>pre w post. ws = pre @ w # post \<and>
          ((\<exists>rq. w = Api rq \<and> redeemed d rq (walk d pre st) i tok) \<or> vouched d w (walk d pre st) i tok))"
        using snoc.IH snoc.prems(2,3) l by blast
      then show ?thesis by (metis append.assoc append_Cons)
    qed blast+
  qed
qed

section \<open>Samples\<close>

definition sample_flow :: session where
  "sample_flow = \<lparr>ss_token = ''f'', ss_user = '''', ss_tenant = ''t'', ss_expires = 1000, ss_pending = False, ss_attempts = 0,
     ss_via = '''', ss_idpMFA = False, ss_ssoFlow = Some \<lparr>sf_verifier = ''v'', sf_nonce = ''nonce'', sf_email = ''u@t''\<rparr>\<rparr>"

definition sample_tenant :: tenant where
  "sample_tenant = \<lparr>tn_id = ''t'', tn_requires2fa = False,
     tn_sso = Some \<lparr>sc_issuer = ''https://idp'', sc_clientID = ''app'', sc_secretRef = ''ref'', sc_enforced = True,
     sc_configuredBy = ''owner'', sc_configuredAt = 0\<rparr>\<rparr>"

definition sso_store :: store where
  "sso_store = \<lparr>st_users = [''u'' \<mapsto> sample_user], st_sessions = [''f'' \<mapsto> sample_flow], st_tenants = [''t'' \<mapsto> sample_tenant]\<rparr>"

definition sample_sso_env :: sso_env where
  "sample_sso_env = \<lparr>sx_env = (sample_env ''s'')\<lparr>en_now := 500\<rparr>, sx_nanos = 500, sx_random = None, sx_url = sample_url, sx_metadata = sample_metadata,
     sx_exchange = (\<lambda>_ _ _ _. Some (200, ''h.b.s'')), sx_keys = (\<lambda>_. Some [sample_jwk]), sx_crypto = sample_crypto\<rparr>"

lemma sso_trims: "trim_space ''f'' = ''f''" "to_lower (trim_space ''u@t'') = ''u@t''" "to_lower (trim_space ''U@T'') = ''u@t''"
  "to_lower ''u@t'' = ''u@t''" "trim_set {CHR 0x22, CHR '' ''} ''true'' = ''true''" "to_lower ''otp'' = ''otp''"
  by code_simp+

lemma sso_ok: "store_ok sso_store"
  by (simp add: store_ok_def sso_store_def sample_flow_def sample_user_def)

lemma sample_mfa:
  "cl_emailVerified (trimmed_claims sample_claims)" "cl_email (trimmed_claims sample_claims) = ''u@t''" "MFA (trimmed_claims sample_claims)"
  by (simp_all add: trimmed_claims_def sample_claims_def sso_trims MFA_def del: to_lower_simps)

lemma sample_seat:
  "GetUserByEmail [''u''] ''u@t'' (try_write e oper (DeleteSession tk) sso_store) = Some sample_user"
proof -
  have "st_users sso_store ''u'' = Some sample_user" "us_email sample_user = ''u@t''" by (simp_all add: sso_store_def sample_user_def)
  then show ?thesis by (simp add: GetUserByEmail_def sso_trims del_users del: to_lower_simps)
qed

lemma sample_callback:
  "\<exists>st'. handleSSOCallback sample_deps sample_sso_env [''u''] (Some (''code'', ''f'')) sso_store = (st', Sso_session ''s'') \<and>
     st_sessions st' ''s'' = Some (sso_session ((sample_env ''s'')\<lparr>en_now := 500\<rparr>) sample_user (trimmed_claims sample_claims) ''s'')"
proof -
  obtain p' where v: "VerifyToken sample_crypto sample_provider (Some [sample_jwk]) ''h.b.s'' ''app'' ''nonce'' 500 =
      (p', Inr (trimmed_claims sample_claims))" using sample_token by blast
  let ?st1 = "try_write (sx_env sample_sso_env) Session_delete (DeleteSession ''f'') sso_store"
  have f: "st_sessions sso_store ''f'' = Some sample_flow" "st_tenants ?st1 ''t'' = Some sample_tenant"
    by (simp_all add: sso_store_def del_tenants)
  have s: "seat_for sample_sso_env [''u''] sample_tenant (trimmed_claims sample_claims) ?st1 =
      (PutSession (sso_session ((sample_env ''s'')\<lparr>en_now := 500\<rparr>) sample_user (trimmed_claims sample_claims) ''s'') ?st1, Sso_session ''s'')"
    using sample_seat sample_mfa
    by (simp add: seat_for_def sample_user_def sample_tenant_def sample_sso_env_def sample_env_def)
  have d: "Discover (sx_url sample_sso_env) (sx_metadata sample_sso_env) ''https://idp'' = Some sample_provider"
    using sample_discover by (simp add: sample_sso_env_def)
  have "handleSSOCallback sample_deps sample_sso_env [''u''] (Some (''code'', ''f'')) sso_store =
      seat_for sample_sso_env [''u''] sample_tenant (trimmed_claims sample_claims) ?st1"
  proof -
    have c: "ss_ssoFlow sample_flow = Some \<lparr>sf_verifier = ''v'', sf_nonce = ''nonce'', sf_email = ''u@t''\<rparr>"
      "ss_token sample_flow = ''f''" "ss_tenant sample_flow = ''t''" "en_now (sx_env sample_sso_env) < ss_expires sample_flow"
      "tn_sso sample_tenant = Some \<lparr>sc_issuer = ''https://idp'', sc_clientID = ''app'', sc_secretRef = ''ref'', sc_enforced = True,
     sc_configuredBy = ''owner'', sc_configuredAt = 0\<rparr>"
      "dp_vault sample_deps = Some Some" by (simp_all add: sample_flow_def sample_tenant_def sample_sso_env_def sample_deps_def sample_env_def)
    have x: "Exchange (sx_exchange sample_sso_env a b c e) = Some ''h.b.s''" for a b c e
      by (simp add: sample_sso_env_def Exchange_def)
    have y: "VerifyToken (sx_crypto sample_sso_env) sample_provider (sx_keys sample_sso_env u) ''h.b.s'' ''app'' ''nonce''
        (sx_nanos sample_sso_env) = (p', Inr (trimmed_claims sample_claims))" for u
      using v by (simp add: sample_sso_env_def)
    show ?thesis unfolding handleSSOCallback_def by (simp add: sso_trims f c d x y Let_def)
  qed
  then show ?thesis using s by (simp add: sso_session_def)
qed

theorem sso_session_is_earned_witness:
  "\<exists>flow sf t cfg raw c u. flow_of sample_sso_env ''f'' sso_store flow sf \<and> config_of sso_store flow t cfg \<and>
     genuine sample_crypto (sc_issuer cfg) (\<lambda>k. \<exists>uri. published (sx_crypto sample_sso_env) (the_sets (sx_keys sample_sso_env uri)) k)
       raw (sc_clientID cfg) (sf_nonce sf) 500 c \<and> seat_of sso_store t (trimmed_claims c) u"
proof -
  obtain st' where "handleSSOCallback sample_deps sample_sso_env [''u''] (Some (''code'', ''f'')) sso_store = (st', Sso_session ''s'')"
    using sample_callback by blast
  from sso_session_is_earned [OF this sso_ok] obtain flow sf t cfg raw c u where
    "flow_of sample_sso_env ''f'' sso_store flow sf" "config_of sso_store flow t cfg"
    "genuine (sx_crypto sample_sso_env) (sc_issuer cfg) (\<lambda>k. \<exists>uri. published (sx_crypto sample_sso_env) (the_sets (sx_keys sample_sso_env uri)) k)
       raw (sc_clientID cfg) (sf_nonce sf) (sx_nanos sample_sso_env) c" "seat_of sso_store t (trimmed_claims c) u"
    by (elim exE conjE) (rule that, assumption+)
  moreover have "sx_crypto sample_sso_env = sample_crypto" "sx_nanos sample_sso_env = 500" by (simp_all add: sample_sso_env_def)
  ultimately show ?thesis by metis
qed

theorem no_door_without_factor_witness:
  "\<exists>pre w post. [Callback sample_sso_env [''u''] (Some (''code'', ''f''))] = pre @ w # post \<and>
     ((\<exists>rq. w = Api rq \<and> redeemed sample_deps rq (walk sample_deps pre sso_store) ''u'' ''s'') \<or>
      vouched sample_deps w (walk sample_deps pre sso_store) ''u'' ''s'')"
proof -
  let ?w = "[Callback sample_sso_env [''u''] (Some (''code'', ''f''))]"
  obtain st' where c: "handleSSOCallback sample_deps sample_sso_env [''u''] (Some (''code'', ''f'')) sso_store = (st', Sso_session ''s'')"
    "st_sessions st' ''s'' = Some (sso_session ((sample_env ''s'')\<lparr>en_now := 500\<rparr>) sample_user (trimmed_claims sample_claims) ''s'')"
    using sample_callback by blast
  have u: "st_users st' ''u'' = Some sample_user" "st_users sso_store ''u'' = Some sample_user" "us_twoFactor sample_user"
    using callback_users [of sample_deps sample_sso_env "[''u'']" "Some (''code'', ''f'')" sso_store] c(1)
    by (simp_all add: sso_store_def sample_user_def)
  let ?s = "sso_session ((sample_env ''s'')\<lparr>en_now := 500\<rparr>) sample_user (trimmed_claims sample_claims) ''s''"
  have i: "ss_user ?s = ''u''" by (simp add: sso_session_def sample_user_def)
  have "resolveSession (sample_env ''s'') ''s'' st' = Some ?s"
    unfolding resolveSession_def using c(2) u(1) i
    by (simp add: sso_session_def ssoSessionTTL_def sample_env_def sample_user_def)
  then have r: "resolveSession (sample_env ''s'') ''s'' (walk sample_deps ?w sso_store) = Some ?s"
    using c(1) by (simp add: walk_def)
  have l: "list_all (\<lambda>w. \<not> turns_off w) ?w" by simp
  have "st_sessions sso_store ''s'' = None" by (simp add: sso_store_def)
  then show ?thesis using no_door_without_factor [OF sso_ok u(2,3) l r i] by simp
qed

end
