(* ===== verification/SsoSettings.thy ===== *)
theory SsoSettings
  imports Sso
begin

text \<open>
  The settings half of internal/platformapi/sso.go: the owner's view of the workspace's provider
  (\<open>handleGetSSO\<close>, \<open>ssoViewFor\<close>) and \<open>handlePutSSO\<close>, which saves or removes it. Whether the tenant write lands
  is an argument of the request; the vault's two directions are \<open>dp_vault\<close> and \<open>dp_seal\<close>, there together.
\<close>

record sso_view =
  sv_configured :: bool
  sv_issuer :: string
  sv_clientID :: string
  sv_hasSecret :: bool
  sv_enforced :: bool
  sv_configuredBy :: string
  sv_redirectURI :: string

record settings =
  se_issuer :: string
  se_clientID :: string
  se_clientSecret :: string
  se_enforced :: bool

datatype settings_answer =
    Settings_bad_request
  | Tenant_not_found
  | Tenant_write_failed
  | Vault_missing
  | Client_id_required
  | Seal_failed
  | Secret_required
  | Discovery_failed
  | Settings sso_view

definition ssoRedirectURI :: "string \<Rightarrow> string" where
  "ssoRedirectURI appURL = rev (dropWhile (\<lambda>c. c = CHR ''/'') (rev appURL)) @ ''/api/sso/callback''"

definition ssoViewFor :: "string \<Rightarrow> tenant \<Rightarrow> sso_view" where
  "ssoViewFor appURL t =
     (case tn_sso t of
        None \<Rightarrow> \<lparr>sv_configured = False, sv_issuer = '''', sv_clientID = '''', sv_hasSecret = False, sv_enforced = False,
                 sv_configuredBy = '''', sv_redirectURI = ssoRedirectURI appURL\<rparr>
      | Some cfg \<Rightarrow> \<lparr>sv_configured = True, sv_issuer = sc_issuer cfg, sv_clientID = sc_clientID cfg,
                     sv_hasSecret = (sc_secretRef cfg \<noteq> ''''), sv_enforced = sc_enforced cfg,
                     sv_configuredBy = sc_configuredBy cfg, sv_redirectURI = ssoRedirectURI appURL\<rparr>)"

definition handleGetSSO :: "string \<Rightarrow> string \<Rightarrow> store \<Rightarrow> settings_answer" where
  "handleGetSSO appURL tid st =
     (case st_tenants st tid of None \<Rightarrow> Tenant_not_found | Some t \<Rightarrow> Settings (ssoViewFor appURL t))"

definition PutTenant :: "tenant \<Rightarrow> store \<Rightarrow> store" where
  "PutTenant t st = st\<lparr>st_tenants := (st_tenants st)(tn_id t := Some t)\<rparr>"

definition settings_actor :: "env \<Rightarrow> string \<Rightarrow> store \<Rightarrow> string" where
  "settings_actor e tok st =
     (case resolveSession e tok st of
        None \<Rightarrow> ''platform operator''
      | Some s \<Rightarrow> (case st_users st (ss_user s) of None \<Rightarrow> ''platform operator'' | Some u \<Rightarrow> us_email u))"

text \<open>The secret reference to save: a given secret is sealed, an empty one keeps the stored reference.\<close>

definition secret_ref :: "deps \<Rightarrow> tenant \<Rightarrow> string \<Rightarrow> string option" where
  "secret_ref d t given =
     (if trim_space given \<noteq> '''' then dp_seal d (trim_space given)
      else Some (case tn_sso t of None \<Rightarrow> '''' | Some cfg \<Rightarrow> sc_secretRef cfg))"

definition handlePutSSO ::
  "deps \<Rightarrow> sso_env \<Rightarrow> string \<Rightarrow> bool \<Rightarrow> string \<Rightarrow> string \<Rightarrow> settings option \<Rightarrow> store \<Rightarrow> store \<times> settings_answer" where
  "handlePutSSO d x appURL fails tok tid body st =
     (case body of
        None \<Rightarrow> (st, Settings_bad_request)
      | Some b \<Rightarrow>
          (case st_tenants st tid of
             None \<Rightarrow> (st, Tenant_not_found)
           | Some t \<Rightarrow>
               (let actor = settings_actor (sx_env x) tok st;
                    save = (\<lambda>t'. if fails then (st, Tenant_write_failed)
                                 else (PutTenant t' st, Settings (ssoViewFor appURL t')))
                in if trim_space (se_issuer b) = '''' then save (t\<lparr>tn_sso := None\<rparr>)
                   else if dp_vault d = None then (st, Vault_missing)
                   else if trim_space (se_clientID b) = '''' then (st, Client_id_required)
                   else (case secret_ref d t (se_clientSecret b) of
                           None \<Rightarrow> (st, Seal_failed)
                         | Some ref \<Rightarrow>
                             if ref = '''' then (st, Secret_required)
                             else (case Discover (sx_url x) (sx_metadata x) (normIssuer (se_issuer b)) of
                                     None \<Rightarrow> (st, Discovery_failed)
                                   | Some _ \<Rightarrow>
                                       save (t\<lparr>tn_sso := Some \<lparr>sc_issuer = normIssuer (se_issuer b),
                                         sc_clientID = trim_space (se_clientID b), sc_secretRef = ref,
                                         sc_enforced = se_enforced b, sc_configuredBy = actor,
                                         sc_configuredAt = en_now (sx_env x)\<rparr>\<rparr>))))))"

section \<open>What the settings guarantee\<close>

text \<open>A provider that was checked: reachable and itself, with a client and a sealed secret.\<close>

definition checked_config :: "deps \<Rightarrow> sso_env \<Rightarrow> tenant \<Rightarrow> settings \<Rightarrow> sso_config \<Rightarrow> bool" where
  "checked_config d x t b cfg \<longleftrightarrow>
     sc_issuer cfg = normIssuer (se_issuer b) \<and> Discover (sx_url x) (sx_metadata x) (sc_issuer cfg) \<noteq> None \<and>
     sc_clientID cfg = trim_space (se_clientID b) \<and> sc_clientID cfg \<noteq> '''' \<and> sc_secretRef cfg \<noteq> '''' \<and>
     (if trim_space (se_clientSecret b) \<noteq> '''' then dp_seal d (trim_space (se_clientSecret b)) = Some (sc_secretRef cfg)
      else \<exists>old. tn_sso t = Some old \<and> sc_secretRef cfg = sc_secretRef old) \<and>
     sc_enforced cfg = se_enforced b"

lemma put_sso_Settings:
  assumes "handlePutSSO d x appURL fails tok tid (Some b) st = (st', Settings v)"
  obtains t t' where "st_tenants st tid = Some t" "\<not> fails" "st' = PutTenant t' st" "v = ssoViewFor appURL t'" "tn_id t' = tn_id t"
    "tn_requires2fa t' = tn_requires2fa t"
    "trim_space (se_issuer b) = '''' \<and> tn_sso t' = None \<or>
     trim_space (se_issuer b) \<noteq> '''' \<and> dp_vault d \<noteq> None \<and> (\<exists>cfg. tn_sso t' = Some cfg \<and> checked_config d x t b cfg)"
  using assms that unfolding handlePutSSO_def Let_def checked_config_def secret_ref_def
  by (auto split: option.splits if_splits)

lemma put_sso_refused:
  assumes "handlePutSSO d x appURL fails tok tid body st = (st', a)" "\<forall>v. a \<noteq> Settings v"
  shows "st' = st"
  using assms unfolding handlePutSSO_def Let_def by (auto split: option.splits if_splits)

lemma start_with_config:
  assumes "GetUserByEmail order (to_lower (trim_space email)) st = Some u" "st_tenants st (us_tenant u) = Some t" "tn_sso t = Some cfg"
    and "Discover (sx_url x) (sx_metadata x) (sc_issuer cfg) \<noteq> None" "sx_random x = Some (state, nonce, verifier)"
    and "\<not> en_fails (sx_env x) Session_write"
  shows "snd (handleSSOStart x order (Some email) st) = Authorize (sc_clientID cfg) state nonce"
  using assms unfolding handleSSOStart_def ssoFor_def Let_def by auto

text \<open>C26: a provider is saved only when it works. A refused change leaves the store as it was. An accepted one changes
  the provider of this workspace alone: it removes it when no issuer is given, and otherwise saves the given client
  and issuer with a secret that was sealed, the given one or the one already stored, after the provider's own
  metadata was fetched; while that metadata stands, every seat of the workspace is then sent to it to sign in.
\<close>

theorem saved_provider_works:
  assumes "handlePutSSO d x appURL fails tok tid (Some b) st = (st', a)" "st_tenants st tid = Some t" "tn_id t = tid"
  shows "(\<forall>v. a \<noteq> Settings v) \<and> st' = st \<or>
    (\<exists>t'. a = Settings (ssoViewFor appURL t') \<and> st' = st\<lparr>st_tenants := (st_tenants st)(tid := Some t')\<rparr> \<and>
      t' = t\<lparr>tn_sso := tn_sso t'\<rparr> \<and>
      (if trim_space (se_issuer b) = '''' then tn_sso t' = None
       else \<exists>cfg. tn_sso t' = Some cfg \<and> checked_config d x t b cfg \<and>
         (\<forall>y order email u state nonce verifier.
            sx_url y = sx_url x \<longrightarrow> sx_metadata y = sx_metadata x \<longrightarrow> sx_random y = Some (state, nonce, verifier) \<longrightarrow>
            \<not> en_fails (sx_env y) Session_write \<longrightarrow>
            GetUserByEmail order (to_lower (trim_space email)) st' = Some u \<longrightarrow> us_tenant u = tid \<longrightarrow>
            snd (handleSSOStart y order (Some email) st') = Authorize (sc_clientID cfg) state nonce)))"
proof (cases "\<exists>v. a = Settings v")
  case False
  then show ?thesis using put_sso_refused [OF assms(1)] by auto
next
  case True
  then obtain v where "a = Settings v" by blast
  from put_sso_Settings [OF assms(1) [unfolded this]] obtain t0 t' where t:
    "st_tenants st tid = Some t0" "st' = PutTenant t' st" "v = ssoViewFor appURL t'" "tn_id t' = tn_id t0"
    "tn_requires2fa t' = tn_requires2fa t0"
    "trim_space (se_issuer b) = '''' \<and> tn_sso t' = None \<or>
     trim_space (se_issuer b) \<noteq> '''' \<and> dp_vault d \<noteq> None \<and> (\<exists>cfg. tn_sso t' = Some cfg \<and> checked_config d x t0 b cfg)"
    by metis
  have t0: "t0 = t" using t(1) assms(2) by simp
  have id: "tn_id t' = tid" using t(4) t0 assms(3) by simp
  have st': "st' = st\<lparr>st_tenants := (st_tenants st)(tid := Some t')\<rparr>" using t(2) id by (simp add: PutTenant_def)
  have same: "t' = t\<lparr>tn_sso := tn_sso t'\<rparr>" using t(4,5) t0 by (cases t, cases t') auto
  have tenant: "st_tenants st' tid = Some t'" using st' by simp
  show ?thesis
  proof (cases "trim_space (se_issuer b) = ''''")
    case True
    then show ?thesis using t(3,6) st' same \<open>a = Settings v\<close> by auto
  next
    case False
    then obtain cfg where cfg: "tn_sso t' = Some cfg" "checked_config d x t b cfg" using t(6) t0 by blast
    have "Discover (sx_url x) (sx_metadata x) (sc_issuer cfg) \<noteq> None" using cfg(2) unfolding checked_config_def by blast
    then have "snd (handleSSOStart y order (Some email) st') = Authorize (sc_clientID cfg) state nonce"
      if "sx_url y = sx_url x" "sx_metadata y = sx_metadata x" "sx_random y = Some (state, nonce, verifier)"
        "\<not> en_fails (sx_env y) Session_write" "GetUserByEmail order (to_lower (trim_space email)) st' = Some u" "us_tenant u = tid"
      for y order email u state nonce verifier
      using start_with_config [OF that(5) _ cfg(1)] that tenant by simp
    then have "\<forall>y order email u state nonce verifier.
        sx_url y = sx_url x \<longrightarrow> sx_metadata y = sx_metadata x \<longrightarrow> sx_random y = Some (state, nonce, verifier) \<longrightarrow>
        \<not> en_fails (sx_env y) Session_write \<longrightarrow>
        GetUserByEmail order (to_lower (trim_space email)) st' = Some u \<longrightarrow> us_tenant u = tid \<longrightarrow>
        snd (handleSSOStart y order (Some email) st') = Authorize (sc_clientID cfg) state nonce"
      by (intro allI impI)
    with cfg False t(3) st' same \<open>a = Settings v\<close> show ?thesis by (intro disjI2 exI [of _ t']) auto
  qed
qed

text \<open>
  An empty secret keeps the stored one even when the issuer changes: what was entered for one provider is then
  opened and sent to the token endpoint of another.
\<close>

lemma kept_secret_moves:
  assumes "handlePutSSO d x appURL fails tok tid (Some b) st = (st', Settings v)" "st_tenants st tid = Some t"
    and "tn_sso t = Some old" "trim_space (se_clientSecret b) = ''''" "trim_space (se_issuer b) \<noteq> ''''" "tn_id t = tid"
  shows "\<exists>t' cfg. st_tenants st' tid = Some t' \<and> tn_sso t' = Some cfg \<and>
    sc_issuer cfg = normIssuer (se_issuer b) \<and> sc_secretRef cfg = sc_secretRef old"
proof -
  from put_sso_Settings [OF assms(1)] obtain t' cfg where
    "st' = PutTenant t' st" "tn_id t' = tid" "tn_sso t' = Some cfg" "checked_config d x t b cfg"
    using assms(2,5,6) by (metis option.inject)
  then show ?thesis using assms(3,4) unfolding checked_config_def PutTenant_def by auto
qed
section \<open>Samples\<close>

definition sample_settings :: settings where
  "sample_settings = \<lparr>se_issuer = ''https://idp'', se_clientID = ''new'', se_clientSecret = '''', se_enforced = True\<rparr>"

lemma settings_trims: "trim_space ''https://idp'' = ''https://idp''" "trim_space ''new'' = ''new''" "trim_space '''' = ''''"
  by code_simp+

lemma sample_put_sso:
  "\<exists>st' v. handlePutSSO sample_deps sample_sso_env ''https://app'' False '''' ''t'' (Some sample_settings) sso_store = (st', Settings v) \<and>
     st_users st' = st_users sso_store"
proof -
  have "Discover (sx_url sample_sso_env) (sx_metadata sample_sso_env) (normIssuer ''https://idp'') = Some sample_provider"
    using sample_discover sample_issuers by (simp add: sample_sso_env_def)
  moreover have "st_tenants sso_store ''t'' = Some sample_tenant" "dp_vault sample_deps = Some Some"
    by (simp_all add: sso_store_def sample_deps_def)
  moreover have "secret_ref sample_deps sample_tenant '''' = Some ''ref''" by (simp add: secret_ref_def settings_trims sample_tenant_def)
  ultimately show ?thesis unfolding handlePutSSO_def by (simp add: sample_settings_def settings_trims Let_def PutTenant_def)
qed

theorem saved_provider_works_witness:
  "snd (handleSSOStart (sample_sso_env\<lparr>sx_random := Some (''st'', ''no'', ''ve'')\<rparr>) [''u''] (Some ''u@t'')
     (fst (handlePutSSO sample_deps sample_sso_env ''https://app'' False '''' ''t'' (Some sample_settings) sso_store))) =
   Authorize ''new'' ''st'' ''no''"
proof -
  obtain st' v where p: "handlePutSSO sample_deps sample_sso_env ''https://app'' False '''' ''t'' (Some sample_settings) sso_store = (st', Settings v)"
    "st_users st' = st_users sso_store" using sample_put_sso by blast
  have t: "st_tenants sso_store ''t'' = Some sample_tenant" "tn_id sample_tenant = ''t''" by (simp_all add: sso_store_def sample_tenant_def)
  have i: "trim_space (se_issuer sample_settings) \<noteq> ''''" by (simp add: sample_settings_def settings_trims)
  let ?y = "sample_sso_env\<lparr>sx_random := Some (''st'', ''no'', ''ve'')\<rparr>"
  from saved_provider_works [OF p(1) t] i obtain cfg where c: "checked_config sample_deps sample_sso_env sample_tenant sample_settings cfg"
    "\<And>y order email u state nonce verifier. sx_url y = sx_url sample_sso_env \<Longrightarrow> sx_metadata y = sx_metadata sample_sso_env \<Longrightarrow>
       sx_random y = Some (state, nonce, verifier) \<Longrightarrow> \<not> en_fails (sx_env y) Session_write \<Longrightarrow>
       GetUserByEmail order (to_lower (trim_space email)) st' = Some u \<Longrightarrow> us_tenant u = ''t'' \<Longrightarrow>
       snd (handleSSOStart y order (Some email) st') = Authorize (sc_clientID cfg) state nonce"
    by (auto split: if_splits)
  have "GetUserByEmail [''u''] ''u@t'' st' = Some sample_user"
  proof -
    have "st_users st' ''u'' = Some sample_user" "us_email sample_user = ''u@t''"
      using p(2) by (simp_all add: sso_store_def sample_user_def)
    then show ?thesis by (simp add: GetUserByEmail_def sso_trims del: to_lower_simps)
  qed
  then have "snd (handleSSOStart ?y [''u''] (Some ''u@t'') st') = Authorize (sc_clientID cfg) ''st'' ''no''"
    using c(2) [of ?y "''st''" "''no''" "''ve''" "[''u'']" "''u@t''" sample_user]
    by (simp add: sso_trims sample_sso_env_def sample_env_def sample_user_def del: to_lower_simps)
  moreover have "sc_clientID cfg = ''new''" using c(1) by (simp add: checked_config_def sample_settings_def settings_trims)
  ultimately show ?thesis using p(1) by simp
qed

end
