(* ===== verification/CloudSafety.thy ===== *)
theory CloudSafety
  imports Prelude
begin

text \<open>
  internal/cloudsafety/guard.go: the guard every live cloud call passes through. Its mutex makes each call of
  \<open>Allow\<close> one step, so any concurrent use is a sequence of them; the clock reading is an argument.
\<close>

section \<open>The guard\<close>

definition readOnlyPrefixes :: "string list" where
  "readOnlyPrefixes = [''Get'', ''List'', ''Describe'', ''Lookup'', ''Search'', ''BatchGet'', ''Simulate'', ''Generate'', ''Head'']"

definition denyEvenIfReadOnlyLooking :: "string list" where
  "denyEvenIfReadOnlyLooking = [''s3:GetObject'', ''secretsmanager:GetSecretValue'', ''ssm:GetParameter'', ''ssm:GetParameters'',
     ''dynamodb:GetItem'', ''dynamodb:BatchGetItem'', ''kms:Decrypt'']"

definition ReadOnly :: "string \<Rightarrow> bool" where
  "ReadOnly action =
     (if action \<in> set denyEvenIfReadOnlyLooking then False
      else let verb = (case index_byte action (CHR '':'') of None \<Rightarrow> action | Some i \<Rightarrow> drop (i + 1) action)
           in list_ex (\<lambda>p. has_prefix verb p) readOnlyPrefixes)"

record call =
  ca_action :: string
  ca_allowed :: bool
  ca_reason :: string
  ca_hypothesis :: string
  ca_at :: int

record guard =
  gd_budget :: int
  gd_used :: int
  gd_log :: "call list"

datatype guard_error = Mutating string | Budget int int

definition NewGuard :: "int \<Rightarrow> guard" where
  "NewGuard budget = \<lparr>gd_budget = budget, gd_used = 0, gd_log = []\<rparr>"

definition Allow :: "guard \<Rightarrow> string \<Rightarrow> string \<Rightarrow> int \<Rightarrow> guard \<times> guard_error option" where
  "Allow g action hypothesis now =
     (let entry = \<lparr>ca_action = action, ca_allowed = False, ca_reason = '''', ca_hypothesis = hypothesis, ca_at = now\<rparr>
      in if \<not> ReadOnly action then
           (g\<lparr>gd_log := gd_log g @ [entry\<lparr>ca_reason := ''not read-only''\<rparr>]\<rparr>, Some (Mutating action))
         else if gd_budget g \<le> gd_used g then
           (g\<lparr>gd_log := gd_log g @ [entry\<lparr>ca_reason := ''budget exhausted''\<rparr>]\<rparr>, Some (Budget (gd_used g) (gd_budget g)))
         else (g\<lparr>gd_used := gd_used g + 1, gd_log := gd_log g @ [entry\<lparr>ca_allowed := True\<rparr>]\<rparr>, None))"

definition Used :: "guard \<Rightarrow> int" where
  "Used g = gd_used g"

definition Log :: "guard \<Rightarrow> call list" where
  "Log g = gd_log g"

section \<open>What the trail proves\<close>

type_synonym attempt = "string \<times> string \<times> int"

fun attempt :: "guard \<Rightarrow> attempt \<Rightarrow> guard" where
  "attempt g (action, hypothesis, now) = fst (Allow g action hypothesis now)"

definition attempts :: "int \<Rightarrow> attempt list \<Rightarrow> guard" where
  "attempts budget as = foldl attempt (NewGuard budget) as"

text \<open>The decision by itself: read-only, and fewer read-only attempts before it than the budget allows.\<close>

definition decision :: "int \<Rightarrow> attempt list \<Rightarrow> nat \<Rightarrow> bool" where
  "decision budget as i \<longleftrightarrow>
     ReadOnly (fst (as ! i)) \<and> int (length (filter (\<lambda>a. ReadOnly (fst a)) (take i as))) < budget"

lemma decision_append: "i < length as \<Longrightarrow> decision budget (as @ bs) i = decision budget as i"
  by (simp add: decision_def nth_append)

lemma attempts_log:
  "gd_budget (attempts budget as) = budget \<and>
   gd_used (attempts budget as) = min (max 0 budget) (int (length (filter (\<lambda>a. ReadOnly (fst a)) as))) \<and>
   length (gd_log (attempts budget as)) = length as \<and>
   (\<forall>i < length as. ca_action (gd_log (attempts budget as) ! i) = fst (as ! i) \<and>
      ca_hypothesis (gd_log (attempts budget as) ! i) = fst (snd (as ! i)) \<and>
      ca_at (gd_log (attempts budget as) ! i) = snd (snd (as ! i)) \<and>
      ca_allowed (gd_log (attempts budget as) ! i) = decision budget as i)"
proof (induction as rule: rev_induct)
  case Nil
  then show ?case by (simp add: attempts_def NewGuard_def)
next
  case (snoc a as)
  obtain action hypothesis now where a: "a = (action, hypothesis, now)" by (cases a)
  let ?g = "attempts budget as"
  let ?n = "int (length (filter (\<lambda>a. ReadOnly (fst a)) as))"
  have g: "attempts budget (as @ [a]) = fst (Allow ?g action hypothesis now)" by (simp add: attempts_def a)
  have d: "decision budget (as @ [a]) (length as) \<longleftrightarrow> ReadOnly action \<and> ?n < budget" by (simp add: decision_def a)
  have u: "gd_budget ?g \<le> gd_used ?g \<longleftrightarrow> budget \<le> ?n" using snoc.IH by auto
  have "\<exists>r. gd_log (attempts budget (as @ [a])) = gd_log ?g @ [r] \<and> ca_action r = action \<and> ca_hypothesis r = hypothesis \<and>
      ca_at r = now \<and> (ca_allowed r \<longleftrightarrow> ReadOnly action \<and> ?n < budget)"
    unfolding g Allow_def Let_def using u by auto
  then obtain r where r: "gd_log (attempts budget (as @ [a])) = gd_log ?g @ [r]" "ca_action r = action" "ca_hypothesis r = hypothesis"
      "ca_at r = now" "ca_allowed r \<longleftrightarrow> ReadOnly action \<and> ?n < budget" by blast
  have "gd_budget (attempts budget (as @ [a])) = budget" using snoc.IH unfolding g Allow_def Let_def by auto
  moreover have "gd_used (attempts budget (as @ [a])) =
      min (max 0 budget) (int (length (filter (\<lambda>a. ReadOnly (fst a)) (as @ [a]))))"
    using snoc.IH unfolding g Allow_def Let_def by (auto simp: a)
  moreover have "ca_action (gd_log (attempts budget (as @ [a])) ! i) = fst ((as @ [a]) ! i) \<and>
      ca_hypothesis (gd_log (attempts budget (as @ [a])) ! i) = fst (snd ((as @ [a]) ! i)) \<and>
      ca_at (gd_log (attempts budget (as @ [a])) ! i) = snd (snd ((as @ [a]) ! i)) \<and>
      ca_allowed (gd_log (attempts budget (as @ [a])) ! i) = decision budget (as @ [a]) i" if "i < Suc (length as)" for i
  proof (cases "i < length as")
    case True
    then show ?thesis using snoc.IH r(1) decision_append [OF True] by (simp add: nth_append)
  next
    case False
    then have "i = length as" using that by simp
    then show ?thesis using r d snoc.IH a by (simp add: nth_append)
  qed
  ultimately show ?case using r(1) snoc.IH by simp
qed

lemma used_allowed: "gd_used (attempts budget as) = int (length (filter ca_allowed (gd_log (attempts budget as))))"
proof (induction as rule: rev_induct)
  case Nil
  then show ?case by (simp add: attempts_def NewGuard_def)
next
  case (snoc a as)
  obtain action hypothesis now where a: "a = (action, hypothesis, now)" by (cases a)
  have "attempts budget (as @ [a]) = fst (Allow (attempts budget as) action hypothesis now)" by (simp add: attempts_def a)
  then show ?case using snoc.IH unfolding Allow_def Let_def by auto
qed

text \<open>the audit trail is complete and the envelope holds. After any sequence of attempts the trail has one entry per
  attempt, in order, with its action, hypothesis and time; an entry is allowed exactly when its action is read-only
  and fewer read-only attempts came before it than the budget; and the count of used calls is that of the allowed
  entries, never above the budget.
\<close>

theorem trail_is_complete:
  "map (\<lambda>c. (ca_action c, ca_hypothesis c, ca_at c)) (Log (attempts budget as)) = as \<and>
   map ca_allowed (Log (attempts budget as)) = map (decision budget as) [0..<length as] \<and>
   Used (attempts budget as) = int (length (filter ca_allowed (Log (attempts budget as)))) \<and>
   Used (attempts budget as) \<le> max 0 budget"
proof -
  note l = attempts_log [of budget as]
  have "map (\<lambda>c. (ca_action c, ca_hypothesis c, ca_at c)) (gd_log (attempts budget as)) = as"
    using l by (intro nth_equalityI) (auto simp: prod_eq_iff)
  moreover have "map ca_allowed (gd_log (attempts budget as)) = map (decision budget as) [0..<length as]"
    using l by (intro nth_equalityI) auto
  ultimately show ?thesis using l used_allowed [of budget as] unfolding Log_def Used_def by simp
qed

text \<open>Actions that return secret contents and pass the guard: the denylist names neither of them.\<close>

lemma secrets_pass_the_guard:
  "ReadOnly ''ssm:GetParametersByPath''" "ReadOnly ''secretsmanager:BatchGetSecretValue''" "ReadOnly ''S3:GetObject''"
  "\<not> ReadOnly ''ssm:GetParameters''" "\<not> ReadOnly ''secretsmanager:GetSecretValue''" "\<not> ReadOnly ''s3:GetObject''"
  by code_simp+

end
