(* ===== verification/CloudEngine.thy ===== *)
theory CloudEngine
  imports Complex_Main CloudPrune CloudHash CloudSafety
begin

text \<open>
  internal/cloudengine: \<open>Assess\<close>, the deterministic investigation of an account (engine.go), the exposures it adds
  (dspm.go, workload.go) and its validators (validate.go, live.go). A validator is a function on its own state; the
  order in which the runtime goes through the node map is the argument \<open>ids\<close>. Scores are exact rationals. The texts
  made for people (narratives, advice, queries) and the compliance crosswalk are left out and an observation is
  abbreviated; a finding keeps the whole edges of its path, of which the report shows ends and kind; an advice is the edge or
  the step it names.
\<close>

section \<open>Data\<close>

record workload_vuln =
  wv_image :: string
  wv_critical :: int
  wv_high :: int

record options =
  op_maxHypotheses :: int
  op_maxDepth :: int
  op_vulns :: "workload_vuln list"

record evidence =
  ev_observation :: string
  ev_rung :: int

datatype verification = Pattern_match | Corroborated | Verified

datatype remediation = No_advice | Cut_edge edge | Close_store | Patch_image string

record attack_finding =
  af_id :: string
  af_nodes :: "string list"
  af_edges :: "edge list"
  af_sensitivity :: sensitivity
  af_privileged :: bool
  af_score :: rat
  af_verification :: verification
  af_rung :: int
  af_confidence :: rat
  af_evidence :: "evidence list"
  af_affected :: "string list"
  af_corroborates :: "string list"
  af_remediation :: remediation

record prowler_finding =
  pf_id :: string
  pf_endpoint :: string

record assessment =
  as_hash :: string
  as_paths :: "attack_finding list"
  as_downgraded :: "string list"
  as_audit :: "(string \<times> string) list"

definition withDefaults :: "options \<Rightarrow> options" where
  "withDefaults opt =
     (let opt2 = (if op_maxHypotheses opt \<le> 0 then opt\<lparr>op_maxHypotheses := 20\<rparr> else opt)
      in if op_maxDepth opt2 \<le> 0 then opt2\<lparr>op_maxDepth := 8\<rparr> else opt2)"

definition appendUnique :: "string list \<Rightarrow> string \<Rightarrow> string list" where
  "appendUnique xs x = (if x \<in> set xs then xs else xs @ [x])"

section \<open>Hypotheses\<close>

definition is_public :: "snapshot \<Rightarrow> string \<Rightarrow> bool" where
  "is_public s i = (case s_nodes s i of None \<Rightarrow> False | Some n \<Rightarrow> n_public n)"

definition entryPoints :: "string list \<Rightarrow> snapshot \<Rightarrow> string list" where
  "entryPoints ids s = sort_by str_less (InternetID # filter (\<lambda>i. is_public s i \<and> i \<noteq> InternetID) ids)"

definition jewel :: "node \<Rightarrow> bool" where
  "jewel n \<longleftrightarrow> SensitiveData (Some n) \<or> PrivilegedIdentity (Some n)"

definition pathKey :: "path \<Rightarrow> string" where
  "pathKey p = join_with ''>'' (p_nodes p)"

definition edgeKey :: "edge \<Rightarrow> string" where
  "edgeKey e = e_from e @ ''->'' @ e_to e @ '':'' @ kind_string (e_kind e)"

definition add_path :: "string list \<times> path list \<Rightarrow> path \<Rightarrow> string list \<times> path list" where
  "add_path acc p =
     (let (seen, cands) = acc; k = pathKey p in if k \<in> set seen then acc else (seen @ [k], cands @ [p]))"

definition paths_from :: "snapshot \<Rightarrow> options \<Rightarrow> string \<Rightarrow> path list" where
  "paths_from s opt entry = FindPaths s entry (Some jewel) (Some AllAttackEdges) (op_maxDepth opt) (op_maxHypotheses opt)"

definition candidates :: "string list \<Rightarrow> snapshot \<Rightarrow> options \<Rightarrow> path list" where
  "candidates ids s opt =
     snd (foldl (\<lambda>acc entry. foldl add_path acc (paths_from s opt entry)) ([], []) (entryPoints ids s))"

definition isSuffix :: "string list \<Rightarrow> string list \<Rightarrow> bool" where
  "isSuffix short long =
     (if length long < length short then False
      else let off = length long - length short in list_all (\<lambda>i. short ! i = long ! (off + i)) [0..<length short])"

text \<open>The two loops over the \<open>keep\<close> flags.\<close>

fun drop_loop :: "path list \<Rightarrow> nat list \<Rightarrow> bool list \<Rightarrow> bool list" where
  "drop_loop ps [] keep = keep"
| "drop_loop ps (i # is) keep =
     drop_loop ps is
       (if list_ex (\<lambda>j. j \<noteq> i \<and> keep ! j \<and> length (p_nodes (ps ! i)) < length (p_nodes (ps ! j)) \<and>
                        isSuffix (p_nodes (ps ! i)) (p_nodes (ps ! j))) [0..<length ps]
        then keep[i := False] else keep)"

definition dropDominated :: "path list \<Rightarrow> path list" where
  "dropDominated ps =
     map snd (filter fst (zip (drop_loop ps [0..<length ps] (replicate (length ps) True)) ps))"

definition path_score :: "snapshot \<Rightarrow> path \<Rightarrow> rat" where
  "path_score s p =
     (if p_nodes p = [] then 0
      else let target = s_nodes s (last (p_nodes p));
               s1 = (case target of
                       None \<Rightarrow> 0
                     | Some n \<Rightarrow> (case n_sensitive n of SensHigh \<Rightarrow> 10 | SensLow \<Rightarrow> 3 | SensNone \<Rightarrow> 0) + (if n_privileged n then 8 else 0));
               s2 = (if hd (p_nodes p) = InternetID then s1 + 6 else s1);
               s3 = s2 - of_nat (length (p_edges p)) * (1 / 2)
           in if Conditional p then s3 - 2 else s3)"

definition hypotheses :: "string list \<Rightarrow> snapshot \<Rightarrow> options \<Rightarrow> path list" where
  "hypotheses ids s opt =
     (let ranked = sort_by (\<lambda>a b. path_score s b < path_score s a) (dropDominated (candidates ids s opt))
      in if op_maxHypotheses opt < int (length ranked) then take (nat (op_maxHypotheses opt)) ranked else ranked)"

section \<open>Findings\<close>

definition impactScore :: "sensitivity \<Rightarrow> bool \<Rightarrow> rat" where
  "impactScore sens priv = (if sens = SensHigh \<or> priv then 1 else if sens = SensLow then 1 / 2 else 3 / 10)"

definition confidence :: "int \<Rightarrow> rat \<Rightarrow> rat" where
  "confidence rung impact =
     (let c1 = (if 3 \<le> rung then 8 / 10 else 5 / 10);
          c2 = (if 4 \<le> rung then 95 / 100 else c1);
          c3 = (if 1 \<le> impact then c2 + 4 / 100 else c2)
      in if 99 / 100 < c3 then 99 / 100 else c3)"

text \<open>\<open>%s-%03d\<close>.\<close>

definition finding_id :: "string \<Rightarrow> nat \<Rightarrow> string" where
  "finding_id label n = label @ ''-'' @ replicate (3 - length (dec_nat n)) (CHR ''0'') @ dec_nat n"

definition buildFinding :: "snapshot \<Rightarrow> string \<Rightarrow> path \<Rightarrow> int \<Rightarrow> evidence list \<Rightarrow> attack_finding" where
  "buildFinding s i p rung ev =
     (let target = s_nodes s (last (p_nodes p));
          sens = (case target of None \<Rightarrow> SensNone | Some n \<Rightarrow> n_sensitive n);
          priv = (case target of None \<Rightarrow> False | Some n \<Rightarrow> n_privileged n);
          impact = impactScore sens priv
      in \<lparr>af_id = i, af_nodes = p_nodes p, af_edges = p_edges p, af_sensitivity = sens, af_privileged = priv,
          af_score = impact,
          af_verification = (if 4 \<le> rung then Verified else if 3 \<le> rung then Corroborated else Pattern_match),
          af_rung = rung, af_confidence = confidence rung impact, af_evidence = ev,
          af_affected = sort_by str_less (p_nodes p), af_corroborates = [], af_remediation = No_advice\<rparr>)"

section \<open>Exposures\<close>

definition isDataStore :: "node \<Rightarrow> bool" where
  "isDataStore n \<longleftrightarrow> n_kind n = KindData \<or> IsDataStoreType (n_type n)"

definition publicSensitive :: "node \<Rightarrow> bool" where
  "publicSensitive n \<longleftrightarrow> n_public n \<and> n_sensitive n \<noteq> SensNone \<and> isDataStore n"

definition one_hop :: "string \<Rightarrow> path" where
  "one_hop i = \<lparr>p_nodes = [InternetID, i],
     p_edges = [\<lparr>e_from = InternetID, e_to = i, e_kind = EdgeNetworkReach, e_condition = '''', e_detail = ''''\<rparr>]\<rparr>"

definition numbered :: "'a list \<Rightarrow> (nat \<times> 'a) list" where
  "numbered xs = zip [0..<length xs] xs"

definition DSPMExposures :: "string list \<Rightarrow> snapshot \<Rightarrow> string list \<Rightarrow> attack_finding list" where
  "DSPMExposures ids s covered =
     (let hits = sort_by str_less (filter (\<lambda>i. (case s_nodes s i of None \<Rightarrow> False | Some n \<Rightarrow> publicSensitive n) \<and> i \<notin> set covered) ids)
      in map (\<lambda>(k, i). (buildFinding s (finding_id ''dspm'' (k + 1)) (one_hop i) 1
                           [\<lparr>ev_observation = ''config'', ev_rung = 0\<rparr>])\<lparr>af_remediation := Close_store\<rparr>)
           (numbered hits))"

definition imageRef :: "node \<Rightarrow> string" where
  "imageRef n = trim_space (attr n ''image'')"

definition vuln_table :: "workload_vuln list \<Rightarrow> (string \<times> workload_vuln) list" where
  "vuln_table vs = foldl (\<lambda>m v. if 0 < wv_critical v \<or> 0 < wv_high v then put (wv_image v) v m else m) [] vs"

definition WorkloadExposures :: "string list \<Rightarrow> snapshot \<Rightarrow> workload_vuln list \<Rightarrow> string list \<Rightarrow> attack_finding list" where
  "WorkloadExposures ids s vulns covered =
     (let byImage = vuln_table vulns;
          hits = sort_by str_less (filter (\<lambda>i. i \<notin> set covered \<and>
             (case s_nodes s i of None \<Rightarrow> False | Some n \<Rightarrow> n_public n \<and> map_of byImage (imageRef n) \<noteq> None)) ids)
      in map (\<lambda>(k, i). (buildFinding s (finding_id ''cwpp'' (k + 1)) (one_hop i) 1
                           [\<lparr>ev_observation = ''scanned'', ev_rung = 2\<rparr>])
                        \<lparr>af_remediation := Patch_image (case s_nodes s i of None \<Rightarrow> '''' | Some n \<Rightarrow> imageRef n)\<rparr>)
           (numbered hits))"

section \<open>The scanner's findings and the advice\<close>

text \<open>\<open>strings.Fields\<close>.\<close>

definition fields :: "string \<Rightarrow> string list" where
  "fields s = filter (\<lambda>w. w \<noteq> '''') (split_on (CHR '' '') (map (\<lambda>c. if is_space c then CHR '' '' else c) s))"

definition resourceOf :: "prowler_finding \<Rightarrow> string" where
  "resourceOf f = (let parts = fields (pf_endpoint f) in if 2 \<le> length parts then parts ! 1 else trim_space (pf_endpoint f))"

fun attachCorroborates :: "string \<Rightarrow> string \<Rightarrow> attack_finding list \<Rightarrow> attack_finding list" where
  "attachCorroborates res fid [] = []"
| "attachCorroborates res fid (a # as) =
     (if res \<in> set (af_affected a) then a\<lparr>af_corroborates := appendUnique (af_corroborates a) fid\<rparr> # as
      else a # attachCorroborates res fid as)"

definition correlate_one :: "string list \<Rightarrow> assessment \<Rightarrow> prowler_finding \<Rightarrow> assessment" where
  "correlate_one onRealPath rep f =
     (let res = resourceOf f
      in if res = '''' then rep
         else if res \<in> set onRealPath then rep\<lparr>as_paths := attachCorroborates res (pf_id f) (as_paths rep)\<rparr>
         else rep\<lparr>as_audit := as_audit rep @ [(pf_id f, res)], as_downgraded := appendUnique (as_downgraded rep) (pf_id f)\<rparr>)"

definition correlateProwler :: "string list \<Rightarrow> prowler_finding list \<Rightarrow> assessment \<Rightarrow> assessment" where
  "correlateProwler onRealPath prowler rep = foldl (correlate_one onRealPath) rep prowler"

definition best_cut :: "(string \<Rightarrow> nat) \<Rightarrow> edge list \<Rightarrow> edge option" where
  "best_cut edgeUse es =
     fst (foldl (\<lambda>(best, bestN) e. if bestN < int (edgeUse (edgeKey e)) then (Some e, int (edgeUse (edgeKey e))) else (best, bestN))
            (None, -1) es)"

definition annotateRemediation :: "(string \<Rightarrow> nat) \<Rightarrow> assessment \<Rightarrow> assessment" where
  "annotateRemediation edgeUse rep =
     rep\<lparr>as_paths := map (\<lambda>a. case best_cut edgeUse (af_edges a) of
                                None \<Rightarrow> a | Some e \<Rightarrow> a\<lparr>af_remediation := Cut_edge e\<rparr>) (as_paths rep)\<rparr>"

section \<open>Assess\<close>

text \<open>A validator answers whether the path is reachable, the rung and the evidence.\<close>

type_synonym 'v validator = "'v \<Rightarrow> path \<Rightarrow> 'v \<times> bool \<times> int \<times> evidence list"

record 'v progress =
  pr_validator :: 'v
  pr_count :: nat
  pr_onRealPath :: "string list"
  pr_edgeUse :: "string \<Rightarrow> nat"
  pr_paths :: "attack_finding list"

definition validate_one :: "snapshot \<Rightarrow> 'v validator \<Rightarrow> 'v progress \<Rightarrow> path \<Rightarrow> 'v progress" where
  "validate_one s V g p =
     (case V (pr_validator g) p of
        (v, False, rung, ev) \<Rightarrow> g\<lparr>pr_validator := v\<rparr>
      | (v, True, rung, ev) \<Rightarrow>
          g\<lparr>pr_validator := v, pr_count := pr_count g + 1, pr_onRealPath := pr_onRealPath g @ p_nodes p,
            pr_edgeUse := foldl (\<lambda>u e. u(edgeKey e := u (edgeKey e) + 1)) (pr_edgeUse g) (p_edges p),
            pr_paths := pr_paths g @ [buildFinding s (finding_id ''acp'' (pr_count g + 1)) p rung ev]\<rparr>)"

definition validated :: "snapshot \<Rightarrow> 'v validator \<Rightarrow> 'v \<Rightarrow> path list \<Rightarrow> 'v progress" where
  "validated s V v ps =
     foldl (validate_one s V) \<lparr>pr_validator = v, pr_count = 0, pr_onRealPath = [], pr_edgeUse = (\<lambda>_. 0), pr_paths = []\<rparr> ps"

definition pruned :: "prune_env \<Rightarrow> snapshot \<Rightarrow> snapshot" where
  "pruned env s = PruneUnreachable env (PruneUnauthorized env s)"

definition Assess ::
  "(canon \<Rightarrow> string) \<Rightarrow> prune_env \<Rightarrow> string list \<Rightarrow> snapshot \<Rightarrow> prowler_finding list \<Rightarrow> 'v validator \<Rightarrow> 'v \<Rightarrow> options \<Rightarrow>
     'v \<times> assessment"
where
  "Assess digest env ids snap0 prowler V v opt0 =
     (let opt = withDefaults opt0;
          s = pruned env snap0;
          g = validated s V v (hypotheses ids s opt);
          paths = pr_paths g @ DSPMExposures ids s (pr_onRealPath g) @ WorkloadExposures ids s (op_vulns opt) (pr_onRealPath g);
          rep = \<lparr>as_hash = Hash digest ids snap0, as_paths = paths, as_downgraded = [], as_audit = []\<rparr>
      in (pr_validator g, annotateRemediation (pr_edgeUse g) (correlateProwler (pr_onRealPath g) prowler rep)))"

section \<open>Validators\<close>

text \<open>\<open>SnapshotOracle\<close> and \<open>ReasonedOnly\<close> have no state.\<close>

fun oracle_edges :: "string list \<Rightarrow> evidence list \<Rightarrow> edge list \<Rightarrow> bool \<times> int \<times> evidence list" where
  "oracle_edges blocked ev [] = (True, 3, ev)"
| "oracle_edges blocked ev (e # es) =
     (let k = edgeKey e; b = k \<in> set blocked;
          obs = (if b then ''blocked by runtime condition''
                 else if e_condition e \<noteq> '''' then ''gated by a runtime condition'' else ''reachable'');
          ev' = ev @ [\<lparr>ev_observation = obs, ev_rung = 3\<rparr>]
      in if b \<or> e_condition e \<noteq> '''' then (False, 3, ev') else oracle_edges blocked ev' es)"

definition SnapshotOracle :: "string list \<Rightarrow> unit validator" where
  "SnapshotOracle blocked u p = (u, oracle_edges blocked [] (p_edges p))"

definition ReasonedOnly :: "unit validator" where
  "ReasonedOnly u p = (u, True, 1, [\<lparr>ev_observation = ''config-possible'', ev_rung = 0\<rparr>])"

text \<open>The live analysis surface: \<open>None\<close> is an error.\<close>

record analyzer =
  an_reachable :: "string \<Rightarrow> string \<Rightarrow> bool option"
  an_permActive :: "string \<Rightarrow> string \<Rightarrow> bool option"
  an_probe :: "string \<Rightarrow> string \<Rightarrow> bool option"

definition actReachable :: string where "actReachable = ''ec2:DescribeNetworkInsightsAnalyses''"
definition actPermActive :: string where "actPermActive = ''iam:SimulatePrincipalPolicy''"
definition actProbe :: string where "actProbe = ''sts:GetCallerIdentity''"

record live =
  lv_guard :: guard
  lv_pending :: "string list"

definition guarded :: "int \<Rightarrow> string \<Rightarrow> string \<Rightarrow> int \<Rightarrow> bool option \<Rightarrow> live \<Rightarrow> live \<times> bool \<times> evidence" where
  "guarded now action hyp rung answer lv =
     (case Allow (lv_guard lv) action hyp now of
        (g, Some err) \<Rightarrow> (lv\<lparr>lv_guard := g\<rparr>, False, \<lparr>ev_observation = ''blocked by safety guard'', ev_rung = rung\<rparr>)
      | (g, None) \<Rightarrow>
          (lv\<lparr>lv_guard := g\<rparr>,
           case answer of
             None \<Rightarrow> (False, \<lparr>ev_observation = ''analyzer error'', ev_rung = rung\<rparr>)
           | Some ok \<Rightarrow> (ok, \<lparr>ev_observation = (if ok then ''confirmed'' else ''not reachable / not active''), ev_rung = rung\<rparr>)))"

text \<open>The loop of \<open>LiveValidator.Validate\<close> over the edges.\<close>

fun live_edges ::
  "analyzer \<Rightarrow> int \<Rightarrow> int \<Rightarrow> string \<Rightarrow> int \<Rightarrow> evidence list \<Rightarrow> live \<Rightarrow> edge list \<Rightarrow> live \<times> bool \<times> int \<times> evidence list"
where
  "live_edges an now maxRung hyp rungReached ev lv [] = (lv, True, rungReached, ev)"
| "live_edges an now maxRung hyp rungReached ev lv (e # es) =
     (if e_kind e = EdgeNetworkReach then
        (case guarded now actReachable hyp 3 (an_reachable an (e_from e) (e_to e)) lv of
           (lv1, ok, item) \<Rightarrow>
             if \<not> ok then (lv1, False, max rungReached 3, ev @ [item])
             else live_edges an now maxRung hyp (max rungReached 3) (ev @ [item]) lv1 es)
      else if e_kind e \<in> {EdgeAssumeRole, EdgeHasAccess, EdgePrivesc} then
        (case guarded now actPermActive hyp 2 (an_permActive an (e_from e) (kind_string (e_kind e))) lv of
           (lv1, ok, item) \<Rightarrow>
             if \<not> ok then (lv1, False, max rungReached 2, ev @ [item])
             else if e_condition e = '''' then live_edges an now maxRung hyp (max rungReached 2) (ev @ [item]) lv1 es
             else if maxRung < 4 then
               (lv1\<lparr>lv_pending := lv_pending lv1 @ [hyp]\<rparr>, False, max (max rungReached 2) 4,
                ev @ [item, \<lparr>ev_observation = ''queued for human approval'', ev_rung = 5\<rparr>])
             else
               (case guarded now actProbe hyp 4 (an_probe an (e_from e) (e_to e)) lv1 of
                  (lv2, ok2, item2) \<Rightarrow>
                    if \<not> ok2 then (lv2, False, max (max rungReached 2) 4, ev @ [item, item2])
                    else live_edges an now maxRung hyp (max (max rungReached 2) 4) (ev @ [item, item2]) lv2 es))
      else if e_kind e = EdgeRunsAs then
        live_edges an now maxRung hyp rungReached (ev @ [\<lparr>ev_observation = ''config fact'', ev_rung = 0\<rparr>]) lv es
      else live_edges an now maxRung hyp rungReached ev lv es)"

definition LiveValidate :: "analyzer \<Rightarrow> int \<Rightarrow> int \<Rightarrow> live validator" where
  "LiveValidate an now maxRung0 lv p =
     (let maxRung = (if maxRung0 \<le> 0 then 4 else maxRung0)
      in live_edges an now maxRung (pathKey p) 1 [] lv (p_edges p))"

end
