(* ===== verification/CloudEngineProps.thy ===== *)
theory CloudEngineProps
  imports CloudEngine
begin

text \<open>
  What an assessment of an account reports, what it misses, and what its validators touch. The caps of the search
  and of the worklist are the only ways a path is missed; what a report says was checked live was checked, through
  the guard; the gaps the code leaves are stated at the end.
\<close>

section \<open>Dominated candidates\<close>

definition dominates :: "path \<Rightarrow> path \<Rightarrow> bool" where
  "dominates q p \<longleftrightarrow> length (p_nodes p) < length (p_nodes q) \<and> suffix (p_nodes p) (p_nodes q)"

lemma isSuffix_iff: "isSuffix a b \<longleftrightarrow> suffix a b"
proof (cases "length b < length a")
  case True
  then show ?thesis using suffix_length_le [of a b] by (auto simp: isSuffix_def)
next
  case False
  let ?off = "length b - length a"
  have "list_all (\<lambda>i. a ! i = b ! (?off + i)) [0..<length a] \<longleftrightarrow> a = drop ?off b"
  proof
    assume "list_all (\<lambda>i. a ! i = b ! (?off + i)) [0..<length a]"
    then show "a = drop ?off b" using False by (intro nth_equalityI) (auto simp: list_all_iff)
  next
    assume e: "a = drop ?off b"
    have "a ! i = b ! (?off + i)" if "i < length a" for i
      using arg_cong [OF e, of "\<lambda>xs. xs ! i"] False by simp
    then show "list_all (\<lambda>i. a ! i = b ! (?off + i)) [0..<length a]" by (simp add: list_all_iff)
  qed
  also have "\<dots> \<longleftrightarrow> suffix a b"
  proof
    assume "a = drop ?off b"
    then show "suffix a b" by (metis suffix_drop)
  next
    assume "suffix a b"
    then obtain zs where "b = zs @ a" by (auto simp: suffix_def)
    then show "a = drop ?off b" by simp
  qed
  finally show ?thesis using False by (simp add: isSuffix_def Let_def)
qed

lemma maximal_dominator:
  assumes "\<exists>j < length ps. dominates (ps ! j) p"
  shows "\<exists>j < length ps. dominates (ps ! j) p \<and> \<not> (\<exists>k < length ps. dominates (ps ! k) (ps ! j))"
proof -
  let ?J = "{j. j < length ps \<and> dominates (ps ! j) p}"
  have "finite ?J" "?J \<noteq> {}" using assms by auto
  then obtain j where j: "j \<in> ?J" "\<forall>k \<in> ?J. length (p_nodes (ps ! k)) \<le> length (p_nodes (ps ! j))"
    using obtains_MAX [of ?J "\<lambda>j. length (p_nodes (ps ! j))"] by (metis (no_types, lifting) Max_ge finite_imageI image_eqI)
  have "\<not> dominates (ps ! k) (ps ! j)" if "k < length ps" for k
  proof
    assume d: "dominates (ps ! k) (ps ! j)"
    then have "dominates (ps ! k) p"
      using j(1) unfolding dominates_def by (auto intro: suffix_order.trans)
    then show False using j(2) that d unfolding dominates_def by fastforce
  qed
  then show ?thesis using j(1) by blast
qed

lemma drop_loop_eq:
  assumes "k \<le> length ps" "length keep = length ps"
    and "\<And>i. i < length ps \<Longrightarrow> keep ! i \<longleftrightarrow> (i < k \<longrightarrow> \<not> (\<exists>j < length ps. dominates (ps ! j) (ps ! i)))"
  shows "drop_loop ps [k..<length ps] keep = map (\<lambda>i. \<not> (\<exists>j < length ps. dominates (ps ! j) (ps ! i))) [0..<length ps]"
  using assms
proof (induction "length ps - k" arbitrary: k keep)
  case 0
  then show ?case by (auto intro: nth_equalityI)
next
  case (Suc n)
  then have k: "k < length ps" by simp
  let ?hit = "list_ex (\<lambda>j. j \<noteq> k \<and> keep ! j \<and> length (p_nodes (ps ! k)) < length (p_nodes (ps ! j)) \<and>
      isSuffix (p_nodes (ps ! k)) (p_nodes (ps ! j))) [0..<length ps]"
  have h: "?hit \<longleftrightarrow> (\<exists>j < length ps. dominates (ps ! j) (ps ! k))"
  proof
    assume ?hit
    then show "\<exists>j < length ps. dominates (ps ! j) (ps ! k)"
      by (auto simp: list_ex_iff isSuffix_iff dominates_def)
  next
    assume "\<exists>j < length ps. dominates (ps ! j) (ps ! k)"
    then obtain j where j: "j < length ps" "dominates (ps ! j) (ps ! k)" "\<not> (\<exists>i < length ps. dominates (ps ! i) (ps ! j))"
      using maximal_dominator by blast
    moreover have "keep ! j" using Suc.prems(3) [OF j(1)] j(3) by blast
    ultimately show ?hit by (auto simp: list_ex_iff isSuffix_iff dominates_def)
  qed
  have "drop_loop ps [k..<length ps] keep = drop_loop ps [Suc k..<length ps] (if ?hit then keep[k := False] else keep)"
    using k by (simp add: upt_conv_Cons)
  also have "\<dots> = map (\<lambda>i. \<not> (\<exists>j < length ps. dominates (ps ! j) (ps ! i))) [0..<length ps]"
    by (rule Suc.hyps(1)) (use Suc.hyps(2) Suc.prems k h in \<open>auto simp: nth_list_update less_Suc_eq\<close>)
  finally show ?case .
qed

lemma dropDominated_eq: "dropDominated ps = filter (\<lambda>p. \<not> (\<exists>q \<in> set ps. dominates q p)) ps"
proof -
  let ?P = "\<lambda>i. \<not> (\<exists>j < length ps. dominates (ps ! j) (ps ! i))"
  have "drop_loop ps [0..<length ps] (replicate (length ps) True) = map ?P [0..<length ps]"
    by (rule drop_loop_eq) auto
  moreover have "zip (map ?P [0..<length ps]) ps = map (\<lambda>i. (?P i, ps ! i)) [0..<length ps]"
    by (intro nth_equalityI) auto
  ultimately have "dropDominated ps = map ((!) ps) (filter ?P [0..<length ps])"
    by (simp add: dropDominated_def filter_map comp_def)
  also have "\<dots> = filter (\<lambda>p. \<not> (\<exists>q \<in> set ps. dominates q p)) (map ((!) ps) [0..<length ps])"
    by (simp add: filter_map comp_def Bex_def in_set_conv_nth) (metis (no_types, lifting) filter_cong)
  finally show ?thesis by (simp add: map_nth)
qed

lemma dominated_by_kept:
  assumes "p \<in> set ps"
  shows "\<exists>q \<in> set (dropDominated ps). suffix (p_nodes p) (p_nodes q)"
proof (cases "\<exists>q \<in> set ps. dominates q p")
  case False
  then show ?thesis using assms by (auto simp: dropDominated_eq)
next
  case True
  then have "\<exists>j < length ps. dominates (ps ! j) p" by (metis in_set_conv_nth)
  from maximal_dominator [OF this] obtain j where j: "j < length ps" "dominates (ps ! j) p"
    "\<not> (\<exists>k < length ps. dominates (ps ! k) (ps ! j))" by blast
  then have "ps ! j \<in> set (dropDominated ps)" by (auto simp: dropDominated_eq in_set_conv_nth)
  then show ?thesis using j(2) unfolding dominates_def by blast
qed

section \<open>Candidates\<close>

lemma add_paths_sub: "set (snd (foldl add_path acc ps)) \<subseteq> set (snd acc) \<union> set ps"
proof (induction ps arbitrary: acc)
  case (Cons p ps)
  have "set (snd (add_path acc p)) \<subseteq> insert p (set (snd acc))" by (cases acc) (auto simp: add_path_def Let_def)
  then show ?case using Cons.IH [of "add_path acc p"] by auto
qed simp

lemma add_paths_seen:
  "set (fst acc) = pathKey ` set (snd acc) \<Longrightarrow>
     set (fst (foldl add_path acc ps)) = pathKey ` set (snd (foldl add_path acc ps)) \<and>
     pathKey ` set (snd (foldl add_path acc ps)) = pathKey ` set (snd acc) \<union> pathKey ` set ps"
proof (induction ps arbitrary: acc)
  case (Cons p ps)
  obtain seen out where acc: "acc = (seen, out)" by (cases acc)
  have "set seen = pathKey ` set out" using Cons.prems acc by simp
  then have "set (fst (add_path acc p)) = pathKey ` set (snd (add_path acc p)) \<and>
      pathKey ` set (snd (add_path acc p)) = insert (pathKey p) (pathKey ` set (snd acc))"
    unfolding acc add_path_def Let_def by (cases "pathKey p \<in> set seen") auto
  then show ?case using Cons.IH [of "add_path acc p"] by auto
qed simp

definition all_paths :: "string list \<Rightarrow> snapshot \<Rightarrow> options \<Rightarrow> path set" where
  "all_paths ids s opt = (\<Union>v \<in> set (entryPoints ids s). set (paths_from s opt v))"

lemma entries_sub:
  "set (snd (foldl (\<lambda>acc v. foldl add_path acc (f v)) acc vs)) \<subseteq> set (snd acc) \<union> (\<Union>v \<in> set vs. set (f v))"
proof (induction vs arbitrary: acc)
  case (Cons v vs)
  show ?case
  proof
    fix x assume "x \<in> set (snd (foldl (\<lambda>acc v. foldl add_path acc (f v)) acc (v # vs)))"
    then have "x \<in> set (snd (foldl add_path acc (f v))) \<or> x \<in> (\<Union>v \<in> set vs. set (f v))"
      using Cons.IH [of "foldl add_path acc (f v)"] by (simp only: foldl.simps subset_iff Un_iff)
    then show "x \<in> set (snd acc) \<union> (\<Union>v \<in> set (v # vs). set (f v))"
      using add_paths_sub [of acc "f v"] by auto
  qed
qed simp

lemma entries_keys:
  "set (fst acc) = pathKey ` set (snd acc) \<Longrightarrow>
    pathKey ` set (snd (foldl (\<lambda>acc v. foldl add_path acc (f v)) acc vs)) =
      pathKey ` set (snd acc) \<union> (\<Union>v \<in> set vs. pathKey ` set (f v))"
proof (induction vs arbitrary: acc)
  case (Cons v vs)
  note a = add_paths_seen [OF Cons.prems, of "f v"]
  show ?case unfolding foldl.simps Cons.IH [OF conjunct1 [OF a]] conjunct2 [OF a] by (simp only: set_simps UN_insert Un_assoc)
qed simp

lemma candidates_paths:
  "set (candidates ids s opt) \<subseteq> all_paths ids s opt \<and> pathKey ` set (candidates ids s opt) = pathKey ` all_paths ids s opt"
  using entries_sub [of "paths_from s opt" "([], [])" "entryPoints ids s"] entries_keys [of "([], [])" "paths_from s opt" "entryPoints ids s"]
  by (simp add: candidates_def all_paths_def image_UN)

text \<open>The key of a path names its nodes when no node id contains the separator.\<close>

lemma split_on_no_sep: "c \<notin> set x \<Longrightarrow> split_on c x = [x]"
  by (induction x) (auto split: list.split)

lemma split_on_append: "c \<notin> set x \<Longrightarrow> split_on c (x @ c # ys) = x # split_on c ys"
  by (induction x) auto

lemma key_split_join:
  "xs \<noteq> [] \<Longrightarrow> (\<And>x. x \<in> set xs \<Longrightarrow> c \<notin> set x) \<Longrightarrow> split_on c (join_with [c] xs) = xs"
proof (induction xs)
  case (Cons x xs)
  show ?case
  proof (cases "xs = []")
    case True
    then show ?thesis using Cons.prems by (simp add: split_on_no_sep)
  next
    case False
    then show ?thesis using Cons by (simp add: join_with_Cons split_on_append)
  qed
qed simp

lemma hypotheses_sub: "set (hypotheses ids s opt) \<subseteq> all_paths ids s opt"
proof -
  have "set (hypotheses ids s opt) \<subseteq> set (dropDominated (candidates ids s opt))"
    unfolding hypotheses_def Let_def by (auto dest: in_set_takeD)
  then show ?thesis using candidates_paths [of ids s opt] by (auto simp: dropDominated_eq)
qed

lemma hypotheses_all:
  assumes "int (length (dropDominated (candidates ids s opt))) \<le> op_maxHypotheses opt"
  shows "set (hypotheses ids s opt) = set (dropDominated (candidates ids s opt))"
proof -
  have "length (sort_by lt xs) = length xs" for lt and xs :: "path list" by (metis mset_sort_by size_mset)
  then show ?thesis using assms by (simp add: hypotheses_def Let_def)
qed

section \<open>What validation, correlation and advice do to the findings\<close>

definition core :: "attack_finding \<Rightarrow> attack_finding" where
  "core a = a\<lparr>af_corroborates := [], af_remediation := No_advice\<rparr>"

lemma core_select [simp]:
  "af_nodes (core a) = af_nodes a" "af_edges (core a) = af_edges a" "af_rung (core a) = af_rung a"
  "af_evidence (core a) = af_evidence a" "af_verification (core a) = af_verification a" "af_id (core a) = af_id a"
  by (simp_all add: core_def)

lemma attach_core: "map core (attachCorroborates res fid as) = map core as"
  by (induction as) (auto simp: core_def)

lemma correlate_core: "map core (as_paths (correlateProwler reals fs rep)) = map core (as_paths rep)"
proof -
  have one: "map core (as_paths (correlate_one reals rep f)) = map core (as_paths rep)" for rep f
    by (simp add: correlate_one_def Let_def attach_core)
  show ?thesis unfolding correlateProwler_def by (induction fs arbitrary: rep) (simp_all add: one)
qed

lemma annotate_core: "map core (as_paths (annotateRemediation use rep)) = map core (as_paths rep)"
  by (auto simp: annotateRemediation_def core_def split: option.splits)

text \<open>The validator saw a path in some state, reached from \<open>v\<close> by the paths before it, and answered.\<close>

definition val_states :: "'v validator \<Rightarrow> 'v \<Rightarrow> path list \<Rightarrow> 'v" where
  "val_states V v ps = foldl (\<lambda>v p. fst (V v p)) v ps"

definition answered :: "'v validator \<Rightarrow> 'v \<Rightarrow> path list \<Rightarrow> path \<Rightarrow> bool \<times> int \<times> evidence list \<Rightarrow> bool" where
  "answered V v ps p ans \<longleftrightarrow> (\<exists>pre post. ps = pre @ p # post \<and> snd (V (val_states V v pre) p) = ans)"

definition accepted :: "snapshot \<Rightarrow> 'v validator \<Rightarrow> 'v \<Rightarrow> path list \<Rightarrow> path \<Rightarrow> attack_finding \<Rightarrow> bool" where
  "accepted s V v ps p a \<longleftrightarrow> (\<exists>i rung ev. answered V v ps p (True, rung, ev) \<and> a = buildFinding s i p rung ev)"

lemma answered_snoc:
  "answered V v (ps @ [q]) p ans \<longleftrightarrow> answered V v ps p ans \<or> p = q \<and> snd (V (val_states V v ps) q) = ans"
proof
  assume "answered V v (ps @ [q]) p ans"
  then obtain pre post where e: "ps @ [q] = pre @ p # post" "snd (V (val_states V v pre) p) = ans" unfolding answered_def by blast
  then show "answered V v ps p ans \<or> p = q \<and> snd (V (val_states V v ps) q) = ans"
    by (cases post rule: rev_cases) (auto simp: answered_def)
next
  assume "answered V v ps p ans \<or> p = q \<and> snd (V (val_states V v ps) q) = ans"
  then show "answered V v (ps @ [q]) p ans" unfolding answered_def
    by (elim disjE exE conjE) (metis append.assoc append_Cons, blast)
qed

lemma buildFinding_select [simp]:
  "af_nodes (buildFinding s i p rung ev) = p_nodes p" "af_edges (buildFinding s i p rung ev) = p_edges p"
  "af_rung (buildFinding s i p rung ev) = rung" "af_evidence (buildFinding s i p rung ev) = ev"
  "af_verification (buildFinding s i p rung ev) = (if 4 \<le> rung then Verified else if 3 \<le> rung then Corroborated else Pattern_match)"
  by (simp_all add: buildFinding_def Let_def)

lemma validated_run:
  "pr_validator (validated s V v ps) = val_states V v ps \<and>
   (\<forall>a \<in> set (pr_paths (validated s V v ps)). \<exists>p. accepted s V v ps p a) \<and>
   (\<forall>p rung ev. answered V v ps p (True, rung, ev) \<longrightarrow>
      (\<exists>a \<in> set (pr_paths (validated s V v ps)). af_nodes a = p_nodes p \<and> af_edges a = p_edges p)) \<and>
   pr_onRealPath (validated s V v ps) = concat (map af_nodes (pr_paths (validated s V v ps)))"
proof (induction ps rule: rev_induct)
  case Nil
  then show ?case by (simp add: validated_def val_states_def answered_def accepted_def)
next
  case (snoc q ps)
  let ?g = "validated s V v ps"
  have step: "validated s V v (ps @ [q]) = validate_one s V ?g q" by (simp add: validated_def)
  obtain w ok rung ev where ans: "V (val_states V v ps) q = (w, ok, rung, ev)" by (cases "V (val_states V v ps) q") auto
  have old: "accepted s V v (ps @ [q]) p a" if "accepted s V v ps p a" for p a
    using that unfolding accepted_def answered_snoc by blast
  have keep: "\<forall>a \<in> set (pr_paths ?g). \<exists>p. accepted s V v (ps @ [q]) p a" using snoc.IH old by blast
  show ?case
  proof (cases ok)
    case False
    then have "validated s V v (ps @ [q]) = ?g\<lparr>pr_validator := w\<rparr>"
      using step snoc ans by (simp add: validate_one_def)
    moreover have "val_states V v (ps @ [q]) = w" using ans by (simp add: val_states_def)
    moreover have "answered V v (ps @ [q]) p (True, r, e) \<longleftrightarrow> answered V v ps p (True, r, e)" for p r e
      using ans False by (simp add: answered_snoc)
    ultimately show ?thesis using snoc.IH keep by simp
  next
    case True
    let ?a = "buildFinding s (finding_id ''acp'' (pr_count ?g + 1)) q rung ev"
    have v: "pr_paths (validated s V v (ps @ [q])) = pr_paths ?g @ [?a]"
      "pr_onRealPath (validated s V v (ps @ [q])) = pr_onRealPath ?g @ p_nodes q"
      "pr_validator (validated s V v (ps @ [q])) = w"
      using step snoc ans True by (simp_all add: validate_one_def)
    have w: "val_states V v (ps @ [q]) = w" using ans by (simp add: val_states_def)
    have new: "accepted s V v (ps @ [q]) q ?a" using ans True by (auto simp: accepted_def answered_snoc)
    show ?thesis unfolding v w
    proof (intro conjI)
      show "\<forall>a \<in> set (pr_paths ?g @ [?a]). \<exists>p. accepted s V v (ps @ [q]) p a" using keep new by auto
      show "\<forall>p rung ev. answered V v (ps @ [q]) p (True, rung, ev) \<longrightarrow>
          (\<exists>a \<in> set (pr_paths ?g @ [?a]). af_nodes a = p_nodes p \<and> af_edges a = p_edges p)"
        using snoc.IH unfolding answered_snoc by auto
      show "pr_onRealPath ?g @ p_nodes q = concat (map af_nodes (pr_paths ?g @ [?a]))" using snoc.IH by simp
    qed simp
  qed
qed

lemma accepted_is_reported:
  "answered V v ps p (True, rung, ev) \<Longrightarrow>
     \<exists>a \<in> set (pr_paths (validated s V v ps)). af_nodes a = p_nodes p \<and> af_edges a = p_edges p"
  using validated_run [of s V v ps] by blast

section \<open>What is reported is real\<close>

lemma Assess_paths:
  "map core (as_paths (snd (Assess digest env ids s prowler V v opt))) =
     (let o' = withDefaults opt; t = pruned env s; g = validated t V v (hypotheses ids t o') in
      map core (pr_paths g @ DSPMExposures ids t (pr_onRealPath g) @ WorkloadExposures ids t (op_vulns o') (pr_onRealPath g)))"
  by (simp add: Assess_def Let_def annotate_core correlate_core del: map_append)

lemma core_mem:
  assumes "a \<in> set xs" "map core xs = map core ys"
  obtains b where "b \<in> set ys" "core a = core b"
proof -
  have "core a \<in> set (map core ys)" using assms by (metis image_eqI list.set_map)
  then show thesis using that by auto
qed

lemma same_core:
  assumes "core a = core b"
  shows "af_nodes a = af_nodes b" "af_edges a = af_edges b" "af_rung a = af_rung b" "af_evidence a = af_evidence b"
    "af_verification a = af_verification b"
  using assms by (metis core_select)+

lemma pruned_nodes [simp]: "s_nodes (pruned env s) = s_nodes s"
  by (simp add: pruned_def)

lemma defaults_pos: "0 < op_maxDepth (withDefaults opt)" "0 < op_maxHypotheses (withDefaults opt)"
  "op_vulns (withDefaults opt) = op_vulns opt"
  by (simp_all add: withDefaults_def Let_def)

definition real_path :: "prune_env \<Rightarrow> snapshot \<Rightarrow> options \<Rightarrow> path \<Rightarrow> bool" where
  "real_path env s opt p \<longleftrightarrow>
     (\<exists>entry. (entry = InternetID \<or> is_public s entry) \<and> p_nodes p = visited entry (p_edges p) \<and>
        attack_path s jewel (allows_kind (Some AllAttackEdges)) entry (p_edges p) \<and>
        list_all (\<lambda>e. \<not> blocked_edge env s e) (p_edges p) \<and> int (length (p_edges p)) \<le> op_maxDepth (withDefaults opt))"

lemma hypotheses_real:
  assumes "p \<in> set (hypotheses ids (pruned env s) (withDefaults opt))"
  shows "real_path env s opt p"
proof -
  obtain entry where e: "entry \<in> set (entryPoints ids (pruned env s))" "p \<in> set (paths_from (pruned env s) (withDefaults opt) entry)"
    using assms hypotheses_sub unfolding all_paths_def by blast
  have "entry = InternetID \<or> is_public s entry" using e(1) by (auto simp: entryPoints_def is_public_def)
  moreover note f = FindPaths_sound [OF e(2) [unfolded paths_from_def]]
  moreover have "int (length (p_edges p)) \<le> op_maxDepth (withDefaults opt)"
    using f defaults_pos(1) [of opt] by (simp add: depth_of_def le_nat_iff split: if_splits)
  ultimately show ?thesis unfolding real_path_def pruned_def attack_path_pruned by blast
qed

definition exposed :: "snapshot \<Rightarrow> workload_vuln list \<Rightarrow> string \<Rightarrow> bool" where
  "exposed s vulns i \<longleftrightarrow>
     (\<exists>n. s_nodes s i = Some n \<and> n_public n \<and>
        (n_sensitive n \<noteq> SensNone \<and> isDataStore n \<or>
         (\<exists>w \<in> set vulns. wv_image w = imageRef n \<and> (0 < wv_critical w \<or> 0 < wv_high w))))"

lemma vuln_table_dom:
  "map_of (vuln_table vs) x \<noteq> None \<longleftrightarrow> (\<exists>w \<in> set vs. wv_image w = x \<and> (0 < wv_critical w \<or> 0 < wv_high w))"
proof -
  have "map_of (foldl (\<lambda>m v. if 0 < wv_critical v \<or> 0 < wv_high v then put (wv_image v) v m else m) m vs) x \<noteq> None \<longleftrightarrow>
      map_of m x \<noteq> None \<or> (\<exists>w \<in> set vs. wv_image w = x \<and> (0 < wv_critical w \<or> 0 < wv_high w))" for m
    by (induction vs arbitrary: m) auto
  from this [of "[]"] show ?thesis by (simp add: vuln_table_def)
qed

lemma numbered_mem:
  assumes "a \<in> set (map (\<lambda>(k, i). F k i) (numbered xs))"
  obtains k i where "i \<in> set xs" "a = F k i"
proof -
  from assms obtain k i where "(k, i) \<in> set (numbered xs)" "a = F k i" by auto
  moreover then have "i \<in> set xs" unfolding numbered_def by (blast dest: set_zip_rightD)
  ultimately show thesis using that by blast
qed

lemma mem_numbered:
  assumes "i \<in> set xs" "\<And>k. P (F k i)"
  shows "\<exists>b \<in> set (map (\<lambda>(k, i). F k i) (numbered xs)). P b"
proof -
  obtain j where j: "j < length xs" "i = xs ! j" using assms(1) by (auto simp: in_set_conv_nth)
  then have "(j, i) \<in> set (numbered xs)" by (auto simp: numbered_def set_zip intro!: exI [of _ j])
  then show ?thesis using assms(2) by fastforce
qed

definition exposure_of :: "snapshot \<Rightarrow> workload_vuln list \<Rightarrow> string list \<Rightarrow> string list \<Rightarrow> attack_finding \<Rightarrow> bool" where
  "exposure_of s vulns ids cov a \<longleftrightarrow>
     (\<exists>i \<in> set ids. af_nodes a = [InternetID, i] \<and> af_rung a = 1 \<and> af_verification a = Pattern_match \<and> i \<notin> set cov \<and> exposed s vulns i)"

lemma dspm_exposure:
  assumes "a \<in> set (DSPMExposures ids s cov)"
  shows "exposure_of s vulns ids cov a"
proof -
  from assms obtain k i where i: "i \<in> set (sort_by str_less (filter (\<lambda>i. (case s_nodes s i of None \<Rightarrow> False | Some n \<Rightarrow> publicSensitive n) \<and> i \<notin> set cov) ids))"
    "a = (buildFinding s (finding_id ''dspm'' (k + 1)) (one_hop i) 1 [\<lparr>ev_observation = ''config'', ev_rung = 0\<rparr>])\<lparr>af_remediation := Close_store\<rparr>"
    unfolding DSPMExposures_def Let_def by (rule numbered_mem)
  then have "i \<in> set ids" "i \<notin> set cov" "exposed s vulns i"
    by (auto simp: exposed_def publicSensitive_def split: option.splits)
  then show ?thesis using i(2) unfolding exposure_of_def by (intro bexI [of _ i]) (simp_all add: one_hop_def)
qed

lemma cwpp_exposure:
  assumes "a \<in> set (WorkloadExposures ids s vulns cov)"
  shows "exposure_of s vulns ids cov a"
proof -
  from assms obtain k i where i: "i \<in> set (sort_by str_less (filter (\<lambda>i. i \<notin> set cov \<and>
      (case s_nodes s i of None \<Rightarrow> False | Some n \<Rightarrow> n_public n \<and> map_of (vuln_table vulns) (imageRef n) \<noteq> None)) ids))"
    "a = (buildFinding s (finding_id ''cwpp'' (k + 1)) (one_hop i) 1 [\<lparr>ev_observation = ''scanned'', ev_rung = 2\<rparr>])
       \<lparr>af_remediation := Patch_image (case s_nodes s i of None \<Rightarrow> '''' | Some n \<Rightarrow> imageRef n)\<rparr>"
    unfolding WorkloadExposures_def Let_def by (rule numbered_mem)
  from i(1) obtain n where n: "i \<in> set ids" "i \<notin> set cov" "s_nodes s i = Some n" "n_public n" "map_of (vuln_table vulns) (imageRef n) \<noteq> None"
    by (auto split: option.splits)
  then have "exposed s vulns i" unfolding exposed_def vuln_table_dom by blast
  then show ?thesis using i(2) n unfolding exposure_of_def by (intro bexI [of _ i]) (simp_all add: one_hop_def)
qed

lemma reported_cases:
  assumes "a \<in> set (as_paths (snd (Assess digest env ids s prowler V v opt)))"
  shows "(real_path env s opt \<lparr>p_nodes = af_nodes a, p_edges = af_edges a\<rparr> \<and>
      answered V v (hypotheses ids (pruned env s) (withDefaults opt)) \<lparr>p_nodes = af_nodes a, p_edges = af_edges a\<rparr>
        (True, af_rung a, af_evidence a)) \<or>
    (\<exists>i \<in> set ids. af_nodes a = [InternetID, i] \<and> af_rung a = 1 \<and> af_verification a = Pattern_match \<and>
      exposed s (op_vulns opt) i)"
proof -
  let ?t = "pruned env s"
  let ?hyps = "hypotheses ids ?t (withDefaults opt)"
  let ?g = "validated ?t V v ?hyps"
  obtain b where b: "b \<in> set (pr_paths ?g @ DSPMExposures ids ?t (pr_onRealPath ?g) @ WorkloadExposures ids ?t (op_vulns opt) (pr_onRealPath ?g))"
    "core a = core b"
    using core_mem [OF assms Assess_paths [unfolded Let_def]] unfolding defaults_pos by blast
  show ?thesis
  proof (cases "b \<in> set (pr_paths ?g)")
    case True
    then obtain p i rung ev where p: "answered V v ?hyps p (True, rung, ev)" "b = buildFinding ?t i p rung ev"
      using validated_run [of ?t V v ?hyps] unfolding accepted_def by blast
    then have "p \<in> set ?hyps" by (auto simp: answered_def)
    then have "real_path env s opt p" by (rule hypotheses_real)
    moreover have "p = \<lparr>p_nodes = af_nodes a, p_edges = af_edges a\<rparr>" "rung = af_rung a" "ev = af_evidence a"
      using same_core [OF b(2)] p(2) by simp_all
    ultimately show ?thesis using p(1) by metis
  next
    case False
    then have "b \<in> set (DSPMExposures ids ?t (pr_onRealPath ?g)) \<or> b \<in> set (WorkloadExposures ids ?t (op_vulns opt) (pr_onRealPath ?g))"
      using b(1) by simp
    then have "exposure_of ?t (op_vulns opt) ids (pr_onRealPath ?g) b" using dspm_exposure cwpp_exposure by blast
    then show ?thesis using same_core [OF b(2)] unfolding exposure_of_def exposed_def by auto
  qed
qed

text \<open>C34: what an assessment reports is real. Whatever the validator, every reported path is either a simple path of
  the account's graph from the internet or a public node to sensitive data or a privileged identity, over edges no
  security group or policy definitively refuses, within the depth asked for, which the validator was asked about
  and accepted with exactly the evidence shown; or it is the one hop to a public store of sensitive data or a
  public workload whose image has a critical or high vulnerability, and is then reported as a pattern only.
\<close>

theorem reported_paths_are_real:
  assumes "a \<in> set (as_paths (snd (Assess digest env ids s prowler V v opt)))"
  shows "(real_path env s opt \<lparr>p_nodes = af_nodes a, p_edges = af_edges a\<rparr> \<and>
      answered V v (hypotheses ids (pruned env s) (withDefaults opt)) \<lparr>p_nodes = af_nodes a, p_edges = af_edges a\<rparr>
        (True, af_rung a, af_evidence a)) \<or>
    (\<exists>i \<in> set ids. af_nodes a = [InternetID, i] \<and> af_rung a = 1 \<and> af_verification a = Pattern_match \<and>
      exposed s (op_vulns opt) i)"
  using assms by (rule reported_cases)

section \<open>What is not missed\<close>

lemma join_key: "pathKey p = join_with [CHR ''>''] (p_nodes p)"
  by (simp add: pathKey_def)

lemma pathKey_inj:
  assumes "pathKey p = pathKey q" "p_nodes p \<noteq> []" "p_nodes q \<noteq> []"
    and "\<forall>x \<in> set (p_nodes p) \<union> set (p_nodes q). CHR ''>'' \<notin> set x"
  shows "p_nodes p = p_nodes q"
proof -
  have "split_on (CHR ''>'') (pathKey p) = p_nodes p" unfolding join_key by (rule key_split_join) (use assms(2,4) in blast)+
  moreover have "split_on (CHR ''>'') (pathKey q) = p_nodes q" unfolding join_key by (rule key_split_join) (use assms(3,4) in blast)+
  ultimately show ?thesis using assms(1) by metis
qed

lemma visited_plain:
  assumes "es \<noteq> []" "walk v es" "\<forall>e \<in> set es. CHR ''>'' \<notin> set (e_from e) \<and> CHR ''>'' \<notin> set (e_to e)"
  shows "visited v es \<noteq> [] \<and> (\<forall>x \<in> set (visited v es). CHR ''>'' \<notin> set x)"
  using assms by (cases es) (auto simp: visited_def)

definition plain_ids :: "snapshot \<Rightarrow> bool" where
  "plain_ids s \<longleftrightarrow> (\<forall>e \<in> set (s_edges s). CHR ''>'' \<notin> set (e_from e) \<and> CHR ''>'' \<notin> set (e_to e))"

text \<open>Neither the per-entry search nor the worklist was cut off.\<close>

definition caps_hold :: "string list \<Rightarrow> snapshot \<Rightarrow> options \<Rightarrow> bool" where
  "caps_hold ids s opt \<longleftrightarrow>
     (\<forall>v \<in> set (entryPoints ids s). int (length (paths_from s opt v)) < op_maxHypotheses opt) \<and>
     int (length (dropDominated (candidates ids s opt))) \<le> op_maxHypotheses opt"

lemma real_plain:
  assumes "real_path env s opt p" "plain_ids s"
  shows "p_nodes p \<noteq> [] \<and> (\<forall>x \<in> set (p_nodes p). CHR ''>'' \<notin> set x)"
proof -
  obtain entry where e: "p_nodes p = visited entry (p_edges p)"
    "attack_path s jewel (allows_kind (Some AllAttackEdges)) entry (p_edges p)" using assms(1) unfolding real_path_def by blast
  then show ?thesis using visited_plain [of "p_edges p" entry] assms(2) unfolding attack_path_def plain_ids_def by auto
qed

lemma all_paths_real:
  assumes "p \<in> all_paths ids (pruned env s) (withDefaults opt)"
  shows "real_path env s opt p"
proof -
  obtain entry where e: "entry \<in> set (entryPoints ids (pruned env s))" "p \<in> set (paths_from (pruned env s) (withDefaults opt) entry)"
    using assms unfolding all_paths_def by blast
  have "entry = InternetID \<or> is_public s entry" using e(1) by (auto simp: entryPoints_def is_public_def)
  moreover note f = FindPaths_sound [OF e(2) [unfolded paths_from_def]]
  moreover have "int (length (p_edges p)) \<le> op_maxDepth (withDefaults opt)"
    using f defaults_pos(1) [of opt] by (simp add: depth_of_def le_nat_iff split: if_splits)
  ultimately show ?thesis unfolding real_path_def pruned_def attack_path_pruned by blast
qed

lemma real_is_hypothesis:
  assumes "real_path env s opt p" "plain_ids s" "caps_hold ids (pruned env s) (withDefaults opt)"
    and "\<And>i. is_public s i \<Longrightarrow> i \<in> set ids" "s_nodes s InternetID \<noteq> None"
  shows "\<exists>q \<in> set (hypotheses ids (pruned env s) (withDefaults opt)). suffix (p_nodes p) (p_nodes q)"
proof -
  let ?t = "pruned env s" and ?o = "withDefaults opt"
  obtain entry where e: "entry = InternetID \<or> is_public s entry" "p_nodes p = visited entry (p_edges p)"
    "attack_path s jewel (allows_kind (Some AllAttackEdges)) entry (p_edges p)"
    "list_all (\<lambda>e. \<not> blocked_edge env s e) (p_edges p)" "int (length (p_edges p)) \<le> op_maxDepth ?o"
    using assms(1) unfolding real_path_def by blast
  have entry: "entry \<in> set (entryPoints ids ?t)" using e(1) assms(4) by (auto simp: entryPoints_def is_public_def)
  have node: "s_nodes ?t entry \<noteq> None" using e(1) assms(5) by (auto simp: is_public_def split: option.splits)
  have "int (length (paths_from ?t ?o entry)) < op_maxHypotheses ?o" using assms(3) entry unfolding caps_hold_def by blast
  then have cap: "length (FindPaths ?t entry (Some jewel) (Some AllAttackEdges) (op_maxDepth ?o) (op_maxHypotheses ?o)) < cap_of (op_maxHypotheses ?o)"
    by (simp add: paths_from_def cap_of_def)
  have "attack_path ?t jewel (allows_kind (Some AllAttackEdges)) entry (p_edges p)"
    unfolding pruned_def attack_path_pruned using e(3,4) by blast
  from FindPaths_complete [OF node cap this] have "\<lparr>p_nodes = visited entry (p_edges p), p_edges = p_edges p\<rparr> \<in> set (paths_from ?t ?o entry)"
    using e(5) defaults_pos(1) [of opt] by (simp add: depth_of_def le_nat_iff paths_from_def)
  then have "p \<in> all_paths ids ?t ?o" using entry e(2) unfolding all_paths_def by (cases p) auto
  then have "pathKey p \<in> pathKey ` set (candidates ids ?t ?o)" using candidates_paths by (metis image_eqI)
  then obtain q where q: "q \<in> set (candidates ids ?t ?o)" "pathKey p = pathKey q" by blast
  then have "real_path env s opt q" using candidates_paths all_paths_real by blast
  then have "p_nodes p = p_nodes q"
    using pathKey_inj [OF q(2)] real_plain [OF _ assms(2)] assms(1) by blast
  moreover obtain r where "r \<in> set (dropDominated (candidates ids ?t ?o))" "suffix (p_nodes q) (p_nodes r)"
    using dominated_by_kept [OF q(1)] by blast
  moreover have "set (hypotheses ids ?t ?o) = set (dropDominated (candidates ids ?t ?o))"
    by (rule hypotheses_all) (use assms(3) in \<open>simp add: caps_hold_def\<close>)
  ultimately show ?thesis by auto
qed

lemma exposure_reported:
  assumes "exposed s vulns i" "i \<in> set ids" "i \<notin> set cov"
  shows "\<exists>b \<in> set (DSPMExposures ids (pruned env s) cov) \<union> set (WorkloadExposures ids (pruned env s) vulns cov). i \<in> set (af_nodes b)"
proof -
  obtain n where n: "s_nodes s i = Some n" "n_public n"
    "n_sensitive n \<noteq> SensNone \<and> isDataStore n \<or> map_of (vuln_table vulns) (imageRef n) \<noteq> None"
    using assms(1) unfolding exposed_def vuln_table_dom by blast
  show ?thesis
  proof (cases "publicSensitive n")
    case True
    then have "i \<in> set (sort_by str_less (filter (\<lambda>i. (case s_nodes s i of None \<Rightarrow> False | Some n \<Rightarrow> publicSensitive n) \<and> i \<notin> set cov) ids))"
      using n assms by simp
    then show ?thesis unfolding bex_Un DSPMExposures_def Let_def pruned_nodes
      by (intro disjI1 mem_numbered, assumption) (simp add: one_hop_def)
  next
    case False
    then have "map_of (vuln_table vulns) (imageRef n) \<noteq> None" using n(2,3) unfolding publicSensitive_def by blast
    then have "i \<in> set (sort_by str_less (filter (\<lambda>i. i \<notin> set cov \<and>
        (case s_nodes s i of None \<Rightarrow> False | Some n \<Rightarrow> n_public n \<and> map_of (vuln_table vulns) (imageRef n) \<noteq> None)) ids))"
      using n assms by simp
    then show ?thesis unfolding bex_Un WorkloadExposures_def Let_def pruned_nodes
      by (intro disjI2 mem_numbered, assumption) (simp add: one_hop_def)
  qed
qed

lemma every_hypothesis_answered: "p \<in> set ps \<Longrightarrow> \<exists>ans. answered V v ps p ans"
  unfolding answered_def by (metis split_list)

lemma reported_core:
  assumes "b \<in> set (pr_paths (validated (pruned env s) V v (hypotheses ids (pruned env s) (withDefaults opt))) @
      DSPMExposures ids (pruned env s) (pr_onRealPath (validated (pruned env s) V v (hypotheses ids (pruned env s) (withDefaults opt)))) @
      WorkloadExposures ids (pruned env s) (op_vulns opt)
        (pr_onRealPath (validated (pruned env s) V v (hypotheses ids (pruned env s) (withDefaults opt)))))"
  shows "\<exists>a \<in> set (as_paths (snd (Assess digest env ids s prowler V v opt))). core a = core b"
proof -
  obtain a where "a \<in> set (as_paths (snd (Assess digest env ids s prowler V v opt)))" "core b = core a"
    using core_mem [OF assms Assess_paths [unfolded Let_def defaults_pos(3), symmetric]] .
  then show ?thesis by metis
qed


end
