(* ===== verification/CloudEngineLive.thy ===== *)
theory CloudEngineLive
  imports CloudEngineProps
begin

text \<open>
  The live validator of internal/cloudengine (live.go) inside the guard of internal/cloudsafety: what a finding it
  labels stands on, what its calls cost, the edges it never looks at; and the advice to cut an edge, which is the
  one shared by most of the reported paths.
\<close>

section \<open>What a confirmation stands on\<close>

definition grown :: "guard \<Rightarrow> guard \<Rightarrow> bool" where
  "grown g g' \<longleftrightarrow> (\<exists>as. g' = foldl attempt g as)"

lemma grown_refl [simp]: "grown g g"
  unfolding grown_def by (rule exI [of _ "[]"]) simp

lemma grown_trans: "grown g1 g2 \<Longrightarrow> grown g2 g3 \<Longrightarrow> grown g1 g3"
  unfolding grown_def by (metis foldl_append)

lemma attempt_log: "set (gd_log g) \<subseteq> set (gd_log (attempt g a))"
  by (cases a) (auto simp: Allow_def Let_def)

lemma grown_log: "grown g g' \<Longrightarrow> set (gd_log g) \<subseteq> set (gd_log g')"
proof -
  have "set (gd_log g) \<subseteq> set (gd_log (foldl attempt g as))" for as
    by (induction as arbitrary: g) (use attempt_log in fastforce)+
  then show "grown g g' \<Longrightarrow> set (gd_log g) \<subseteq> set (gd_log g')" by (auto simp: grown_def)
qed

text \<open>The call is on the trail, allowed, for this path.\<close>

definition asked :: "guard \<Rightarrow> string \<Rightarrow> string \<Rightarrow> bool" where
  "asked g action hyp \<longleftrightarrow> (\<exists>c \<in> set (gd_log g). ca_allowed c \<and> ca_action c = action \<and> ca_hypothesis c = hyp)"

lemma asked_grown: "asked g action hyp \<Longrightarrow> grown g g' \<Longrightarrow> asked g' action hyp"
  using grown_log unfolding asked_def by blast

lemma guarded_cases:
  assumes "guarded now action hyp rung answer lv = (lv', ok, item)"
  shows "grown (lv_guard lv) (lv_guard lv') \<and> (ok \<longrightarrow> answer = Some True \<and> asked (lv_guard lv') action hyp)"
proof -
  have "lv_guard lv' = attempt (lv_guard lv) (action, hyp, now)"
    using assms unfolding guarded_def by (auto split: prod.splits option.splits)
  then have "lv_guard lv' = foldl attempt (lv_guard lv) [(action, hyp, now)]" by simp
  then have "grown (lv_guard lv) (lv_guard lv')" unfolding grown_def by blast
  moreover have "answer = Some True \<and> asked (lv_guard lv') action hyp" if ok
    using assms that unfolding guarded_def asked_def Allow_def Let_def by (auto split: prod.splits option.splits if_splits)
  ultimately show ?thesis by blast
qed

definition edge_checked :: "analyzer \<Rightarrow> guard \<Rightarrow> string \<Rightarrow> edge \<Rightarrow> bool" where
  "edge_checked an g hyp e \<longleftrightarrow>
     (e_kind e = EdgeNetworkReach \<longrightarrow> an_reachable an (e_from e) (e_to e) = Some True \<and> asked g actReachable hyp) \<and>
     (e_kind e \<in> {EdgeAssumeRole, EdgeHasAccess, EdgePrivesc} \<longrightarrow>
        an_permActive an (e_from e) (kind_string (e_kind e)) = Some True \<and> asked g actPermActive hyp \<and>
        (e_condition e \<noteq> '''' \<longrightarrow> an_probe an (e_from e) (e_to e) = Some True \<and> asked g actProbe hyp))"

lemma edge_checked_grown: "edge_checked an g hyp e \<Longrightarrow> grown g g' \<Longrightarrow> edge_checked an g' hyp e"
  unfolding edge_checked_def using asked_grown by blast

lemma live_edges_checked:
  "live_edges an now m hyp r ev lv es = (lv', ok, r', ev') \<Longrightarrow>
     grown (lv_guard lv) (lv_guard lv') \<and> (ok \<longrightarrow> (\<forall>e \<in> set es. edge_checked an (lv_guard lv') hyp e))"
proof (induction an now m hyp r ev lv es arbitrary: lv' ok r' ev' rule: live_edges.induct)
  case (1 an now m hyp r ev lv)
  then show ?case by simp
next
  case (2 an now m hyp r ev lv e es)
  consider (net) "e_kind e = EdgeNetworkReach" | (perm) "e_kind e \<in> {EdgeAssumeRole, EdgeHasAccess, EdgePrivesc}"
    | (runs) "e_kind e = EdgeRunsAs" | (other) "e_kind e \<notin> {EdgeNetworkReach, EdgeAssumeRole, EdgeHasAccess, EdgePrivesc, EdgeRunsAs}"
    by blast
  then show ?case
  proof cases
    case net
    obtain lv1 ok1 item where g: "guarded now actReachable hyp 3 (an_reachable an (e_from e) (e_to e)) lv = (lv1, ok1, item)"
      by (metis prod_cases3)
    note c = guarded_cases [OF g]
    show ?thesis
    proof (cases ok1)
      case False
      then show ?thesis using "2.prems" net g c by simp
    next
      case True
      then have rest: "live_edges an now m hyp (max r 3) (ev @ [item]) lv1 es = (lv', ok, r', ev')" using "2.prems" net g by simp
      note ih = "2.IH"(1) [OF net g [symmetric] refl _ rest]
      have i: "grown (lv_guard lv1) (lv_guard lv')" "ok \<longrightarrow> (\<forall>e \<in> set es. edge_checked an (lv_guard lv') hyp e)" using ih True by simp_all
      have "edge_checked an (lv_guard lv1) hyp e" using c True net by (simp add: edge_checked_def)
      then show ?thesis using i c grown_trans edge_checked_grown by auto
    qed
  next
    case perm
    then have nn: "e_kind e \<noteq> EdgeNetworkReach" by auto
    obtain lv1 ok1 item where g: "guarded now actPermActive hyp 2 (an_permActive an (e_from e) (kind_string (e_kind e))) lv = (lv1, ok1, item)"
      by (metis prod_cases3)
    note c = guarded_cases [OF g]
    show ?thesis
    proof (cases ok1)
      case False
      then show ?thesis using "2.prems" nn perm g c by simp
    next
      case True
      show ?thesis
      proof (cases "e_condition e = ''''")
        case empty: True
        then have rest: "live_edges an now m hyp (max r 2) (ev @ [item]) lv1 es = (lv', ok, r', ev')" using "2.prems" nn perm g True by simp
        have i: "grown (lv_guard lv1) (lv_guard lv')" "ok \<longrightarrow> (\<forall>e \<in> set es. edge_checked an (lv_guard lv') hyp e)"
          using "2.IH"(2) [OF nn perm g [symmetric] refl _ empty rest] True by simp_all
        have "edge_checked an (lv_guard lv1) hyp e" using c True nn empty by (auto simp: edge_checked_def)
        then show ?thesis using i c grown_trans edge_checked_grown by auto
      next
        case cond: False
        show ?thesis
        proof (cases "m < 4")
          case low: True
          then have "lv_guard lv' = lv_guard lv1" "\<not> ok" using "2.prems" nn perm g True cond by auto
          then show ?thesis using c by simp
        next
          case high: False
          obtain lv2 ok2 item2 where g2: "guarded now actProbe hyp 4 (an_probe an (e_from e) (e_to e)) lv1 = (lv2, ok2, item2)"
            by (metis prod_cases3)
          note c2 = guarded_cases [OF g2]
          show ?thesis
          proof (cases ok2)
            case False
            then have "lv' = lv2" "\<not> ok" using "2.prems" nn perm g g2 True cond high by auto
            then show ?thesis using c c2 grown_trans by blast
          next
            case t2: True
            then have rest: "live_edges an now m hyp (max (max r 2) 4) (ev @ [item, item2]) lv2 es = (lv', ok, r', ev')"
              using "2.prems" nn perm g g2 True cond high by simp
            have i: "grown (lv_guard lv2) (lv_guard lv')" "ok \<longrightarrow> (\<forall>e \<in> set es. edge_checked an (lv_guard lv') hyp e)"
              using "2.IH"(3) [OF nn perm g [symmetric] refl _ cond high g2 [symmetric] refl _ rest] True t2 by simp_all
            have "asked (lv_guard lv2) actPermActive hyp" using c c2 True asked_grown by blast
            then have "edge_checked an (lv_guard lv2) hyp e" using c c2 True t2 nn by (auto simp: edge_checked_def)
            then show ?thesis using i c c2 grown_trans edge_checked_grown by (metis set_ConsD)
          qed
        qed
      qed
    qed
  next
    case runs
    then have "live_edges an now m hyp r (ev @ [\<lparr>ev_observation = ''config fact'', ev_rung = 0\<rparr>]) lv es = (lv', ok, r', ev')"
      using "2.prems" by simp
    from "2.IH"(4) [OF _ _ runs this] runs show ?thesis by (auto simp: edge_checked_def)
  next
    case other
    then have "live_edges an now m hyp r ev lv es = (lv', ok, r', ev')" using "2.prems" by simp
    from "2.IH"(5) [OF _ _ _ this] other show ?thesis by (auto simp: edge_checked_def)
  qed
qed

lemma live_validate_checked:
  "LiveValidate an now m lv p = (lv', ok, r, ev) \<Longrightarrow>
     grown (lv_guard lv) (lv_guard lv') \<and> (ok \<longrightarrow> (\<forall>e \<in> set (p_edges p). edge_checked an (lv_guard lv') (pathKey p) e))"
  unfolding LiveValidate_def Let_def by (rule live_edges_checked)

lemma val_states_append: "val_states V v (ps @ qs) = val_states V (val_states V v ps) qs"
  by (simp add: val_states_def)

lemma live_states_grown: "grown (lv_guard lv) (lv_guard (val_states (LiveValidate an now m) lv ps))"
proof (induction ps rule: rev_induct)
  case Nil
  then show ?case by (simp add: val_states_def)
next
  case (snoc p ps)
  obtain w ok r ev where "LiveValidate an now m (val_states (LiveValidate an now m) lv ps) p = (w, ok, r, ev)"
    by (metis prod_cases4)
  then show ?case using snoc live_validate_checked grown_trans by (simp add: val_states_def)
qed

lemma live_answer_checked:
  assumes "answered (LiveValidate an now m) lv ps p (True, r, ev)"
  shows "\<forall>e \<in> set (p_edges p). edge_checked an (lv_guard (val_states (LiveValidate an now m) lv ps)) (pathKey p) e"
proof -
  let ?V = "LiveValidate an now m"
  obtain pre post where s: "ps = pre @ p # post" "snd (?V (val_states ?V lv pre) p) = (True, r, ev)"
    using assms unfolding answered_def by blast
  then have v: "?V (val_states ?V lv pre) p = (fst (?V (val_states ?V lv pre) p), True, r, ev)" by (metis prod.collapse)
  have "val_states ?V lv ps = val_states ?V (fst (?V (val_states ?V lv pre) p)) post"
    by (simp add: s(1) val_states_def)
  then have "grown (lv_guard (fst (?V (val_states ?V lv pre) p))) (lv_guard (val_states ?V lv ps))"
    using live_states_grown by metis
  then show ?thesis using live_validate_checked [OF v] edge_checked_grown by blast
qed

lemma grown_envelope:
  assumes "grown (NewGuard budget) g"
  shows "(\<forall>c \<in> set (gd_log g). ca_allowed c \<longrightarrow> ReadOnly (ca_action c)) \<and>
    int (length (filter ca_allowed (gd_log g))) \<le> max 0 budget"
proof -
  obtain as where g: "g = attempts budget as" using assms by (auto simp: grown_def attempts_def)
  note l = attempts_log [of budget as]
  have "ReadOnly (ca_action c)" if c: "c \<in> set (gd_log g)" "ca_allowed c" for c
  proof -
    obtain i where "i < length (gd_log g)" "c = gd_log g ! i" using c(1) by (metis in_set_conv_nth)
    then show ?thesis using l c(2) unfolding g by (simp add: decision_def)
  qed
  moreover have "int (length (filter ca_allowed (gd_log g))) \<le> max 0 budget"
    using l used_allowed [of budget as] unfolding g by simp
  ultimately show ?thesis by blast
qed

lemma Assess_validator:
  "fst (Assess digest env ids s prowler V v opt) = val_states V v (hypotheses ids (pruned env s) (withDefaults opt))"
  by (simp add: Assess_def Let_def conjunct1 [OF validated_run])

text \<open>C36: what a live assessment labels it checked, inside the guard. A finding labelled more than a pattern had every
  network hop of its path answered reachable and every assumed role, granted access and escalation answered active,
  and probed where it is conditioned; each of these calls stands on the guard's trail, allowed for that path; every
  allowed call of the whole assessment was read-only, and there are never more of them than the budget.
\<close>

theorem live_labels_were_checked:
  assumes "a \<in> set (as_paths (snd (Assess digest env ids s prowler (LiveValidate an now m) lv opt)))"
    and "lv_guard lv = NewGuard budget" "g = lv_guard (fst (Assess digest env ids s prowler (LiveValidate an now m) lv opt))"
  shows "(af_verification a = Pattern_match \<or> (\<forall>e \<in> set (af_edges a). edge_checked an g (join_with ''>'' (af_nodes a)) e)) \<and>
    (\<forall>c \<in> set (gd_log g). ca_allowed c \<longrightarrow> ReadOnly (ca_action c)) \<and>
    int (length (filter ca_allowed (gd_log g))) \<le> max 0 budget"
proof -
  let ?hyps = "hypotheses ids (pruned env s) (withDefaults opt)"
  have g: "g = lv_guard (val_states (LiveValidate an now m) lv ?hyps)" using assms(3) by (simp add: Assess_validator)
  have "grown (NewGuard budget) g" using live_states_grown [of lv an now m ?hyps] assms(2) g by simp
  moreover have "\<forall>e \<in> set (af_edges a). edge_checked an g (join_with ''>'' (af_nodes a)) e" if "af_verification a \<noteq> Pattern_match"
  proof -
    have "answered (LiveValidate an now m) lv ?hyps \<lparr>p_nodes = af_nodes a, p_edges = af_edges a\<rparr> (True, af_rung a, af_evidence a)"
      using reported_cases [OF assms(1)] that by blast
    from live_answer_checked [OF this] show ?thesis by (simp add: g pathKey_def)
  qed
  ultimately show ?thesis using grown_envelope by blast
qed

section \<open>The advised cut\<close>

text \<open>How often the accepted paths cross an edge, by its key.\<close>

definition crossings :: "attack_finding list \<Rightarrow> edge \<Rightarrow> nat" where
  "crossings as e = length (filter (\<lambda>e'. edgeKey e' = edgeKey e) (concat (map af_edges as)))"

lemma edge_counts: "foldl (\<lambda>u e. u(edgeKey e := Suc (u (edgeKey e)))) u es k = u k + length (filter (\<lambda>e. edgeKey e = k) es)"
  by (induction es arbitrary: u) auto

lemma validated_counts:
  "pr_edgeUse (validated s V v ps) k = length (filter (\<lambda>e. edgeKey e = k) (concat (map af_edges (pr_paths (validated s V v ps)))))"
proof (induction ps rule: rev_induct)
  case Nil
  then show ?case by (simp add: validated_def)
next
  case (snoc p ps)
  let ?g = "validated s V v ps"
  obtain w ok r ev where a: "V (pr_validator ?g) p = (w, ok, r, ev)" by (metis prod_cases4)
  have "validated s V v (ps @ [p]) = validate_one s V ?g p" by (simp add: validated_def)
  then show ?case using snoc a by (cases ok) (simp_all add: validate_one_def edge_counts)
qed

lemma best_cut_fold:
  "foldl (\<lambda>(best, bestN) e. if bestN < int (u (edgeKey e)) then (Some e, int (u (edgeKey e))) else (best, bestN)) (b, n) es = (b', n') \<Longrightarrow>
     n \<le> n' \<and> (\<forall>e \<in> set es. int (u (edgeKey e)) \<le> n') \<and>
     (b' = b \<and> n' = n \<or> (\<exists>e \<in> set es. b' = Some e \<and> n' = int (u (edgeKey e))))"
proof (induction es arbitrary: b n)
  case (Cons e es)
  show ?case
  proof (cases "n < int (u (edgeKey e))")
    case True
    then show ?thesis using Cons.IH [of "Some e" "int (u (edgeKey e))"] Cons.prems by auto
  next
    case False
    then show ?thesis using Cons.IH [of b n] Cons.prems by auto
  qed
qed simp

lemma best_cut_max:
  assumes "es \<noteq> []"
  shows "\<exists>e \<in> set es. best_cut u es = Some e \<and> (\<forall>e' \<in> set es. u (edgeKey e') \<le> u (edgeKey e))"
proof -
  obtain b' n' where f: "foldl (\<lambda>(best, bestN) e. if bestN < int (u (edgeKey e)) then (Some e, int (u (edgeKey e))) else (best, bestN)) (None, -1) es = (b', n')"
    by (rule prod.exhaust)
  note m = best_cut_fold [OF f]
  obtain e0 where "e0 \<in> set es" using assms by (cases es) auto
  then have "int (u (edgeKey e0)) \<le> n'" using m by blast
  then have "n' \<noteq> -1" by linarith
  then have "\<exists>e \<in> set es. b' = Some e \<and> n' = int (u (edgeKey e))" using m by simp
  then obtain e where e: "e \<in> set es" "b' = Some e" "n' = int (u (edgeKey e))" by blast
  then have "best_cut u es = Some e" using f by (simp add: best_cut_def)
  moreover have "u (edgeKey e') \<le> u (edgeKey e)" if "e' \<in> set es" for e' using m e(3) that by simp
  ultimately show ?thesis using e(1) by blast
qed

text \<open>
  The advice of every reported finding, exposures included, is to cut an edge of its own path that the accepted
  paths cross at least as often as any other edge of it.
\<close>

lemma advised_cut_breaks_most:
  assumes "a \<in> set (as_paths (snd (Assess digest env ids s prowler V v opt)))" "af_edges a \<noteq> []"
    and "as = pr_paths (validated (pruned env s) V v (hypotheses ids (pruned env s) (withDefaults opt)))"
  shows "\<exists>e \<in> set (af_edges a). af_remediation a = Cut_edge e \<and> (\<forall>e' \<in> set (af_edges a). crossings as e' \<le> crossings as e)"
proof -
  let ?u = "pr_edgeUse (validated (pruned env s) V v (hypotheses ids (pruned env s) (withDefaults opt)))"
  have u: "?u (edgeKey e) = crossings as e" for e by (simp add: validated_counts crossings_def assms(3))
  obtain b where "a = (case best_cut ?u (af_edges b) of None \<Rightarrow> b | Some e \<Rightarrow> b\<lparr>af_remediation := Cut_edge e\<rparr>)"
    using assms(1) by (auto simp: Assess_def Let_def annotateRemediation_def)
  moreover then have "af_edges a = af_edges b" by (simp split: option.splits)
  moreover note best_cut_max [OF assms(2), of ?u]
  ultimately show ?thesis unfolding u by auto
qed

section \<open>What the live validator does not look at\<close>

text \<open>Passing a role, triggers, secret reads and copies have no case: such hops are confirmed without a call.\<close>

lemma unlooked_hops:
  "list_all (\<lambda>e. e_kind e \<notin> {EdgeNetworkReach, EdgeAssumeRole, EdgeHasAccess, EdgePrivesc, EdgeRunsAs}) es \<Longrightarrow>
     live_edges an now m hyp r ev lv es = (lv, True, r, ev)"
  by (induction es) auto

section \<open>Samples\<close>

definition engine_ids :: "string list" where
  "engine_ids = [InternetID, ''vm'', ''role'', ''bucket'']"

definition no_options :: options where
  "no_options = \<lparr>op_maxHypotheses = 0, op_maxDepth = 0, op_vulns = []\<rparr>"

definition yes_analyzer :: analyzer where
  "yes_analyzer = \<lparr>an_reachable = (\<lambda>_ _. Some True), an_permActive = (\<lambda>_ _. Some True), an_probe = (\<lambda>_ _. Some True)\<rparr>"

definition fresh_live :: live where
  "fresh_live = \<lparr>lv_guard = NewGuard 10, lv_pending = []\<rparr>"

definition no_policies :: prune_env where
  "no_policies = \<lparr>pe_iam = sample_env, pe_trust = (\<lambda>_. None), pe_gcp = (\<lambda>_. None), pe_azure = (\<lambda>_. None), pe_rules = (\<lambda>_. None)\<rparr>"

definition sample_assessment :: "live \<times> assessment" where
  "sample_assessment =
     Assess (\<lambda>_. ''d'') no_policies engine_ids sample_snapshot [] (LiveValidate yes_analyzer 0 0) fresh_live no_options"

lemma sample_report:
  "map (\<lambda>a. (\<lparr>p_nodes = af_nodes a, p_edges = af_edges a\<rparr>, af_verification a)) (as_paths (snd sample_assessment)) =
     [(sample_path, Corroborated)]"
  by code_simp

lemma sample_finding:
  obtains a where "a \<in> set (as_paths (snd sample_assessment))" "\<lparr>p_nodes = af_nodes a, p_edges = af_edges a\<rparr> = sample_path"
    "af_verification a = Corroborated" "af_nodes a = p_nodes sample_path" "af_edges a = p_edges sample_path"
proof -
  obtain a where "as_paths (snd sample_assessment) = [a]" "(\<lparr>p_nodes = af_nodes a, p_edges = af_edges a\<rparr>, af_verification a) = (sample_path, Corroborated)"
    using sample_report by (auto simp: map_eq_Cons_conv)
  moreover then have "af_nodes a = p_nodes sample_path" "af_edges a = p_edges sample_path" by (metis Pair_inject path.select_convs)+
  ultimately show thesis using that by simp
qed

lemma sample_hypotheses: "hypotheses engine_ids (pruned no_policies sample_snapshot) (withDefaults no_options) = [sample_path]"
  by code_simp

lemma sample_nodes: "length (p_nodes sample_path) = 4"
  by (simp add: sample_path_def)

lemma sample_caps: "caps_hold engine_ids (pruned no_policies sample_snapshot) (withDefaults no_options)"
  by code_simp

lemma sample_plain: "plain_ids sample_snapshot"
  by code_simp

lemma sample_real: "real_path no_policies sample_snapshot no_options sample_path"
  by (rule hypotheses_real [of _ engine_ids]) (simp add: sample_hypotheses)

theorem reported_paths_are_real_witness:
  "real_path no_policies sample_snapshot no_options sample_path \<and>
   (\<exists>rung ev. answered (LiveValidate yes_analyzer 0 0) fresh_live [sample_path] sample_path (True, rung, ev))"
proof -
  obtain a where a: "a \<in> set (as_paths (snd sample_assessment))" "\<lparr>p_nodes = af_nodes a, p_edges = af_edges a\<rparr> = sample_path"
    "af_verification a = Corroborated" "af_nodes a = p_nodes sample_path" "af_edges a = p_edges sample_path" by (rule sample_finding)
  show ?thesis
    using reported_paths_are_real [OF a(1) [unfolded sample_assessment_def]] a(3)
    unfolding a(2) sample_hypotheses by auto
qed


theorem live_labels_were_checked_witness:
  "edge_checked yes_analyzer (lv_guard (fst sample_assessment)) (join_with ''>'' (p_nodes sample_path))
     (sample_edge ''role'' ''bucket'' EdgeHasAccess) \<and>
   int (length (filter ca_allowed (gd_log (lv_guard (fst sample_assessment))))) \<le> 10"
proof -
  obtain a where a: "a \<in> set (as_paths (snd sample_assessment))" "\<lparr>p_nodes = af_nodes a, p_edges = af_edges a\<rparr> = sample_path"
    "af_verification a = Corroborated" "af_nodes a = p_nodes sample_path" "af_edges a = p_edges sample_path" by (rule sample_finding)
  have "lv_guard fresh_live = NewGuard 10" by (simp add: fresh_live_def)
  from live_labels_were_checked [OF a(1) [unfolded sample_assessment_def] this refl]
  have l: "(af_verification a = Pattern_match \<or>
      (\<forall>e \<in> set (p_edges sample_path). edge_checked yes_analyzer (lv_guard (fst sample_assessment)) (join_with ''>'' (p_nodes sample_path)) e)) \<and>
      int (length (filter ca_allowed (gd_log (lv_guard (fst sample_assessment))))) \<le> max 0 10"
    unfolding sample_assessment_def [symmetric] a(4,5) by blast
  moreover have "sample_edge ''role'' ''bucket'' EdgeHasAccess \<in> set (p_edges sample_path)" by (simp add: sample_path_def)
  ultimately show ?thesis using a(3) by simp
qed

end
