(* ===== verification/Spec2Isabelle.thy ===== *)
theory Spec2Isabelle
  imports IamPrivesc CloudPrune Netguard ExecPolicy Hitl Breaker RateLimit Jobs FindingStore Waves
    CloudIngest IamBridge CloudHash Autonomy Gate Tracer DetectProps RetestProps Backport TwoFactorRace SsoSettings CloudEngineLive
begin

text \<open>
  A verification development for the decision cores of tsengine, a Go platform that scans the assets of small
  companies, lets agents act on what it finds, and keeps those agents inside guards. The sources are under src/;
  paths below are relative to it. What is modelled is the code that decides: who may do what in a cloud account,
  which attack paths are reported, which finding is the same as another, when a fix may be applied without a
  person, who may sign in. What the decisions rest on and the repository does not contain (cryptography, JSON,
  URL parsing, DNS, clocks, the token bucket of golang.org/x/time/rate) is an argument of the definitions.

  \<^bold>\<open>The parts and how they interact.\<close>

  \<^item> Cloud access. internal/cloudiam (Glob, IamPolicy, IamAuthorize, IamPrivesc), internal/gcpiam (GcpIam) and
    internal/azureiam (AzureIam) evaluate access; their escalation catalogues are IamPrivesc and Escalation. All
    three evaluators meet the locale \<open>access_evaluator\<close>, and all four catalogues \<open>escalation_catalogue\<close>.
  \<^item> The attack graph. internal/cloudgraph builds a snapshot from an inventory (CloudIngest), adds the edges of
    effective permissions with the evaluators above (IamBridge), prunes what policies and security groups
    definitively refuse (CloudPrune, over the addresses of NetAddr), hashes it (CloudHash) and enumerates paths
    (CloudGraph). internal/cloudengine investigates the pruned graph (CloudEngine, CloudEngineProps): it ranks and
    validates candidate paths, with live calls only through internal/cloudsafety (CloudSafety, CloudEngineLive).
  \<^item> Findings. internal/tracer and its hooks enrich what scanners report (Enrich, EnrichChain, EnrichFinal, Tracer);
    internal/findingstore keeps each finding through its lifecycle (FindingStore); internal/gate turns findings into
    a verdict for continuous integration (Gate); internal/detect turns them into incidents, pages and resolves
    (Coverage, Detect, DetectFacts, DetectProps).
  \<^item> Remediation. An action waits at the desk of internal/hitl (Hitl) over a store of actions (ActionStore) and is
    recorded in the ledger of pkg/ledger (Ledger); internal/fieldevidence counts what happened to shipped fixes
    (FieldEvidence), and internal/autonomy lets a kind of fix skip the desk once it has earned that (Autonomy,
    as the desk's hook); internal/retest says whether a fix holds (Retest, RetestProps), inside a pass of the
    detector; internal/backport carries a fix to other versions of a file (Backport).
  \<^item> Guards of agents and of the platform. internal/breaker (Breaker), internal/execpolicy (ExecPolicy),
    internal/netguard (Netguard, over NetAddr), internal/ratelimit (RateLimit), internal/jobs (Jobs), the waves of
    internal/orchestrator/deps.go (Waves).
  \<^item> Sign-in. internal/totp (Totp) is the second factor; internal/platformapi/twofactor.go with auth.go handles it
    (TwoFactor, TwoFactorProps), once more step by step under concurrent requests (TwoFactorRace);
    internal/oidc checks tokens of a workspace's identity provider (Oidc), and sso.go opens a session on them (Sso)
    for the provider its owner saved (SsoSettings).

  \<^bold>\<open>How the code is rendered.\<close> A struct is a record, an enumeration a datatype, a Go function a definition of the
  same name (with the package's prefix where two packages share one: \<open>gcp_Authorize\<close>, \<open>az_Authorize\<close>). Strings are
  byte lists. A Go map is a function to options, or an association list where its order can be observed: a range
  over a map is then a list in any order, or an argument that gives the order, and the properties hold for all of
  them. An error is a constructor of an answer or the left of a sum. A write to a store that may fail is decided
  by an argument, so the properties hold whichever writes fail. Machine words are words of their width (Totp);
  other counters are integers, far from their bounds. A lock section is one step.

  \<^bold>\<open>The groups of lemmas.\<close> Each component theory ends with what makes the component correct: exact
  characterizations of decisions on every branch (Authorize, Gate, Autonomy, the detector's pass, sign-in), safety
  over all runs (the desk, the doors, the ledger, the tracer), refinement of a simpler specification (the breaker
  against a watch over all events, an incident against a counter of absences), equivalence of an optimized loop with
  a reference (globs, one-time codes), round trips (inventory export, derived hunks),
  termination (job shutdown, text loops) and bounds (guesses, pages, live calls). Interfaces are locales,
  interpreted on the model itself: \<open>machine\<close> (Prelude) for runs that keep an invariant, \<open>action_store\<close>,
  \<open>incident_store\<close>, \<open>per_finding_hook\<close>, and the two of cloud access. A text block numbered C1, C2 and so on
  precedes each main property.

  \<^bold>\<open>Bounds and fuel.\<close> \<open>FindPaths\<close> recurses on the depth it is asked for (8 by default), as the code does, and its
  cap is a number of paths; completeness is stated below the cap. The propagation of data classifications makes one
  pass more than there are copies, and is proved to reach the closure. The waves of a batch recurse with a stack of
  the tools under way, which only grows. The scan of \<open>allIndexes\<close> is a partial function with an advancing
  position, proved total. A sign-in in TwoFactorRace is five steps long. Nothing else needs fuel.

  \<^bold>\<open>Not modelled.\<close> HTTP routing and rendering, SQL stores and the other collections of the in-memory store, the
  loops of the language-model agents (only the guards they pass are), wrappers and parsers of external scanners,
  connectors and notifications, reports, compliance prose and embedded corpora: I/O, rendering and data. JSON bodies
  arrive decoded. Sharing of Go maps between values is modelled where the code relies on it (the compliance cells
  of the tracer) and not in the desk, where a payload is a value. Rates and scores are exact rationals where the code
  has floating-point numbers. Texts made for people are left out or represented by what they are formatted from.
\<close>

end
